(* ===== verification/Vino_Prelude.thy ===== *)
theory Vino_Prelude
  imports Main "HOL-Library.Word"
begin

unbundle bit_operations_syntax

text \<open>
  Shared vocabulary of the development: the machine types of the driver (\<open>u8\<close> \<dots> \<open>u64\<close> as words,
  byte buffers as lists), the error codes and the result type, little- and big-endian byte
  conversions, reads and writes of a sub-range of a buffer, splitting into chunks, and the lemmas
  on them that the component theories use through the \<open>bytes\<close> and \<open>layout\<close> collections.

  \<open>usize\<close> quantities are \<open>nat\<close>: they are buffer lengths and offsets. Allocation (\<open>KVec\<close>,
  \<open>GFP_KERNEL\<close>) is taken to succeed; the \<open>?\<close> after an allocating call is therefore not a branch.
\<close>

named_theorems bytes \<open>conversions between words and byte lists\<close>
named_theorems layout \<open>reads of sub-ranges of a buffer after writes to it\<close>

type_synonym byte = "8 word"
type_synonym u16 = "16 word"
type_synonym u32 = "32 word"
type_synonym u64 = "64 word"
type_synonym bytes = "byte list"

text \<open>
  \<open>[u8; 16]\<close> and \<open>[u8; 32]\<close> as results of the cryptographic primitives: the array type fixes the
  length, and so does a 128-bit or 256-bit word.
\<close>

type_synonym block = "128 word"
type_synonym digest = "256 word"

text \<open>\<open>Panic\<close> is a Rust panic: an out-of-range index or a checked arithmetic overflow.\<close>

datatype vino_error = EINVAL | EOVERFLOW | EPROTO | EOPNOTSUPP | EFAULT | ENODEV | Panic

type_synonym 'a result = "vino_error + 'a"

abbreviation Ok :: "'a \<Rightarrow> 'a result" where
  "Ok \<equiv> Inr"

abbreviation Err :: "vino_error \<Rightarrow> 'a result" where
  "Err \<equiv> Inl"

definition bind :: "'a result \<Rightarrow> ('a \<Rightarrow> 'b result) \<Rightarrow> 'b result" where
  "bind m f = (case m of Inl e \<Rightarrow> Inl e | Inr a \<Rightarrow> f a)"

lemma bind_simps [simp]: "bind (Inl e) f = Inl e" "bind (Inr a) f = f a"
  by (simp_all add: bind_def)

lemma bind_Ok_iff: "bind m f = Inr b \<longleftrightarrow> (\<exists>a. m = Inr a \<and> f a = Inr b)"
  by (cases m) auto

text \<open>A loop that pushes \<open>f(x)?\<close> for every element, left by the first error.\<close>

fun traverse :: "('a \<Rightarrow> 'b result) \<Rightarrow> 'a list \<Rightarrow> 'b list result" where
  "traverse f [] = Ok []"
| "traverse f (x # xs) = bind (f x) (\<lambda>y. bind (traverse f xs) (\<lambda>ys. Ok (y # ys)))"

lemma traverse_Ok_iff: "traverse f xs = Ok ys \<longleftrightarrow> list_all2 (\<lambda>x y. f x = Ok y) xs ys"
  by (induction xs arbitrary: ys) (auto simp: bind_Ok_iff list_all2_Cons1)

lemma traverse_total: "(\<And>x. x \<in> set xs \<Longrightarrow> \<exists>y. f x = Ok y) \<Longrightarrow> \<exists>ys. traverse f xs = Ok ys"
  by (induction xs) fastforce+

section \<open>Endian conversions\<close>

definition le16 :: "u16 \<Rightarrow> bytes" where
  "le16 w = [ucast w, ucast (drop_bit 8 w)]"

definition le32 :: "u32 \<Rightarrow> bytes" where
  "le32 w = [ucast w, ucast (drop_bit 8 w), ucast (drop_bit 16 w), ucast (drop_bit 24 w)]"

definition be32 :: "u32 \<Rightarrow> bytes" where
  "be32 w = rev (le32 w)"

definition be64 :: "u64 \<Rightarrow> bytes" where
  "be64 w = map (\<lambda>i. ucast (drop_bit (8 * i) w)) (rev [0..<8])"

definition from_le16 :: "byte \<Rightarrow> byte \<Rightarrow> u16" where
  "from_le16 a b = ucast a OR push_bit 8 (ucast b)"

definition from_le32 :: "byte \<Rightarrow> byte \<Rightarrow> byte \<Rightarrow> byte \<Rightarrow> u32" where
  "from_le32 a b c d =
     ucast a OR push_bit 8 (ucast b) OR push_bit 16 (ucast c) OR push_bit 24 (ucast d)"

definition block_bytes :: "block \<Rightarrow> bytes" where
  "block_bytes w = map (\<lambda>i. ucast (drop_bit (8 * i) w)) [0..<16]"

definition digest_bytes :: "digest \<Rightarrow> bytes" where
  "digest_bytes w = map (\<lambda>i. ucast (drop_bit (8 * i) w)) [0..<32]"

lemma length_conversions [simp, bytes]:
  "length (le16 w) = 2" "length (le32 v) = 4" "length (be32 v) = 4" "length (be64 x) = 8"
  "length (block_bytes b) = 16" "length (digest_bytes d) = 32"
  by (simp_all add: le16_def le32_def be32_def be64_def block_bytes_def digest_bytes_def)

lemma from_le16_le16 [simp, bytes]: "from_le16 (ucast w) (ucast (drop_bit 8 w)) = w"
  unfolding from_le16_def
  by (rule bit_word_eqI) (auto simp: bit_simps)

lemma le16_from_le16 [simp, bytes]: "le16 (from_le16 a b) = [a, b]"
  unfolding le16_def from_le16_def
  using bit_imp_le_length [of a]
  by (auto intro!: bit_word_eqI simp: bit_simps) fastforce+

lemma from_le32_le32 [simp, bytes]:
  "from_le32 (ucast w) (ucast (drop_bit 8 w)) (ucast (drop_bit 16 w)) (ucast (drop_bit 24 w)) = w"
proof (rule bit_word_eqI)
  fix n assume "n < LENGTH(32)"
  then consider "n < 8" | "8 \<le> n" "n < 16" | "16 \<le> n" "n < 24" | "24 \<le> n" "n < 32"
    by fastforce
  then show "bit (from_le32 (ucast w) (ucast (drop_bit 8 w)) (ucast (drop_bit 16 w))
      (ucast (drop_bit 24 w))) n = bit w n"
    by cases (auto simp: from_le32_def bit_simps)
qed

lemma le32_from_le32 [simp, bytes]: "le32 (from_le32 a b c d) = [a, b, c, d]"
proof -
  have high: "\<not> bit (x :: byte) n" if "8 \<le> n" for x n
    using that bit_imp_le_length [of x n] by auto
  show ?thesis
    unfolding le32_def from_le32_def
    by (simp, intro conjI; rule bit_word_eqI) (simp_all add: bit_simps high)
qed

lemma le16_inj [simp]: "le16 v = le16 w \<longleftrightarrow> v = w"
proof
  assume "le16 v = le16 w"
  then have "from_le16 (ucast v) (ucast (drop_bit 8 v)) = from_le16 (ucast w) (ucast (drop_bit 8 w))"
    by (simp add: le16_def)
  then show "v = w" by simp
qed simp

lemma le32_inj [simp]: "le32 v = le32 w \<longleftrightarrow> v = w"
proof
  assume "le32 v = le32 w"
  then have "from_le32 (ucast v) (ucast (drop_bit 8 v)) (ucast (drop_bit 16 v)) (ucast (drop_bit 24 v))
    = from_le32 (ucast w) (ucast (drop_bit 8 w)) (ucast (drop_bit 16 w)) (ucast (drop_bit 24 w))"
    by (simp add: le32_def)
  then show "v = w" by simp
qed simp

lemma unat_u16_lt: "unat (w :: u16) < 65536"
  using unsigned_less [of w] by simp

lemma unat_byte_lt: "unat (w :: byte) < 256"
  using unsigned_less [of w] by simp

lemma unat_u32_lt: "unat (w :: u32) < 4294967296"
  using unsigned_less [of w] by simp

section \<open>Sub-ranges of a buffer\<close>

text \<open>
  \<open>put i v b\<close> is \<open>b[i..i + v.len()].copy_from_slice(v)\<close> and \<open>get i n b\<close> is \<open>b[i..i + n]\<close>; the
  indexed forms are single-byte accesses. Every use in the driver is in range, which the length
  premises of the lemmas below record.
\<close>

definition put :: "nat \<Rightarrow> 'a list \<Rightarrow> 'a list \<Rightarrow> 'a list" where
  "put i v b = take i b @ v @ drop (i + length v) b"

definition get :: "nat \<Rightarrow> nat \<Rightarrow> 'a list \<Rightarrow> 'a list" where
  "get i n b = take n (drop i b)"

definition rd16 :: "nat \<Rightarrow> bytes \<Rightarrow> u16" where
  "rd16 i b = from_le16 (b ! i) (b ! (i + 1))"

definition rd32 :: "nat \<Rightarrow> bytes \<Rightarrow> u32" where
  "rd32 i b = from_le32 (b ! i) (b ! (i + 1)) (b ! (i + 2)) (b ! (i + 3))"

lemma length_put [simp, layout]: "i + length v \<le> length b \<Longrightarrow> length (put i v b) = length b"
  by (simp add: put_def)

lemma length_get [simp, layout]: "i + n \<le> length b \<Longrightarrow> length (get i n b) = n"
  by (simp add: get_def)

lemma nth_put:
  assumes "i + length v \<le> length b" and "j < length b"
  shows "put i v b ! j = (if i \<le> j \<and> j < i + length v then v ! (j - i) else b ! j)"
  using assms by (auto simp: put_def nth_append)

lemma nth_put_same [simp, layout]:
  "i + length v \<le> length b \<Longrightarrow> i \<le> j \<Longrightarrow> j < i + length v \<Longrightarrow> put i v b ! j = v ! (j - i)"
  by (simp add: nth_put)

lemma nth_put_other [simp, layout]:
  "i + length v \<le> length b \<Longrightarrow> j < i \<or> i + length v \<le> j \<Longrightarrow> put i v b ! j = b ! j"
  by (auto simp: put_def nth_append)

lemma get_put_same [simp, layout]:
  "i + length v \<le> length b \<Longrightarrow> n = length v \<Longrightarrow> get i n (put i v b) = v"
  by (simp add: get_def put_def)

lemma get_put_other [simp, layout]:
  assumes "i + length v \<le> length b" and "j + n \<le> i \<or> i + length v \<le> j"
  shows "get j n (put i v b) = get j n b"
proof (rule nth_equalityI)
  show "length (get j n (put i v b)) = length (get j n b)"
    using assms(1) by (simp add: get_def)
  fix k assume "k < length (get j n (put i v b))"
  then have "k < n" "j + k < length b" using assms(1) by (auto simp: get_def)
  then show "get j n (put i v b) ! k = get j n b ! k"
    using assms by (auto simp: get_def)
qed

lemma get_get: "j + m \<le> n \<Longrightarrow> get j m (get i n b) = get (i + j) m b"
  by (simp add: get_def drop_take min_def add.commute)

lemma get_put_inside:
  "i \<le> j \<Longrightarrow> j + n \<le> i + length v \<Longrightarrow> i + length v \<le> length b \<Longrightarrow> get j n (put i v b) = get (j - i) n v"
  by (rule nth_equalityI) (auto simp: get_def nth_put)

lemma rd16_put_same [simp, layout]:
  "i + 2 \<le> length b \<Longrightarrow> rd16 i (put i (le16 w) b) = w"
  by (simp add: rd16_def nth_put) (simp add: le16_def)

lemma rd32_put_same [simp, layout]:
  "i + 4 \<le> length b \<Longrightarrow> rd32 i (put i (le32 w) b) = w"
  by (simp add: rd32_def nth_put) (simp add: le32_def)

lemma rd16_put_other [simp, layout]:
  "i + length v \<le> length b \<Longrightarrow> j + 2 \<le> i \<or> i + length v \<le> j \<Longrightarrow> rd16 j (put i v b) = rd16 j b"
  by (auto simp: rd16_def)

lemma rd32_put_other [simp, layout]:
  "i + length v \<le> length b \<Longrightarrow> j + 4 \<le> i \<or> i + length v \<le> j \<Longrightarrow> rd32 j (put i v b) = rd32 j b"
  by (auto simp: rd32_def)

lemma rd16_update_other [simp, layout]: "j < i \<or> i + 2 \<le> j \<Longrightarrow> rd16 i (b[j := v]) = rd16 i b"
  by (auto simp: rd16_def)

lemma rd32_update_other [simp, layout]: "j < i \<or> i + 4 \<le> j \<Longrightarrow> rd32 i (b[j := v]) = rd32 i b"
  by (auto simp: rd32_def)

lemma get_update_other [simp, layout]: "j < i \<or> i + n \<le> j \<Longrightarrow> get i n (b[j := v]) = get i n b"
  by (auto simp: get_def drop_update_swap)

lemma uint_of_int_byte: "0 \<le> x \<Longrightarrow> x < 256 \<Longrightarrow> uint (of_int x :: byte) = x"
  by (simp add: unsigned_of_int take_bit_int_eq_self)

lemma uint_of_int_u16: "0 \<le> x \<Longrightarrow> x < 65536 \<Longrightarrow> uint (of_int x :: u16) = x"
  by (simp add: unsigned_of_int take_bit_int_eq_self)

lemma rd16_append1 [simp, layout]: "i + 2 \<le> length xs \<Longrightarrow> rd16 i (xs @ ys) = rd16 i xs"
  by (simp add: rd16_def nth_append)

lemma rd32_append1 [simp, layout]: "i + 4 \<le> length xs \<Longrightarrow> rd32 i (xs @ ys) = rd32 i xs"
  by (simp add: rd32_def nth_append)

lemma rd16_append2 [simp, layout]: "length xs \<le> i \<Longrightarrow> rd16 i (xs @ ys) = rd16 (i - length xs) ys"
  by (simp add: rd16_def nth_append Suc_diff_le)

lemma rd32_append2 [simp, layout]: "length xs \<le> i \<Longrightarrow> rd32 i (xs @ ys) = rd32 (i - length xs) ys"
  by (simp add: rd32_def nth_append Suc_diff_le)

lemma rd_le [simp, bytes]:
  "rd16 0 (le16 w) = w" "rd16 0 (le16 w @ ys) = w" "rd32 0 (le32 v) = v" "rd32 0 (le32 v @ ys) = v"
  by (simp_all add: rd16_def rd32_def le16_def le32_def)

lemma get_rd16: "i + 2 \<le> length b \<Longrightarrow> get i 2 b = le16 (rd16 i b)"
  by (rule nth_equalityI) (auto simp: get_def rd16_def less_2_cases_iff)

lemma get_rd32: "i + 4 \<le> length b \<Longrightarrow> get i 4 b = le32 (rd32 i b)"
  by (rule nth_equalityI) (auto simp: get_def rd32_def numeral_eq_Suc less_Suc_eq)

lemma get_split: "get i (n + m) b = get i n b @ get (i + n) m b"
  by (simp add: get_def take_add add.commute [of n i])

lemma get_append1 [simp, layout]: "i + n \<le> length xs \<Longrightarrow> get i n (xs @ ys) = get i n xs"
  by (simp add: get_def)

lemma get_append2 [simp, layout]: "length xs \<le> i \<Longrightarrow> get i n (xs @ ys) = get (i - length xs) n ys"
  by (simp add: get_def)

lemma get_0_all [simp, layout]: "n = length xs \<Longrightarrow> get 0 n xs = xs"
  by (simp add: get_def)

lemma get_replicate [simp, layout]: "i + n \<le> m \<Longrightarrow> get i n (replicate m x) = replicate n x"
  by (simp add: get_def min_def)

text \<open>\<open>pad_to\<close>-style growth: zero bytes are pushed until the buffer has \<open>n\<close> of them.\<close>

definition pad_to :: "nat \<Rightarrow> bytes \<Rightarrow> bytes" where
  "pad_to n b = b @ replicate (n - length b) 0"

lemma length_pad_to [simp, layout]: "length (pad_to n b) = max n (length b)"
  by (simp add: pad_to_def)

section \<open>Rounding up\<close>

lemma div_ceil_bounds:
  fixes n k :: nat
  assumes "0 < k"
  shows "n \<le> k * ((n + (k - 1)) div k)" "k * ((n + (k - 1)) div k) < n + k"
proof -
  have "k * ((n + (k - 1)) div k) + (n + (k - 1)) mod k = n + (k - 1)" by simp
  moreover have "(n + (k - 1)) mod k < k" using assms by simp
  ultimately show "n \<le> k * ((n + (k - 1)) div k)" "k * ((n + (k - 1)) div k) < n + k"
    using assms by linarith+
qed

section \<open>Chunks\<close>

text \<open>\<open>slice.chunks(n)\<close>: consecutive pieces of \<open>n\<close> elements, the last one possibly shorter.\<close>

fun chunks :: "nat \<Rightarrow> 'a list \<Rightarrow> 'a list list" where
  "chunks n xs = (if n = 0 \<or> xs = [] then [] else take n xs # chunks n (drop n xs))"

declare chunks.simps [simp del]

lemma chunks_Nil [simp]: "chunks n [] = []"
  by (simp add: chunks.simps)

lemma chunks_step: "0 < n \<Longrightarrow> xs \<noteq> [] \<Longrightarrow> chunks n xs = take n xs # chunks n (drop n xs)"
  by (simp add: chunks.simps [of n xs])

lemma concat_chunks [simp]: "0 < n \<Longrightarrow> concat (chunks n xs) = xs"
proof (induction n xs rule: chunks.induct)
  case (1 n xs)
  then show ?case by (cases "xs = []") (simp_all add: chunks_step)
qed

lemma chunks_length: "0 < n \<Longrightarrow> length (chunks n xs) = (length xs + n - 1) div n"
proof (induction n xs rule: chunks.induct)
  case (1 n xs)
  show ?case
  proof (cases "xs = []")
    case False
    with 1 have "length (chunks n xs) = Suc ((length xs - n + n - 1) div n)"
      by (simp add: chunks_step)
    also have "length xs - n + n - 1 = (if n \<le> length xs then length xs - 1 else n - 1)"
      using "1.prems" by simp
    also have "Suc (\<dots> div n) = (length xs + n - 1) div n"
    proof -
      have "n \<le> length xs + n - 1" using False by (cases xs) auto
      moreover have "length xs + n - 1 - n = length xs - 1" by simp
      ultimately have "(length xs + n - 1) div n = Suc ((length xs - 1) div n)"
        using le_div_geq [OF "1.prems", of "length xs + n - 1"] by presburger
      moreover have "\<not> n \<le> length xs \<Longrightarrow> (length xs - 1) div n = (n - 1) div n"
        using "1.prems" by simp
      ultimately show ?thesis by simp
    qed
    finally show ?thesis .
  qed (use "1.prems" in simp)
qed

lemma chunks_elem_length: "c \<in> set (chunks n xs) \<Longrightarrow> 0 < length c \<and> length c \<le> n"
proof (induction n xs rule: chunks.induct)
  case (1 n xs)
  then have n: "n \<noteq> 0" "xs \<noteq> []" by (auto simp: chunks.simps [of n xs] split: if_splits)
  with "1.prems" have "c = take n xs \<or> c \<in> set (chunks n (drop n xs))"
    by (simp add: chunks_step)
  with n "1.IH" show ?case by auto
qed

end
