(* ===== verification/Wire_Frame.thy ===== *)
theory Wire_Frame
  imports Vino_Prelude
begin

text \<open>
  The sixteen-byte record header every message begins with, in its three implementations: the
  appending framer and the session-init messages of \<open>chimera/vino/proto.rs\<close>, the in-place header
  writer \<open>record_header\<close> of \<open>chimera/vino/video/haar/records.rs\<close>, and the \<open>Frame\<close> builder and parser
  of \<open>vino-driver/src/frame.rs\<close>. The three are shown to write the same bytes, and the parser to
  invert them.
\<close>

section \<open>The frame of the user-space driver\<close>

record frame =
  msg_type :: u32
  sub_id :: u16
  sub_len_dw :: u16
  seq :: u32
  body :: bytes

definition frame_encode :: "frame \<Rightarrow> bytes" where
  "frame_encode f =
    (let total = 16 + length (body f);
         size_field = (of_nat (total - 4) :: u16)
     in [0, 0] @ le16 size_field @ le32 (msg_type f) @ le16 (sub_id f) @ le16 (sub_len_dw f) @
        le32 (seq f) @ body f)"

text \<open>\<open>size.checked_sub(12)?\<close> is the second early return.\<close>

definition frame_decode :: "bytes \<Rightarrow> frame option" where
  "frame_decode buf =
    (if length buf < 16 then None
     else let size = unat (rd16 2 buf) in
       if size < 12 then None
       else let body_len = size - 12 in
         if length buf < 16 + body_len then None
         else Some \<lparr>msg_type = rd32 4 buf, sub_id = rd16 8 buf, sub_len_dw = rd16 10 buf,
                    seq = rd32 12 buf, body = get 16 body_len buf\<rparr>)"

definition build_frame :: "u32 \<Rightarrow> u16 \<Rightarrow> u32 \<Rightarrow> bytes \<Rightarrow> frame" where
  "build_frame ty sub sq bd =
    \<lparr>msg_type = ty, sub_id = sub, sub_len_dw = of_nat (length bd div 4), seq = sq, body = bd\<rparr>"

section \<open>The framer and the session-init messages of the kernel driver\<close>

definition push_frame_with :: "bytes \<Rightarrow> u32 \<Rightarrow> u16 \<Rightarrow> u16 \<Rightarrow> u32 \<Rightarrow> bytes \<Rightarrow> bytes" where
  "push_frame_with out ty sub sub_len sq bd =
    (let size = (of_nat ((16 + length bd) - 4) :: u16)
     in out @ [0, 0] @ le16 size @ le32 ty @ le16 sub @ le16 sub_len @ le32 sq @ bd)"

definition INIT_25 :: bytes where
  "INIT_25 = [0x05, 0, 0x08, 0, 0, 0, 0, 0, 0, 0, 0, 0, 0, 0, 0, 0]"

definition INIT_4 :: bytes where
  "INIT_4 = [0x04, 0, 0, 0, 0, 0, 0, 0, 0, 0, 0, 0, 0, 0, 0, 0]"

definition PROBE_BODY :: bytes where
  "PROBE_BODY = ((replicate 32 0)[0 := 0x14])[2 := 0x90]"

definition init_0 :: bytes where
  "init_0 = push_frame_with [] 0x01 0x00 0 0 []"

definition init_25 :: bytes where
  "init_25 = push_frame_with [] 0x02 0x25 0 0 INIT_25"

definition init_4_probe :: bytes where
  "init_4_probe =
    (let buf = push_frame_with [] 0x02 0x04 0 0 INIT_4
     in push_frame_with buf 0x04 0x04 0x0a 0 PROBE_BODY)"

section \<open>The header of a record that is already allocated\<close>

text \<open>\<open>out\<close> is the whole record; its length fixes the size field.\<close>

definition record_header :: "bytes \<Rightarrow> u32 \<Rightarrow> u16 \<Rightarrow> u16 \<Rightarrow> u32 \<Rightarrow> bytes" where
  "record_header out kind sub aux sq =
    (let size = (of_nat (length out - 4) :: u16);
         out = put 0 [0, 0] out;
         out = put 2 (le16 size) out;
         out = put 4 (le32 kind) out;
         out = put 8 (le16 sub) out;
         out = put 10 (le16 aux) out
     in put 12 (le32 sq) out)"

section \<open>Lemmas\<close>

text \<open>One description of the header bytes, which the three writers share.\<close>

definition header_bytes :: "nat \<Rightarrow> u32 \<Rightarrow> u16 \<Rightarrow> u16 \<Rightarrow> u32 \<Rightarrow> bytes" where
  "header_bytes n ty sub aux sq =
    [0, 0] @ le16 (of_nat (n - 4)) @ le32 ty @ le16 sub @ le16 aux @ le32 sq"

lemma length_header_bytes [simp, layout]: "length (header_bytes n ty sub aux sq) = 16"
  by (simp add: header_bytes_def)

lemma header_bytes_fields [simp, layout]:
  "rd16 2 (header_bytes n ty sub aux sq) = of_nat (n - 4)"
  "rd32 4 (header_bytes n ty sub aux sq) = ty"
  "rd16 8 (header_bytes n ty sub aux sq) = sub"
  "rd16 10 (header_bytes n ty sub aux sq) = aux"
  "rd32 12 (header_bytes n ty sub aux sq) = sq"
  "get 0 2 (header_bytes n ty sub aux sq) = [0, 0]"
  by (simp_all add: header_bytes_def rd16_def rd32_def le16_def le32_def get_def)

lemma frame_encode_header:
  "frame_encode f =
    header_bytes (16 + length (body f)) (msg_type f) (sub_id f) (sub_len_dw f) (seq f) @ body f"
  by (simp add: frame_encode_def header_bytes_def Let_def)

lemma push_frame_with_header:
  "push_frame_with out ty sub aux sq bd =
    out @ header_bytes (16 + length bd) ty sub aux sq @ bd"
  by (simp add: push_frame_with_def header_bytes_def Let_def)

lemma length_push_frame_with [simp, layout]:
  "length (push_frame_with out ty sub aux sq bd) = length out + 16 + length bd"
  by (simp add: push_frame_with_header)

text \<open>Writing left to right over a buffer keeps it split at the write position.\<close>

lemma put_front: "put 0 v b = v @ drop (length v) b"
  by (simp add: put_def)

lemma put_at_end: "i = length xs \<Longrightarrow> put i v (xs @ ys) = (xs @ v) @ drop (length v) ys"
  by (simp add: put_def)

lemma record_header_bytes:
  assumes "16 \<le> length out"
  shows "record_header out kind sub aux sq =
    header_bytes (length out) kind sub aux sq @ drop 16 out"
  unfolding record_header_def Let_def put_front
  by (simp add: put_at_end header_bytes_def del: append_assoc append.simps)

lemma length_record_header [simp, layout]:
  "16 \<le> length out \<Longrightarrow> length (record_header out kind sub aux sq) = length out"
  by (simp add: record_header_bytes)

lemma record_header_drop [simp, layout]:
  "16 \<le> length out \<Longrightarrow> drop 16 (record_header out kind sub aux sq) = drop 16 out"
  by (simp add: record_header_bytes)

lemma unat_size_field [simp]: "n < 65536 \<Longrightarrow> unat (of_nat n :: u16) = n"
  by (simp add: unat_of_nat)

lemma frame_decode_header:
  assumes "length bd + 12 < 65536"
  shows "frame_decode (header_bytes (16 + length bd) ty sub aux sq @ bd @ rest) =
    Some \<lparr>msg_type = ty, sub_id = sub, sub_len_dw = aux, seq = sq, body = bd\<rparr>"
proof -
  have "unat (of_nat (12 + length bd) :: u16) = 12 + length bd"
    using assms by (intro unat_size_field) simp
  then show ?thesis
    by (simp add: frame_decode_def Let_def del: of_nat_add)
qed

lemma get_header_split:
  assumes "16 \<le> length buf"
  shows "take 16 buf = get 0 2 buf @ le16 (rd16 2 buf) @ le32 (rd32 4 buf) @ le16 (rd16 8 buf) @
    le16 (rd16 10 buf) @ le32 (rd32 12 buf)"
proof -
  have "take 16 buf = get 0 (2 + 2 + 4 + 2 + 2 + 4) buf" by (simp add: get_def)
  also have "\<dots> = get 0 2 buf @ get 2 2 buf @ get 4 4 buf @ get 8 2 buf @ get 10 2 buf @ get 12 4 buf"
    by (simp only: get_split append_assoc) (simp del: add_2_eq_Suc add_2_eq_Suc')
  finally show ?thesis
    using assms by (simp only: get_rd16 get_rd32)
qed

lemma length_init_bodies [simp]:
  "length INIT_25 = 16" "length INIT_4 = 16" "length PROBE_BODY = 32"
  by (simp_all add: INIT_25_def INIT_4_def PROBE_BODY_def)

lemma frame_decode_SomeD:
  assumes "frame_decode buf = Some f"
  shows "16 + length (body f) \<le> length buf" "length (body f) + 12 < 65536"
    "length (body f) = unat (rd16 2 buf) - 12" "12 \<le> unat (rd16 2 buf)"
  using assms unat_u16_lt [of "rd16 2 buf"]
  by (auto simp: frame_decode_def Let_def split: if_splits)

section \<open>Properties\<close>

text \<open>
  C35: A frame whose body fits the sixteen-bit size field is recovered exactly by the parser, with
  whatever follows it in the transfer ignored.
\<close>

theorem frame_roundtrip:
  assumes "length (body f) + 12 < 65536"
  shows "frame_decode (frame_encode f @ rest) = Some f"
  using frame_decode_header [OF assms] by (simp add: frame_encode_header)

theorem frame_roundtrip_witness:
  "frame_decode (frame_encode (build_frame 2 4 0 [4, 0, 0, 0]) @ [9, 9]) =
    Some (build_frame 2 4 0 [4, 0, 0, 0])"
  by (rule frame_roundtrip) (simp add: build_frame_def)

text \<open>
  The parser accepts nothing else: a buffer it accepts begins, after its two pad bytes, with the
  encoding of the frame it returns, and that frame is within the size field's range.
\<close>

lemma frame_decode_sound:
  assumes "frame_decode buf = Some f"
  shows "drop 2 (take (16 + length (body f)) buf) = drop 2 (frame_encode f) \<and>
    length (body f) + 12 < 65536"
proof -
  note len = frame_decode_SomeD [OF assms]
  have f: "f = \<lparr>msg_type = rd32 4 buf, sub_id = rd16 8 buf, sub_len_dw = rd16 10 buf,
      seq = rd32 12 buf, body = get 16 (length (body f)) buf\<rparr>"
    using assms len(3) by (auto simp: frame_decode_def Let_def split: if_splits)
  have size: "(of_nat (12 + length (body f)) :: u16) = rd16 2 buf"
    using len by simp
  have "take (16 + length (body f)) buf = take 16 buf @ get 16 (length (body f)) buf"
    by (simp add: get_def take_add)
  moreover have "frame_encode f =
    [0, 0] @ le16 (rd16 2 buf) @ le32 (rd32 4 buf) @ le16 (rd16 8 buf) @ le16 (rd16 10 buf) @
      le32 (rd32 12 buf) @ get 16 (length (body f)) buf"
    by (subst f) (use len size in \<open>simp add: frame_encode_header header_bytes_def\<close>)
  ultimately show ?thesis
    using len get_header_split [of buf] by simp
qed

text \<open>
  The kernel framer, the in-place header writer and the user-space encoder agree: a framed
  message, the same record written in place, and the encoded frame are the same bytes, and the
  init sequence parses back as its two messages in order.
\<close>

lemma framers_agree:
  "push_frame_with out ty sub aux sq bd =
     out @ frame_encode \<lparr>msg_type = ty, sub_id = sub, sub_len_dw = aux, seq = sq, body = bd\<rparr> \<and>
   record_header (replicate 16 x @ bd) ty sub aux sq = push_frame_with [] ty sub aux sq bd \<and>
   map_option (\<lambda>f. (msg_type f, body f)) (frame_decode init_4_probe) = Some (2, INIT_4) \<and>
   map_option (\<lambda>f. (msg_type f, body f)) (frame_decode (drop 32 init_4_probe)) =
     Some (4, PROBE_BODY)"
proof (intro conjI)
  let ?probe = "header_bytes (16 + length PROBE_BODY) 4 4 0x0a 0 @ PROBE_BODY @ []"
  have whole: "init_4_probe = header_bytes (16 + length INIT_4) 2 4 0 0 @ INIT_4 @ ?probe"
    by (simp add: init_4_probe_def push_frame_with_header)
  have rest: "drop 32 init_4_probe = ?probe" by (subst whole) simp
  show "map_option (\<lambda>f. (msg_type f, body f)) (frame_decode init_4_probe) = Some (2, INIT_4)"
    using frame_decode_header [of INIT_4 2 4 0 0 ?probe] by (simp only: whole) simp
  show "map_option (\<lambda>f. (msg_type f, body f)) (frame_decode (drop 32 init_4_probe)) =
      Some (4, PROBE_BODY)"
    using frame_decode_header [of PROBE_BODY 4 4 "0x0a" 0 "[]"] by (simp only: rest) simp
qed (simp_all add: push_frame_with_header frame_encode_header record_header_bytes)

end
