(* ===== verification/Crypto_Seal.thy ===== *)
theory Crypto_Seal
  imports Wire_Frame
begin

text \<open>
  The sealed control channel (\<open>chimera/vino/cp/mod.rs\<close>): key whitening, stream nonces, AES-CTR
  encryption under a 32-bit block counter, the Dl3Cmac tag, the two sealing entry points and the
  authenticated opener. AES-128 and AES-CMAC are library code and appear as the parameters
  \<open>aes key block\<close> and \<open>cmac key message\<close>; a \<open>[u8; 16]\<close> result is a 128-bit word, so every law below
  holds for every choice of the two functions.

  The locale \<open>sealed_channel\<close> is the contract the reply decoders rely on: a body opens to a
  plaintext exactly when it is the sealing of that plaintext.
\<close>

section \<open>Keys, nonces and the cipher\<close>

type_synonym aes_fn = "bytes \<Rightarrow> bytes \<Rightarrow> block"
type_synonym cmac_fn = "bytes \<Rightarrow> bytes \<Rightarrow> block"

definition CP_KEY_WHITEN :: bytes where
  "CP_KEY_WHITEN = [0x26, 0xab, 0xee, 0x38, 0x93, 0xd0, 0xc4, 0x32,
                    0x61, 0x43, 0xa4, 0xbf, 0x5b, 0x45, 0xd6, 0xec]"

definition cp_session_key :: "bytes \<Rightarrow> bytes" where
  "cp_session_key ske_ks = map2 (XOR) ske_ks CP_KEY_WHITEN"

definition stream_content_nonce :: "bytes \<Rightarrow> u16 \<Rightarrow> bytes" where
  "stream_content_nonce riv stream_id = riv[7 := riv ! 7 XOR ucast stream_id]"

text \<open>The counter block of the \<open>i\<close>-th chunk of a message that starts at block \<open>sq\<close>.\<close>

definition ctr_iv :: "bytes \<Rightarrow> u32 \<Rightarrow> nat \<Rightarrow> bytes" where
  "ctr_iv riv sq i = put 12 (be32 (sq + of_nat i)) (put 0 riv (replicate 16 0))"

fun ctr_chunks :: "aes_fn \<Rightarrow> bytes \<Rightarrow> bytes \<Rightarrow> u32 \<Rightarrow> nat \<Rightarrow> bytes list \<Rightarrow> bytes" where
  "ctr_chunks aes ks riv sq i [] = []"
| "ctr_chunks aes ks riv sq i (c # cs) =
     map2 (XOR) c (block_bytes (aes ks (ctr_iv riv sq i))) @ ctr_chunks aes ks riv sq (Suc i) cs"

definition ctr_xor :: "aes_fn \<Rightarrow> bytes \<Rightarrow> bytes \<Rightarrow> u32 \<Rightarrow> bytes \<Rightarrow> bytes" where
  "ctr_xor aes ks riv sq data = ctr_chunks aes ks riv sq 0 (chunks 16 data)"

definition dl3cmac_tag :: "cmac_fn \<Rightarrow> bytes \<Rightarrow> bytes \<Rightarrow> u64 \<Rightarrow> bytes \<Rightarrow> bytes" where
  "dl3cmac_tag cmac ks riv wire_seq ciphertext =
    (let mac_nonce = riv[0 := riv ! 0 XOR 0x80];
         buf = mac_nonce @ be64 wire_seq @ ciphertext
     in block_bytes (cmac ks buf))"

section \<open>Sealing\<close>

definition seal_livemac :: "aes_fn \<Rightarrow> cmac_fn \<Rightarrow> bytes \<Rightarrow> bytes \<Rightarrow> bytes \<Rightarrow> bytes \<Rightarrow> bytes" where
  "seal_livemac aes cmac ks riv header content_pt =
    (let sq = rd32 12 header;
         ct = ctr_xor aes ks riv sq content_pt;
         tag = dl3cmac_tag cmac ks riv (ucast sq) ct
     in take 16 header @ ct @ tag)"

definition aux_for_id :: "u16 \<Rightarrow> nat \<Rightarrow> u16" where
  "aux_for_id i body_len =
    (if i = 0x14 then 0x0a else if i = 0x15 then 0x09 else if i = 0x16 then 0x08
     else if i = 0x19 then 0x05 else if i = 0x1a then 0x04 else if i = 0x1b then 0x03
     else if i = 0x1c then 0x02 else if i = 0x1e then 0x00 else if i = 0x1f then 0x0f
     else if i = 0x22 then 0x0c else if i = 0x26 then 0x08 else if i = 0x2a then 0x04
     else if i = 0x32 then 0x0c else if i = 0x36 then 0x08 else if i = 0x48 then 0x06
     else if i = 0x9a then 0x04 else of_nat (body_len div 4))"

definition seal_interactive ::
  "aes_fn \<Rightarrow> cmac_fn \<Rightarrow> bytes \<Rightarrow> bytes \<Rightarrow> u16 \<Rightarrow> u32 \<Rightarrow> bytes \<Rightarrow> bytes" where
  "seal_interactive aes cmac ks riv i wire_seq content =
    (let body_len = length content + 16;
         size = (of_nat ((16 + body_len) - 4) :: u16);
         aux = aux_for_id i body_len;
         hdr = replicate 16 0;
         hdr = put 2 (le16 size) hdr;
         hdr = put 4 (le32 4) hdr;
         hdr = put 8 (le16 0x24) hdr;
         hdr = put 10 (le16 aux) hdr;
         hdr = put 12 (le32 wire_seq) hdr
     in seal_livemac aes cmac ks riv hdr content)"

definition seal_video_arm ::
  "aes_fn \<Rightarrow> cmac_fn \<Rightarrow> bytes \<Rightarrow> bytes \<Rightarrow> u16 \<Rightarrow> u16 \<Rightarrow> u32 \<Rightarrow> bytes \<Rightarrow> bytes" where
  "seal_video_arm aes cmac key riv sub aux sq content =
    (let body_len = length content + 16;
         size = (of_nat ((16 + body_len) - 4) :: u16);
         hdr = replicate 16 0;
         hdr = put 2 (le16 size) hdr;
         hdr = put 4 (le32 4) hdr;
         hdr = put 8 (le16 sub) hdr;
         hdr = put 10 (le16 aux) hdr;
         hdr = put 12 (le32 sq) hdr
     in seal_livemac aes cmac key riv hdr content)"

text \<open>The untagged form found in old captures; \<open>inner.get(..2)\<close> is absent below two bytes.\<close>

definition open_stream :: "aes_fn \<Rightarrow> bytes \<Rightarrow> bytes \<Rightarrow> u32 \<Rightarrow> bytes \<Rightarrow> bytes" where
  "open_stream aes ks riv sq ct = ctr_xor aes ks riv sq ct"

definition seal_stream :: "aes_fn \<Rightarrow> bytes \<Rightarrow> bytes \<Rightarrow> u16 \<Rightarrow> u32 \<Rightarrow> bytes \<Rightarrow> bytes" where
  "seal_stream aes key riv wsub sq inner =
    (let ciphertext = ctr_xor aes key riv sq inner;
         i = (if length inner < 2 then 0 else rd16 0 inner)
     in push_frame_with [] 4 wsub (aux_for_id i (length inner)) sq ciphertext)"

section \<open>Opening\<close>

definition in_riv :: "bytes \<Rightarrow> bytes" where
  "in_riv out_riv = out_riv[7 := out_riv ! 7 XOR 0x01]"

text \<open>The constant-time comparison: the differences of all byte pairs are accumulated.\<close>

fun tag_difference :: "byte \<Rightarrow> (byte \<times> byte) list \<Rightarrow> byte" where
  "tag_difference different [] = different"
| "tag_difference different ((actual, want) # ps) =
     tag_difference (different OR (actual XOR want)) ps"

definition open_in :: "aes_fn \<Rightarrow> cmac_fn \<Rightarrow> bytes \<Rightarrow> bytes \<Rightarrow> u32 \<Rightarrow> bytes \<Rightarrow> bytes result" where
  "open_in aes cmac ks riv sq bd =
    (if length bd < 16 then Err EINVAL
     else let ct = take (length bd - 16) bd;
              wire_tag = drop (length bd - 16) bd;
              expected = dl3cmac_tag cmac ks riv (ucast sq) ct
          in if tag_difference 0 (zip wire_tag expected) \<noteq> 0 then Err EINVAL
             else Ok (ctr_xor aes ks riv sq ct))"

section \<open>The contract of a sealed channel\<close>

text \<open>
  A decoder that tries several nonces in turn: the first one under which the body opens to a
  plaintext the decoder accepts. \<open>let Ok(plaintext) = open(\<dots>) else { continue }\<close>, a filter, and an
  early return are one iteration.
\<close>

fun first_open :: "(bytes \<Rightarrow> bytes \<Rightarrow> bytes result) \<Rightarrow> (bytes \<Rightarrow> 'a option) \<Rightarrow> bytes list \<Rightarrow> bytes \<Rightarrow>
    'a option" where
  "first_open op acc [] bd = None"
| "first_open op acc (riv # rivs) bd =
     (case op riv bd of
        Inl e \<Rightarrow> first_open op acc rivs bd
      | Inr pt \<Rightarrow> (case acc pt of Some x \<Rightarrow> Some x | None \<Rightarrow> first_open op acc rivs bd))"

locale sealed_channel =
  fixes seal :: "bytes \<Rightarrow> bytes \<Rightarrow> bytes"
    and op :: "bytes \<Rightarrow> bytes \<Rightarrow> bytes result"
  assumes open_iff: "op riv bd = Inr pt \<longleftrightarrow> bd = seal riv pt"
begin

lemma open_seal: "op riv (seal riv pt) = Inr pt"
  by (simp add: open_iff)

lemma seal_inject: "seal riv pt = seal riv pt' \<longleftrightarrow> pt = pt'"
  using open_iff [of riv "seal riv pt" pt'] open_seal [of riv pt] by auto

lemma first_open_sound:
  "first_open op acc rivs bd = Some x \<Longrightarrow>
    \<exists>riv \<in> set rivs. \<exists>pt. bd = seal riv pt \<and> acc pt = Some x"
proof (induction rivs)
  case (Cons riv rivs)
  show ?case
  proof (cases "op riv bd")
    case (Inr pt)
    then have "bd = seal riv pt" by (simp add: open_iff)
    with Cons Inr show ?thesis by (cases "acc pt") auto
  qed (use Cons in auto)
qed simp

lemma first_open_complete:
  "riv \<in> set rivs \<Longrightarrow> acc pt = Some x \<Longrightarrow> \<exists>y. first_open op acc rivs (seal riv pt) = Some y"
proof (induction rivs)
  case (Cons r rivs)
  show ?case
  proof (cases "op r (seal riv pt)")
    case (Inl e)
    then have "r \<noteq> riv" using open_seal [of riv pt] by auto
    with Cons Inl show ?thesis by simp
  next
    case (Inr pt')
    then show ?thesis
      using Cons open_seal [of riv pt] by (cases "acc pt'") auto
  qed
qed simp

text \<open>A body that is the sealing of no plaintext under any of the nonces is rejected.\<close>

lemma first_open_forged:
  assumes "\<And>riv pt. riv \<in> set rivs \<Longrightarrow> bd \<noteq> seal riv pt"
  shows "first_open op acc rivs bd = None"
proof (cases "first_open op acc rivs bd")
  case (Some x)
  from first_open_sound [OF this] assms show ?thesis by blast
qed

end

section \<open>Lemmas\<close>

lemma length_CP_KEY_WHITEN [simp]: "length CP_KEY_WHITEN = 16"
  by (simp add: CP_KEY_WHITEN_def)

lemma block_bytes_not_Nil [simp]: "block_bytes b \<noteq> []"
  by (metis length_conversions(5) list.size(3) zero_neq_numeral)

lemma map2_xor_cancel [simp]:
  "length xs \<le> length ks \<Longrightarrow> map2 (XOR) (map2 (XOR) xs ks) ks = (xs :: 'a::len word list)"
proof (induction xs arbitrary: ks)
  case (Cons x xs)
  then show ?case by (cases ks) (auto simp: ac_simps)
qed simp

lemma cp_session_key_involution:
  "length ks = 16 \<Longrightarrow> cp_session_key (cp_session_key ks) = ks"
  by (simp add: cp_session_key_def)

lemma length_ctr_chunks:
  "\<forall>c \<in> set cs. length c \<le> 16 \<Longrightarrow>
    length (ctr_chunks aes ks riv sq i cs) = length (concat cs)"
  by (induction cs arbitrary: i) auto

lemma length_ctr_xor [simp]: "length (ctr_xor aes ks riv sq d) = length d"
  unfolding ctr_xor_def
  by (subst length_ctr_chunks) (auto dest: chunks_elem_length simp: concat_chunks)

text \<open>Splitting the output of the cipher at the chunk boundary splits its input there.\<close>

lemma chunks_map2_append:
  assumes "c \<noteq> []" "length c \<le> n" "rest = [] \<or> length c = n"
  shows "chunks n (c @ rest) = c # chunks n rest"
proof -
  have "chunks n (c @ rest) = take n (c @ rest) # chunks n (drop n (c @ rest))"
    using assms by (intro chunks_step) (cases c; auto)+
  then show ?thesis using assms by auto
qed

lemma chunks_ctr:
  "chunks 16 (ctr_chunks aes ks riv sq i (chunks 16 d)) =
    map2 (\<lambda>c k. map2 (XOR) c (block_bytes (aes ks (ctr_iv riv sq k))))
      (chunks 16 d) [i..<i + length (chunks 16 d)]"
proof (induction "16 :: nat" d arbitrary: i rule: chunks.induct)
  case (1 xs)
  show ?case
  proof (cases "xs = []")
    case False
    let ?c = "map2 (XOR) (take 16 xs) (block_bytes (aes ks (ctr_iv riv sq i)))"
    let ?r = "ctr_chunks aes ks riv sq (Suc i) (chunks 16 (drop 16 xs))"
    have split: "chunks 16 xs = take 16 xs # chunks 16 (drop 16 xs)"
      using False by (simp add: chunks_step)
    have len: "length ?r = length (drop 16 xs)"
      by (subst length_ctr_chunks) (auto dest: chunks_elem_length simp: concat_chunks)
    have "length ?c = min 16 (length xs)" by simp
    then have "chunks 16 (?c @ ?r) = ?c # chunks 16 ?r"
      using False len by (intro chunks_map2_append) auto
    then show ?thesis
      using False 1 by (simp add: split upt_conv_Cons del: upt_Suc)
  qed simp
qed

lemma ctr_chunks_map2:
  assumes "\<forall>c \<in> set cs. length c \<le> 16"
  shows "ctr_chunks aes ks riv sq i
      (map2 (\<lambda>c k. map2 (XOR) c (block_bytes (aes ks (ctr_iv riv sq k)))) cs
        [i..<i + length cs]) = concat cs"
  using assms
proof (induction cs arbitrary: i)
  case (Cons c cs)
  then show ?case using Cons.IH [of "Suc i"] by (simp add: upt_conv_Cons del: upt_Suc)
qed simp

lemma ctr_xor_involution [simp]: "ctr_xor aes ks riv sq (ctr_xor aes ks riv sq d) = d"
  unfolding ctr_xor_def chunks_ctr
  by (subst ctr_chunks_map2) (auto dest: chunks_elem_length simp: concat_chunks)

lemma length_dl3cmac_tag [simp]: "length (dl3cmac_tag cmac ks riv sq ct) = 16"
  by (simp add: dl3cmac_tag_def Let_def)

lemma or_eq_0_iff: "(a :: 'a::len word) OR b = 0 \<longleftrightarrow> a = 0 \<and> b = 0"
  by (auto simp: bit_eq_iff bit_simps)

lemma xor_eq_0_iff: "(a :: 'a::len word) XOR b = 0 \<longleftrightarrow> a = b"
  by (auto simp: bit_eq_iff bit_simps)

lemma tag_difference_0:
  "length xs = length ys \<Longrightarrow> tag_difference d (zip xs ys) = 0 \<longleftrightarrow> d = 0 \<and> xs = ys"
proof (induction xs arbitrary: ys d)
  case (Cons x xs)
  then show ?case by (cases ys) (auto simp: or_eq_0_iff xor_eq_0_iff)
qed simp

text \<open>What a sealed frame carries after its header.\<close>

definition sealed_body :: "aes_fn \<Rightarrow> cmac_fn \<Rightarrow> bytes \<Rightarrow> u32 \<Rightarrow> bytes \<Rightarrow> bytes \<Rightarrow> bytes" where
  "sealed_body aes cmac ks sq riv pt =
    (let ct = ctr_xor aes ks riv sq pt in ct @ dl3cmac_tag cmac ks riv (ucast sq) ct)"

lemma length_sealed_body [simp]: "length (sealed_body aes cmac ks sq riv pt) = length pt + 16"
  by (simp add: sealed_body_def Let_def)

lemma open_in_iff_sealed_body:
  "open_in aes cmac ks riv sq bd = Inr pt \<longleftrightarrow> bd = sealed_body aes cmac ks sq riv pt"
proof
  assume op: "open_in aes cmac ks riv sq bd = Inr pt"
  let ?ct = "take (length bd - 16) bd"
  have "drop (length bd - 16) bd = dl3cmac_tag cmac ks riv (ucast sq) ?ct"
    and pt: "pt = ctr_xor aes ks riv sq ?ct"
    using op by (auto simp: open_in_def Let_def tag_difference_0 split: if_splits)
  then have "bd = ?ct @ dl3cmac_tag cmac ks riv (ucast sq) ?ct"
    by (metis append_take_drop_id)
  with pt show "bd = sealed_body aes cmac ks sq riv pt"
    by (simp add: sealed_body_def)
next
  assume "bd = sealed_body aes cmac ks sq riv pt"
  then show "open_in aes cmac ks riv sq bd = Inr pt"
    by (simp add: open_in_def sealed_body_def Let_def tag_difference_0)
qed

interpretation cp_channel:
  sealed_channel "sealed_body aes cmac ks sq" "\<lambda>riv. open_in aes cmac ks riv sq"
  for aes cmac ks sq
  by unfold_locales (rule open_in_iff_sealed_body)

lemma seal_livemac_body:
  "length hdr = 16 \<Longrightarrow>
    seal_livemac aes cmac ks riv hdr pt = hdr @ sealed_body aes cmac ks (rd32 12 hdr) riv pt"
  by (simp add: seal_livemac_def sealed_body_def Let_def)

lemma put_header_bytes:
  "put 12 (le32 sq) (put 10 (le16 aux) (put 8 (le16 sub) (put 4 (le32 ty)
     (put 2 (le16 (of_nat (n - 4))) (replicate 16 0))))) = header_bytes n ty sub aux sq"
proof -
  have "replicate 16 (0 :: byte) = [0, 0] @ replicate 14 0"
    by (simp add: numeral_eq_Suc)
  then show ?thesis
    by (simp add: put_at_end header_bytes_def drop_replicate del: append_assoc append.simps)
qed

lemma seal_video_arm_body:
  "seal_video_arm aes cmac ks riv sub aux sq pt =
    header_bytes (32 + length pt) 4 sub aux sq @ sealed_body aes cmac ks sq riv pt"
  using put_header_bytes [of sq aux sub 4 "32 + length pt"]
  by (simp add: seal_video_arm_def Let_def seal_livemac_body)

lemma seal_interactive_body:
  "seal_interactive aes cmac ks riv i sq pt =
    header_bytes (32 + length pt) 4 0x24 (aux_for_id i (length pt + 16)) sq @
      sealed_body aes cmac ks sq riv pt"
  using put_header_bytes [of sq "aux_for_id i (length pt + 16)" "0x24" 4 "32 + length pt"]
  by (simp add: seal_interactive_def Let_def seal_livemac_body)

lemma length_seal_interactive [simp]:
  "length (seal_interactive aes cmac ks riv i sq pt) = length pt + 32"
  by (simp add: seal_interactive_body)

lemma length_seal_video_arm [simp]:
  "length (seal_video_arm aes cmac ks riv sub aux sq pt) = length pt + 32"
  by (simp add: seal_video_arm_body)

lemma seal_video_arm_split:
  "drop 16 (seal_video_arm aes cmac ks riv sub aux sq pt) = sealed_body aes cmac ks sq riv pt"
  by (simp add: seal_video_arm_body)

lemma ctr_iv_bytes: "length riv = 8 \<Longrightarrow> ctr_iv riv sq i = riv @ replicate 4 0 @ be32 (sq + of_nat i)"
  by (simp add: ctr_iv_def put_def)

lemma be32_inject [simp]: "be32 v = be32 w \<longleftrightarrow> v = w"
  by (simp add: be32_def)

lemma of_nat_inject_bound:
  "i < 2 ^ 32 \<Longrightarrow> j < 2 ^ 32 \<Longrightarrow> (of_nat i :: u32) = of_nat j \<longleftrightarrow> i = j"
  by (auto dest!: arg_cong [where f = unat] simp: unat_of_nat)

lemma ctr_iv_inject:
  "length riv = 8 \<Longrightarrow> ctr_iv riv sq i = ctr_iv riv sq' j \<longleftrightarrow> sq + of_nat i = sq' + of_nat j"
  by (simp add: ctr_iv_bytes)

section \<open>Properties\<close>

text \<open>
  What the driver seals, the peer opens: a sealed interactive message parses as a type-4
  \<open>0x24\<close> frame carrying its block counter, and the body of that frame, opened at that counter, is the
  plaintext. This holds for every cipher and every MAC.
\<close>

lemma seal_open_roundtrip:
  assumes "length content + 28 < 65536"
  shows "\<exists>f. frame_decode (seal_interactive aes cmac ks riv i wire_seq content) = Some f \<and>
    msg_type f = 4 \<and> sub_id f = 0x24 \<and> seq f = wire_seq \<and>
    open_in aes cmac ks riv (seq f) (body f) = Ok content"
proof -
  let ?bd = "sealed_body aes cmac ks wire_seq riv content"
  have "frame_decode (seal_interactive aes cmac ks riv i wire_seq content) =
    Some \<lparr>msg_type = 4, sub_id = 0x24, sub_len_dw = aux_for_id i (length content + 16),
      seq = wire_seq, body = ?bd\<rparr>"
    using assms frame_decode_header [of ?bd 4 "0x24" _ wire_seq "[]"]
    by (simp add: seal_interactive_body add.commute)
  then show ?thesis by (simp add: cp_channel.open_seal)
qed

text \<open>
  C8: The opener accepts exactly what the sealer produces: a body opens to a plaintext if and only if
  it is the ciphertext and tag of that plaintext under the same key, nonce and counter. Every other
  body is refused with \<open>EINVAL\<close>.
\<close>

theorem open_in_exact:
  "(open_in aes cmac ks riv sq bd = Ok pt \<longleftrightarrow>
      bd = drop 16 (seal_video_arm aes cmac ks riv sub aux sq pt)) \<and>
   (open_in aes cmac ks riv sq bd = Err EINVAL \<or> (\<exists>pt. open_in aes cmac ks riv sq bd = Ok pt))"
proof
  show "open_in aes cmac ks riv sq bd = Ok pt \<longleftrightarrow>
      bd = drop 16 (seal_video_arm aes cmac ks riv sub aux sq pt)"
    by (simp add: open_in_iff_sealed_body seal_video_arm_split)
qed (auto simp: open_in_def Let_def)

text \<open>
  Within one message of at most $2^{32}$ blocks no counter block is used twice, so no two of its
  sixteen-byte chunks are masked with the same keystream block by construction.
\<close>

lemma ctr_blocks_distinct:
  assumes "length riv = 8" and "n \<le> 2 ^ 32"
  shows "distinct (map (ctr_iv riv sq) [0..<n])"
proof -
  have "inj_on (ctr_iv riv sq) {0..<n}"
  proof (rule inj_onI)
    fix i j assume "i \<in> {0..<n}" "j \<in> {0..<n}" "ctr_iv riv sq i = ctr_iv riv sq j"
    then have "(of_nat i :: u32) = of_nat j" "i < 2 ^ 32" "j < 2 ^ 32"
      using assms by (auto simp: ctr_iv_inject)
    then show "i = j" by (simp add: of_nat_inject_bound)
  qed
  then show ?thesis by (simp add: distinct_map)
qed

end
