(* ===== verification/Hdcp.thy ===== *)
theory Hdcp
  imports Crypto_Seal
begin

text \<open>
  HDCP 2.2: the key hierarchy and the verifiers of \<open>chimera/vino/hdcp.rs\<close> and the message builders
  and parser of \<open>chimera/vino/ake.rs\<close>. HMAC-SHA256 is the parameter \<open>hmac key message\<close>; the message
  identifiers are those of the kernel's \<open>drm_hdcp.h\<close>, which the source names by constant.
\<close>

type_synonym hmac_fn = "bytes \<Rightarrow> bytes \<Rightarrow> digest"

section \<open>Key derivation\<close>

text \<open>\<open>for i in 0..n { b[off + i] ^= v[i] }\<close>\<close>

definition xor_at :: "nat \<Rightarrow> bytes \<Rightarrow> bytes \<Rightarrow> bytes" where
  "xor_at off v b = put off (map2 (XOR) (get off (length v) b) v) b"

definition derive_dkey :: "aes_fn \<Rightarrow> bytes \<Rightarrow> bytes \<Rightarrow> bytes \<Rightarrow> bytes \<Rightarrow> byte \<Rightarrow> bytes" where
  "derive_dkey aes km rn rtx rrx n =
    (let iv = put 8 rrx (put 0 rtx (replicate 16 0));
         iv = iv[15 := iv ! 15 XOR n];
         key = xor_at 8 rn km
     in block_bytes (aes key iv))"

definition derive_kd :: "aes_fn \<Rightarrow> bytes \<Rightarrow> bytes \<Rightarrow> bytes \<Rightarrow> bytes" where
  "derive_kd aes km rtx rrx =
    (let rn = replicate 8 0;
         dkey0 = derive_dkey aes km rn rtx rrx 0;
         dkey1 = derive_dkey aes km rn rtx rrx 1
     in dkey0 @ dkey1)"

definition compute_h :: "hmac_fn \<Rightarrow> bytes \<Rightarrow> bytes \<Rightarrow> bool \<Rightarrow> bytes" where
  "compute_h hmac kd rtx repeater =
    (let msg = rtx[7 := rtx ! 7 XOR (if repeater then 1 else 0)] in digest_bytes (hmac kd msg))"

definition compute_l :: "hmac_fn \<Rightarrow> bytes \<Rightarrow> bytes \<Rightarrow> bytes \<Rightarrow> bytes" where
  "compute_l hmac kd rrx rn = digest_bytes (hmac (xor_at 24 rrx kd) rn)"

definition compute_v_full :: "hmac_fn \<Rightarrow> bytes \<Rightarrow> bytes \<Rightarrow> bytes" where
  "compute_v_full hmac kd list_header = digest_bytes (hmac kd list_header)"

definition compute_eks :: "aes_fn \<Rightarrow> bytes \<Rightarrow> bytes \<Rightarrow> bytes \<Rightarrow> bytes \<Rightarrow> bytes \<Rightarrow> bytes" where
  "compute_eks aes km rtx rrx rn ks =
    (let mask = xor_at 8 rrx (derive_dkey aes km rn rtx rrx 2) in map2 (XOR) ks mask)"

section \<open>Message identifiers\<close>

definition AKE_INIT :: byte where "AKE_INIT = 0x02"
definition AKE_SEND_CERT :: byte where "AKE_SEND_CERT = 0x03"
definition AKE_NO_STORED_KM :: byte where "AKE_NO_STORED_KM = 0x04"
definition AKE_SEND_RRX :: byte where "AKE_SEND_RRX = 0x06"
definition AKE_SEND_H_PRIME :: byte where "AKE_SEND_H_PRIME = 0x07"
definition LC_INIT :: byte where "LC_INIT = 0x09"
definition LC_SEND_L_PRIME :: byte where "LC_SEND_L_PRIME = 0x0a"
definition SKE_SEND_EKS :: byte where "SKE_SEND_EKS = 0x0b"
definition REPEATERAUTH_SEND_RECEIVERID_LIST :: byte where
  "REPEATERAUTH_SEND_RECEIVERID_LIST = 0x0c"
definition REPEATERAUTH_SEND_ACK :: byte where "REPEATERAUTH_SEND_ACK = 0x0f"
definition REPEATERAUTH_STREAM_MANAGE :: byte where "REPEATERAUTH_STREAM_MANAGE = 0x10"
definition REPEATERAUTH_STREAM_READY :: byte where "REPEATERAUTH_STREAM_READY = 0x11"
definition RECEIVER_AUTH_STATUS :: byte where "RECEIVER_AUTH_STATUS = 0x12"
definition AKE_TRANSMITTER_INFO :: byte where "AKE_TRANSMITTER_INFO = 0x13"

lemmas hdcp_ids = AKE_INIT_def AKE_SEND_CERT_def AKE_NO_STORED_KM_def AKE_SEND_RRX_def
  AKE_SEND_H_PRIME_def LC_INIT_def LC_SEND_L_PRIME_def SKE_SEND_EKS_def
  REPEATERAUTH_SEND_RECEIVERID_LIST_def REPEATERAUTH_SEND_ACK_def REPEATERAUTH_STREAM_MANAGE_def
  REPEATERAUTH_STREAM_READY_def RECEIVER_AUTH_STATUS_def AKE_TRANSMITTER_INFO_def

section \<open>Message builders\<close>

definition SUB_HDCP :: u16 where "SUB_HDCP = 0x04"

definition hdcp_body :: "nat \<Rightarrow> u16 \<Rightarrow> u32 \<Rightarrow> byte \<Rightarrow> bytes" where
  "hdcp_body body_len sub_size hdcp_seq msg_id =
    (let b = replicate body_len 0;
         b = put 0 (le16 sub_size) b;
         b = put 2 (le16 0x0010) b;
         b = put 4 (le32 hdcp_seq) b;
         b = put 22 (le32 0x30) b
     in b[27 := msg_id])"

definition hdcp_wrap :: "u16 \<Rightarrow> u32 \<Rightarrow> bytes \<Rightarrow> bytes" where
  "hdcp_wrap sub_len sq bd = push_frame_with [] 0x04 SUB_HDCP sub_len sq bd"

definition session_init_ack :: "u32 \<Rightarrow> u32 \<Rightarrow> bytes" where
  "session_init_ack hdcp_seq sq =
    (let b = replicate 32 0;
         b = put 0 (le16 0x0014) b;
         b = put 2 (le16 0x0076) b;
         b = put 4 (le32 hdcp_seq) b
     in hdcp_wrap 0x000a sq b)"

definition ake_init :: "u32 \<Rightarrow> u32 \<Rightarrow> bytes \<Rightarrow> bytes \<Rightarrow> bytes" where
  "ake_init hdcp_seq sq rtx tx_caps =
    (let b = hdcp_body 48 0x0022 hdcp_seq AKE_INIT;
         b = put 28 rtx b;
         b = put 36 tx_caps b
     in hdcp_wrap 0x000c sq b)"

definition ake_transmitter_info :: "u32 \<Rightarrow> u32 \<Rightarrow> bytes" where
  "ake_transmitter_info hdcp_seq sq =
    (let b = hdcp_body 48 0x001f hdcp_seq AKE_TRANSMITTER_INFO;
         b = put 28 [0x00, 0x06, 0x02, 0x00, 0x02] b
     in hdcp_wrap 0x000f sq b)"

definition ake_no_stored_km :: "u32 \<Rightarrow> u32 \<Rightarrow> bytes \<Rightarrow> bytes" where
  "ake_no_stored_km hdcp_seq sq ekpub_km =
    (let b = hdcp_body 160 0x009a hdcp_seq AKE_NO_STORED_KM;
         b = put 28 ekpub_km b
     in hdcp_wrap 0x0004 sq b)"

definition lc_init :: "u32 \<Rightarrow> u32 \<Rightarrow> bytes \<Rightarrow> bytes" where
  "lc_init hdcp_seq sq rn =
    (let b = hdcp_body 48 0x0022 hdcp_seq LC_INIT;
         b = put 28 rn b
     in hdcp_wrap 0x000c sq b)"

definition ske_send_eks :: "u32 \<Rightarrow> u32 \<Rightarrow> bytes \<Rightarrow> bytes \<Rightarrow> bytes" where
  "ske_send_eks hdcp_seq sq edkey_ks riv =
    (let b = hdcp_body 64 0x0032 hdcp_seq SKE_SEND_EKS;
         b = put 28 edkey_ks b;
         b = put 44 riv b
     in hdcp_wrap 0x000c sq b)"

definition repeater_auth_send_ack :: "u32 \<Rightarrow> u32 \<Rightarrow> bytes \<Rightarrow> bytes" where
  "repeater_auth_send_ack hdcp_seq sq v =
    (let b = hdcp_body 48 0x002a hdcp_seq REPEATERAUTH_SEND_ACK;
         b = put 28 v b
     in hdcp_wrap 0x0004 sq b)"

definition repeater_auth_stream_manage :: "u32 \<Rightarrow> u32 \<Rightarrow> bytes" where
  "repeater_auth_stream_manage hdcp_seq sq =
    (let b = hdcp_body 48 0x002d hdcp_seq REPEATERAUTH_STREAM_MANAGE;
         b = put 32 [0x02, 0, 0, 0] b;
         b = put 36 [0x04, 0, 0, 0] b;
         b = b[43 := 0x05]
     in hdcp_wrap 0x0001 sq b)"

definition parse_in :: "bytes \<Rightarrow> (byte \<times> bytes) option" where
  "parse_in bd = (if length bd < 10 then None else Some (bd ! 9, drop 10 bd))"

section \<open>Lemmas\<close>

lemma length_xor_at [simp]: "off + length v \<le> length b \<Longrightarrow> length (xor_at off v b) = length b"
  by (simp add: xor_at_def)

lemma length_derive_dkey [simp]: "length (derive_dkey aes km rn rtx rrx n) = 16"
  by (simp add: derive_dkey_def Let_def)

lemma length_derive_kd [simp]: "length (derive_kd aes km rtx rrx) = 32"
  by (simp add: derive_kd_def Let_def)

lemma length_compute [simp]:
  "length (compute_h hmac kd rtx rep) = 32" "length (compute_l hmac kd rrx rn) = 32"
  "length (compute_v_full hmac kd l) = 32"
  by (simp_all add: compute_h_def compute_l_def compute_v_full_def Let_def)

lemma length_hdcp_body [simp, layout]:
  "28 \<le> n \<Longrightarrow> length (hdcp_body n ss hs mid) = n"
  by (simp add: hdcp_body_def Let_def)

lemma nth_hdcp_body [simp, layout]: "28 \<le> n \<Longrightarrow> hdcp_body n ss hs mid ! 27 = mid"
  by (simp add: hdcp_body_def Let_def)

lemma nth_hdcp_body_zero: "28 \<le> n \<Longrightarrow> 28 \<le> i \<Longrightarrow> i < n \<Longrightarrow> hdcp_body n ss hs mid ! i = 0"
  by (simp add: hdcp_body_def Let_def)

lemma compute_eks_mask:
  "compute_eks aes km rtx rrx rn ks =
    map2 (XOR) ks (xor_at 8 rrx (derive_dkey aes km rn rtx rrx 2))"
  by (simp add: compute_eks_def Let_def)

section \<open>Properties\<close>

text \<open>
  Session-key exchange is invertible by a receiver that holds the master key: applying the same
  mask derivation to the delivered \<open>Edkey(ks)\<close> yields the session key, and the key actually used on the
  control channel is the whitening of it, which both sides compute. The \<open>SKE_Send_Eks\<close> message that
  carries the pair is an HDCP frame with the masked key at offset 28 and the nonce at offset 44 of
  its body.
\<close>

lemma session_key_delivery:
  assumes "length ks = 16" and "length rrx = 8" and "length riv = 8"
  shows "\<exists>f. frame_decode (ske_send_eks hdcp_seq sq (compute_eks aes km rtx rrx rn ks) riv) = Some f \<and>
    msg_type f = 4 \<and> sub_id f = SUB_HDCP \<and> body f ! 27 = SKE_SEND_EKS \<and> get 44 8 (body f) = riv \<and>
    compute_eks aes km rtx rrx rn (get 28 16 (body f)) = ks \<and>
    cp_session_key (cp_session_key ks) = ks"
proof -
  let ?e = "compute_eks aes km rtx rrx rn ks"
  let ?m = "xor_at 8 rrx (derive_dkey aes km rn rtx rrx 2)"
  let ?b = "put 44 riv (put 28 ?e (hdcp_body 64 0x0032 hdcp_seq SKE_SEND_EKS))"
  have m: "length ?m = 16" using assms by simp
  then have e: "length ?e = 16" and inv: "compute_eks aes km rtx rrx rn ?e = ks"
    using assms by (simp_all add: compute_eks_mask)
  have "frame_decode (ske_send_eks hdcp_seq sq ?e riv) =
      Some \<lparr>msg_type = 4, sub_id = SUB_HDCP, sub_len_dw = 0x000c, seq = sq, body = ?b\<rparr>"
    using frame_decode_header [of ?b 4 SUB_HDCP "0x000c" sq "[]"] e assms
    by (simp add: ske_send_eks_def hdcp_wrap_def push_frame_with_header Let_def)
  then show ?thesis
    using e inv assms by (simp add: cp_session_key_involution)
qed

end
