(* ===== verification/Control_Messages.thy ===== *)
theory Control_Messages
  imports Hdcp
begin

text \<open>
  The inner plaintexts of the encrypted control plane: every builder of \<open>chimera/vino/cp/mod.rs\<close>
  and \<open>chimera/vino/cp/cursor.rs\<close> but the clock message, which is in \<open>Rtc_Clock\<close>, the restatement records of the per-connector authentication, the
  fixed tables of the setup sequence, and the Navarro stream descriptors. Host-random tokens
  (\<open>rng::fill\<close>) are byte-list arguments. A builder whose only failure is allocation returns its
  message; the ones with an error of their own return a result.
\<close>

section \<open>The common header and the 32-byte messages\<close>

definition header :: "bytes \<Rightarrow> u16 \<Rightarrow> u16 \<Rightarrow> u16 \<Rightarrow> bytes" where
  "header out i sub counter = out @ le16 i @ le16 sub @ le16 counter @ [0, 0]"

definition heartbeat :: "u16 \<Rightarrow> bytes" where
  "heartbeat counter =
    (let b = header [] 0x16 0x75 counter;
         b = pad_to 22 b;
         b = b @ [0xe0, 0x2e]
     in pad_to 32 b)"

definition stream_marker :: "bytes \<Rightarrow> u16 \<Rightarrow> byte \<Rightarrow> u16 \<Rightarrow> byte \<Rightarrow> bytes" where
  "stream_marker token counter connector sub state =
    pad_to 22 (header [] 0x16 sub counter) @ [connector] @ [state] @ token"

definition stream_commit :: "bytes \<Rightarrow> u16 \<Rightarrow> byte \<Rightarrow> bytes" where
  "stream_commit token counter connector =
    pad_to 22 (header [] 0x16 0x4c counter) @ [if connector = 0 then 0 else 1] @ [0] @ token"

definition random_tail_msg :: "bytes \<Rightarrow> u16 \<Rightarrow> u16 \<Rightarrow> u16 \<Rightarrow> bytes" where
  "random_tail_msg tail i sub counter = pad_to 22 (header [] i sub counter) @ tail"

definition device_query_req :: "bytes \<Rightarrow> u16 \<Rightarrow> u16 \<Rightarrow> bytes" where
  "device_query_req tail counter sub = random_tail_msg tail 0x14 sub counter"

definition post_auth_state_req :: "bytes \<Rightarrow> u16 \<Rightarrow> bytes" where
  "post_auth_state_req tail counter = random_tail_msg tail 0x15 0x0078 counter"

definition session_hello :: "bytes \<Rightarrow> u16 \<Rightarrow> bytes" where
  "session_hello token counter =
    (let content = replicate 32 0;
         content = put 0 (le16 0x0014) content;
         content = put 4 (le16 counter) content
     in put 22 token content)"

section \<open>Cursor\<close>

definition MAX_CONNECTORS :: nat where "MAX_CONNECTORS = 4"

definition CURSOR_VISIBLE :: byte where "CURSOR_VISIBLE = 0x01"
definition CURSOR_HIDDEN :: byte where "CURSOR_HIDDEN = 0x00"

definition cursor_head_id :: "byte \<Rightarrow> byte result" where
  "cursor_head_id connector =
    (if MAX_CONNECTORS \<le> unat connector then Err EINVAL else Ok (push_bit (unat connector) 1))"

definition cursor_header :: "bytes \<Rightarrow> u16 \<Rightarrow> u16 \<Rightarrow> u16 \<Rightarrow> byte \<Rightarrow> byte \<Rightarrow> bytes" where
  "cursor_header b i sub counter dock_connector visible =
    pad_to 22 (header b i sub counter) @ [dock_connector] @ [visible]"

definition cursor_create :: "u16 \<Rightarrow> byte \<Rightarrow> u16 \<Rightarrow> u16 \<Rightarrow> bytes result" where
  "cursor_create counter connector w h =
    bind (cursor_head_id connector) (\<lambda>dock_connector.
      Ok (pad_to 32 (cursor_header [] 0x1b 0x42 counter dock_connector CURSOR_HIDDEN @
        le16 w @ le16 h)))"

definition cursor_move :: "u16 \<Rightarrow> byte \<Rightarrow> u16 \<Rightarrow> u16 \<Rightarrow> bool \<Rightarrow> bytes result" where
  "cursor_move counter connector x y visible =
    bind (cursor_head_id connector) (\<lambda>dock_connector.
      let visible_flag = (if visible then CURSOR_VISIBLE else CURSOR_HIDDEN) in
      Ok (pad_to 32 (cursor_header [] 0x1a 0x43 counter dock_connector visible_flag @
        le16 x @ le16 y)))"

text \<open>
  \<open>usize\<close> has 64 bits here, so \<open>w * h * 4\<close> never overflows and the checked product is exact. An empty
  bitmap passes the length check and then panics on \<open>bgra.len() - 2\<close>.
\<close>

definition cursor_image :: "u16 \<Rightarrow> byte \<Rightarrow> u16 \<Rightarrow> u16 \<Rightarrow> bytes \<Rightarrow> bytes result" where
  "cursor_image counter connector w h bgra =
    (if unat w * unat h * 4 \<noteq> length bgra then Err EINVAL
     else bind (cursor_head_id connector) (\<lambda>dock_connector.
       if length bgra < 2 then Err Panic
       else Ok (pad_to 32 (cursor_header [] 0x401c 0x41 counter dock_connector CURSOR_HIDDEN) @
         [0, 0] @ take (length bgra - 2) bgra)))"

section \<open>The per-connector setup tables and the restatement records\<close>

definition CP_SETUP_PER_HEAD :: "(u16 \<times> u16 \<times> nat) list" where
  "CP_SETUP_PER_HEAD =
    [(0x0022, 0x0010, 48), (0x001f, 0x0010, 48), (0x009a, 0x0010, 160), (0x0022, 0x0010, 48),
     (0x0032, 0x0010, 64), (0x002a, 0x0010, 48), (0x0026, 0x0010, 48), (0x0014, 0x0030, 32),
     (0x0019, 0x0031, 32)]"

definition CP_SETUP_FINALIZE_STEPS :: "(u16 \<times> u16) list" where
  "CP_SETUP_FINALIZE_STEPS = [(0x0016, 0x004c), (0x0015, 0x004a), (0x0016, 0x004c)]"

definition SELECTOR :: nat where "SELECTOR = 22"
definition HDCP_ID :: nat where "HDCP_ID = 27"
definition PAYLOAD :: nat where "PAYLOAD = 28"

definition message_end :: "nat \<Rightarrow> nat" where
  "message_end payload_len = PAYLOAD + payload_len"

text \<open>\<open>get_mut\<close> outside the buffer writes nothing, as \<open>xs[i := v]\<close> does.\<close>

definition connector_marker :: "bytes \<Rightarrow> byte \<Rightarrow> bool \<Rightarrow> bytes" where
  "connector_marker content connector onehot =
    (if onehot then content[SELECTOR + unat connector := 0x80]
     else content[SELECTOR + 1 := connector + 1])"

definition stream_manage_restatement :: "bytes \<Rightarrow> u16 \<Rightarrow> byte \<Rightarrow> u16 \<Rightarrow> bool \<Rightarrow> bytes" where
  "stream_manage_restatement past_message counter connector stream_id onehot =
    (let b = replicate 48 0;
         b = put 0 (le16 0x0026) b;
         b = put 2 (le16 0x0010) b;
         b = put 4 (le16 counter) b;
         b = connector_marker b connector onehot;
         b = b[HDCP_ID := REPEATERAUTH_STREAM_MANAGE];
         b = put (PAYLOAD + 4) (le32 1) b;
         b = put (PAYLOAD + 8) (le32 (ucast stream_id)) b
     in put (message_end 12) past_message b)"

section \<open>Video arm records\<close>

definition VIDEO_ARM_BURST :: "(u32 \<times> u16 \<times> u16 \<times> nat) list" where
  "VIDEO_ARM_BURST =
    [(2, 0x0008, 0x0000, 16), (2, 0x0018, 0x0000, 16), (4, 0x0008, 0x000a, 16),
     (4, 0x0018, 0x000a, 16), (2, 0x0000, 0x0000, 16), (2, 0x0010, 0x0000, 16),
     (4, 0x0000, 0x0004, 16), (4, 0x0010, 0x0004, 16), (4, 0x0008, 0x000e, 1104),
     (4, 0x0018, 0x000e, 1104)]"

definition video_arm_plaintext_body :: "nat \<Rightarrow> u16 \<Rightarrow> bytes" where
  "video_arm_plaintext_body i h =
    (let b = replicate 16 0 in
     if i = 0 then put 2 (le16 0x0006) (put 0 (le16 (0x0008 + h)) b)
     else if i = 1 then put 2 (le16 0x0016) (put 0 (le16 (0x0008 + h)) b)
     else if i = 4 then put 0 (le16 h) b
     else if i = 5 then put 2 (le16 0x0010) (put 0 (le16 h) b)
     else b)"

definition video_arm_plain_frame :: "u16 \<Rightarrow> bytes \<Rightarrow> bytes" where
  "video_arm_plain_frame sub bd = put 16 bd (record_header (replicate 32 0) 2 sub 0 0)"

definition stream_announce :: "u16 \<Rightarrow> u16 \<Rightarrow> bytes" where
  "stream_announce sub marker =
    (let bd = put 2 (le16 marker) (put 0 (le16 sub) (replicate 16 0))
     in video_arm_plain_frame sub bd)"

definition STREAM_ANNOUNCE_MARKER :: u16 where "STREAM_ANNOUNCE_MARKER = 6"

section \<open>Navarro stream records\<close>

definition NAVARRO_STREAM_MARKER :: bytes where
  "NAVARRO_STREAM_MARKER =
    [0x04, 0x00, 0x08, 0x04, 0x05, 0x00, 0x06, 0x00, 0x07, 0x01, 0x08, 0x02, 0x07, 0x00]"

definition navarro_stream_open :: "bytes \<Rightarrow> bytes" where
  "navarro_stream_open tail = put 14 tail (put 0 NAVARRO_STREAM_MARKER (replicate 16 0))"

definition stream_open :: "bytes \<Rightarrow> byte \<Rightarrow> bytes" where
  "stream_open token kind =
    put 6 token (put 0 [0x04, 0x00, 0x08, 0x04, kind, 0x00] (replicate 16 0))"

definition stream_report_mode_only :: "bytes \<Rightarrow> bytes \<Rightarrow> bytes" where
  "stream_report_mode_only token mode_header = put 26 token (put 0 mode_header (replicate 32 0))"

definition NAVARRO_SLOT_HEADER :: bytes where
  "NAVARRO_SLOT_HEADER =
    [0x00, 0x10, 0xb4, 0x00, 0x14, 0x00, 0x00, 0x40, 0x01, 0x00, 0x00, 0x00]"

definition NAVARRO_SLOT_TRAILER :: bytes where
  "NAVARRO_SLOT_TRAILER = [0x00, 0x00, 0x00, 0x00, 0x00, 0x50, 0x00, 0x80, 0x01, 0x09]"

definition NAVARRO_SLOTS_PER_CONNECTOR :: nat where "NAVARRO_SLOTS_PER_CONNECTOR = 6"
definition NAVARRO_SLOT_STRIDE :: u16 where "NAVARRO_SLOT_STRIDE = 8"
definition NAVARRO_RING_BASE :: u32 where "NAVARRO_RING_BASE = 0x6fcc"
definition NAVARRO_RING_STEP :: u32 where "NAVARRO_RING_STEP = 0x21c"
definition NAVARRO_CFB0_BASE :: u32 where "NAVARRO_CFB0_BASE = 0x71fb9000"
definition NAVARRO_CFB0_STEP :: u32 where "NAVARRO_CFB0_STEP = 0x5000"
definition NAVARRO_CFB1_BASE :: u32 where "NAVARRO_CFB1_BASE = 0x72166000"
definition NAVARRO_CFB1_STEP :: u32 where "NAVARRO_CFB1_STEP = 0x8000"

definition navarro_pipe_slot :: "byte \<Rightarrow> u16 \<Rightarrow> u16" where
  "navarro_pipe_slot connector index = ucast connector * NAVARRO_SLOT_STRIDE + index"

definition navarro_pipe_ring :: "byte \<Rightarrow> u16 \<Rightarrow> u32" where
  "navarro_pipe_ring connector index =
    NAVARRO_RING_BASE - ucast (navarro_pipe_slot connector index) * NAVARRO_RING_STEP"

definition NAVARRO_STREAM_REPORT :: "u16 list" where
  "NAVARRO_STREAM_REPORT =
    [0x0052, 0x000a, 1, 1, 0, 64, 64, 16,
     16, 16, 16, 16, 16, 16, 32, 32, 32, 1, 1, 1,
     16, 16, 4, 16, 16, 4, 32, 32, 8, 1, 1, 1,
     32, 32, 2, 32, 32, 2, 64, 64, 4, 0]"

fun report_words :: "nat \<Rightarrow> u16 list \<Rightarrow> bytes \<Rightarrow> bytes" where
  "report_words i [] out = out"
| "report_words i (v # vs) out = report_words (Suc i) vs (put (i * 2) (le16 v) out)"

definition navarro_stream_report_body :: "bytes \<Rightarrow> bytes" where
  "navarro_stream_report_body out = report_words 0 NAVARRO_STREAM_REPORT out"

definition navarro_stream_report :: "bytes \<Rightarrow> bytes" where
  "navarro_stream_report tail =
    (let bd = navarro_stream_report_body (replicate 84 0)
     in put 84 tail (put 0 bd (replicate 96 0)))"

definition navarro_stream_report_mode :: "bytes \<Rightarrow> bytes \<Rightarrow> bytes" where
  "navarro_stream_report_mode tail mode_header =
    (let out = put 0 mode_header (replicate 112 0);
         bd = navarro_stream_report_body (replicate 84 0);
         out = put 26 bd out
     in put 110 tail out)"

text \<open>One of the six records of a pipe descriptor.\<close>

definition navarro_slot_record :: "byte \<Rightarrow> nat \<Rightarrow> bytes" where
  "navarro_slot_record connector index =
    (let alloc = (ucast ((ucast connector :: u16) * of_nat NAVARRO_SLOTS_PER_CONNECTOR +
                   of_nat index) :: u32);
         cfb0 = NAVARRO_CFB0_BASE - alloc * NAVARRO_CFB0_STEP;
         cfb1 = NAVARRO_CFB1_BASE - alloc * NAVARRO_CFB1_STEP
     in le16 0x002c @ le16 0x000e @ le16 (navarro_pipe_slot connector (of_nat index)) @
        NAVARRO_SLOT_HEADER @ le32 (navarro_pipe_ring connector (of_nat index)) @ [0, 0] @
        le32 cfb0 @ [0, 0, 0, 0] @ le32 cfb1 @ NAVARRO_SLOT_TRAILER)"

definition navarro_pipe_descriptor :: "byte \<Rightarrow> bytes" where
  "navarro_pipe_descriptor connector =
    NAVARRO_STREAM_MARKER @ NAVARRO_STREAM_MARKER @
      concat (map (navarro_slot_record connector) [0..<NAVARRO_SLOTS_PER_CONNECTOR])"

section \<open>Lemmas\<close>

lemma length_header [simp, layout]: "length (header out i sub counter) = length out + 8"
  by (simp add: header_def)

lemma from_le16_0 [simp]: "from_le16 0 0 = 0"
  by (simp add: from_le16_def)

lemma header_fields [simp, layout]:
  "rd16 0 (header [] i sub counter) = i" "rd16 2 (header [] i sub counter) = sub"
  "rd16 4 (header [] i sub counter) = counter" "rd16 6 (header [] i sub counter) = 0"
  by (simp_all add: header_def rd16_def le16_def)

lemma pad_to_fields [simp, layout]:
  "i + 2 \<le> length b \<Longrightarrow> rd16 i (pad_to n b) = rd16 i b"
  "i < length b \<Longrightarrow> pad_to n b ! i = b ! i"
  "length b \<le> i \<Longrightarrow> i < n \<Longrightarrow> pad_to n b ! i = 0"
  by (simp_all add: pad_to_def nth_append)

lemma length_messages [simp, layout]:
  "length (heartbeat c) = 32"
  "length tk = 8 \<Longrightarrow> length (stream_marker tk c h sub st) = 32"
  "length tk = 8 \<Longrightarrow> length (stream_commit tk c h) = 32"
  "length tk = 10 \<Longrightarrow> length (random_tail_msg tk i sub c) = 32"
  "length tk = 10 \<Longrightarrow> length (session_hello tk c) = 32"
  by (simp_all add: heartbeat_def stream_marker_def stream_commit_def random_tail_msg_def
      session_hello_def Let_def)

lemma length_navarro [simp, layout]:
  "length NAVARRO_STREAM_MARKER = 14" "length NAVARRO_SLOT_HEADER = 12"
  "length NAVARRO_SLOT_TRAILER = 10" "length NAVARRO_STREAM_REPORT = 42"
  by (simp_all add: NAVARRO_STREAM_MARKER_def NAVARRO_SLOT_HEADER_def NAVARRO_SLOT_TRAILER_def
      NAVARRO_STREAM_REPORT_def)

lemma length_navarro_slot_record [simp, layout]: "length (navarro_slot_record c i) = 46"
  by (simp add: navarro_slot_record_def Let_def)

lemma length_concat_const: "\<forall>x \<in> set xs. length x = n \<Longrightarrow> length (concat xs) = n * length xs"
  by (induction xs) auto

lemma length_navarro_pipe_descriptor [simp, layout]: "length (navarro_pipe_descriptor c) = 304"
  by (simp add: navarro_pipe_descriptor_def NAVARRO_SLOTS_PER_CONNECTOR_def
      length_concat_const [of _ 46])

lemma report_words_append:
  "length out = i * 2 \<Longrightarrow> length rest = 2 * length vs \<Longrightarrow>
    report_words i vs (out @ rest) = out @ concat (map le16 vs)"
proof (induction vs arbitrary: i out rest)
  case (Cons v vs)
  have "put (i * 2) (le16 v) (out @ rest) = (out @ le16 v) @ drop 2 rest"
    using Cons.prems by (simp add: put_at_end)
  then show ?case
    using Cons.IH [of "out @ le16 v" "Suc i" "drop 2 rest"] Cons.prems by simp
qed simp

lemma navarro_stream_report_body_words:
  "navarro_stream_report_body (replicate 84 0) = concat (map le16 NAVARRO_STREAM_REPORT)"
  using report_words_append [of "[]" 0 "replicate 84 0" NAVARRO_STREAM_REPORT]
  by (simp add: navarro_stream_report_body_def)

end
