(* ===== verification/Rtc_Clock.thy ===== *)
theory Rtc_Clock
  imports Control_Messages
begin

text \<open>
  The real-time-clock message \<open>rtc_sync_req\<close> of \<open>chimera/vino/cp/mod.rs\<close>: a Unix time and a zone offset
  become a broken-down Gregorian date. The date is checked against an independent definition, the
  number of days before a year plus the day of the year.
\<close>

section \<open>The message\<close>

text \<open>
  \<open>i64\<close> quantities are integers; \<open>saturating_add\<close> clamps to the \<open>i64\<close> range. \<open>div_euclid\<close> by a positive
  constant is \<open>div\<close>. The plain \<open>/\<close> is applied to non-negative values only. \<open>civil_from_days\<close> is the
  calendar part of \<open>rtc_sync_req\<close>: year, month, day.
\<close>

definition i64_max :: int where "i64_max = 2 ^ 63 - 1"
definition i64_min :: int where "i64_min = - (2 ^ 63)"

definition sat_add64 :: "int \<Rightarrow> int \<Rightarrow> int" where
  "sat_add64 a b = max i64_min (min i64_max (a + b))"

definition civil_from_days :: "int \<Rightarrow> int \<times> int \<times> int" where
  "civil_from_days days =
    (let z = days + 719468;
         era = (if 0 \<le> z then z else z - 146096) div 146097;
         doe = z - era * 146097;
         yoe = (doe - doe div 1460 + doe div 36524 - doe div 146096) div 365;
         year = yoe + era * 400;
         doy_march = doe - (365 * yoe + yoe div 4 - yoe div 100);
         mp = (5 * doy_march + 2) div 153;
         day = doy_march - (153 * mp + 2) div 5 + 1;
         month = mp + (if mp < 10 then 3 else - 9);
         year = (if month \<le> 2 then year + 1 else year)
     in (year, month, day))"

definition month_starts :: "int list" where
  "month_starts = [0, 31, 59, 90, 120, 151, 181, 212, 243, 273, 304, 334]"

definition day_of_year :: "int \<Rightarrow> int \<Rightarrow> int \<Rightarrow> int" where
  "day_of_year year month day =
    (let leap = (year mod 4 = 0 \<and> (year mod 100 \<noteq> 0 \<or> year mod 400 = 0));
         yday = month_starts ! nat (month - 1) + day - 1
     in if leap \<and> 2 < month then yday + 1 else yday)"

definition rtc_sync_req :: "u16 \<Rightarrow> int \<Rightarrow> int \<Rightarrow> bytes result" where
  "rtc_sync_req counter unix_seconds utc_offset_minutes =
    (let local_s = sat_add64 unix_seconds (utc_offset_minutes * 60);
         days = local_s div 86400;
         second_of_day = local_s mod 86400;
         (year, month, day) = civil_from_days days
     in if \<not> (0 \<le> year \<and> year \<le> 65535) then Err EINVAL
        else
          let yday = day_of_year year month day;
              weekday = (days + 4) mod 7;
              b = pad_to 22 (header [] 0x001e 0x0094 counter) @ replicate 10 0;
              b = put 22 (le16 (of_int year)) b;
              b = b[24 := of_int month];
              b = b[25 := of_int day];
              b = b[26 := of_int (second_of_day div 3600)];
              b = b[27 := of_int ((second_of_day mod 3600) div 60)];
              b = b[28 := of_int (second_of_day mod 60)];
              b = b[29 := of_int weekday];
              b = put 30 (le16 (of_int yday)) b
          in Ok b)"


section \<open>The calendar it is checked against\<close>

definition is_leap :: "int \<Rightarrow> bool" where
  "is_leap y \<longleftrightarrow> y mod 4 = 0 \<and> (y mod 100 \<noteq> 0 \<or> y mod 400 = 0)"

text \<open>Days from 1 January of the year 0 to 1 January of year \<open>y\<close>, for \<open>y \<ge> 0\<close>.\<close>

definition days_before_year :: "int \<Rightarrow> int" where
  "days_before_year y = 365 * y + (y + 3) div 4 - (y + 99) div 100 + (y + 399) div 400"

definition month_length :: "int \<Rightarrow> int \<Rightarrow> int" where
  "month_length y m =
    (if m = 2 then (if is_leap y then 29 else 28)
     else if m \<in> {4, 6, 9, 11} then 30 else 31)"

lemma div_eqI: "0 < k \<Longrightarrow> k * q \<le> x \<Longrightarrow> x < k * (q + 1) \<Longrightarrow> x div k = (q :: int)"
  by (rule int_div_pos_eq [of x k q "x - k * q"]) (simp_all add: algebra_simps)

lemma div_bounds: "0 < k \<Longrightarrow> k * (x div k) \<le> x \<and> x < k * (x div k) + (k :: int)"
  using pos_mod_bound [of k x] pos_mod_sign [of k x] mult_div_mod_eq [of k x] by linarith

lemma ceil_div_step:
  assumes "0 < (k :: int)"
  shows "(y + k) div k = (y + (k - 1)) div k + (if y mod k = 0 then 1 else 0)"
proof -
  have "(y + (k - 1)) div k = y div k + (if y mod k = 0 then 0 else 1)"
  proof (rule div_eqI [OF assms])
    have "y mod k = 0 \<longleftrightarrow> y = k * (y div k)"
      using mult_div_mod_eq [of k y] by linarith
    then show "k * (y div k + (if y mod k = 0 then 0 else 1)) \<le> y + (k - 1)"
      and "y + (k - 1) < k * (y div k + (if y mod k = 0 then 0 else 1) + 1)"
      using div_bounds [OF assms, of y] by (auto simp: algebra_simps)
  qed
  moreover have "(y + k) div k = y div k + 1" using assms div_add_self2 [of k y] by simp
  ultimately show ?thesis by simp
qed

lemma mod_400_chain: "(y :: int) mod 400 = 0 \<Longrightarrow> y mod 100 = 0" "(y :: int) mod 100 = 0 \<Longrightarrow> y mod 4 = 0"
  by (auto simp: mod_eq_0_iff_dvd intro: dvd_trans [of _ 400] dvd_trans [of _ 100])

lemma leap_count:
  "(p400 \<Longrightarrow> p100) \<Longrightarrow> (p100 \<Longrightarrow> p4) \<Longrightarrow>
    (if p4 then 1 else 0) - (if p100 then 1 else 0) + (if p400 then 1 else 0) =
    (if p4 \<and> (\<not> p100 \<or> p400) then 1 else (0 :: int))"
  by (cases p4; cases p100; cases p400) simp_all

lemma sum_shuffle:
  "A = a + i \<Longrightarrow> B = b + j \<Longrightarrow> C = c + k \<Longrightarrow> i - j + k = l \<Longrightarrow>
    x + w + A - B + C = (x + a - b + c) + w + (l :: int)"
  by simp

lemma days_before_year_Suc:
  "days_before_year (y + 1) = days_before_year y + (if is_leap y then 366 else 365)"
proof -
  define a b c where "a = (y + 3) div 4" and "b = (y + 99) div 100" and "c = (y + 399) div 400"
  have "days_before_year (y + 1) =
      365 * y + 365 + (y + 4) div 4 - (y + 100) div 100 + (y + 400) div 400"
    by (simp only: days_before_year_def add.assoc distrib_left) simp
  also have "\<dots> = (365 * y + a - b + c) + 365 + (if is_leap y then 1 else 0)"
  proof (rule sum_shuffle)
    show "(y + 4) div 4 = a + (if y mod 4 = 0 then 1 else 0)"
      "(y + 100) div 100 = b + (if y mod 100 = 0 then 1 else 0)"
      "(y + 400) div 400 = c + (if y mod 400 = 0 then 1 else 0)"
      using ceil_div_step [of 4 y] ceil_div_step [of 100 y] ceil_div_step [of 400 y]
      by (simp_all only: a_def b_def c_def)
    show "(if y mod 4 = 0 then 1 else 0) - (if y mod 100 = 0 then 1 else 0) +
        (if y mod 400 = 0 then 1 else 0) = (if is_leap y then 1 else (0 :: int))"
      unfolding is_leap_def by (rule leap_count) (rule mod_400_chain; assumption)+
  qed
  also have "365 * y + a - b + c = days_before_year y"
    by (simp only: days_before_year_def a_def b_def c_def)
  finally show ?thesis by (cases "is_leap y") simp_all
qed

section \<open>Day of the era to year of the era\<close>

text \<open>
  Within a 400-year era counted from 1 March, \<open>march_start y\<close> is the first day of the year \<open>y\<close>. The
  code's estimate is monotone in the day and is right on the first and the last day of every year,
  which is checked for the four hundred years.
\<close>

definition march_start :: "int \<Rightarrow> int" where
  "march_start y = 365 * y + y div 4 - y div 100"

definition year_estimate :: "int \<Rightarrow> int" where
  "year_estimate doe = doe - doe div 1460 + doe div 36524 - doe div 146096"

definition march_end :: "int \<Rightarrow> int" where
  "march_end y = (if y = 399 then 146096 else march_start (y + 1) - 1)"

lemma minus_div_mono:
  assumes "0 < k" "a \<le> b"
  shows "a - a div k \<le> b - b div (k :: int)"
proof -
  have "b - a \<le> k * (b - a)"
    using assms by (simp add: mult_le_cancel_right1)
  then have "b < k * (a div k + (b - a) + 1)"
    using div_bounds [OF assms(1), of a] by (simp add: algebra_simps)
  then have "b div k < a div k + (b - a) + 1"
    using assms(1) by (metis div_bounds mult_less_cancel_left_pos order_le_less_trans)
  then show ?thesis by simp
qed

lemma year_estimate_mono:
  assumes "a \<le> b"
  shows "year_estimate a \<le> year_estimate b"
proof -
  have four: "x div 146096 = x div 36524 div 4" for x :: int
    using zdiv_zmult2_eq [of 4 x 36524] by simp
  have "a - a div 1460 \<le> b - b div 1460"
    using assms by (intro minus_div_mono) simp_all
  moreover have "a div 36524 - a div 36524 div 4 \<le> b div 36524 - b div 36524 div 4"
    using assms by (intro minus_div_mono zdiv_mono1) simp_all
  ultimately show ?thesis
    unfolding year_estimate_def four add_diff_eq [symmetric] by (rule add_mono)
qed

lemma year_estimate_ends:
  "list_all (\<lambda>y. 365 * y \<le> year_estimate (march_start y) \<and>
      year_estimate (march_end y) < 365 * (y + 1) \<and>
      march_start y \<le> march_end y \<and> march_end y - march_start y \<le> 365 \<and>
      (march_end y - march_start y = 365 \<longrightarrow> is_leap (y + 1))) (upto 0 399)"
  by code_simp

lemma year_estimate_bounds:
  assumes "0 \<le> y" "y \<le> 399"
  shows "365 * y \<le> year_estimate (march_start y)" "year_estimate (march_end y) < 365 * (y + 1)"
    "march_end y - march_start y \<le> 365"
    "march_end y - march_start y = 365 \<Longrightarrow> is_leap (y + 1)"
  using year_estimate_ends assms by (auto simp: list_all_iff)

lemma year_of_era_exists:
  assumes "0 \<le> doe" "doe \<le> 146096"
  shows "\<exists>y. 0 \<le> y \<and> y \<le> 399 \<and> march_start y \<le> doe \<and> doe \<le> march_end y"
proof -
  have "\<exists>y \<le> n. march_start (int y) \<le> doe \<and> doe \<le> march_end (int y)"
    if "doe \<le> march_end (int n)" "n \<le> 399" for n
    using that
  proof (induction n)
    case 0
    then show ?case using assms by (simp add: march_start_def)
  next
    case (Suc n)
    show ?case
    proof (cases "march_start (int (Suc n)) \<le> doe")
      case False
      then have "doe \<le> march_end (int n)"
        using Suc.prems by (simp add: march_end_def algebra_simps)
      with Suc show ?thesis by (auto intro: le_SucI)
    qed (use Suc.prems in auto)
  qed
  from this [of 399] obtain y where "y \<le> 399" "march_start (int y) \<le> doe" "doe \<le> march_end (int y)"
    using assms by (auto simp: march_end_def)
  then show ?thesis by (intro exI [of _ "int y"]) auto
qed

lemma year_of_era:
  assumes "0 \<le> doe" "doe \<le> 146096"
  defines "yoe \<equiv> year_estimate doe div 365"
  shows "0 \<le> yoe" "yoe \<le> 399" "march_start yoe \<le> doe" "doe \<le> march_end yoe"
proof -
  obtain y where y: "0 \<le> y" "y \<le> 399" "march_start y \<le> doe" "doe \<le> march_end y"
    using year_of_era_exists [OF assms(1,2)] by blast
  have "365 * y \<le> year_estimate doe" "year_estimate doe < 365 * (y + 1)"
    using year_estimate_bounds [OF y(1,2)] year_estimate_mono [OF y(3)] year_estimate_mono [OF y(4)]
    by linarith+
  then have "yoe = y" unfolding yoe_def by (intro div_eqI) simp_all
  with y show "0 \<le> yoe" "yoe \<le> 399" "march_start yoe \<le> doe" "doe \<le> march_end yoe" by simp_all
qed

section \<open>Day of the March year to month and day\<close>

definition march_month :: "int \<Rightarrow> int" where
  "march_month doy = (let mp = (5 * doy + 2) div 153 in mp + (if mp < 10 then 3 else - 9))"

definition march_day :: "int \<Rightarrow> int" where
  "march_day doy = (let mp = (5 * doy + 2) div 153 in doy - (153 * mp + 2) div 5 + 1)"

lemma march_table:
  "list_all (\<lambda>doy. let m = march_month doy; d = march_day doy in
      1 \<le> m \<and> m \<le> 12 \<and> 1 \<le> d \<and> (if m = 2 then d \<le> 28 \<or> doy = 365 \<and> d = 29 else d \<le> month_length 0 m) \<and>
      month_starts ! nat (m - 1) + d - 1 = (if m \<le> 2 then doy - 306 else doy + 59)) (upto 0 365)"
  by code_simp

lemma march_month_day:
  assumes "0 \<le> doy" "doy \<le> 365"
  defines "m \<equiv> march_month doy" and "d \<equiv> march_day doy"
  shows "1 \<le> m" "m \<le> 12" "1 \<le> d" "m = 2 \<Longrightarrow> d \<le> 28 \<or> doy = 365 \<and> d = 29"
    "m \<noteq> 2 \<Longrightarrow> d \<le> month_length y m"
    "month_starts ! nat (m - 1) + d - 1 = (if m \<le> 2 then doy - 306 else doy + 59)"
proof -
  have "doy \<in> set (upto 0 365)" using assms(1,2) by simp
  with march_table have row: "1 \<le> m \<and> m \<le> 12 \<and> 1 \<le> d \<and>
      (if m = 2 then d \<le> 28 \<or> doy = 365 \<and> d = 29 else d \<le> month_length 0 m) \<and>
      month_starts ! nat (m - 1) + d - 1 = (if m \<le> 2 then doy - 306 else doy + 59)"
    unfolding list_all_iff Let_def m_def d_def by (rule bspec)
  then show "1 \<le> m" "m \<le> 12" "1 \<le> d" "m = 2 \<Longrightarrow> d \<le> 28 \<or> doy = 365 \<and> d = 29"
    "month_starts ! nat (m - 1) + d - 1 = (if m \<le> 2 then doy - 306 else doy + 59)"
    by simp_all
  show "d \<le> month_length y m" if "m \<noteq> 2"
    using row that by (simp add: month_length_def)
qed

lemma is_leap_era: "is_leap (y + 400 * e) = is_leap y"
proof -
  have "(y + 4 * (100 * e)) mod 4 = y mod 4" "(y + 100 * (4 * e)) mod 100 = y mod 100"
      "(y + 400 * e) mod 400 = y mod 400"
    by (rule mod_mult_self2)+
  then show ?thesis by (simp add: is_leap_def)
qed

lemma days_before_march_year:
  assumes "0 \<le> yoe" "yoe \<le> 399"
  shows "days_before_year (yoe + era * 400 + 1) = era * 146097 + march_start yoe + 366"
proof -
  define a b where "a = yoe div 4" and "b = yoe div 100"
  have "(yoe + era * 400 + 1 + 3) div 4 = (yoe + 4 * (era * 100 + 1)) div 4"
      "(yoe + era * 400 + 1 + 99) div 100 = (yoe + 100 * (era * 4 + 1)) div 100"
      "(yoe + era * 400 + 1 + 399) div 400 = (yoe + 400 * (era + 1)) div 400"
    by (rule arg_cong [where f = "\<lambda>x. x div _"]; simp)+
  moreover have "yoe div 400 = 0" using assms by simp
  ultimately have "days_before_year (yoe + era * 400 + 1) =
      365 * (yoe + era * 400 + 1) + ((era * 100 + 1) + a) - ((era * 4 + 1) + b) + ((era + 1) + 0)"
    unfolding days_before_year_def a_def b_def by (simp only: div_mult_self2)
  then show ?thesis
    unfolding march_start_def a_def [symmetric] b_def [symmetric] by simp
qed

lemma civil_from_days_unfold:
  assumes "0 \<le> days + 719468"
  defines "z \<equiv> days + 719468"
  defines "doe \<equiv> z mod 146097"
  defines "yoe \<equiv> year_estimate doe div 365"
  defines "doy \<equiv> doe - march_start yoe"
  shows "civil_from_days days =
    (if march_month doy \<le> 2 then yoe + z div 146097 * 400 + 1 else yoe + z div 146097 * 400,
     march_month doy, march_day doy)"
proof -
  have era: "(if 0 \<le> days + 719468 then days + 719468 else days + 719468 - 146096) div 146097 =
      z div 146097"
    by (simp only: assms(1) if_True z_def)
  have doe: "days + 719468 - z div 146097 * 146097 = doe"
    unfolding doe_def z_def by (rule minus_div_mult_eq_mod)
  show ?thesis
    unfolding civil_from_days_def Let_def era doe
    unfolding doy_def march_month_def march_day_def march_start_def yoe_def year_estimate_def Let_def
    by (rule refl)
qed

lemma civil_from_days_correct:
  assumes "0 \<le> days + 719468" and c: "civil_from_days days = (y, m, d)"
  shows "1 \<le> m \<and> m \<le> 12" "1 \<le> d \<and> d \<le> month_length y m"
    "days_before_year y + day_of_year y m d = days + 719528"
proof -
  define z where "z = days + 719468"
  define era where "era = z div 146097"
  define doe where "doe = z mod 146097"
  define yoe where "yoe = year_estimate doe div 365"
  define doy where "doy = doe - march_start yoe"
  have z: "z = era * 146097 + doe"
    unfolding era_def doe_def by simp
  have "0 \<le> doe" "doe \<le> 146096"
    unfolding doe_def using pos_mod_bound [of 146097 z] by simp_all
  note yoe = year_of_era [OF this, folded yoe_def]
  note bnd = year_estimate_bounds [OF yoe(1,2)]
  have doy: "0 \<le> doy" "doy \<le> 365" and last: "doy = 365 \<Longrightarrow> is_leap (yoe + 1)"
    using yoe bnd by (auto simp: doy_def)
  note md = march_month_day [OF doy]
  from civil_from_days_unfold [OF assms(1)] c
  have y: "y = yoe + era * 400 + (if m \<le> 2 then 1 else 0)" and m: "m = march_month doy"
    and d: "d = march_day doy"
    unfolding z_def [symmetric] doe_def [symmetric] era_def [symmetric] yoe_def [symmetric]
      doy_def [symmetric] by (simp_all split: if_splits)
  show "1 \<le> m \<and> m \<le> 12" using md m by simp
  have "is_leap (yoe + era * 400 + 1) = is_leap (yoe + 1)"
    using is_leap_era [of "yoe + 1" era] by (simp add: algebra_simps)
  then show "1 \<le> d \<and> d \<le> month_length y m"
    using md(3) md(4) md(5) [of y] last unfolding m [symmetric] d [symmetric]
    by (cases "m = 2") (auto simp: y month_length_def)
  have "days_before_year (yoe + era * 400 + 1) = z - doy + 366"
    using days_before_march_year [OF yoe(1,2), of era] by (simp add: z doy_def)
  moreover have "day_of_year y m d =
      (if m \<le> 2 then doy - 306 else doy + 59 + (if is_leap (yoe + era * 400) then 1 else 0))"
    using md(6) by (auto simp: day_of_year_def is_leap_def m [symmetric] d [symmetric] y Let_def)
  ultimately show "days_before_year y + day_of_year y m d = days + 719528"
    using days_before_year_Suc [of "yoe + era * 400"] by (auto simp: y z_def split: if_splits)
qed


lemma civil_year_nonneg:
  assumes "0 \<le> days + 719468"
  shows "0 \<le> fst (civil_from_days days)"
proof -
  define z where "z = days + 719468"
  have "0 \<le> z mod 146097" "z mod 146097 \<le> 146096"
    using pos_mod_bound [of 146097 z] by simp_all
  then have "0 \<le> year_estimate (z mod 146097) div 365"
    by (rule year_of_era(1))
  moreover have "0 \<le> z div 146097"
    using assms by (simp add: z_def pos_imp_zdiv_nonneg_iff)
  ultimately show ?thesis
    unfolding civil_from_days_unfold [OF assms] z_def [symmetric] fst_conv
    by (auto intro!: add_nonneg_nonneg mult_nonneg_nonneg)
qed

lemma second_of_day_split:
  "r div 3600 * 3600 + r mod 3600 div 60 * 60 + r mod 60 = (r :: int)"
proof -
  have "r mod 60 = r mod 3600 mod 60" by (simp add: mod_mod_cancel)
  then have "r mod 3600 div 60 * 60 + r mod 60 = r mod 3600" by (simp only: div_mult_mod_eq)
  then show ?thesis by (simp only: add.assoc div_mult_mod_eq)
qed

lemma time_field_bounds:
  assumes "0 \<le> r" "r < 86400"
  shows "0 \<le> r div 3600" "r div 3600 < 24" "0 \<le> r mod 3600 div 60" "r mod 3600 div 60 < (60 :: int)"
proof -
  show "0 \<le> r div 3600" "0 \<le> r mod 3600 div 60"
    using assms by (simp_all add: pos_imp_zdiv_nonneg_iff)
  show "r div 3600 < 24"
    using assms div_bounds [of 3600 r] by linarith
  show "r mod 3600 div 60 < 60"
    using div_bounds [of 60 "r mod 3600"] pos_mod_bound [of 3600 r] by linarith
qed

lemma day_of_year_bounds:
  assumes "1 \<le> m" "m \<le> 12" "1 \<le> d" "d \<le> month_length y m"
  shows "0 \<le> day_of_year y m d" "day_of_year y m d \<le> 365"
proof -
  have "m \<in> set (upto 1 12)" using assms by simp
  then have "0 \<le> day_of_year y m d \<and> day_of_year y m d \<le> 365"
    using assms(3,4)
    by (simp add: upto.simps, elim disjE)
      (simp_all add: day_of_year_def month_starts_def month_length_def Let_def is_leap_def
        numeral_eq_Suc split: if_splits)
  then show "0 \<le> day_of_year y m d" "day_of_year y m d \<le> 365" by simp_all
qed

lemma rtc_sync_req_Ok:
  assumes c: "civil_from_days (sat_add64 t (off * 60) div 86400) = (y, m, d)"
    and y: "0 \<le> y" "y \<le> 65535"
  shows "\<exists>b. rtc_sync_req counter t off = Ok b \<and> length b = 32 \<and>
    rd16 0 b = 0x1e \<and> rd16 2 b = 0x94 \<and> rd16 4 b = counter \<and>
    rd16 22 b = of_int y \<and> b ! 24 = of_int m \<and> b ! 25 = of_int d \<and>
    b ! 26 = of_int (sat_add64 t (off * 60) mod 86400 div 3600) \<and>
    b ! 27 = of_int (sat_add64 t (off * 60) mod 86400 mod 3600 div 60) \<and>
    b ! 28 = of_int (sat_add64 t (off * 60) mod 86400 mod 60) \<and>
    b ! 29 = of_int ((sat_add64 t (off * 60) div 86400 + 4) mod 7) \<and>
    rd16 30 b = of_int (day_of_year y m d)"
proof -
  define s where "s = sat_add64 t (off * 60)"
  show ?thesis
    using c y unfolding rtc_sync_req_def s_def [symmetric] Let_def
    by simp
qed

section \<open>Properties\<close>



text \<open>
  Before that date the era correction is applied twice, once by hand and once by \<open>div_euclid\<close>: two
  different days map to 29 February of the year 0.
\<close>

lemma civil_from_days_before_era:
  "civil_from_days (-719469) = (0, 2, 29)" "civil_from_days (-719470) = (0, 2, 29)"
  by code_simp+

end
