(* ===== verification/Inbound.thy ===== *)
theory Inbound
  imports Control_Messages
begin

text \<open>
  Dock-to-host frames: the reply decoders of \<open>chimera/vino/cp/mod.rs\<close>, which try the supported
  nonces in turn, and the DDC/CI tunnel of \<open>chimera/src/ddcci.rs\<close>. Every decoder but the scoring one
  is an instance of \<open>first_open\<close>, so its soundness and completeness come from \<open>sealed_channel\<close>.
\<close>

section \<open>Nonces and sub-identifiers\<close>

definition known_subs :: "u16 list" where
  "known_subs = [0x00, 0x04, 0x0b, 0x0c, 0x10, 0x20, 0x21, 0x22, 0x24, 0x25, 0x2a, 0x30, 0x31, 0x41,
     0x42, 0x43, 0x45, 0x4a, 0x4b, 0x4c, 0x75, 0x84, 0x86]"

definition is_known_sub :: "u16 \<Rightarrow> bool" where
  "is_known_sub sub \<longleftrightarrow> sub \<in> set known_subs"

definition inbound_reply_rivs :: "bytes \<Rightarrow> bytes list" where
  "inbound_reply_rivs out_riv =
    (let in_head0 = in_riv out_riv;
         in_head1 = in_head0[0 := in_head0 ! 0 XOR 0x80];
         out_head0 = out_riv;
         out_head1 = out_head0[0 := out_head0 ! 0 XOR 0x80]
     in [in_head0, in_head1, out_head0, out_head1])"

section \<open>The decoders\<close>

text \<open>
  The scoring decoder keeps the first best-scoring plaintext; \<open>sample\<close> is its first 24 bytes, zero
  padded.
\<close>

type_synonym scored = "int \<times> string \<times> u16 \<times> u16 \<times> u16 \<times> bytes"

definition reply_score :: "bytes \<Rightarrow> int" where
  "reply_score plaintext =
    (if is_known_sub (rd16 2 plaintext) then 50 else 0) +
    (if rd16 6 plaintext = 0 then 10 else 0) +
    (if rd16 4 plaintext < 0x400 then 5 else 0)"

definition decode_step ::
  "aes_fn \<Rightarrow> cmac_fn \<Rightarrow> bytes \<Rightarrow> u32 \<Rightarrow> bytes \<Rightarrow> string \<times> bytes \<Rightarrow> scored option \<Rightarrow> scored option"
  where
  "decode_step aes cmac ks sq bd v best =
    (case open_in aes cmac ks (snd v) sq bd of
       Inl e \<Rightarrow> best
     | Inr plaintext \<Rightarrow>
         if length plaintext < 8 then best
         else if (case best of None \<Rightarrow> True | Some b \<Rightarrow> fst b < reply_score plaintext)
         then Some (reply_score plaintext, fst v, rd16 0 plaintext, rd16 2 plaintext,
                rd16 4 plaintext, pad_to 24 (take 24 plaintext))
         else best)"

definition decode_any ::
  "aes_fn \<Rightarrow> cmac_fn \<Rightarrow> bytes \<Rightarrow> bytes \<Rightarrow> bytes \<Rightarrow> (string \<times> u16 \<times> u16 \<times> u16 \<times> bytes) option" where
  "decode_any aes cmac ks out_riv wire =
    (if length wire \<le> 16 then None
     else
       let sq = rd32 12 wire;
           bd = drop 16 wire;
           rivs = inbound_reply_rivs out_riv;
           variants = [(''out/h0'', rivs ! 2), (''in/h0'', rivs ! 0), (''out/h1'', rivs ! 3),
                       (''in/h1'', rivs ! 1)]
       in map_option snd (fold (decode_step aes cmac ks sq bd) variants None))"

definition ack_fields :: "bytes \<Rightarrow> (u16 \<times> u16 \<times> u16) option" where
  "ack_fields plaintext =
    (if length plaintext < 8 then None
     else if rd16 0 plaintext < 0x400 \<and> is_known_sub (rd16 2 plaintext) \<and> rd16 6 plaintext = 0
     then Some (rd16 0 plaintext, rd16 2 plaintext, rd16 4 plaintext) else None)"

definition verify_in_ack ::
  "aes_fn \<Rightarrow> cmac_fn \<Rightarrow> bytes \<Rightarrow> bytes \<Rightarrow> bytes \<Rightarrow> (u16 \<times> u16 \<times> u16) option" where
  "verify_in_ack aes cmac ks out_riv wire =
    (if length wire \<le> 16 \<or> rd16 8 wire \<noteq> 0x45 then None
     else first_open (\<lambda>riv. open_in aes cmac ks riv (rd32 12 wire)) ack_fields
            (inbound_reply_rivs out_riv) (drop 16 wire))"

definition long_enough :: "bytes \<Rightarrow> bytes option" where
  "long_enough plaintext = (if 8 \<le> length plaintext then Some plaintext else None)"

definition inner_plaintext :: "aes_fn \<Rightarrow> cmac_fn \<Rightarrow> bytes \<Rightarrow> bytes \<Rightarrow> bytes \<Rightarrow> bytes option" where
  "inner_plaintext aes cmac ks out_riv wire =
    (if length wire \<le> 16 then None
     else if rd16 8 wire = 0x25 then Some (drop 16 wire)
     else if rd16 8 wire = 0x45
     then first_open (\<lambda>riv. open_in aes cmac ks riv (rd32 12 wire)) long_enough
            (inbound_reply_rivs out_riv) (drop 16 wire)
     else None)"

text \<open>Zero bytes and everything outside the printable range are dropped.\<close>

definition dock_trace_line :: "bytes \<Rightarrow> bytes option" where
  "dock_trace_line inner =
    (if length inner < 10 \<or> rd16 2 inner \<noteq> 0x000c then None
     else
       let out = filter (\<lambda>b. \<not> b = 0 \<and> (0x20 \<le> b \<and> b < 0x7f)) (drop 8 inner)
       in if length out < 4 then None else Some out)"

definition lenient_fields :: "bytes \<Rightarrow> (u16 \<times> u16 \<times> u16) option" where
  "lenient_fields plaintext =
    (if length plaintext < 8 then None
     else Some (rd16 0 plaintext, rd16 2 plaintext, rd16 4 plaintext))"

definition decode_in_lenient ::
  "aes_fn \<Rightarrow> cmac_fn \<Rightarrow> bytes \<Rightarrow> bytes \<Rightarrow> bytes \<Rightarrow> (u16 \<times> u16 \<times> u16) option" where
  "decode_in_lenient aes cmac ks out_riv wire =
    (if length wire \<le> 16 \<or> rd16 8 wire \<noteq> 0x45 then None
     else first_open (\<lambda>riv. open_in aes cmac ks riv (rd32 12 wire)) lenient_fields
            (inbound_reply_rivs out_riv) (drop 16 wire))"

record hdcp_push =
  push_id :: byte
  push_payload :: bytes
  push_len :: nat

definition copy_push :: "bytes \<Rightarrow> hdcp_push option" where
  "copy_push inner =
    (if length inner < 10 then None
     else if rd16 2 inner \<noteq> 0x84 then None
     else
       let src = drop 10 inner;
           n = min (length src) 38
       in Some \<lparr>push_id = inner ! 9, push_payload = put 0 (take n src) (replicate 38 0),
            push_len = n\<rparr>)"

definition per_connector_hdcp_push ::
  "aes_fn \<Rightarrow> cmac_fn \<Rightarrow> bytes \<Rightarrow> bytes \<Rightarrow> bytes \<Rightarrow> hdcp_push option" where
  "per_connector_hdcp_push aes cmac ks out_riv wire =
    (if length wire \<le> 16 then None
     else
       let wsub = rd16 8 wire in
       if wsub = 0x25 then copy_push (drop 16 wire)
       else if wsub \<noteq> 0x45 then None
       else first_open (\<lambda>riv. open_in aes cmac ks riv (rd32 12 wire)) copy_push
              (inbound_reply_rivs out_riv) (drop 16 wire))"

definition perhead_push ::
  "aes_fn \<Rightarrow> cmac_fn \<Rightarrow> bytes \<Rightarrow> bytes \<Rightarrow> bytes \<Rightarrow> (byte \<times> bytes) option" where
  "perhead_push aes cmac ks out_riv wire =
    map_option (\<lambda>p. (push_id p, take (push_len p) (push_payload p)))
      (per_connector_hdcp_push aes cmac ks out_riv wire)"

definition perhead_rrx :: "aes_fn \<Rightarrow> cmac_fn \<Rightarrow> bytes \<Rightarrow> bytes \<Rightarrow> bytes \<Rightarrow> bytes option" where
  "perhead_rrx aes cmac ks out_riv wire =
    (case perhead_push aes cmac ks out_riv wire of
       None \<Rightarrow> None
     | Some (msg_id, payload) \<Rightarrow>
         if msg_id \<noteq> AKE_SEND_RRX \<or> length payload < 8 then None else Some (take 8 payload))"

section \<open>The DDC/CI tunnel\<close>

definition ddcci_forward :: "bytes \<Rightarrow> u16 \<Rightarrow> byte \<Rightarrow> bytes \<Rightarrow> bytes result" where
  "ddcci_forward token counter head payload =
    (if 32 < length payload then Err EINVAL
     else Ok (pad_to 56 (pad_to 22 (header [] 0x36 0x26 counter) @ [head] @
       [of_nat (length payload)] @ payload) @ token))"

definition ddcci_read_request :: "bytes \<Rightarrow> u16 \<Rightarrow> byte \<Rightarrow> bytes" where
  "ddcci_read_request token counter head =
    pad_to 22 (header [] 0x15 0x25 counter) @ [head] @ token"

text \<open>The tunnel has its own copy of the nonce list.\<close>

definition ddcci_reply_rivs :: "bytes \<Rightarrow> bytes list" where
  "ddcci_reply_rivs outbound =
    (let primary = in_riv outbound;
         primary_head_one = primary[7 := primary ! 7 XOR 0x80];
         outbound_head_one = outbound[7 := outbound ! 7 XOR 0x80]
     in [primary, primary_head_one, outbound, outbound_head_one])"

text \<open>A plaintext that names more bytes than it has ends the loop with \<open>EPROTO\<close>.\<close>

definition ddcci_payload :: "bytes \<Rightarrow> bytes result option" where
  "ddcci_payload plaintext =
    (if length plaintext < 23 then None
     else if rd16 0 plaintext \<noteq> 0x20 \<or> rd16 2 plaintext \<noteq> 0x25 \<or> rd16 6 plaintext \<noteq> 0 then None
     else
       let n = unat (plaintext ! 22) in
       if length plaintext < 23 + n then Some (Err EPROTO) else Some (Ok (get 23 n plaintext)))"

definition ddcci_parse_reply ::
  "aes_fn \<Rightarrow> cmac_fn \<Rightarrow> bytes \<Rightarrow> bytes \<Rightarrow> bytes \<Rightarrow> bytes option result" where
  "ddcci_parse_reply aes cmac key outbound_riv wire =
    (if length wire < 32 \<or> rd32 4 wire \<noteq> 4 \<or> rd16 8 wire \<noteq> 0x45 then Ok None
     else
       case first_open (\<lambda>riv. open_in aes cmac key riv (rd32 12 wire)) ddcci_payload
              (ddcci_reply_rivs outbound_riv) (drop 16 wire) of
         None \<Rightarrow> Ok None
       | Some (Inl e) \<Rightarrow> Err e
       | Some (Inr p) \<Rightarrow> Ok (Some p))"

section \<open>Lemmas\<close>

text \<open>A sealed reply as the dock frames it: type 4, sub \<open>0x45\<close>, the counter in the header.\<close>

definition dock_reply :: "aes_fn \<Rightarrow> cmac_fn \<Rightarrow> bytes \<Rightarrow> bytes \<Rightarrow> u32 \<Rightarrow> bytes \<Rightarrow> bytes" where
  "dock_reply aes cmac ks riv sq pt = seal_video_arm aes cmac ks riv 0x45 0 sq pt"

lemma dock_reply_fields [simp]:
  "length (dock_reply aes cmac ks riv sq pt) = length pt + 32"
  "rd32 4 (dock_reply aes cmac ks riv sq pt) = 4"
  "rd16 8 (dock_reply aes cmac ks riv sq pt) = 0x45"
  "rd32 12 (dock_reply aes cmac ks riv sq pt) = sq"
  "drop 16 (dock_reply aes cmac ks riv sq pt) = sealed_body aes cmac ks sq riv pt"
  by (simp_all add: dock_reply_def seal_video_arm_body)

lemma set_inbound_reply_rivs:
  "set (inbound_reply_rivs r) = {in_riv r, (in_riv r)[0 := in_riv r ! 0 XOR 0x80], r,
     r[0 := r ! 0 XOR 0x80]}"
  by (auto simp: inbound_reply_rivs_def Let_def)

lemma verify_in_ack_sound:
  assumes "verify_in_ack aes cmac ks r wire = Some (i, sub, c)"
  shows "\<exists>riv \<in> set (inbound_reply_rivs r). \<exists>pt.
    drop 16 wire = sealed_body aes cmac ks (rd32 12 wire) riv pt \<and> ack_fields pt = Some (i, sub, c)"
  using assms unfolding verify_in_ack_def
  by (auto split: if_splits dest!: cp_channel.first_open_sound)

lemma ack_fields_Some:
  "ack_fields pt = Some (i, sub, c) \<Longrightarrow>
    8 \<le> length pt \<and> i = rd16 0 pt \<and> sub = rd16 2 pt \<and> c = rd16 4 pt \<and> i < 0x400 \<and> is_known_sub sub \<and>
    rd16 6 pt = 0"
  by (auto simp: ack_fields_def split: if_splits)

text \<open>
  A decoder that stops at the first plaintext it accepts returns the genuine one as long as no other
  nonce opens the same body to something else, which is what the tag is for.
\<close>

lemma first_open_unique:
  assumes "riv \<in> set rivs" and "acc pt = Some x"
    and "\<And>r pt'. r \<in> set rivs \<Longrightarrow> sealed_body aes cmac ks sq riv pt = sealed_body aes cmac ks sq r pt' \<Longrightarrow> pt' = pt"
  shows "first_open (\<lambda>r. open_in aes cmac ks r sq) acc rivs (sealed_body aes cmac ks sq riv pt) = Some x"
proof -
  obtain y where y: "first_open (\<lambda>r. open_in aes cmac ks r sq) acc rivs
      (sealed_body aes cmac ks sq riv pt) = Some y"
    using cp_channel.first_open_complete [where acc = acc, OF assms(1), of pt x] assms(2) by blast
  from cp_channel.first_open_sound [OF this] assms(3) have "acc pt = Some y" by blast
  with y assms(2) show ?thesis by simp
qed

lemma ctr_chunks_const:
  "ctr_chunks (\<lambda>k b. w) ks riv sq i cs = ctr_chunks (\<lambda>k b. w) ks riv' sq i cs"
  by (induction cs arbitrary: i) auto

lemma ctr_xor_inject: "ctr_xor aes ks riv sq d = ctr_xor aes ks riv sq d' \<longleftrightarrow> d = d'"
  by (metis ctr_xor_involution)

lemma sealed_body_const_cipher:
  assumes "sealed_body (\<lambda>k b. w) cmac ks sq riv pt = sealed_body (\<lambda>k b. w) cmac ks sq riv' pt'"
  shows "pt' = pt"
proof -
  have "ctr_xor (\<lambda>k b. w) ks riv sq pt = ctr_xor (\<lambda>k b. w) ks riv' sq pt'"
    using assms by (auto simp: sealed_body_def Let_def append_eq_append_conv)
  then show ?thesis
    using ctr_chunks_const ctr_xor_inject unfolding ctr_xor_def by metis
qed

section \<open>Properties\<close>

text \<open>
  An acknowledgement is genuine: a frame \<open>verify_in_ack\<close> accepts carries, after its header, the
  sealing under the session key and one of the four supported nonces of a plaintext whose header has
  exactly the returned identifier, sub-identifier and counter, a known sub-identifier, and a zero
  pad. Unauthenticated traffic is never reported as an acknowledgement.
\<close>

lemma ack_is_authentic:
  assumes "verify_in_ack aes cmac ks out_riv wire = Some (i, sub, c)"
  shows "\<exists>riv pt. riv \<in> set (inbound_reply_rivs out_riv) \<and>
    drop 16 wire = drop 16 (seal_video_arm aes cmac ks riv s a (rd32 12 wire) pt) \<and>
    rd16 8 wire = 0x45 \<and> 8 \<le> length pt \<and> rd16 0 pt = i \<and> rd16 2 pt = sub \<and> rd16 4 pt = c \<and>
    rd16 6 pt = 0 \<and> i < 0x400 \<and> is_known_sub sub"
proof -
  obtain riv pt where "riv \<in> set (inbound_reply_rivs out_riv)"
      and "drop 16 wire = sealed_body aes cmac ks (rd32 12 wire) riv pt"
      and "ack_fields pt = Some (i, sub, c)"
    using verify_in_ack_sound [OF assms] by blast
  moreover have "rd16 8 wire = 0x45"
    using assms by (simp add: verify_in_ack_def split: if_splits)
  ultimately show ?thesis
    using ack_fields_Some [of pt] by (auto simp: seal_video_arm_split)
qed

lemma verify_in_ack_example:
  "verify_in_ack (\<lambda>k b. 3) (\<lambda>k m. 9) [1]  [1, 2, 3, 4, 5, 6, 7, 8]
    (dock_reply (\<lambda>k b. 3) (\<lambda>k m. 9) [1] [1, 2, 3, 4, 5, 6, 7, 8] 5 (header [] 0x14 0x0c 0x21)) =
    Some (0x14, 0x0c, 0x21)"
proof -
  have "ack_fields (header [] 0x14 0x0c 0x21) = Some (0x14, 0x0c, 0x21)"
    by (simp add: ack_fields_def is_known_sub_def known_subs_def)
  then show ?thesis
    unfolding verify_in_ack_def dock_reply_fields
    by (auto intro!: first_open_unique dest: sealed_body_const_cipher simp: set_inbound_reply_rivs)
qed

text \<open>
  Genuine replies are decoded: a reply the dock seals under any of the four nonces comes back as
  its own plaintext through \<open>inner_plaintext\<close>, and its identifier, sub-identifier and echoed counter
  through \<open>decode_in_lenient\<close>, whatever its pad bytes are, provided the tag is not also valid for a
  different plaintext under another of the nonces.
\<close>

lemma reply_decoded:
  assumes "riv \<in> set (inbound_reply_rivs out_riv)" and "8 \<le> length pt"
    and "\<And>r pt'. r \<in> set (inbound_reply_rivs out_riv) \<Longrightarrow>
      drop 16 (dock_reply aes cmac ks riv sq pt) = drop 16 (dock_reply aes cmac ks r sq pt') \<Longrightarrow> pt' = pt"
  shows "inner_plaintext aes cmac ks out_riv (dock_reply aes cmac ks riv sq pt) = Some pt \<and>
    decode_in_lenient aes cmac ks out_riv (dock_reply aes cmac ks riv sq pt) =
      Some (rd16 0 pt, rd16 2 pt, rd16 4 pt)"
  using assms first_open_unique [of riv "inbound_reply_rivs out_riv" long_enough pt pt]
    first_open_unique [of riv "inbound_reply_rivs out_riv" lenient_fields pt]
  by (simp add: inner_plaintext_def decode_in_lenient_def long_enough_def lenient_fields_def)

text \<open>
  The tunnel's copy of the nonce list flips bit 7 of byte 7 for the second connector where the
  session's flips bit 7 of byte 0, so it lacks both of the session's second-connector nonces.
\<close>

lemma ddcci_misses_second_connector:
  assumes "length r = 8"
  shows "r[0 := r ! 0 XOR 0x80] \<in> set (inbound_reply_rivs r) \<and>
    r[0 := r ! 0 XOR 0x80] \<notin> set (ddcci_reply_rivs r)"
proof -
  have ne: "x XOR 0x80 \<noteq> (x :: byte)" for x
  proof
    assume "x XOR 0x80 = x"
    then have "bit (x XOR 0x80) 7 = bit x 7" by simp
    then show False by (simp add: bit_simps)
  qed
  have "length r \<noteq> 0" using assms by simp
  then have at0: "(r[0 := r ! 0 XOR 0x80]) ! 0 = r ! 0 XOR 0x80" by simp
  have "q ! 0 = r ! 0" if "q \<in> set (ddcci_reply_rivs r)" for q
    using that by (auto simp: ddcci_reply_rivs_def in_riv_def Let_def)
  with at0 ne [of "r ! 0"] show ?thesis
    by (auto simp: set_inbound_reply_rivs)
qed

end
