(* ===== verification/Edid.thy ===== *)
theory Edid
  imports Inbound
begin

text \<open>
  The EDID path of \<open>chimera/vino/cp/edid.rs\<close>: the requests, the reply-length rule, and the reply
  parser, which validates the base block, keeps the extension blocks that check out, and repairs the
  extension count and checksum of what it hands over. Debug logging is not modelled.
\<close>

section \<open>Requests\<close>

definition BRIDGE_ID :: bytes where "BRIDGE_ID = [0x3a, 0xd4, 0x9c, 0x07]"

definition edid_sink_state :: "bytes \<Rightarrow> u16 \<Rightarrow> byte \<Rightarrow> byte \<Rightarrow> bytes" where
  "edid_sink_state tail counter connector state =
    pad_to 22 (header [] 0x16 0x0023 counter) @ [connector, state] @ tail"

definition edid_engage_req :: "bytes \<Rightarrow> u16 \<Rightarrow> byte \<Rightarrow> bytes" where
  "edid_engage_req tail counter connector = edid_sink_state tail counter connector connector"

text \<open>\<open>1u8 << connector\<close> is a shift overflow for a connector of eight or more.\<close>

definition post_edid_query :: "bytes \<Rightarrow> u16 \<Rightarrow> byte \<Rightarrow> bytes result" where
  "post_edid_query tail counter connector =
    (if 8 \<le> connector then Err Panic
     else Ok (pad_to 22 (header [] 0x15 0x0053 counter) @ [push_bit (unat connector) 1] @ tail))"

definition edid_readiness_state :: "bytes \<Rightarrow> u16 \<Rightarrow> byte \<Rightarrow> byte \<Rightarrow> bytes" where
  "edid_readiness_state tail counter connector state =
    pad_to 22 (header [] 0x16 0x4b counter) @ [connector, state] @ tail"

definition edid_readiness_kick :: "bytes \<Rightarrow> u16 \<Rightarrow> byte \<Rightarrow> bytes" where
  "edid_readiness_kick tail counter connector = edid_readiness_state tail counter connector 1"

definition get_edid_req_sub :: "bytes \<Rightarrow> u16 \<Rightarrow> u16 \<Rightarrow> byte \<Rightarrow> bytes" where
  "get_edid_req_sub tail counter sub connector =
    pad_to 22 (header [] 0x15 sub counter) @ [connector] @ tail"

definition get_edid_req :: "bytes \<Rightarrow> u16 \<Rightarrow> byte \<Rightarrow> bytes" where
  "get_edid_req tail counter connector = get_edid_req_sub tail counter 0x21 connector"

section \<open>Replies\<close>

definition edid_reply_len :: "u16 \<Rightarrow> nat option" where
  "edid_reply_len i =
    (if unat i < 0x14 then None
     else let n = unat i - 0x14 in if 128 \<le> n \<and> n mod 128 = 0 then Some n else None)"

definition is_display_cap_reply :: "u16 \<Rightarrow> u16 \<Rightarrow> bool" where
  "is_display_cap_reply i sub \<longleftrightarrow> sub = 0x30 \<and> 0x14 < i"

definition MAGIC :: bytes where
  "MAGIC = [0x00, 0xff, 0xff, 0xff, 0xff, 0xff, 0xff, 0x00]"

text \<open>\<open>iter().fold(0u8, |a, b| a.wrapping_add(*b))\<close>\<close>

definition block_sum :: "bytes \<Rightarrow> byte" where
  "block_sum b = foldl (+) 0 b"

function edid_blocks :: "nat \<Rightarrow> nat \<Rightarrow> bytes \<Rightarrow> nat" where
  "edid_blocks blocks n edid =
    (if blocks * 128 + 128 \<le> n
     then if block_sum (get (blocks * 128) 128 edid) \<noteq> 0 then blocks
          else edid_blocks (blocks + 1) n edid
     else blocks)"
  by auto
termination by (relation "measure (\<lambda>(blocks, n, edid). n - blocks * 128)") auto

declare edid_blocks.simps [simp del]

definition edid_restate :: "nat \<Rightarrow> bytes \<Rightarrow> bytes" where
  "edid_restate blocks out =
    (if out ! 126 \<noteq> of_nat (blocks - 1)
     then let out = out[126 := of_nat (blocks - 1)];
              out = out[127 := 0];
              s = block_sum (take 128 out)
          in out[127 := 0 - s]
     else out)"

definition edid_from_inner :: "bytes \<Rightarrow> bytes option" where
  "edid_from_inner inner =
    (if length inner < 22 + 128 then None
     else case (if rd16 2 inner = 0x21 then edid_reply_len (rd16 0 inner) else None) of
       None \<Rightarrow> None
     | Some declared \<Rightarrow>
         let edid = drop 22 inner in
         if take 8 edid \<noteq> MAGIC then None
         else if length edid < 128 then None
         else if block_sum (take 128 edid) \<noteq> 0 then None
         else if get 8 4 edid = BRIDGE_ID then None
         else
           let n = min (min ((1 + unat (edid ! 126)) * 128) (length edid)) declared;
               blocks = edid_blocks 1 n edid;
               kept = blocks * 128
           in Some (edid_restate blocks (take kept edid)))"

definition parse_edid_from_reply :: "aes_fn \<Rightarrow> cmac_fn \<Rightarrow> bytes \<Rightarrow> bytes \<Rightarrow> bytes \<Rightarrow> bytes option" where
  "parse_edid_from_reply aes cmac ks out_riv wire =
    (if length wire \<le> 16 \<or> rd16 8 wire \<noteq> 0x45 then None
     else first_open (\<lambda>riv. open_in aes cmac ks riv (rd32 12 wire)) edid_from_inner
            (inbound_reply_rivs out_riv) (drop 16 wire))"

definition probe_fields :: "bytes \<Rightarrow> (u16 \<times> u32 \<times> bool) option" where
  "probe_fields inner =
    (if length inner < 8 then None
     else
       let i = rd16 0 inner; sub = rd16 2 inner; pad = rd16 6 inner in
       if 0x400 \<le> i \<or> pad \<noteq> 0 then None
       else if \<not> (0x14 < i \<and> sub = 0x0020) \<and> i \<noteq> 0x14 then None
       else Some (i, if 26 \<le> length inner then rd32 22 inner else 0,
              27 \<le> length inner \<and> inner ! 26 AND 0x80 \<noteq> 0))"

definition probe_reply_status ::
  "aes_fn \<Rightarrow> cmac_fn \<Rightarrow> bytes \<Rightarrow> bytes \<Rightarrow> bytes \<Rightarrow> (u16 \<times> u32 \<times> bool) option" where
  "probe_reply_status aes cmac ks out_riv wire =
    (if length wire \<le> 16 \<or> rd16 8 wire \<noteq> 0x45 then None
     else first_open (\<lambda>riv. open_in aes cmac ks riv (rd32 12 wire)) probe_fields
            (inbound_reply_rivs out_riv) (drop 16 wire))"

definition ready_field :: "bytes \<Rightarrow> bool option" where
  "ready_field inner =
    (if length inner < 27 then None
     else if rd16 0 inner \<noteq> 0x44 \<or> rd16 2 inner \<noteq> 0x20 then None
     else Some (inner ! 26 AND 0x80 \<noteq> 0))"

definition edid_poll_ready :: "aes_fn \<Rightarrow> cmac_fn \<Rightarrow> bytes \<Rightarrow> bytes \<Rightarrow> bytes \<Rightarrow> bool option" where
  "edid_poll_ready aes cmac ks out_riv wire =
    (if length wire \<le> 16 \<or> rd16 8 wire \<noteq> 0x45 then None
     else first_open (\<lambda>riv. open_in aes cmac ks riv (rd32 12 wire)) ready_field
            (inbound_reply_rivs out_riv) (drop 16 wire))"

section \<open>Lemmas\<close>

text \<open>What the display core requires of an EDID blob.\<close>

definition edid_wf :: "bytes \<Rightarrow> bool" where
  "edid_wf e \<longleftrightarrow>
    128 \<le> length e \<and> take 8 e = MAGIC \<and> get 8 4 e \<noteq> BRIDGE_ID \<and>
    length e = (1 + unat (e ! 126)) * 128 \<and>
    (\<forall>k \<le> unat (e ! 126). block_sum (get (k * 128) 128 e) = 0)"

lemma edid_blocks_bound: "b * 128 \<le> n \<Longrightarrow> edid_blocks b n e * 128 \<le> n \<and> b \<le> edid_blocks b n e"
proof (induction b n e rule: edid_blocks.induct)
  case (1 b n e)
  then show ?case
    by (cases "b * 128 + 128 \<le> n") (auto simp: edid_blocks.simps [of b n e])
qed

lemma edid_blocks_sums:
  "b \<le> k \<Longrightarrow> k < edid_blocks b n e \<Longrightarrow> block_sum (get (k * 128) 128 e) = 0"
proof (induction b n e arbitrary: k rule: edid_blocks.induct)
  case (1 b n e)
  then show ?case
    by (cases "k = b") (auto simp: edid_blocks.simps [of b n e] split: if_splits)
qed

lemma edid_blocks_all:
  "(\<And>k. b \<le> k \<Longrightarrow> k * 128 + 128 \<le> n \<Longrightarrow> block_sum (get (k * 128) 128 e) = 0) \<Longrightarrow>
    b * 128 \<le> n \<Longrightarrow> n mod 128 = 0 \<Longrightarrow> edid_blocks b n e * 128 = n"
proof (induction b n e rule: edid_blocks.induct)
  case (1 b n e)
  show ?case
  proof (cases "b * 128 + 128 \<le> n")
    case True
    then show ?thesis
      using 1 by (simp add: edid_blocks.simps [of b n e])
  next
    case False
    with "1.prems" have "n = b * 128"
      by (auto elim!: dvdE simp: mod_eq_0_iff_dvd)
    moreover from False have "edid_blocks b n e = b" by (simp add: edid_blocks.simps [of b n e])
    ultimately show ?thesis by simp
  qed
qed

lemma block_sum_sum_list: "block_sum b = sum_list b"
proof -
  have "foldl (+) a b = a + sum_list b" for a
    by (induction b arbitrary: a) (simp_all add: add.assoc)
  then show ?thesis by (simp add: block_sum_def)
qed

lemma block_sum_update:
  assumes "i < length b"
  shows "block_sum (b[i := v]) = block_sum b - b ! i + v"
  unfolding block_sum_sum_list using assms
proof (induction b arbitrary: i)
  case (Cons x xs)
  then show ?case by (cases i) (simp_all add: algebra_simps)
qed simp

text \<open>Restating the extension count keeps the base block's checksum zero.\<close>

lemma edid_restate_sum:
  assumes "128 \<le> length out" and "block_sum (take 128 out) = 0"
  shows "block_sum (take 128 (edid_restate b out)) = 0"
  using assms by (auto simp: edid_restate_def Let_def take_update_swap block_sum_update)

lemma edid_restate_other:
  "i \<noteq> 126 \<Longrightarrow> i \<noteq> 127 \<Longrightarrow> edid_restate b out ! i = out ! i"
  "length (edid_restate b out) = length out"
  by (simp_all add: edid_restate_def Let_def)

lemma edid_restate_count:
  "128 \<le> length out \<Longrightarrow> edid_restate b out ! 126 = of_nat (b - 1)"
  by (simp add: edid_restate_def Let_def)

lemma edid_restate_get:
  assumes "i + n \<le> 126 \<or> 128 \<le> i"
  shows "get i n (edid_restate b out) = get i n out"
  using assms by (auto simp: edid_restate_def Let_def)

lemma get_take [simp]: "i + n \<le> m \<Longrightarrow> get i n (take m b) = get i n b"
  by (simp add: get_def drop_take take_take)

lemma edid_wf_restate:
  assumes b: "1 \<le> b" "b \<le> 256" "b * 128 \<le> length edid"
    and m: "take 8 edid = MAGIC" "get 8 4 edid \<noteq> BRIDGE_ID"
    and s: "\<And>k. k < b \<Longrightarrow> block_sum (get (k * 128) 128 edid) = 0"
  shows "edid_wf (edid_restate b (take (b * 128) edid))"
proof -
  let ?o = "take (b * 128) edid" and ?e = "edid_restate b (take (b * 128) edid)"
  have len: "length ?o = b * 128" "128 \<le> length ?o" using b by auto
  have cnt: "unat (?e ! 126) = b - 1"
    using edid_restate_count [OF len(2), of b] b(2) by (simp only: unat_of_nat) simp
  have "get 0 8 ?e = get 0 8 edid" "get 8 4 ?e = get 8 4 edid"
    using b by (simp_all add: edid_restate_get)
  then have base: "take 8 ?e = MAGIC" "get 8 4 ?e \<noteq> BRIDGE_ID"
    using m by (simp_all add: get_def)
  have "block_sum (get (k * 128) 128 ?e) = 0" if "k \<le> b - 1" for k
  proof (cases "k = 0")
    case True
    have "block_sum (take 128 ?o) = 0" using s [of 0] b by (simp add: get_def min_def)
    with True edid_restate_sum [OF len(2)] show ?thesis by (simp add: get_def)
  next
    case False
    then have "get (k * 128) 128 ?e = get (k * 128) 128 ?o" by (intro edid_restate_get) simp
    moreover have "k * 128 + 128 \<le> b * 128" using that b by simp
    ultimately show ?thesis using s [of k] that b by simp
  qed
  with base cnt len b show ?thesis
    by (simp add: edid_wf_def edid_restate_other)
qed

lemma edid_from_inner_wf:
  assumes "edid_from_inner inner = Some e"
  shows "edid_wf e"
proof -
  let ?edid = "drop 22 inner"
  obtain declared where decl: "22 + 128 \<le> length inner" "128 \<le> declared"
    "take 8 ?edid = MAGIC" "block_sum (take 128 ?edid) = 0" "get 8 4 ?edid \<noteq> BRIDGE_ID"
    "e = edid_restate (edid_blocks 1 (min (min ((1 + unat (?edid ! 126)) * 128) (length ?edid)) declared)
          ?edid) (take (edid_blocks 1 (min (min ((1 + unat (?edid ! 126)) * 128) (length ?edid)) declared)
          ?edid * 128) ?edid)"
    using assms by (auto simp: edid_from_inner_def edid_reply_len_def Let_def split: if_splits)
  define n where "n = min (min ((1 + unat (?edid ! 126)) * 128) (length ?edid)) declared"
  define b where "b = edid_blocks 1 n ?edid"
  have n: "128 \<le> n" "n \<le> 256 * 128" "n \<le> length ?edid"
    using decl(1,2) unat_byte_lt [of "?edid ! 126"] by (auto simp: n_def)
  then have b: "1 \<le> b" "b * 128 \<le> n"
    using edid_blocks_bound [of 1 n ?edid] by (auto simp: b_def)
  have "block_sum (get (k * 128) 128 ?edid) = 0" if "k < b" for k
    using edid_blocks_sums [of 1 k n ?edid] that decl(4) by (cases "k = 0") (auto simp: b_def get_def)
  then show ?thesis
    unfolding decl(6) n_def [symmetric] b_def [symmetric]
    using b n decl(3,5) by (intro edid_wf_restate) auto
qed

text \<open>The inner message a dock answers a fetch with.\<close>

definition edid_reply :: "u16 \<Rightarrow> bytes \<Rightarrow> bytes \<Rightarrow> bytes" where
  "edid_reply counter e rest =
    pad_to 22 (header [] (of_nat (0x14 + length e)) 0x21 counter) @ e @ rest"

lemma edid_from_inner_reply:
  assumes wf: "edid_wf e"
  shows "edid_from_inner (edid_reply counter e rest) = Some e"
proof -
  let ?m = "edid_reply counter e rest"
  have len: "length e = (1 + unat (e ! 126)) * 128" "128 \<le> length e" "length e \<le> 256 * 128"
    using wf unat_byte_lt [of "e ! 126"] by (auto simp: edid_wf_def)
  have i: "rd16 0 ?m = of_nat (0x14 + length e)" by (simp add: edid_reply_def)
  have m: "drop 22 ?m = e @ rest" "rd16 2 ?m = 0x21" "length ?m = 22 + length e + length rest"
    by (simp_all add: edid_reply_def)
  have "unat (of_nat (0x14 + length e) :: u16) = 0x14 + length e"
    using len by (intro unat_size_field) simp
  then have decl: "edid_reply_len (rd16 0 ?m) = Some (length e)"
    using len unfolding i by (simp add: edid_reply_len_def Let_def del: of_nat_add)
  have "edid_blocks 1 (length e) (e @ rest) * 128 = length e"
  proof (rule edid_blocks_all)
    fix k :: nat assume k: "k * 128 + 128 \<le> length e"
    then have "k \<le> unat (e ! 126)" using len by simp
    with wf k show "block_sum (get (k * 128) 128 (e @ rest)) = 0" by (simp add: edid_wf_def)
  qed (use len in simp_all)
  then have blk: "edid_blocks 1 (length e) (e @ rest) = 1 + unat (e ! 126)"
    using len by simp
  have n: "min (min ((1 + unat ((e @ rest) ! 126)) * 128) (length (e @ rest))) (length e) = length e"
    using len by (simp add: nth_append)
  have "take 8 (e @ rest) = MAGIC" "block_sum (take 128 (e @ rest)) = 0"
      "get 8 4 (e @ rest) \<noteq> BRIDGE_ID"
    using wf len unfolding edid_wf_def by (auto simp: get_def dest: spec [of _ 0])
  then have "edid_from_inner ?m =
      Some (edid_restate (1 + unat (e ! 126)) (take ((1 + unat (e ! 126)) * 128) (e @ rest)))"
    using len(2) by (simp only: edid_from_inner_def m decl option.case if_True simp_thms Let_def n blk) simp
  also have "take ((1 + unat (e ! 126)) * 128) (e @ rest) = e"
    by (simp only: len(1) [symmetric]) simp
  finally show ?thesis
    by (simp add: edid_restate_def)
qed

section \<open>Properties\<close>

lemma parsed_edid_wf:
  assumes "parse_edid_from_reply aes cmac ks out_riv wire = Some e"
  shows "edid_wf e"
  using assms unfolding parse_edid_from_reply_def
  by (auto split: if_splits dest!: cp_channel.first_open_sound intro: edid_from_inner_wf)

text \<open>
  C7: Whatever the dock sends, an EDID the driver publishes is well formed: it has the base-block
  magic, is not the dock's own bridge descriptor, its length is that of the base block and exactly as
  many extension blocks as it declares, and every one of its blocks has a zero checksum, also when a
  corrupt extension was dropped and the count restated.
\<close>

theorem published_edid_wf:
  assumes "parse_edid_from_reply aes cmac ks out_riv wire = Some e"
  shows "edid_wf e"
  using assms by (rule parsed_edid_wf)

text \<open>
  C36: A well-formed EDID survives the round trip: sealed by the dock in a fetch reply under any of the
  supported nonces, it is returned byte for byte, extensions included, whatever follows it in the
  message.
\<close>

theorem edid_roundtrip:
  assumes "edid_wf e" and "riv \<in> set (inbound_reply_rivs out_riv)"
    and "\<And>r pt. r \<in> set (inbound_reply_rivs out_riv) \<Longrightarrow>
      drop 16 (dock_reply aes cmac ks riv sq (edid_reply counter e rest)) =
        drop 16 (dock_reply aes cmac ks r sq pt) \<Longrightarrow> pt = edid_reply counter e rest"
  shows "parse_edid_from_reply aes cmac ks out_riv
      (dock_reply aes cmac ks riv sq (edid_reply counter e rest)) = Some e"
  using assms first_open_unique [of riv "inbound_reply_rivs out_riv" edid_from_inner
      "edid_reply counter e rest" e]
  by (simp add: parse_edid_from_reply_def edid_from_inner_reply)

text \<open>A base block with one extension, for the witnesses.\<close>

definition example_edid :: bytes where
  "example_edid = MAGIC @ replicate 118 1 @ [1, 0x8F] @ replicate 128 2"

lemma example_edid_wf: "edid_wf example_edid"
proof -
  have "unat (example_edid ! 126) = 1" "block_sum (get 0 128 example_edid) = 0"
    "block_sum (get 128 128 example_edid) = 0" "length example_edid = 256"
    "take 8 example_edid = MAGIC" "get 8 4 example_edid \<noteq> BRIDGE_ID"
    by code_simp+
  then show ?thesis
    by (auto simp: edid_wf_def le_Suc_eq)
qed

theorem edid_roundtrip_witness:
  "parse_edid_from_reply (\<lambda>k b. 3) (\<lambda>k m. 9) [1] [1, 2, 3, 4, 5, 6, 7, 8]
      (dock_reply (\<lambda>k b. 3) (\<lambda>k m. 9) [1] [1, 2, 3, 4, 5, 6, 7, 9] 5 (edid_reply 2 example_edid [0])) =
    Some example_edid"
  by (rule edid_roundtrip [OF example_edid_wf])
    (auto simp: set_inbound_reply_rivs in_riv_def dest: sealed_body_const_cipher)

lemma parse_edid_example:
  "parse_edid_from_reply (\<lambda>k b. 3) (\<lambda>k m. 9) [1] [1, 2, 3, 4, 5, 6, 7, 8]
      (dock_reply (\<lambda>k b. 3) (\<lambda>k m. 9) [1] [1, 2, 3, 4, 5, 6, 7, 8] 5 (edid_reply 2 example_edid [0])) =
    Some example_edid"
proof -
  have "first_open (\<lambda>r. open_in (\<lambda>k b. 3) (\<lambda>k m. 9) [1] r 5) edid_from_inner
      (inbound_reply_rivs [1, 2, 3, 4, 5, 6, 7, 8])
      (sealed_body (\<lambda>k b. 3) (\<lambda>k m. 9) [1] 5 [1, 2, 3, 4, 5, 6, 7, 8] (edid_reply 2 example_edid [0])) =
      Some example_edid"
    by (rule first_open_unique)
      (auto simp: set_inbound_reply_rivs edid_from_inner_reply example_edid_wf
        dest: sealed_body_const_cipher)
  then show ?thesis by (simp add: parse_edid_from_reply_def)
qed

theorem published_edid_wf_witness: "edid_wf example_edid"
  by (rule published_edid_wf [OF parse_edid_example])

end
