(* ===== verification/Video_Arm.thy ===== *)
theory Video_Arm
  imports Vino_Prelude
begin

text \<open>
  The decoder configuration a stream opens with (\<open>chimera/vino/video_arm.rs\<close>): the mode header, the
  five decoder code tables in the form the dock generation takes, and the quantiser table. The
  tables are the dock's statement of the escape ceilings the encoder codes to.
\<close>

datatype CodeTables = Wide | Narrow

definition WIDE_TABLE_RECORD_LEN :: u16 where "WIDE_TABLE_RECORD_LEN = 194"
definition QUANT_TABLE_LEN :: u16 where "QUANT_TABLE_LEN = 82"
definition WIDE_TABLE_KIND :: u16 where "WIDE_TABLE_KIND = 0x000d"
definition NARROW_TABLE_KIND :: u16 where "NARROW_TABLE_KIND = 0x0009"
definition QUANT_TABLE_KIND :: u16 where "QUANT_TABLE_KIND = 0x000a"

definition CODE_TABLES :: "u32 list list" where
  "CODE_TABLES =
    [[0, 6, 0, 28, 0, 120, 0, 496, 0, 2016, 0, 8128, 0, 32640, 0, 130816, 262144, 0, 0, 0, 0, 0,
      0, 0, 0, 3, 0, 21, 0, 105, 0, 465, 0, 1953, 0, 8001, 0, 32385, 0, 130305, 261121, 0, 0, 0,
      0, 0, 0],
     [0, 6, 0, 28, 0, 120, 0, 496, 0, 2016, 0, 8128, 0, 32640, 0, 130816, 0, 523776, 1048576, 0,
      0, 0, 0, 0, 0, 3, 0, 21, 0, 105, 0, 465, 0, 1953, 0, 8001, 0, 32385, 0, 130305, 0, 522753,
      1046529, 0, 0, 0, 0],
     [0, 6, 0, 28, 0, 120, 0, 496, 0, 2016, 0, 8128, 0, 32640, 0, 130816, 0, 523776, 1048576, 0,
      0, 0, 0, 0, 0, 3, 0, 21, 0, 105, 0, 465, 0, 1953, 0, 8001, 0, 32385, 0, 130305, 0, 522753,
      1046529, 0, 0, 0, 0],
     [0, 6, 0, 28, 0, 120, 255, 512, 0, 0, 0, 0, 0, 0, 0, 0, 0, 0, 0, 0, 0, 0, 0, 0, 0, 3, 0, 21,
      0, 105, 225, 480, 0, 0, 0, 0, 0, 0, 0, 0, 0, 0, 0, 0, 0, 0, 0],
     [0, 6, 0, 28, 0, 120, 0, 496, 0, 2016, 0, 8128, 16383, 32768, 0, 0, 0, 0, 0, 0, 0, 0, 0, 0,
      0, 3, 0, 21, 0, 105, 0, 465, 0, 1953, 0, 8001, 16129, 32512, 0, 0, 0, 0, 0, 0, 0, 0, 0]]"

definition NARROW_CODE_TABLES :: "u16 list list" where
  "NARROW_CODE_TABLES =
    [[1, 0, 2, 0, 4, 0, 8, 0, 16, 0, 32, 0, 64, 0, 128, 0, 256, 512],
     [1, 0, 2, 0, 4, 0, 8, 0, 16, 0, 32, 0, 64, 0, 128, 0, 256, 0, 512, 1024],
     [1, 0, 2, 0, 4, 0, 8, 0, 16, 0, 32, 0, 64, 0, 128, 0, 256, 0, 512, 1024],
     [1, 0, 2, 0, 4, 0, 8, 15, 2],
     [1, 0, 2, 0, 4, 0, 8, 0, 16, 0, 32, 0, 64, 127, 2]]"

definition QUANT_TABLE :: "u16 list" where
  "QUANT_TABLE =
    [10, 1, 1, 0, 64, 64, 16, 16, 16, 16, 16, 16, 16, 32, 32, 32, 1, 1, 1, 16, 16, 4, 16, 16, 4, 32,
     32, 8, 1, 1, 1, 32, 32, 2, 32, 32, 2, 64, 64, 4, 0]"

definition push_u16 :: "bytes \<Rightarrow> u16 \<Rightarrow> bytes" where
  "push_u16 out v = out @ le16 v"

definition push_u32 :: "bytes \<Rightarrow> u32 \<Rightarrow> bytes" where
  "push_u32 out v = out @ le32 v"

text \<open>\<open>out[i * 2..i * 2 + 2]\<close> over an array of exactly that many words is their concatenation.\<close>

definition mode_header :: "u16 \<Rightarrow> u16 \<Rightarrow> u16 \<Rightarrow> bool \<Rightarrow> bytes" where
  "mode_header width height layout_word ten_bit =
    (let format = (if ten_bit then 0x0003 else 0x0002)
     in concat (map le16 [0x0018, 0x030b, 0x0204, 0x0002, format, width, height, layout_word, format,
          width, height, layout_word, 0]))"

definition code_table_step :: "nat \<Rightarrow> u32 list \<Rightarrow> u32 list" where
  "code_table_step n t =
    (let v = ucast ((2 ^ n * (2 ^ (n + 1) - 1)) :: u64);
         t = t[2 * n - 1 := v]
     in t[24 + 2 * n - 1 := v - (2 ^ (n + 1) - 1)])"

definition code_table :: "nat \<Rightarrow> u32 list" where
  "code_table naturals =
    (let t = fold code_table_step [1..<naturals + 1] (replicate 47 0);
         last = (2 ^ (2 * naturals + 2) :: u32);
         t = t[2 * naturals := last]
     in t[24 + 2 * naturals := last - (2 ^ (naturals + 2) - 1)])"

definition DEEP_NATURALS :: "nat list" where
  "DEEP_NATURALS = [10, 11, 11, 0, 0]"

definition wide_table :: "bool \<Rightarrow> nat \<Rightarrow> u32 list" where
  "wide_table ten_bit index =
    (if ten_bit \<and> DEEP_NATURALS ! index \<noteq> 0 then code_table (DEEP_NATURALS ! index)
     else CODE_TABLES ! index)"

definition wide_record :: "bool \<Rightarrow> nat \<Rightarrow> bytes" where
  "wide_record ten_bit index =
    foldl push_u32
      (push_u32 (push_u16 (push_u16 [] WIDE_TABLE_RECORD_LEN)
        (push_bit 8 (of_nat index) OR WIDE_TABLE_KIND)) 1)
      (wide_table ten_bit index)"

definition narrow_record :: "nat \<Rightarrow> bytes" where
  "narrow_record index =
    (let table = NARROW_CODE_TABLES ! index in
     foldl push_u16
      (push_u16 (push_u16 (push_u16 [] (4 + 2 * of_nat (length table)))
        (push_bit 8 (of_nat index) OR NARROW_TABLE_KIND)) (of_nat (length table)))
      table)"

definition build_config :: "CodeTables \<Rightarrow> bytes \<Rightarrow> bytes \<Rightarrow> bool \<Rightarrow> bytes" where
  "build_config tables hdr tail ten_bit =
    hdr @
    (case tables of
       Wide \<Rightarrow> concat (map (wide_record ten_bit) [0..<length CODE_TABLES])
     | Narrow \<Rightarrow> concat (map narrow_record [0..<length NARROW_CODE_TABLES])) @
    foldl push_u16 (push_u16 [] QUANT_TABLE_LEN) QUANT_TABLE @ tail"

section \<open>Lemmas\<close>

lemma foldl_push_u16: "foldl push_u16 out vs = out @ concat (map le16 vs)"
  by (induction vs arbitrary: out) (simp_all add: push_u16_def)

lemma foldl_push_u32: "foldl push_u32 out vs = out @ concat (map le32 vs)"
  by (induction vs arbitrary: out) (simp_all add: push_u32_def)

lemma length_concat_le [simp]:
  "length (concat (map le16 vs)) = 2 * length vs" "length (concat (map le32 ws)) = 4 * length ws"
  by (induction vs, simp_all) (induction ws, simp_all)

lemma length_mode_header [simp]: "length (mode_header w h l t) = 26"
  by (simp add: mode_header_def Let_def)

lemma length_code_table [simp]: "length (code_table n) = 47"
proof -
  have "length (fold code_table_step ns t) = length t" for ns t
    by (induction ns arbitrary: t) (simp_all add: code_table_step_def Let_def)
  then show ?thesis by (simp add: code_table_def Let_def)
qed

lemma length_wide_table: "i < 5 \<Longrightarrow> length (wide_table t i) = 47"
  by (auto simp: wide_table_def CODE_TABLES_def less_Suc_eq numeral_eq_Suc)

lemma length_wide_record: "i < 5 \<Longrightarrow> length (wide_record t i) = 196"
  by (simp add: wide_record_def foldl_push_u32 length_wide_table push_u16_def push_u32_def)

lemma length_narrow_record:
  "length (narrow_record i) = 6 + 2 * length (NARROW_CODE_TABLES ! i)"
  by (simp add: narrow_record_def Let_def foldl_push_u16 push_u16_def)

text \<open>
  A decoder's view of a table: the records of a configuration laid end to end, each as long as its
  own length field says.
\<close>

fun config_records :: "nat \<Rightarrow> bytes \<Rightarrow> (u16 \<times> bytes) list \<times> bytes" where
  "config_records 0 b = ([], b)"
| "config_records (Suc n) b =
    (if length b < 4 then ([], b)
     else let len = unat (rd16 0 b) in
       if length b < 2 + len then ([], b)
       else case config_records n (drop (2 + len) b) of
         (rs, rest) \<Rightarrow> ((rd16 2 b, get 4 (len - 2) b) # rs, rest))"

lemma config_records_step:
  assumes "unat len = length payload + 2"
  shows "config_records (Suc n) (le16 len @ le16 kind @ payload @ rest) =
    (case config_records n rest of (rs, r) \<Rightarrow> ((kind, payload) # rs, r))"
proof -
  let ?b = "le16 len @ le16 kind @ payload @ rest"
  have "rd16 2 ?b = kind" "rd16 0 ?b = len" "get 4 (length payload) ?b = payload" by simp_all
  with assms show ?thesis
    by (simp add: Let_def del: rd16_append2 split: prod.splits)
qed

lemma mode_header_record:
  "mode_header w h l t = le16 0x18 @ le16 0x030b @ drop 4 (mode_header w h l t)"
  by (simp add: mode_header_def Let_def le16_def)

lemma wide_record_split:
  "wide_record t i = le16 WIDE_TABLE_RECORD_LEN @ le16 (push_bit 8 (of_nat i) OR WIDE_TABLE_KIND) @
    (le32 1 @ concat (map le32 (wide_table t i)))"
  by (simp add: wide_record_def foldl_push_u32 push_u16_def push_u32_def)

lemma narrow_record_split:
  "narrow_record i = le16 (4 + 2 * of_nat (length (NARROW_CODE_TABLES ! i))) @
    le16 (push_bit 8 (of_nat i) OR NARROW_TABLE_KIND) @
    (le16 (of_nat (length (NARROW_CODE_TABLES ! i))) @ concat (map le16 (NARROW_CODE_TABLES ! i)))"
  by (simp add: narrow_record_def Let_def foldl_push_u16 push_u16_def)

lemma quant_record_split:
  "foldl push_u16 (push_u16 [] QUANT_TABLE_LEN) QUANT_TABLE =
    le16 QUANT_TABLE_LEN @ le16 QUANT_TABLE_KIND @ concat (map le16 (tl QUANT_TABLE))"
  by (simp add: foldl_push_u16 push_u16_def QUANT_TABLE_def QUANT_TABLE_KIND_def)

lemma replicate_numeral_eq: "replicate (numeral k) x = x # replicate (pred_numeral k) x"
  by (simp add: numeral_eq_Suc)

text \<open>The generator reproduces the tables captured at 24 bits per pixel.\<close>

lemma code_table_captured:
  "code_table 8 = CODE_TABLES ! 0" "code_table 9 = CODE_TABLES ! 1" "code_table 9 = CODE_TABLES ! 2"
  by (simp_all add: code_table_def code_table_step_def Let_def CODE_TABLES_def upt_rec
      replicate_numeral_eq)

section \<open>Properties\<close>

text \<open>
  The wide configuration is a well-formed chain of records: walked by its own length fields it
  is the mode header, the five code tables in index order, the quantiser table, and then exactly the
  tail the caller supplied, whatever the mode and the depth.
\<close>

lemma wide_config_parses:
  "config_records 7 (build_config Wide (mode_header w h l t) tail t) =
    ((0x030b, drop 4 (mode_header w h l t)) #
     map (\<lambda>i. (of_nat i * 256 + 0x000d, le32 1 @ concat (map le32 (wide_table t i)))) [0, 1, 2, 3, 4] @
     [(0x000a, concat (map le16 (tl QUANT_TABLE)))], tail)"
proof -
  have rec: "config_records (Suc n) (wide_record t i @ rest) =
      (case config_records n rest of (rs, r) \<Rightarrow>
        ((push_bit 8 (of_nat i) OR WIDE_TABLE_KIND, le32 1 @ concat (map le32 (wide_table t i))) # rs, r))"
    if "i < 5" for i n rest
    using config_records_step [of WIDE_TABLE_RECORD_LEN "le32 1 @ concat (map le32 (wide_table t i))"
        n _ rest] length_wide_table [OF that, of t]
    by (simp add: wide_record_split WIDE_TABLE_RECORD_LEN_def)
  have hdr: "config_records (Suc n) (mode_header w h l t @ rest) =
      (case config_records n rest of (rs, r) \<Rightarrow> ((0x030b, drop 4 (mode_header w h l t)) # rs, r))"
    for n rest
    using config_records_step [of "0x18" "drop 4 (mode_header w h l t)" n "0x030b" rest]
    by (subst mode_header_record) simp
  have quant: "config_records (Suc n) (foldl push_u16 (push_u16 [] QUANT_TABLE_LEN) QUANT_TABLE @ rest) =
      (case config_records n rest of (rs, r) \<Rightarrow> ((0x000a, concat (map le16 (tl QUANT_TABLE))) # rs, r))"
    for n rest
    using config_records_step [of QUANT_TABLE_LEN "concat (map le16 (tl QUANT_TABLE))"
        n QUANT_TABLE_KIND rest]
    by (subst quant_record_split) (simp add: QUANT_TABLE_LEN_def QUANT_TABLE_def QUANT_TABLE_KIND_def)
  have cfg: "build_config Wide (mode_header w h l t) tail t =
      mode_header w h l t @ wide_record t 0 @ wide_record t 1 @ wide_record t 2 @ wide_record t 3 @
      wide_record t 4 @ foldl push_u16 (push_u16 [] QUANT_TABLE_LEN) QUANT_TABLE @ tail"
    by (simp add: build_config_def CODE_TABLES_def upt_rec numeral_eq_Suc)
  have "config_records (Suc (Suc (Suc (Suc (Suc (Suc (Suc 0)))))))
      (build_config Wide (mode_header w h l t) tail t) =
    ((0x030b, drop 4 (mode_header w h l t)) #
     map (\<lambda>i. (of_nat i * 256 + 0x000d, le32 1 @ concat (map le32 (wide_table t i)))) [0, 1, 2, 3, 4] @
     [(0x000a, concat (map le16 (tl QUANT_TABLE)))], tail)"
    unfolding cfg
    by (simp add: hdr rec quant WIDE_TABLE_KIND_def del: config_records.simps(2)
        append_assoc [symmetric])
  then show ?thesis by (simp only: numeral_eq_Suc pred_numeral_simps BitM.simps)
qed

end
