(* ===== verification/Haar_Transform.thy ===== *)
theory Haar_Transform
  imports Vino_Prelude
begin

text \<open>
  The colour transform, the three-level Haar transform and the quantisers
  (\<open>chimera/vino/video/haar/transform.rs\<close>, \<open>chimera/vino/video/mod.rs\<close>). \<open>i32\<close> values are integers: the bounds
  proved here show that nothing leaves that range on samples of either depth. \<open>x >> n\<close> on a signed
  value is floor division by $2^n$.
\<close>

section \<open>Sample depth\<close>

datatype Depth = Eight | Ten

definition SOLID_DC_CMAX :: nat where "SOLID_DC_CMAX = 10"
definition AC_CMAX :: nat where "AC_CMAX = 9"
definition CHROMA_AC_CMAX :: nat where "CHROMA_AC_CMAX = 10"

fun dc_cmax :: "Depth \<Rightarrow> nat" where
  "dc_cmax Eight = SOLID_DC_CMAX"
| "dc_cmax Ten = SOLID_DC_CMAX + 2"

fun ac_cmax :: "Depth \<Rightarrow> nat" where
  "ac_cmax Eight = AC_CMAX"
| "ac_cmax Ten = AC_CMAX + 2"

fun chroma_ac_cmax :: "Depth \<Rightarrow> nat" where
  "chroma_ac_cmax Eight = CHROMA_AC_CMAX"
| "chroma_ac_cmax Ten = CHROMA_AC_CMAX + 2"

text \<open>The largest sample of a depth.\<close>

fun sample_max :: "Depth \<Rightarrow> int" where
  "sample_max Eight = 255"
| "sample_max Ten = 1023"

section \<open>Colour\<close>

text \<open>\<open>(Y, Cb, Cr)\<close> in the codec's 64-fold fixed point.\<close>

definition colour :: "int \<Rightarrow> int \<Rightarrow> int \<Rightarrow> int \<times> int \<times> int" where
  "colour r g b =
    (let cb = r - g; cr = b - g in (64 * g + 64 * ((cb + cr) div 4), 64 * cb, 64 * cr))"

section \<open>The transform\<close>

definition DIM :: nat where "DIM = 8"
definition PIXELS :: nat where "PIXELS = 64"
definition COEFFS :: nat where "COEFFS = 64"

text \<open>
  One separable step over an \<open>n\<close> by \<open>n\<close> block with \<open>h = n / 2\<close>: the row pass fills \<open>l\<close> and \<open>hb\<close>, the
  column pass the four bands. The arrays are written in full, so each is the list of its elements.
\<close>

definition haar2d :: "nat \<Rightarrow> nat \<Rightarrow> int list \<Rightarrow> int list \<times> int list \<times> int list \<times> int list" where
  "haar2d n h src =
    (let l = concat (map (\<lambda>r. map (\<lambda>i. src ! (r * n + 2 * i) + src ! (r * n + 2 * i + 1)) [0..<h]) [0..<n]);
         hb = concat (map (\<lambda>r. map (\<lambda>i. src ! (r * n + 2 * i) - src ! (r * n + 2 * i + 1)) [0..<h]) [0..<n]);
         ll = concat (map (\<lambda>i. map (\<lambda>c. l ! (2 * i * h + c) + l ! ((2 * i + 1) * h + c)) [0..<h]) [0..<h]);
         lh = concat (map (\<lambda>i. map (\<lambda>c. l ! (2 * i * h + c) - l ! ((2 * i + 1) * h + c)) [0..<h]) [0..<h]);
         hl = concat (map (\<lambda>i. map (\<lambda>c. hb ! (2 * i * h + c) + hb ! ((2 * i + 1) * h + c)) [0..<h]) [0..<h]);
         hh = concat (map (\<lambda>i. map (\<lambda>c. hb ! (2 * i * h + c) - hb ! ((2 * i + 1) * h + c)) [0..<h]) [0..<h])
     in (ll, hl, lh, hh))"

definition SCAN4_MORTON :: "nat list" where
  "SCAN4_MORTON = [0, 2, 8, 10, 1, 3, 9, 11, 4, 6, 12, 14, 5, 7, 13, 15]"

definition transform :: "int list \<Rightarrow> int list" where
  "transform block =
    (let sh = (\<lambda>x. x div 64);
         (ll1, hl1, lh1, hh1) = haar2d 8 4 block;
         (ll2, hl2, lh2, hh2) = haar2d 4 2 ll1;
         (ll3, hl3, lh3, hh3) = haar2d 2 1 ll2
     in [sh (ll3 ! 0), sh (hl3 ! 0), sh (lh3 ! 0), sh (hh3 ! 0)] @
        map sh hl2 @ map sh lh2 @ map sh hh2 @
        map (\<lambda>i. sh (hl1 ! (SCAN4_MORTON ! i))) [0..<16] @
        map (\<lambda>i. sh (lh1 ! (SCAN4_MORTON ! i))) [0..<16] @
        map (\<lambda>i. sh (hh1 ! (SCAN4_MORTON ! i))) [0..<16])"

section \<open>Quantisers\<close>

definition step_bias :: "nat \<Rightarrow> nat \<times> int" where
  "step_bias i =
    (if i = 0 then (4, 8) else if i = 1 \<or> i = 2 then (4, 8) else if i = 3 then (5, 16)
     else if 4 \<le> i \<and> i \<le> 11 then (2, 2) else if 12 \<le> i \<and> i \<le> 15 then (3, 4)
     else if 16 \<le> i \<and> i \<le> 47 then (1, 0) else (2, 2))"

definition chroma_ac_shift :: "nat \<Rightarrow> nat" where
  "chroma_ac_shift i = (if i = 1 \<or> i = 2 \<or> (4 \<le> i \<and> i \<le> 11) then 4 else if 48 \<le> i then 6 else 5)"

definition clamp :: "int \<Rightarrow> int \<Rightarrow> int \<Rightarrow> int" where
  "clamp lo hi x = max lo (min hi x)"

definition quantize :: "int \<Rightarrow> nat \<Rightarrow> int" where
  "quantize coeff i =
    (let (shift, bias) = step_bias i;
         q = (if bias = 0
              then let q = \<bar>coeff\<bar> div 2 ^ shift in if coeff < 0 then - q else q
              else (coeff + bias) div 2 ^ shift)
     in clamp (-2048) 2047 q)"

definition quantize_chroma_ac :: "int \<Rightarrow> nat \<Rightarrow> int" where
  "quantize_chroma_ac coeff i =
    (let shift = chroma_ac_shift i in (coeff + 2 ^ (shift - 1)) div 2 ^ shift)"

definition quantize_dc_round :: "nat \<Rightarrow> int \<Rightarrow> int" where
  "quantize_dc_round plane v =
    (let shift = (if plane = 0 then 4 else 6) :: nat in (v + 2 ^ (shift - 1)) div 2 ^ shift)"

section \<open>One level of the transform on the four pixels under it\<close>

text \<open>
  Band element \<open>(i, c)\<close> depends on the four source elements at rows \<open>2i\<close>, \<open>2i+1\<close> and columns \<open>2c\<close>, \<open>2c+1\<close>,
  by the four sign patterns of the Haar basis.
\<close>

definition quad :: "int \<Rightarrow> int \<Rightarrow> nat \<Rightarrow> int list \<Rightarrow> nat \<Rightarrow> nat \<Rightarrow> int" where
  "quad sx sy n src i c =
    src ! (2 * i * n + 2 * c) + sx * src ! (2 * i * n + 2 * c + 1) +
    sy * (src ! ((2 * i + 1) * n + 2 * c) + sx * src ! ((2 * i + 1) * n + 2 * c + 1))"

definition band :: "int \<Rightarrow> int \<Rightarrow> nat \<Rightarrow> nat \<Rightarrow> int list \<Rightarrow> int list" where
  "band sx sy n h src = concat (map (\<lambda>i. map (\<lambda>c. quad sx sy n src i c) [0..<h]) [0..<h])"

lemma nth_concat_rows:
  "i < n \<Longrightarrow> c < h \<Longrightarrow> concat (map (\<lambda>r. map (f r) [0..<h]) [0..<n]) ! (i * h + c) = f i c"
proof (induction n)
  case (Suc n)
  have len: "length (concat (map (\<lambda>r. map (f r) [0..<h]) [0..<n])) = n * h"
    by (induction n) (simp_all add: algebra_simps)
  show ?case
  proof (cases "i = n")
    case True
    then show ?thesis using Suc.prems len by (simp add: nth_append)
  next
    case False
    then have "i < n" using Suc.prems by simp
    moreover have "i * h + c < n * h"
    proof -
      have "i * h + c < i * h + h" using Suc.prems by simp
      also have "\<dots> = Suc i * h" by simp
      also have "\<dots> \<le> n * h" using \<open>i < n\<close> by (intro mult_right_mono) simp_all
      finally show ?thesis .
    qed
    ultimately show ?thesis using Suc len by (simp add: nth_append)
  qed
qed simp

lemma concat_rows_cong:
  "(\<And>i c. i < n \<Longrightarrow> c < h \<Longrightarrow> f i c = g i c) \<Longrightarrow>
    concat (map (\<lambda>i. map (f i) [0..<h]) [0..<n]) = concat (map (\<lambda>i. map (g i) [0..<h]) [0..<n])"
  by (auto intro!: arg_cong [where f = concat])

lemma length_concat_rows: "length (concat (map (\<lambda>i. map (f i) [0..<h]) [0..<n])) = n * h"
  by (induction n) (simp_all add: algebra_simps)

lemma haar2d_bands:
  assumes "n = 2 * h"
  shows "haar2d n h src = (band 1 1 n h src, band (-1) 1 n h src, band 1 (-1) n h src, band (-1) (-1) n h src)"
proof -
  have rows: "2 * i < n" "2 * i + 1 < n" if "i < h" for i
    using that assms by simp_all
  show ?thesis
    unfolding haar2d_def Let_def band_def
    by (intro arg_cong2 [where f = Pair] concat_rows_cong)
      (simp_all only: nth_concat_rows rows quad_def, simp_all)
qed

lemma length_band [simp]: "length (band sx sy n h src) = h * h"
  by (simp add: band_def length_concat_rows)

lemma nth_band: "i < h \<Longrightarrow> c < h \<Longrightarrow> band sx sy n h src ! (i * h + c) = quad sx sy n src i c"
  unfolding band_def by (rule nth_concat_rows)

lemma quad_index:
  fixes i c h n :: nat
  assumes "i < h" "c < h" "n = 2 * h"
  shows "2 * i * n + 2 * c < n * n" "2 * i * n + 2 * c + 1 < n * n"
    "(2 * i + 1) * n + 2 * c < n * n" "(2 * i + 1) * n + 2 * c + 1 < n * n"
proof -
  have "(2 * i + 1) * n + 2 * c + 1 < (2 * i + 1) * n + n" using assms by simp
  also have "\<dots> = (2 * i + 2) * n" by simp
  also have "\<dots> \<le> n * n" using assms by (intro mult_right_mono) simp_all
  finally show top: "(2 * i + 1) * n + 2 * c + 1 < n * n" .
  then show "(2 * i + 1) * n + 2 * c < n * n" "2 * i * n + 2 * c < n * n" "2 * i * n + 2 * c + 1 < n * n"
    by simp_all
qed

lemma band_scale:
  assumes "n = 2 * h" and "length src = n * n"
  shows "band sx sy n h (map ((*) k) src) = map ((*) k) (band sx sy n h src)"
proof -
  have "quad sx sy n (map ((*) k) src) i c = k * quad sx sy n src i c" if "i < h" "c < h" for i c
    using quad_index [OF that assms(1)] assms(2) by (simp add: quad_def algebra_simps)
  then show ?thesis
    unfolding band_def by (simp add: map_concat comp_def cong: concat_rows_cong)
qed

section \<open>The inverse, and the transform on fixed-point blocks\<close>

definition unhaar2d :: "nat \<Rightarrow> nat \<Rightarrow> int list \<times> int list \<times> int list \<times> int list \<Rightarrow> int list" where
  "unhaar2d n h bands =
    (case bands of (ll, hl, lh, hh) \<Rightarrow>
      concat (map (\<lambda>r. map (\<lambda>k.
        let q = r div 2 * h + k div 2;
            sx = (if even k then 1 else -1);
            sy = (if even r then 1 else -1)
        in (ll ! q + sx * hl ! q + sy * (lh ! q + sx * hh ! q)) div 4) [0..<n]) [0..<n]))"

lemma row_col_index:
  assumes "j < n * (n :: nat)"
  shows "j div n < n" "j mod n < n" "j div n * n + j mod n = j"
proof -
  have "0 < n" using assms by (cases n) auto
  then show "j div n < n" "j mod n < n" "j div n * n + j mod n = j"
    using assms by (simp_all add: less_mult_imp_div_less)
qed

lemma unhaar2d_haar2d:
  assumes n: "n = 2 * h" and len: "length src = n * n"
  shows "unhaar2d n h (haar2d n h src) = src"
proof (rule nth_equalityI)
  show "length (unhaar2d n h (haar2d n h src)) = length src"
    by (simp add: unhaar2d_def haar2d_bands [OF n] length_concat_rows len)
  fix j assume "j < length (unhaar2d n h (haar2d n h src))"
  then have j: "j < n * n"
    by (simp add: unhaar2d_def haar2d_bands [OF n] length_concat_rows)
  define r c where "r = j div n" and "c = j mod n"
  have rc: "r < n" "c < n" "j = r * n + c"
    using row_col_index [OF j] by (simp_all add: r_def c_def)
  have q: "r div 2 < h" "c div 2 < h" using rc n by simp_all
  have "unhaar2d n h (haar2d n h src) ! j =
      (let sx = (if even c then 1 else -1); sy = (if even r then 1 else -1) in
       (quad 1 1 n src (r div 2) (c div 2) + sx * quad (-1) 1 n src (r div 2) (c div 2) +
        sy * (quad 1 (-1) n src (r div 2) (c div 2) + sx * quad (-1) (-1) n src (r div 2) (c div 2))) div 4)"
    unfolding unhaar2d_def haar2d_bands [OF n] prod.case rc(3) nth_concat_rows [OF rc(1,2)]
    by (simp only: Let_def nth_band [OF q])
  also have "\<dots> = src ! (r * n + c)"
  proof -
    obtain R x where r: "r = 2 * R + x" "x = 0 \<or> x = 1"
      using div_mult_mod_eq [of r 2] by (metis mult.commute mod2_eq_if)
    obtain C y where c: "c = 2 * C + y" "y = 0 \<or> y = 1"
      using div_mult_mod_eq [of c 2] by (metis mult.commute mod2_eq_if)
    show ?thesis
      using r(2) c(2) unfolding r(1) c(1) by (auto simp: quad_def Let_def)
  qed
  finally show "unhaar2d n h (haar2d n h src) ! j = src ! j" by (simp add: rc(3))
qed

definition UNSCAN4 :: "nat list" where
  "UNSCAN4 = [0, 4, 1, 5, 8, 12, 9, 13, 2, 6, 3, 7, 10, 14, 11, 15]"

definition scan4 :: "int list \<Rightarrow> int list" where
  "scan4 b = map (\<lambda>i. b ! (SCAN4_MORTON ! i)) [0..<16]"

definition unscan4 :: "int list \<Rightarrow> int list" where
  "unscan4 c = map (\<lambda>i. c ! (UNSCAN4 ! i)) [0..<16]"

lemma unscan4_scan4: "length b = 16 \<Longrightarrow> unscan4 (scan4 b) = b"
  unfolding unscan4_def scan4_def UNSCAN4_def SCAN4_MORTON_def
  by (rule nth_equalityI) (auto simp: less_Suc_eq numeral_eq_Suc)

lemma length_scan4 [simp]: "length (scan4 b) = 16"
  by (simp add: scan4_def)

definition inverse_transform :: "int list \<Rightarrow> int list" where
  "inverse_transform c =
    (let ll2 = unhaar2d 2 1 ([c ! 0], [c ! 1], [c ! 2], [c ! 3]);
         ll1 = unhaar2d 4 2 (ll2, get 4 4 c, get 8 4 c, get 12 4 c)
     in unhaar2d 8 4 (ll1, unscan4 (get 16 16 c), unscan4 (get 32 16 c), unscan4 (get 48 16 c)))"

text \<open>The nested low bands, and the coefficients of a block before the final division.\<close>

definition low1 :: "int list \<Rightarrow> int list" where "low1 p = band 1 1 8 4 p"
definition low2 :: "int list \<Rightarrow> int list" where "low2 p = band 1 1 4 2 (low1 p)"

definition raw_coeffs :: "int list \<Rightarrow> int list" where
  "raw_coeffs p =
    [band 1 1 2 1 (low2 p) ! 0, band (-1) 1 2 1 (low2 p) ! 0, band 1 (-1) 2 1 (low2 p) ! 0,
     band (-1) (-1) 2 1 (low2 p) ! 0] @
    band (-1) 1 4 2 (low1 p) @ band 1 (-1) 4 2 (low1 p) @ band (-1) (-1) 4 2 (low1 p) @
    scan4 (band (-1) 1 8 4 p) @ scan4 (band 1 (-1) 8 4 p) @ scan4 (band (-1) (-1) 8 4 p)"

lemma length_low [simp]: "length (low1 p) = 16" "length (low2 p) = 4"
  by (simp_all add: low1_def low2_def)

lemma length_raw_coeffs [simp]: "length (raw_coeffs p) = 64"
  by (simp add: raw_coeffs_def)

lemma transform_raw: "transform p = map (\<lambda>x. x div 64) (raw_coeffs p)"
proof -
  have "haar2d 8 4 p = (low1 p, band (-1) 1 8 4 p, band 1 (-1) 8 4 p, band (-1) (-1) 8 4 p)"
    "haar2d 4 2 (low1 p) =
      (low2 p, band (-1) 1 4 2 (low1 p), band 1 (-1) 4 2 (low1 p), band (-1) (-1) 4 2 (low1 p))"
    "haar2d 2 1 (low2 p) =
      (band 1 1 2 1 (low2 p), band (-1) 1 2 1 (low2 p), band 1 (-1) 2 1 (low2 p), band (-1) (-1) 2 1 (low2 p))"
    by (simp_all add: haar2d_bands low1_def low2_def)
  then show ?thesis
    by (simp add: transform_def raw_coeffs_def scan4_def Let_def comp_def)
qed

lemma length_transform [simp]: "length (transform p) = 64"
  by (simp add: transform_raw)

lemma raw_coeffs_scale:
  assumes "length p = 64"
  shows "raw_coeffs (map ((*) k) p) = map ((*) k) (raw_coeffs p)"
proof -
  have l1: "low1 (map ((*) k) p) = map ((*) k) (low1 p)"
    unfolding low1_def by (rule band_scale) (simp_all add: assms)
  then have l2: "low2 (map ((*) k) p) = map ((*) k) (low2 p)"
    unfolding low2_def by (simp only:) (rule band_scale; simp)
  have b: "band sx sy 8 4 (map ((*) k) p) = map ((*) k) (band sx sy 8 4 p)"
    "band sx sy 4 2 (map ((*) k) (low1 p)) = map ((*) k) (band sx sy 4 2 (low1 p))"
    "band sx sy 2 1 (map ((*) k) (low2 p)) = map ((*) k) (band sx sy 2 1 (low2 p))" for sx sy
    by (intro band_scale; simp add: assms)+
  have s: "scan4 (map ((*) k) b) = map ((*) k) (scan4 b)" if "length b = 16" for b
    using that by (auto simp: scan4_def SCAN4_MORTON_def less_Suc_eq numeral_eq_Suc)
  show ?thesis
    by (simp add: raw_coeffs_def l1 l2 b s del: One_nat_def)
qed

lemma transform_scaled:
  "length p = 64 \<Longrightarrow> transform (map ((*) 64) p) = raw_coeffs p"
  by (simp add: transform_raw raw_coeffs_scale comp_def)

lemma inverse_raw_coeffs:
  assumes "length p = 64"
  shows "inverse_transform (raw_coeffs p) = p"
proof -
  let ?c = "raw_coeffs p"
  have one: "[b ! 0] = b" if "length b = Suc 0" for b :: "int list"
    using that by (cases b) auto
  have "unhaar2d 2 1 ([?c ! 0], [?c ! 1], [?c ! 2], [?c ! 3]) = unhaar2d 2 1 (haar2d 2 1 (low2 p))"
    by (simp add: haar2d_bands raw_coeffs_def one del: length_band)
      (simp add: one)
  then have l2: "unhaar2d 2 1 ([?c ! 0], [?c ! 1], [?c ! 2], [?c ! 3]) = low2 p"
    by (simp add: unhaar2d_haar2d)
  have "unhaar2d 4 2 (low2 p, get 4 4 ?c, get 8 4 ?c, get 12 4 ?c) = unhaar2d 4 2 (haar2d 4 2 (low1 p))"
    by (simp add: haar2d_bands raw_coeffs_def low2_def get_def)
  then have l1: "unhaar2d 4 2 (low2 p, get 4 4 ?c, get 8 4 ?c, get 12 4 ?c) = low1 p"
    by (simp add: unhaar2d_haar2d)
  have "unhaar2d 8 4 (low1 p, unscan4 (get 16 16 ?c), unscan4 (get 32 16 ?c), unscan4 (get 48 16 ?c)) =
      unhaar2d 8 4 (haar2d 8 4 p)"
    by (simp add: haar2d_bands raw_coeffs_def low1_def get_def unscan4_scan4)
  then show ?thesis
    using assms by (simp add: inverse_transform_def Let_def l2 l1 unhaar2d_haar2d del: One_nat_def)
qed

section \<open>Ranges\<close>

definition within :: "int \<Rightarrow> int \<Rightarrow> int list \<Rightarrow> bool" where
  "within lo hi xs \<longleftrightarrow> (\<forall>x \<in> set xs. lo \<le> x \<and> x \<le> hi)"

lemma within_nth: "within lo hi xs \<Longrightarrow> i < length xs \<Longrightarrow> lo \<le> xs ! i \<and> xs ! i \<le> hi"
  by (simp add: within_def)

lemma within_append: "within lo hi (xs @ ys) \<longleftrightarrow> within lo hi xs \<and> within lo hi ys"
  by (auto simp: within_def)

lemma butterfly_range:
  fixes a b c d lo hi :: int
  assumes "lo \<le> a" "a \<le> hi" "lo \<le> b" "b \<le> hi" "lo \<le> c" "c \<le> hi" "lo \<le> d" "d \<le> hi"
  shows "4 * lo \<le> a + 1 * b + 1 * (c + 1 * d) \<and> a + 1 * b + 1 * (c + 1 * d) \<le> 4 * hi"
    "2 * (lo - hi) \<le> a + - 1 * b + 1 * (c + - 1 * d) \<and> a + - 1 * b + 1 * (c + - 1 * d) \<le> 2 * (hi - lo)"
    "2 * (lo - hi) \<le> a + 1 * b + - 1 * (c + 1 * d) \<and> a + 1 * b + - 1 * (c + 1 * d) \<le> 2 * (hi - lo)"
    "2 * (lo - hi) \<le> a + - 1 * b + - 1 * (c + - 1 * d) \<and>
      a + - 1 * b + - 1 * (c + - 1 * d) \<le> 2 * (hi - lo)"
  using assms by simp_all

lemma within_band:
  assumes n: "n = 2 * h" and len: "length src = n * n" and src: "within lo hi src"
  shows "within (4 * lo) (4 * hi) (band 1 1 n h src)"
    and "within (2 * (lo - hi)) (2 * (hi - lo)) (band (-1) 1 n h src)"
    and "within (2 * (lo - hi)) (2 * (hi - lo)) (band 1 (-1) n h src)"
    and "within (2 * (lo - hi)) (2 * (hi - lo)) (band (-1) (-1) n h src)"
proof -
  have q: "lo \<le> src ! (2 * i * n + 2 * c)" "src ! (2 * i * n + 2 * c) \<le> hi"
      "lo \<le> src ! (2 * i * n + 2 * c + 1)" "src ! (2 * i * n + 2 * c + 1) \<le> hi"
      "lo \<le> src ! ((2 * i + 1) * n + 2 * c)" "src ! ((2 * i + 1) * n + 2 * c) \<le> hi"
      "lo \<le> src ! ((2 * i + 1) * n + 2 * c + 1)" "src ! ((2 * i + 1) * n + 2 * c + 1) \<le> hi"
    if "i < h" "c < h" for i c
    using within_nth [OF src] quad_index [OF that n] len by simp_all
  have all: "within l u (band sx sy n h src)"
    if "\<And>i c. i < h \<Longrightarrow> c < h \<Longrightarrow> l \<le> quad sx sy n src i c \<and> quad sx sy n src i c \<le> u" for l u sx sy
    using that by (auto simp: within_def band_def)
  show "within (4 * lo) (4 * hi) (band 1 1 n h src)"
  proof (rule all)
    fix i c assume "i < h" "c < h"
    then show "4 * lo \<le> quad 1 1 n src i c \<and> quad 1 1 n src i c \<le> 4 * hi"
      unfolding quad_def by (intro butterfly_range(1) q)
  qed
  show "within (2 * (lo - hi)) (2 * (hi - lo)) (band (-1) 1 n h src)"
  proof (rule all)
    fix i c assume "i < h" "c < h"
    then show "2 * (lo - hi) \<le> quad (-1) 1 n src i c \<and> quad (-1) 1 n src i c \<le> 2 * (hi - lo)"
      unfolding quad_def by (intro butterfly_range(2) q)
  qed
  show "within (2 * (lo - hi)) (2 * (hi - lo)) (band 1 (-1) n h src)"
  proof (rule all)
    fix i c assume "i < h" "c < h"
    then show "2 * (lo - hi) \<le> quad 1 (-1) n src i c \<and> quad 1 (-1) n src i c \<le> 2 * (hi - lo)"
      unfolding quad_def by (intro butterfly_range(3) q)
  qed
  show "within (2 * (lo - hi)) (2 * (hi - lo)) (band (-1) (-1) n h src)"
  proof (rule all)
    fix i c assume "i < h" "c < h"
    then show "2 * (lo - hi) \<le> quad (-1) (-1) n src i c \<and> quad (-1) (-1) n src i c \<le> 2 * (hi - lo)"
      unfolding quad_def by (intro butterfly_range(4) q)
  qed
qed

text \<open>The gain of a coefficient position: how many spans of the sample range it can reach.\<close>

definition gain :: "nat \<Rightarrow> int" where
  "gain i = (if i < 4 then 32 else if i < 16 then 8 else 2)"

lemma within_scan4: "length b = 16 \<Longrightarrow> within lo hi b \<Longrightarrow> within lo hi (scan4 b)"
  by (auto simp: within_def scan4_def SCAN4_MORTON_def less_Suc_eq numeral_eq_Suc)

lemma raw_coeffs_range:
  assumes len: "length p = 64" and p: "within lo hi p"
  shows "64 * lo \<le> raw_coeffs p ! 0 \<and> raw_coeffs p ! 0 \<le> 64 * hi"
    and "0 < i \<Longrightarrow> i < 64 \<Longrightarrow> \<bar>raw_coeffs p ! i\<bar> \<le> gain i * (hi - lo)"
proof -
  have l1: "within (4 * lo) (4 * hi) (low1 p)"
    unfolding low1_def using within_band(1) [of 8 4 p lo hi] len p by simp
  have l2: "within (16 * lo) (16 * hi) (low2 p)"
    unfolding low2_def using within_band(1) [of 4 2 "low1 p", OF _ _ l1] by simp
  note b3 = within_band [of 2 1 "low2 p", OF _ _ l2] within_band [of 4 2 "low1 p", OF _ _ l1]
    within_band [of 8 4 p, OF _ _ p]
  show "64 * lo \<le> raw_coeffs p ! 0 \<and> raw_coeffs p ! 0 \<le> 64 * hi"
    using within_nth [OF b3(1), of 0] by (simp add: raw_coeffs_def)
  have sc: "within (2 * (lo - hi)) (2 * (hi - lo)) (scan4 (band sx sy 8 4 p))"
    if "(sx, sy) \<in> {(-1, 1), (1, -1), (-1, -1)}" for sx sy
    using that b3(10-12) len by (auto intro!: within_scan4)
  have t3: "get 1 3 (raw_coeffs p) =
      [band (-1) 1 2 1 (low2 p) ! 0, band 1 (-1) 2 1 (low2 p) ! 0, band (-1) (-1) 2 1 (low2 p) ! 0]"
    by (simp add: raw_coeffs_def get_def)
  have t2: "get 4 12 (raw_coeffs p) =
      band (-1) 1 4 2 (low1 p) @ band 1 (-1) 4 2 (low1 p) @ band (-1) (-1) 4 2 (low1 p)"
    by (simp add: raw_coeffs_def get_def)
  have t1: "get 16 48 (raw_coeffs p) =
      scan4 (band (-1) 1 8 4 p) @ scan4 (band 1 (-1) 8 4 p) @ scan4 (band (-1) (-1) 8 4 p)"
    by (simp add: raw_coeffs_def get_def)
  have tails: "within (2 * (16 * lo - 16 * hi)) (2 * (16 * hi - 16 * lo)) (get 1 3 (raw_coeffs p))"
    "within (2 * (4 * lo - 4 * hi)) (2 * (4 * hi - 4 * lo)) (get 4 12 (raw_coeffs p))"
    "within (2 * (lo - hi)) (2 * (hi - lo)) (get 16 48 (raw_coeffs p))"
    unfolding t1 t2 t3 within_append
    using within_nth [OF b3(2), of 0] within_nth [OF b3(3), of 0] within_nth [OF b3(4), of 0]
      b3(6-8) sc
    by (simp_all add: within_def [of _ _ "_ # _"])
  have pick: "raw_coeffs p ! i = get a n (raw_coeffs p) ! (i - a)" if "a \<le> i" "i < a + n" "a + n \<le> 64" for a n i
    using that by (simp add: get_def)
  show "\<bar>raw_coeffs p ! i\<bar> \<le> gain i * (hi - lo)" if "0 < i" "i < 64"
  proof -
    consider "i < 4" | "4 \<le> i" "i < 16" | "16 \<le> i" by linarith
    then show ?thesis
    proof cases
      case 1
      then have "i - 1 < length (get 1 3 (raw_coeffs p))" using that by simp
      from within_nth [OF tails(1) this] pick [of 1 i 3] that 1 show ?thesis
        by (simp add: gain_def abs_le_iff)
    next
      case 2
      then have "i - 4 < length (get 4 12 (raw_coeffs p))" by simp
      from within_nth [OF tails(2) this] pick [of 4 i 12] 2 show ?thesis
        by (simp add: gain_def abs_le_iff)
    next
      case 3
      then have "i - 16 < length (get 16 48 (raw_coeffs p))" using that by simp
      from within_nth [OF tails(3) this] pick [of 16 i 48] that 3 show ?thesis
        by (simp add: gain_def abs_le_iff)
    qed
  qed
qed

lemma div_abs_bound: "0 < k \<Longrightarrow> - (k * u) \<le> x \<Longrightarrow> x < k * (u + 1) \<Longrightarrow> \<bar>x div k\<bar> \<le> (u :: int)"
proof -
  assume k: "0 < k" and lo: "- (k * u) \<le> x" and hi: "x < k * (u + 1)"
  have b: "k * (x div k) \<le> x" "x < k * (x div k) + k"
    using pos_mod_bound [OF k, of x] pos_mod_sign [OF k, of x] mult_div_mod_eq [of k x] by linarith+
  from b(1) hi have "k * (x div k) < k * (u + 1)" by linarith
  then have "x div k \<le> u" using k by (simp add: mult_less_cancel_left_pos)
  moreover from b(2) lo have "k * (- u) < k * (x div k + 1)" by (simp add: algebra_simps)
  then have "- u \<le> x div k" using k by (simp only: mult_less_cancel_left_pos)
  ultimately show ?thesis by simp
qed

text \<open>
  The three quantisers on a coefficient within the gain of its position, for a plane whose samples
  span \<open>s\<close>.
\<close>

lemma clamp_id: "lo \<le> x \<Longrightarrow> x \<le> hi \<Longrightarrow> clamp lo hi x = x"
  by (simp add: clamp_def)

lemma quantize_bound:
  assumes "0 < i" "i < 64" and c: "\<bar>c\<bar> \<le> gain i * s" and s: "0 \<le> s" "s \<le> 1023"
  shows "\<bar>quantize c i\<bar> \<le> 2 * s"
proof -
  have "\<bar>q\<bar> \<le> 2 * s \<Longrightarrow> \<bar>clamp (-2048) 2047 q\<bar> \<le> 2 * s" for q
    using s by (simp add: clamp_def)
  moreover consider "i = 1 \<or> i = 2" | "i = 3" | "4 \<le> i" "i \<le> 11" | "12 \<le> i" "i \<le> 15"
    | "16 \<le> i" "i \<le> 47" | "48 \<le> i"
    using assms(1) by linarith
  then have "\<bar>(let (shift, bias) = step_bias i in
      if bias = 0 then let q = \<bar>c\<bar> div 2 ^ shift in if c < 0 then - q else q
      else (c + bias) div 2 ^ shift)\<bar> \<le> 2 * s"
  proof cases
    case 5
    then have "\<bar>\<bar>c\<bar> div 2\<bar> \<le> 2 * s"
      using c s by (intro div_abs_bound) (simp_all add: gain_def)
    then have "\<bar>c\<bar> div 2 \<le> 2 * s" "0 \<le> \<bar>c\<bar> div 2" by simp_all
    with 5 show ?thesis by (cases "c < 0") (simp_all add: step_bias_def Let_def)
  qed (use c s in \<open>auto simp: step_bias_def gain_def intro!: div_abs_bound\<close>)
  moreover have "quantize c i = clamp (-2048) 2047 (let (shift, bias) = step_bias i in
      if bias = 0 then let q = \<bar>c\<bar> div 2 ^ shift in if c < 0 then - q else q
      else (c + bias) div 2 ^ shift)"
    by (cases "step_bias i") (simp add: quantize_def)
  ultimately show ?thesis by simp
qed

lemma quantize_chroma_ac_bound:
  assumes "0 < i" "i < 64" and c: "\<bar>c\<bar> \<le> gain i * s" and s: "0 \<le> s"
  shows "\<bar>quantize_chroma_ac c i\<bar> \<le> 2 * s"
proof -
  consider "i = 1 \<or> i = 2" | "i = 3" | "4 \<le> i" "i \<le> 11" | "12 \<le> i" "i \<le> 15" | "16 \<le> i" "i \<le> 47" | "48 \<le> i"
    using assms(1) by linarith
  then show ?thesis
    by cases (use c s in \<open>auto simp: quantize_chroma_ac_def chroma_ac_shift_def gain_def
        intro!: div_abs_bound\<close>)
qed

lemma quantize_dc_round_bound:
  assumes "64 * lo \<le> c" "c \<le> 64 * hi"
  shows "4 * lo \<le> quantize_dc_round 0 c \<and> quantize_dc_round 0 c \<le> 4 * hi"
    and "lo \<le> quantize_dc_round (Suc k) c \<and> quantize_dc_round (Suc k) c \<le> hi"
proof -
  have "16 * (4 * lo) div 16 \<le> (c + 8) div 16" "(c + 8) div 16 \<le> (16 * (4 * hi) + 8) div 16"
    using assms by (intro zdiv_mono1; simp)+
  then show "4 * lo \<le> quantize_dc_round 0 c \<and> quantize_dc_round 0 c \<le> 4 * hi"
    by (simp add: quantize_dc_round_def)
  have "64 * lo div 64 \<le> (c + 32) div 64" "(c + 32) div 64 \<le> (64 * hi + 32) div 64"
    using assms by (intro zdiv_mono1; simp)+
  then show "lo \<le> quantize_dc_round (Suc k) c \<and> quantize_dc_round (Suc k) c \<le> hi"
    by (simp add: quantize_dc_round_def)
qed

lemma colour_range:
  fixes r g b m :: int
  assumes "0 \<le> r" "r \<le> m" "0 \<le> g" "g \<le> m" "0 \<le> b" "b \<le> m"
  shows "0 \<le> g + (r - g + (b - g)) div 4" "g + (r - g + (b - g)) div 4 \<le> m"
    "- m \<le> r - g" "r - g \<le> m" "- m \<le> b - g" "b - g \<le> m"
proof -
  define k where "k = (r - g + (b - g)) div 4"
  have "4 * k \<le> r - g + (b - g)" "r - g + (b - g) < 4 * k + 4"
    unfolding k_def using pos_mod_bound [of 4 "r - g + (b - g)"] pos_mod_sign [of 4 "r - g + (b - g)"]
      mult_div_mod_eq [of 4 "r - g + (b - g)"] by linarith+
  then show "0 \<le> g + (r - g + (b - g)) div 4" "g + (r - g + (b - g)) div 4 \<le> m"
    unfolding k_def [symmetric] using assms by linarith+
qed (use assms in simp_all)

lemma concat_rows_const: "concat (map (\<lambda>i. map (\<lambda>c. k) [0..<h]) [0..<n]) = replicate (n * h) k"
  by (induction n) (simp_all add: map_replicate_const replicate_add [symmetric] add.commute)

lemma band_uniform:
  assumes "n = 2 * h" "m = n * n"
  shows "band sx sy n h (replicate m v) = replicate (h * h) ((1 + sx) * (1 + sy) * v)"
proof -
  have "quad sx sy n (replicate m v) i c = (1 + sx) * (1 + sy) * v" if "i < h" "c < h" for i c
    using quad_index [OF that assms(1)] assms(2) by (simp add: quad_def algebra_simps)
  then have "band sx sy n h (replicate m v) =
      concat (map (\<lambda>i. map (\<lambda>c. (1 + sx) * (1 + sy) * v) [0..<h]) [0..<h])"
    unfolding band_def by (intro concat_rows_cong)
  then show ?thesis by (simp only: concat_rows_const)
qed

section \<open>Properties\<close>

text \<open>
  C37: The transform loses nothing: on a block in the codec's fixed point every butterfly output is a
  multiple of 64, so the final floor division is exact and the samples are recovered from the 64
  coefficients by the inverse Haar transform. A uniform block is its value followed by zeros.
\<close>

theorem transform_lossless:
  assumes "length p = 64"
  shows "inverse_transform (transform (map ((*) 64) p)) = p \<and>
    transform (replicate 64 v) = v # replicate 63 0"
proof
  show "inverse_transform (transform (map ((*) 64) p)) = p"
    using assms by (simp add: transform_scaled inverse_raw_coeffs)
  have low: "low1 (replicate 64 v) = replicate 16 (4 * v)" "low2 (replicate 64 v) = replicate 4 (16 * v)"
    by (simp_all add: low1_def low2_def band_uniform)
  have "raw_coeffs (replicate 64 v) = 64 * v # replicate 63 0"
    unfolding raw_coeffs_def low
    by (simp add: band_uniform scan4_def map_replicate_const SCAN4_MORTON_def
        replicate_add [symmetric] upt_rec) (simp add: numeral_eq_Suc)
  then show "transform (replicate 64 v) = v # replicate 63 0"
    by (simp add: transform_raw)
qed

theorem transform_lossless_witness:
  "inverse_transform (transform (map ((*) 64) (map int [0..<64]))) = map int [0..<64] \<and>
    transform (replicate 64 7) = 7 # replicate 63 0"
  by (rule transform_lossless) simp

end
