(* ===== verification/Bit_Coder.thy ===== *)
theory Bit_Coder
  imports Haar_Transform Video_Arm
begin

text \<open>
  The strip entropy coder (\<open>chimera/vino/video/haar/transform.rs\<close>, \<open>struct Bits\<close>): the 64-bit accumulator
  with its byte-wise spill, the unary category code in its two dialects, the signed escape code and
  the significance tree. The accumulator refines a plain list of bits, and every code is a prefix
  code with a decoder, so that fields written one after the other are read back one after the other.
\<close>

section \<open>Categories\<close>

text \<open>\<open>ilog2\<close> of a positive number: the position of its highest set bit.\<close>

fun ilog2 :: "nat \<Rightarrow> nat" where
  "ilog2 n = (if n < 2 then 0 else Suc (ilog2 (n div 2)))"

declare ilog2.simps [simp del]

definition mag_category :: "int \<Rightarrow> nat" where
  "mag_category coeff = (if coeff = 0 then 0 else ilog2 (nat \<bar>coeff\<bar>) + 1)"

section \<open>The accumulator\<close>

record Bits =
  bits_out :: bytes
  bits_acc :: u64
  bits_nacc :: nat
  bits_coding :: CodeTables

definition Bits_new :: "CodeTables \<Rightarrow> Bits" where
  "Bits_new coding = \<lparr>bits_out = [], bits_acc = 0, bits_nacc = 0, bits_coding = coding\<rparr>"

definition spill :: "Bits \<Rightarrow> Bits" where
  "spill s = s\<lparr>bits_out := bits_out s @ map (\<lambda>k. ucast (drop_bit (8 * k) (bits_acc s))) [0..<8],
               bits_acc := 0, bits_nacc := 0\<rparr>"

definition put_bit :: "Bits \<Rightarrow> u32 \<Rightarrow> Bits" where
  "put_bit s b =
    (let s = s\<lparr>bits_acc := bits_acc s OR push_bit (bits_nacc s) (ucast (b AND 1)),
               bits_nacc := bits_nacc s + 1\<rparr>
     in if bits_nacc s = 64 then spill s else s)"

definition finish :: "Bits \<Rightarrow> bytes" where
  "finish s = bits_out s @ map (\<lambda>k. ucast (drop_bit (8 * k) (bits_acc s))) [0..<(bits_nacc s + 7) div 8]"

section \<open>The codes\<close>

definition unary :: "Bits \<Rightarrow> nat \<Rightarrow> bool \<Rightarrow> u32 \<Rightarrow> Bits" where
  "unary s count terminate payload =
    (case bits_coding s of
       Wide \<Rightarrow>
         let s = foldl (\<lambda>s i. put_bit s 1) s [0..<count];
             s = (if terminate then put_bit s 0 else s)
         in foldl (\<lambda>s i. put_bit s (drop_bit i payload)) s (rev [0..<count])
     | Narrow \<Rightarrow>
         let s = foldl (\<lambda>s i. put_bit (put_bit s 1) (drop_bit i payload)) s [0..<count]
         in if terminate then put_bit s 0 else s)"

definition esc :: "Bits \<Rightarrow> int \<Rightarrow> nat \<Rightarrow> Bits" where
  "esc s v cmax =
    (if v = 0 then put_bit s 0
     else let c = min (mag_category v) cmax;
              off = min (nat \<bar>v\<bar>) (2 ^ c - 1) - 2 ^ (c - 1)
          in unary s c (c < cmax) (push_bit 1 (of_nat off) OR (if v > 0 then 1 else 0)))"

definition sync_unit_after :: "Bits \<Rightarrow> nat \<Rightarrow> nat \<Rightarrow> Bits" where
  "sync_unit_after s lst skip =
    (let s = foldl (\<lambda>s i. put_bit s 0) s [skip..<2]
     in if lst = 0 then unary s 6 True 0
        else let k = ilog2 (COEFFS - lst); end_pos = COEFFS - 2 ^ k
             in unary s k True (of_nat (end_pos - lst)))"

definition sync_unit :: "Bits \<Rightarrow> nat \<Rightarrow> Bits" where
  "sync_unit s lst = sync_unit_after s lst 0"

definition chroma_base :: "Bits \<Rightarrow> nat \<Rightarrow> Bits" where
  "chroma_base s lst =
    (let c = ilog2 (lst + 1) in unary s c True (of_nat (lst - (2 ^ c - 1))))"

definition colour_sync_unit :: "Bits \<Rightarrow> nat \<Rightarrow> nat \<Rightarrow> nat \<Rightarrow> Bits" where
  "colour_sync_unit s lcr lcb ly =
    (if lcr = 0 \<and> lcb = 0 then sync_unit s ly
     else if lcr \<noteq> 0 \<and> lcb = 0 then sync_unit_after (chroma_base s lcr) ly 1
     else if lcr = 0 \<and> lcb \<noteq> 0 then sync_unit_after (chroma_base (put_bit s 0) lcb) ly 2
     else sync_unit_after (chroma_base (chroma_base s lcr) lcb) ly 2)"

definition colour_block_ac ::
    "Bits \<Rightarrow> int list \<Rightarrow> int list \<Rightarrow> int list \<Rightarrow> nat \<Rightarrow> nat \<Rightarrow> nat \<Rightarrow> Depth \<Rightarrow> Bits" where
  "colour_block_ac s qcr qcb qy lcr lcb ly depth =
    foldl (\<lambda>s (q, lst, cmax).
        foldl (\<lambda>s i. if q ! i = 0 then put_bit s 0 else esc s (q ! i) cmax) s [1..<lst + 1])
      s [(qcr, lcr, chroma_ac_cmax depth), (qcb, lcb, chroma_ac_cmax depth), (qy, ly, ac_cmax depth)]"

section \<open>The accumulator is a list of bits\<close>

text \<open>
  What a coder state has been given: the bits of the bytes already spilled, least significant first,
  then the \<open>nacc\<close> pending ones. The invariant is that the accumulator is not full and holds nothing
  above \<open>nacc\<close>.
\<close>

definition byte_bits :: "byte \<Rightarrow> bool list" where
  "byte_bits b = map (bit b) [0..<8]"

definition bytes_bits :: "bytes \<Rightarrow> bool list" where
  "bytes_bits bs = concat (map byte_bits bs)"

definition bits_of :: "Bits \<Rightarrow> bool list" where
  "bits_of s = bytes_bits (bits_out s) @ map (bit (bits_acc s)) [0..<bits_nacc s]"

definition bits_wf :: "Bits \<Rightarrow> bool" where
  "bits_wf s \<longleftrightarrow> bits_nacc s < 64 \<and> (\<forall>n\<ge>bits_nacc s. \<not> bit (bits_acc s) n)"

lemma bytes_bits_simps [simp]:
  "bytes_bits [] = []" "bytes_bits (b # bs) = byte_bits b @ bytes_bits bs"
  "bytes_bits (bs @ bs') = bytes_bits bs @ bytes_bits bs'"
  by (simp_all add: bytes_bits_def)

lemma length_byte_bits [simp]: "length (byte_bits b) = 8"
  by (simp add: byte_bits_def)

lemma length_bytes_bits [simp]: "length (bytes_bits bs) = 8 * length bs"
  by (induction bs) simp_all

text \<open>Cutting a word into bytes keeps the bits in order.\<close>

lemma bytes_bits_word:
  fixes w :: u64
  shows "bytes_bits (map (\<lambda>k. ucast (drop_bit (8 * k) w)) [0..<n]) = map (bit w) [0..<8 * n]"
proof (induction n)
  case (Suc n)
  have "byte_bits (ucast (drop_bit (8 * n) w)) = map (bit w) [8 * n..<8 * n + 8]"
    by (rule nth_equalityI) (simp_all add: byte_bits_def bit_ucast_iff bit_drop_bit_eq)
  moreover have "[0..<8 * Suc n] = [0..<8 * n] @ [8 * n..<8 * n + 8]"
    using upt_add_eq_append [of 0 "8 * n" 8] by (simp add: add.commute)
  ultimately show ?case using Suc by simp
qed simp

lemma spill_bits:
  assumes "bits_nacc s = 64"
  shows "bits_of (spill s) = bits_of s" "bits_wf (spill s)" "bits_coding (spill s) = bits_coding s"
  using bytes_bits_word [of "bits_acc s" 8] assms
  by (simp_all add: spill_def bits_of_def bits_wf_def)

lemma put_bit_bits:
  assumes "bits_wf s"
  shows "bits_of (put_bit s b) = bits_of s @ [bit b 0]" "bits_wf (put_bit s b)"
    "bits_coding (put_bit s b) = bits_coding s"
proof -
  define s' where "s' = s\<lparr>bits_acc := bits_acc s OR push_bit (bits_nacc s) (ucast (b AND 1)),
      bits_nacc := bits_nacc s + 1\<rparr>"
  have n: "bits_nacc s < 64" and hi: "\<And>n. bits_nacc s \<le> n \<Longrightarrow> \<not> bit (bits_acc s) n"
    using assms by (auto simp: bits_wf_def)
  have bits: "bit (bits_acc s') i \<longleftrightarrow> (if i = bits_nacc s then bit b 0 else bit (bits_acc s) i)" for i
    using n hi [of i] by (auto simp: s'_def bit_or_iff bit_push_bit_iff bit_ucast_iff bit_and_iff bit_1_iff)
  have of: "bits_of s' = bits_of s @ [bit b 0]"
    using bits by (simp add: bits_of_def s'_def)
  have wf: "bits_nacc s' < 64 \<Longrightarrow> bits_wf s'"
    using bits hi by (auto simp: bits_wf_def s'_def)
  have eq: "put_bit s b = (if bits_nacc s' = 64 then spill s' else s')"
    by (simp add: put_bit_def s'_def Let_def)
  show "bits_of (put_bit s b) = bits_of s @ [bit b 0]"
    using of spill_bits(1) [of s'] by (simp add: eq)
  show "bits_wf (put_bit s b)"
    using n wf spill_bits(2) [of s'] by (simp add: eq) (simp add: s'_def)
  show "bits_coding (put_bit s b) = bits_coding s"
    using spill_bits(3) [of s'] by (simp add: eq) (simp add: s'_def)
qed

lemma Bits_new_wf [simp]: "bits_wf (Bits_new t)" "bits_of (Bits_new t) = []" "bits_coding (Bits_new t) = t"
  by (simp_all add: bits_wf_def bits_of_def Bits_new_def)

lemma finish_bits:
  assumes "bits_wf s"
  shows "bytes_bits (finish s) = bits_of s @ replicate (8 * ((bits_nacc s + 7) div 8) - bits_nacc s) False"
proof -
  have le: "bits_nacc s \<le> 8 * ((bits_nacc s + 7) div 8)" by linarith
  have "map (bit (bits_acc s)) [bits_nacc s..<m] = replicate (m - bits_nacc s) False" for m
    using assms by (intro replicate_eqI) (auto simp: bits_wf_def)
  moreover have "[0..<8 * ((bits_nacc s + 7) div 8)] =
      [0..<bits_nacc s] @ [bits_nacc s..<8 * ((bits_nacc s + 7) div 8)]"
    using upt_add_eq_append [of 0 "bits_nacc s"] le
    by (metis le0 le_add_diff_inverse)
  ultimately show ?thesis
    by (simp add: finish_def bits_of_def bytes_bits_word)
qed

section \<open>What each operation writes\<close>

text \<open>
  \<open>writes t f l\<close>: in dialect \<open>t\<close>, the coder operation \<open>f\<close> appends exactly the bits \<open>l\<close> and keeps the
  invariant.
\<close>

definition writes :: "CodeTables \<Rightarrow> (Bits \<Rightarrow> Bits) \<Rightarrow> bool list \<Rightarrow> bool" where
  "writes t f l \<longleftrightarrow> (\<forall>s. bits_wf s \<and> bits_coding s = t \<longrightarrow>
     bits_wf (f s) \<and> bits_coding (f s) = t \<and> bits_of (f s) = bits_of s @ l)"

named_theorems writes_intros

lemma writes_bit: "writes t (\<lambda>s. put_bit s b) [bit b 0]"
  by (simp add: writes_def put_bit_bits)

lemma writes_0 [writes_intros]: "writes t (\<lambda>s. put_bit s 0) [False]"
  using writes_bit [of t 0] by simp

lemma writes_1 [writes_intros]: "writes t (\<lambda>s. put_bit s 1) [True]"
  using writes_bit [of t 1] by (simp add: bit_1_iff)

lemma writes_drop [writes_intros]: "writes t (\<lambda>s. put_bit s (drop_bit i w)) [bit w i]"
  using writes_bit [of t "drop_bit i w"] by (simp add: bit_drop_bit_eq)

lemma writes_id [writes_intros]: "writes t (\<lambda>s. s) []"
  by (simp add: writes_def)

lemma writes_comp: "writes t f l \<Longrightarrow> writes t g m \<Longrightarrow> writes t (\<lambda>s. g (f s)) (l @ m)"
  by (simp add: writes_def)

lemma writes_foldl:
  assumes "\<And>x. x \<in> set xs \<Longrightarrow> writes t (\<lambda>s. f s x) (l x)"
  shows "writes t (\<lambda>s. foldl f s xs) (concat (map l xs))"
  using assms
proof (induction xs)
  case (Cons x xs)
  then have "writes t (\<lambda>s. foldl f (f s x) xs) (l x @ concat (map l xs))"
    by (intro writes_comp [where f = "\<lambda>s. f s x"]) simp_all
  then show ?case by simp
qed (simp add: writes_id)

lemma writes_cong: "writes t f l \<Longrightarrow> l = m \<Longrightarrow> writes t f m"
  by simp

text \<open>The bits of the unary code, and that the coder writes them.\<close>

definition unary_bits :: "CodeTables \<Rightarrow> nat \<Rightarrow> bool \<Rightarrow> u32 \<Rightarrow> bool list" where
  "unary_bits t count terminate payload =
    (case t of
       Wide \<Rightarrow> replicate count True @ (if terminate then [False] else []) @
         rev (map (bit payload) [0..<count])
     | Narrow \<Rightarrow> concat (map (\<lambda>i. [True, bit payload i]) [0..<count]) @ (if terminate then [False] else []))"

lemma concat_singles: "concat (map (\<lambda>i. [f i]) xs) = map f xs"
  by (induction xs) simp_all

lemma writes_unary [writes_intros]:
  "writes t (\<lambda>s. unary s count terminate payload) (unary_bits t count terminate payload)"
proof -
  have stop: "writes t (\<lambda>s. if terminate then put_bit s 0 else s) (if terminate then [False] else [])"
    by (simp add: writes_0 writes_id)
  show ?thesis
  proof (cases t)
    case Wide
    have ones: "writes Wide (\<lambda>s. foldl (\<lambda>s i. put_bit s 1) s [0..<count]) (concat (map (\<lambda>i. [True]) [0..<count]))"
      by (intro writes_foldl writes_1)
    have pay: "writes Wide (\<lambda>s. foldl (\<lambda>s i. put_bit s (drop_bit i payload)) s (rev [0..<count]))
        (concat (map (\<lambda>i. [bit payload i]) (rev [0..<count])))"
      by (intro writes_foldl writes_drop)
    show ?thesis
      using writes_comp [OF writes_comp [OF ones stop [unfolded Wide]] pay] Wide
      by (simp add: writes_def unary_def unary_bits_def Let_def concat_singles rev_map map_replicate_const)
  next
    case Narrow
    have "writes Narrow (\<lambda>s. put_bit (put_bit s 1) (drop_bit i payload)) ([True] @ [bit payload i])" for i
      by (rule writes_comp [OF writes_1 writes_drop])
    then have "writes Narrow (\<lambda>s. foldl (\<lambda>s i. put_bit (put_bit s 1) (drop_bit i payload)) s [0..<count])
        (concat (map (\<lambda>i. [True] @ [bit payload i]) [0..<count]))"
      by (intro writes_foldl)
    from writes_comp [OF this stop [unfolded Narrow]] Narrow show ?thesis
      by (simp add: writes_def unary_def unary_bits_def Let_def)
  qed
qed

section \<open>Prefix codes\<close>

text \<open>
  The contract of every field of a strip: a decoder that reads back an admissible value and leaves
  what follows it. Fields can then be concatenated without separators.
\<close>

fun dec_many :: "(bool list \<Rightarrow> ('a \<times> bool list) option) \<Rightarrow> nat \<Rightarrow> bool list \<Rightarrow> ('a list \<times> bool list) option" where
  "dec_many dec 0 bs = Some ([], bs)"
| "dec_many dec (Suc n) bs =
    (case dec bs of None \<Rightarrow> None
     | Some (v, r) \<Rightarrow> (case dec_many dec n r of None \<Rightarrow> None | Some (vs, r') \<Rightarrow> Some (v # vs, r')))"

locale prefix_code =
  fixes enc :: "'a \<Rightarrow> bool list"
    and dec :: "bool list \<Rightarrow> ('a \<times> bool list) option"
    and ok :: "'a \<Rightarrow> bool"
  assumes dec_enc: "ok v \<Longrightarrow> dec (enc v @ r) = Some (v, r)"
begin

lemma prefix_free: "ok v \<Longrightarrow> ok w \<Longrightarrow> enc v @ r = enc w @ r' \<Longrightarrow> v = w \<and> r = r'"
  by (metis dec_enc option.inject prod.inject)

lemma dec_many_enc: "\<forall>v\<in>set vs. ok v \<Longrightarrow> dec_many dec (length vs) (concat (map enc vs) @ r) = Some (vs, r)"
proof (induction vs)
  case (Cons v vs)
  then show ?case using dec_enc [of v "concat (map enc vs) @ r"] by simp
qed simp

end

text \<open>Decoding the unary code: the category, capped at \<open>cmax\<close>, and the payload bits least significant first.\<close>

fun ones :: "nat \<Rightarrow> bool list \<Rightarrow> (nat \<times> bool list) option" where
  "ones 0 bs = Some (0, bs)"
| "ones (Suc n) [] = None"
| "ones (Suc n) (False # bs) = Some (0, bs)"
| "ones (Suc n) (True # bs) = (case ones n bs of None \<Rightarrow> None | Some (c, r) \<Rightarrow> Some (Suc c, r))"

fun pairs :: "nat \<Rightarrow> bool list \<Rightarrow> (bool list \<times> bool list) option" where
  "pairs 0 bs = Some ([], bs)"
| "pairs (Suc n) [] = None"
| "pairs (Suc n) (False # bs) = Some ([], bs)"
| "pairs (Suc n) [True] = None"
| "pairs (Suc n) (True # b # bs) = (case pairs n bs of None \<Rightarrow> None | Some (p, r) \<Rightarrow> Some (b # p, r))"

definition dec_unary :: "CodeTables \<Rightarrow> nat \<Rightarrow> bool list \<Rightarrow> ((nat \<times> nat) \<times> bool list) option" where
  "dec_unary t cmax bs =
    (case t of
       Wide \<Rightarrow> (case ones cmax bs of None \<Rightarrow> None
         | Some (c, r) \<Rightarrow> if length r < c then None
             else Some ((c, horner_sum of_bool 2 (rev (take c r))), drop c r))
     | Narrow \<Rightarrow> (case pairs cmax bs of None \<Rightarrow> None
         | Some (p, r) \<Rightarrow> Some ((length p, horner_sum of_bool 2 p), r)))"

definition enc_unary :: "CodeTables \<Rightarrow> nat \<Rightarrow> nat \<times> nat \<Rightarrow> bool list" where
  "enc_unary t cmax = (\<lambda>(c, p). unary_bits t c (c < cmax) (of_nat p))"

lemma ones_replicate:
  "c \<le> n \<Longrightarrow> ones n (replicate c True @ (if c < n then [False] else []) @ r) = Some (c, r)"
proof (induction n arbitrary: c)
  case (Suc n)
  then show ?case by (cases c) auto
qed simp

lemma pairs_list:
  "length p \<le> n \<Longrightarrow>
    pairs n (concat (map (\<lambda>b. [True, b]) p) @ (if length p < n then [False] else []) @ r) = Some (p, r)"
proof (induction n arbitrary: p)
  case (Suc n)
  then show ?case by (cases p) auto
qed simp

lemma payload_bits:
  assumes "p < 2 ^ c" "c \<le> 32"
  shows "horner_sum of_bool 2 (map (bit (of_nat p :: u32)) [0..<c]) = p"
proof -
  have eq: "map (bit (of_nat p :: u32)) [0..<c] = map (bit p) [0..<c]"
    using assms(2) by (intro map_cong) (simp_all add: bit_of_nat_iff)
  show ?thesis
    unfolding eq using assms(1) horner_sum_bit_eq_take_bit [of p c] by (simp add: take_bit_nat_eq_self)
qed

interpretation unary_code: prefix_code "enc_unary t cmax" "dec_unary t cmax"
  "\<lambda>(c, p). c \<le> cmax \<and> c \<le> 32 \<and> p < 2 ^ c" for t cmax
proof (unfold_locales, clarify)
  fix c p r
  assume c: "c \<le> cmax" "c \<le> 32" and p: "p < (2 :: nat) ^ c"
  show "dec_unary t cmax (enc_unary t cmax (c, p) @ r) = Some ((c, p), r)"
  proof (cases t)
    case Wide
    then show ?thesis
      using ones_replicate [OF c(1), of "rev (map (bit (of_nat p :: u32)) [0..<c]) @ r"] payload_bits [OF p c(2)]
      by (simp add: dec_unary_def enc_unary_def unary_bits_def)
  next
    case Narrow
    then show ?thesis
      using pairs_list [of "map (bit (of_nat p :: u32)) [0..<c]" cmax r] payload_bits [OF p c(2)] c(1)
      by (simp add: dec_unary_def enc_unary_def unary_bits_def comp_def)
  qed
qed

text \<open>A code under a change of representation, and two codes one after the other.\<close>

definition dec_map :: "('a \<Rightarrow> 'b) \<Rightarrow> (bool list \<Rightarrow> ('a \<times> bool list) option) \<Rightarrow> bool list \<Rightarrow> ('b \<times> bool list) option" where
  "dec_map g dec bs = (case dec bs of None \<Rightarrow> None | Some (v, r) \<Rightarrow> Some (g v, r))"

definition dec_pair :: "(bool list \<Rightarrow> ('a \<times> bool list) option) \<Rightarrow> (bool list \<Rightarrow> ('b \<times> bool list) option) \<Rightarrow>
    bool list \<Rightarrow> (('a \<times> 'b) \<times> bool list) option" where
  "dec_pair d1 d2 bs = (case d1 bs of None \<Rightarrow> None
    | Some (v, r) \<Rightarrow> (case d2 r of None \<Rightarrow> None | Some (w, r') \<Rightarrow> Some ((v, w), r')))"

locale mapped_code = prefix_code enc dec ok
  for enc :: "'a \<Rightarrow> bool list" and dec :: "bool list \<Rightarrow> ('a \<times> bool list) option" and ok :: "'a \<Rightarrow> bool" +
  fixes rep :: "'b \<Rightarrow> 'a" and unrep :: "'a \<Rightarrow> 'b" and adm :: "'b \<Rightarrow> bool"
  assumes rep_ok: "adm x \<Longrightarrow> ok (rep x)" and unrep_rep: "adm x \<Longrightarrow> unrep (rep x) = x"

sublocale mapped_code \<subseteq> mapped: prefix_code "\<lambda>x. enc (rep x)" "dec_map unrep dec" adm
  by unfold_locales (simp add: dec_map_def dec_enc rep_ok unrep_rep)

locale pair_code = first: prefix_code e1 d1 ok1 + second: prefix_code e2 d2 ok2
  for e1 :: "'a \<Rightarrow> bool list" and d1 :: "bool list \<Rightarrow> ('a \<times> bool list) option" and ok1 :: "'a \<Rightarrow> bool"
    and e2 :: "'b \<Rightarrow> bool list" and d2 :: "bool list \<Rightarrow> ('b \<times> bool list) option" and ok2 :: "'b \<Rightarrow> bool"

sublocale pair_code \<subseteq> pair: prefix_code "\<lambda>(v, w). e1 v @ e2 w" "dec_pair d1 d2" "\<lambda>(v, w). ok1 v \<and> ok2 w"
  by unfold_locales (auto simp: dec_pair_def first.dec_enc second.dec_enc)

section \<open>The escape code\<close>

lemma ilog2_bounds: "0 < n \<Longrightarrow> 2 ^ ilog2 n \<le> n \<and> n < 2 * 2 ^ ilog2 n"
proof (induction n rule: ilog2.induct)
  case (1 n)
  show ?case
  proof (cases "n < 2")
    case True
    then show ?thesis using 1 by (simp add: ilog2.simps)
  next
    case False
    then have "2 ^ ilog2 (n div 2) \<le> n div 2 \<and> n div 2 < 2 * 2 ^ ilog2 (n div 2)" using 1 by simp
    moreover have "ilog2 n = Suc (ilog2 (n div 2))" using False by (subst ilog2.simps) simp
    ultimately show ?thesis by auto
  qed
qed

lemma ilog2_less: "0 < n \<Longrightarrow> n < 2 ^ Suc k \<Longrightarrow> ilog2 n \<le> k"
  using ilog2_bounds [of n] power_less_imp_less_exp [of "2::nat" "ilog2 n" "Suc k"] by linarith

text \<open>The category and payload of an escape, and the value they stand for.\<close>

definition esc_fields :: "nat \<Rightarrow> int \<Rightarrow> nat \<times> nat" where
  "esc_fields cmax v =
    (if v = 0 then (0, 0)
     else let c = min (mag_category v) cmax
          in (c, 2 * (min (nat \<bar>v\<bar>) (2 ^ c - 1) - 2 ^ (c - 1)) + of_bool (v > 0)))"

definition esc_value :: "nat \<times> nat \<Rightarrow> int" where
  "esc_value = (\<lambda>(c, p). if c = 0 then 0
     else if odd p then int (2 ^ (c - 1) + p div 2) else - int (2 ^ (c - 1) + p div 2))"

definition dec_esc :: "CodeTables \<Rightarrow> nat \<Rightarrow> bool list \<Rightarrow> (int \<times> bool list) option" where
  "dec_esc t cmax = dec_map esc_value (dec_unary t cmax)"

definition esc_bits :: "CodeTables \<Rightarrow> nat \<Rightarrow> int \<Rightarrow> bool list" where
  "esc_bits t cmax v = enc_unary t cmax (esc_fields cmax v)"

lemma mag_category_bounds:
  assumes "v \<noteq> 0"
  shows "0 < mag_category v" "2 ^ (mag_category v - 1) \<le> nat \<bar>v\<bar>" "nat \<bar>v\<bar> < 2 ^ mag_category v"
  using assms ilog2_bounds [of "nat \<bar>v\<bar>"] by (auto simp: mag_category_def)

text \<open>
  A saturated magnitude is the largest one of the ceiling category, so the escape transmits the value
  clamped to the magnitudes below $2^{cmax}$.
\<close>

lemma esc_saturates:
  assumes "0 < cmax" "v \<noteq> 0" and c: "c = min (mag_category v) cmax" and m: "m = min (nat \<bar>v\<bar>) (2 ^ c - 1)"
  shows "0 < c" "2 ^ (c - 1) \<le> m" "m < 2 ^ c" "int m = \<bar>clamp (- (2 ^ cmax - 1)) (2 ^ cmax - 1) v\<bar>"
proof -
  note b = mag_category_bounds [OF assms(2)]
  show c0: "0 < c" using b(1) assms(1) c by simp
  have half: "2 ^ (c - 1) \<le> (2 ^ c - 1 :: nat)" using c0 by (cases c) simp_all
  have "(2 :: nat) ^ (c - 1) \<le> 2 ^ (mag_category v - 1)" using c by (intro power_increasing) auto
  then show "2 ^ (c - 1) \<le> m" using half b(2) m by linarith
  have "m \<le> 2 ^ c - 1" "0 < (2 :: nat) ^ c" using m by simp_all
  then show "m < 2 ^ c" by linarith
  show "int m = \<bar>clamp (- (2 ^ cmax - 1)) (2 ^ cmax - 1) v\<bar>"
  proof (cases "mag_category v \<le> cmax")
    case True
    then have "c = mag_category v" using c by simp
    then have "nat \<bar>v\<bar> \<le> 2 ^ c - 1" using b(3) by (simp only: less_eq_Suc_le le_diff_conv)
    then have mv: "m = nat \<bar>v\<bar>" using m by simp
    have "nat \<bar>v\<bar> < 2 ^ cmax" using b(3) True by (meson less_le_trans one_le_numeral power_increasing)
    then have "\<bar>v\<bar> < 2 ^ cmax" by (simp add: nat_less_iff)
    then show ?thesis using mv by (simp add: clamp_def)
  next
    case False
    then have cc: "c = cmax" using c by simp
    have "(2 :: nat) ^ cmax \<le> 2 ^ (mag_category v - 1)" using False by (intro power_increasing) auto
    then have "2 ^ cmax \<le> nat \<bar>v\<bar>" using b(2) by linarith
    then have big: "2 ^ cmax \<le> \<bar>v\<bar>" by (simp add: le_nat_iff)
    then have "m = 2 ^ cmax - 1"
      using le_trans [OF diff_le_self \<open>2 ^ cmax \<le> nat \<bar>v\<bar>\<close>] m cc by (simp add: min_absorb2)
    then have "int m = 2 ^ cmax - 1" by (simp add: of_nat_diff)
    moreover have "(1 :: int) \<le> 2 ^ cmax" by simp
    ultimately show ?thesis using big by (auto simp: clamp_def)
  qed
qed

lemma esc_fields_value:
  assumes "0 < cmax"
  shows "(case esc_fields cmax v of (c, p) \<Rightarrow> c \<le> cmax \<and> p < 2 ^ c) \<and>
    esc_value (esc_fields cmax v) = clamp (- (2 ^ cmax - 1)) (2 ^ cmax - 1) v"
proof (cases "v = 0")
  case True
  have "(1 :: int) \<le> 2 ^ cmax" by simp
  then show ?thesis using True by (simp add: esc_fields_def esc_value_def clamp_def)
next
  case False
  define c m where "c = min (mag_category v) cmax" and "m = min (nat \<bar>v\<bar>) (2 ^ c - 1)"
  note s = esc_saturates [OF assms False c_def m_def]
  have f: "esc_fields cmax v = (c, 2 * (m - 2 ^ (c - 1)) + of_bool (v > 0))"
    using False by (simp add: esc_fields_def Let_def c_def m_def)
  have two: "(2 :: nat) ^ c = 2 * 2 ^ (c - 1)" using s(1) by (cases c) simp_all
  obtain d where d: "m = 2 ^ (c - 1) + d" "d < 2 ^ (c - 1)"
    using s(2,3) two by (metis le_add_diff_inverse mult_2 nat_add_left_cancel_less)
  have "c \<le> cmax" by (simp add: c_def)
  moreover have "clamp (- (2 ^ cmax - 1)) (2 ^ cmax - 1) v = (if v > 0 then int m else - int m)"
    using s(4) assms by (auto simp: clamp_def abs_if split: if_splits)
  ultimately show ?thesis
    using s(1) d two by (auto simp: f esc_value_def)
qed

interpretation esc_code: mapped_code "enc_unary t cmax" "dec_unary t cmax"
  "\<lambda>(c, p). c \<le> cmax \<and> c \<le> 32 \<and> p < 2 ^ c" "esc_fields cmax" esc_value
  "\<lambda>v :: int. 0 < cmax \<and> cmax \<le> 32 \<and> \<bar>v\<bar> < 2 ^ cmax" for t cmax
proof unfold_locales
  fix v :: int assume "0 < cmax \<and> cmax \<le> 32 \<and> \<bar>v\<bar> < 2 ^ cmax"
  then show "case esc_fields cmax v of (c, p) \<Rightarrow> c \<le> cmax \<and> c \<le> 32 \<and> p < 2 ^ c"
    "esc_value (esc_fields cmax v) = v"
    using esc_fields_value [of cmax v] by (auto simp: clamp_def)
qed

lemma writes_esc [writes_intros]:
  assumes "0 < cmax"
  shows "writes t (\<lambda>s. esc s v cmax) (esc_bits t cmax v)"
proof (cases "v = 0")
  case True
  have "esc_bits t cmax v = [False]"
    using assms True by (cases t) (simp_all add: esc_bits_def esc_fields_def enc_unary_def unary_bits_def)
  then show ?thesis using True by (simp add: esc_def writes_0)
next
  case False
  define c where "c = min (mag_category v) cmax"
  define off where "off = min (nat \<bar>v\<bar>) (2 ^ c - 1) - 2 ^ (c - 1)"
  have "push_bit 1 (of_nat off :: u32) OR (if v > 0 then 1 else 0) = of_nat (2 * off + of_bool (v > 0))"
    by (auto simp: push_bit_eq_mult one_or_eq or_one_eq)
  then have "(\<lambda>s. esc s v cmax) = (\<lambda>s. unary s c (c < cmax) (of_nat (2 * off + of_bool (v > 0))))"
    using False by (intro ext) (simp add: esc_def Let_def c_def off_def)
  moreover have "esc_bits t cmax v = unary_bits t c (c < cmax) (of_nat (2 * off + of_bool (v > 0)))"
    using False by (simp add: esc_bits_def enc_unary_def esc_fields_def Let_def c_def off_def)
  ultimately show ?thesis by (simp only: writes_unary)
qed

section \<open>The significance tree\<close>

text \<open>
  All significance codes are terminated, and no category exceeds 6. A chroma plane without AC is a
  single zero bit, which is category zero of the same code; a luma plane without AC is category 6.
\<close>

definition luma_fields :: "nat \<Rightarrow> nat \<times> nat" where
  "luma_fields l = (if l = 0 then (6, 0) else (ilog2 (64 - l), 64 - 2 ^ ilog2 (64 - l) - l))"

definition luma_last :: "nat \<times> nat \<Rightarrow> nat" where
  "luma_last = (\<lambda>(c, p). if c = 6 then 0 else 64 - 2 ^ c - p)"

definition chroma_fields :: "nat \<Rightarrow> nat \<times> nat" where
  "chroma_fields l = (ilog2 (l + 1), l + 1 - 2 ^ ilog2 (l + 1))"

definition chroma_last_pos :: "nat \<times> nat \<Rightarrow> nat" where
  "chroma_last_pos = (\<lambda>(c, p). 2 ^ c + p - 1)"

abbreviation luma_bits :: "CodeTables \<Rightarrow> nat \<Rightarrow> bool list" where
  "luma_bits t l \<equiv> enc_unary t 7 (luma_fields l)"

abbreviation chroma_bits :: "CodeTables \<Rightarrow> nat \<Rightarrow> bool list" where
  "chroma_bits t l \<equiv> enc_unary t 7 (chroma_fields l)"

interpretation luma_code: mapped_code "enc_unary t 7" "dec_unary t 7"
  "\<lambda>(c, p). c \<le> 7 \<and> c \<le> 32 \<and> p < 2 ^ c" luma_fields luma_last "\<lambda>l. l < 64" for t
proof unfold_locales
  fix l :: nat assume l: "l < 64"
  note b = ilog2_bounds [of "64 - l"] ilog2_less [of "64 - l" 5]
  show "case luma_fields l of (c, p) \<Rightarrow> c \<le> 7 \<and> c \<le> 32 \<and> p < 2 ^ c" "luma_last (luma_fields l) = l"
    using l b by (auto simp: luma_fields_def luma_last_def)
qed

interpretation chroma_code: mapped_code "enc_unary t 7" "dec_unary t 7"
  "\<lambda>(c, p). c \<le> 7 \<and> c \<le> 32 \<and> p < 2 ^ c" chroma_fields chroma_last_pos "\<lambda>l. l < 64" for t
proof unfold_locales
  fix l :: nat assume l: "l < 64"
  note b = ilog2_bounds [of "l + 1"] ilog2_less [of "l + 1" 6]
  show "case chroma_fields l of (c, p) \<Rightarrow> c \<le> 7 \<and> c \<le> 32 \<and> p < 2 ^ c" "chroma_last_pos (chroma_fields l) = l"
    using l b by (auto simp: chroma_fields_def chroma_last_pos_def)
qed

interpretation chroma_pair: pair_code "chroma_bits t" "dec_map chroma_last_pos (dec_unary t 7)" "\<lambda>l. l < 64"
  "chroma_bits t" "dec_map chroma_last_pos (dec_unary t 7)" "\<lambda>l. l < 64" for t
  by unfold_locales

text \<open>The tree of a block, as \<open>((lcr, lcb), ly)\<close>.\<close>

definition sync_bits :: "CodeTables \<Rightarrow> (nat \<times> nat) \<times> nat \<Rightarrow> bool list" where
  "sync_bits t = (\<lambda>(c, ly). (case c of (lcr, lcb) \<Rightarrow> chroma_bits t lcr @ chroma_bits t lcb) @ luma_bits t ly)"

definition dec_sync :: "CodeTables \<Rightarrow> bool list \<Rightarrow> (((nat \<times> nat) \<times> nat) \<times> bool list) option" where
  "dec_sync t =
    dec_pair (dec_pair (dec_map chroma_last_pos (dec_unary t 7)) (dec_map chroma_last_pos (dec_unary t 7)))
      (dec_map luma_last (dec_unary t 7))"

interpretation sync_code: pair_code "\<lambda>(lcr, lcb). chroma_bits t lcr @ chroma_bits t lcb"
  "dec_pair (dec_map chroma_last_pos (dec_unary t 7)) (dec_map chroma_last_pos (dec_unary t 7))"
  "\<lambda>(lcr, lcb). lcr < 64 \<and> lcb < 64" "luma_bits t" "dec_map luma_last (dec_unary t 7)" "\<lambda>l. l < 64" for t
  by unfold_locales

lemma chroma_bits_0: "chroma_bits t 0 = [False]"
  by (cases t) (simp_all add: chroma_fields_def enc_unary_def unary_bits_def ilog2.simps)

lemma writes_chroma_base:
  assumes "l < 64"
  shows "writes t (\<lambda>s. chroma_base s l) (chroma_bits t l)"
proof -
  have "ilog2 (l + 1) < 7" using ilog2_less [of "l + 1" 6] assms by simp
  then show ?thesis
    using writes_unary [of t "ilog2 (l + 1)" True "of_nat (l + 1 - 2 ^ ilog2 (l + 1))"] ilog2_bounds [of "l + 1"]
    by (simp add: chroma_base_def Let_def enc_unary_def chroma_fields_def)
qed

lemma writes_sync_unit_after:
  assumes "l < 64"
  shows "writes t (\<lambda>s. sync_unit_after s l skip) (replicate (2 - skip) False @ luma_bits t l)"
proof -
  have "writes t (\<lambda>s. foldl (\<lambda>s i. put_bit s 0) s [skip..<2]) (concat (map (\<lambda>i. [False]) [skip..<2]))"
    by (intro writes_foldl writes_0)
  moreover have "writes t (\<lambda>s. if l = 0 then unary s 6 True 0 else
      unary s (ilog2 (64 - l)) True (of_nat (64 - 2 ^ ilog2 (64 - l) - l))) (luma_bits t l)"
    using writes_unary [of t 6 True 0] ilog2_less [of "64 - l" 5] assms
      writes_unary [of t "ilog2 (64 - l)" True "of_nat (64 - 2 ^ ilog2 (64 - l) - l)"]
    by (cases "l = 0") (simp_all add: enc_unary_def luma_fields_def)
  ultimately have "writes t (\<lambda>s. (\<lambda>s. if l = 0 then unary s 6 True 0 else
      unary s (ilog2 (64 - l)) True (of_nat (64 - 2 ^ ilog2 (64 - l) - l)))
      (foldl (\<lambda>s i. put_bit s 0) s [skip..<2])) (concat (map (\<lambda>i. [False]) [skip..<2]) @ luma_bits t l)"
    by (rule writes_comp)
  then show ?thesis
    by (cases "l = 0") (simp_all add: sync_unit_after_def Let_def COEFFS_def map_replicate_const concat_singles)
qed

lemma writes_colour_sync_unit [writes_intros]:
  assumes "lcr < 64" "lcb < 64" "ly < 64"
  shows "writes t (\<lambda>s. colour_sync_unit s lcr lcb ly) (sync_bits t ((lcr, lcb), ly))"
proof -
  note c = writes_chroma_base [OF assms(1), of t] writes_chroma_base [OF assms(2), of t]
  note y = writes_sync_unit_after [OF assms(3), of t]
  show ?thesis
    using y [of 0] writes_comp [OF c(1) y [of 1]] writes_comp [OF writes_comp [OF writes_0 c(2)] y [of 2]]
      writes_comp [OF writes_comp [OF c] y [of 2]]
    by (cases "lcr = 0"; cases "lcb = 0")
      (simp_all add: colour_sync_unit_def sync_unit_def sync_bits_def chroma_bits_0 numeral_2_eq_2)
qed

section \<open>AC coefficients\<close>

definition plane_bits :: "CodeTables \<Rightarrow> nat \<Rightarrow> int list \<Rightarrow> nat \<Rightarrow> bool list" where
  "plane_bits t cmax q l = concat (map (esc_bits t cmax) (map ((!) q) [1..<l + 1]))"

lemma esc_bits_0: "0 < cmax \<Longrightarrow> esc_bits t cmax 0 = [False]"
  by (cases t) (simp_all add: esc_bits_def esc_fields_def enc_unary_def unary_bits_def)

lemma cmax_bounds [simp]:
  "0 < ac_cmax d" "0 < chroma_ac_cmax d" "0 < dc_cmax d" "ac_cmax d \<le> 12" "chroma_ac_cmax d \<le> 12"
  "dc_cmax d \<le> 12"
  by (cases d; simp add: AC_CMAX_def CHROMA_AC_CMAX_def SOLID_DC_CMAX_def)+

lemma writes_plane:
  assumes "0 < cmax"
  shows "writes t (\<lambda>s. foldl (\<lambda>s i. if q ! i = 0 then put_bit s 0 else esc s (q ! i) cmax) s [1..<l + 1])
    (plane_bits t cmax q l)"
proof -
  have "writes t (\<lambda>s. if q ! i = 0 then put_bit s 0 else esc s (q ! i) cmax) (esc_bits t cmax (q ! i))" for i
    using writes_0 [of t] writes_esc [OF assms, of t "q ! i"] assms
    by (cases "q ! i = 0") (simp_all add: esc_bits_0)
  from writes_foldl [OF this] show ?thesis
    by (simp add: plane_bits_def comp_def del: upt_Suc)
qed

lemma writes_colour_block_ac [writes_intros]:
  "writes t (\<lambda>s. colour_block_ac s qcr qcb qy lcr lcb ly d)
    (plane_bits t (chroma_ac_cmax d) qcr lcr @ plane_bits t (chroma_ac_cmax d) qcb lcb @
     plane_bits t (ac_cmax d) qy ly)"
  using writes_comp [OF writes_comp [OF writes_plane [of "chroma_ac_cmax d" t qcr lcr]
      writes_plane [of "chroma_ac_cmax d" t qcb lcb]] writes_plane [of "ac_cmax d" t qy ly]]
  by (simp add: colour_block_ac_def del: upt_Suc)

section \<open>Properties\<close>

lemma dec_esc_clamp:
  assumes "0 < cmax" "cmax \<le> 32"
  shows "dec_esc t cmax (esc_bits t cmax v @ r) = Some (clamp (- (2 ^ cmax - 1)) (2 ^ cmax - 1) v, r)"
  using esc_fields_value [OF assms(1), of v] assms
    unary_code.dec_enc [of cmax "esc_fields cmax v" t r]
  by (auto simp: dec_esc_def dec_map_def esc_bits_def split: prod.splits)

lemma dec_many_esc:
  assumes "0 < cmax" "cmax \<le> 32"
  shows "dec_many (dec_esc t cmax) (length vs) (concat (map (esc_bits t cmax) vs) @ r) =
    Some (map (clamp (- (2 ^ cmax - 1)) (2 ^ cmax - 1)) vs, r)"
  by (induction vs) (simp_all add: dec_esc_clamp [OF assms])

text \<open>
  The escape coder is synchronous whatever it is given. In either dialect, the packed bytes of a
  sequence of escapes decode to the same number of values, each clamped to the magnitudes below
  $2^{cmax}$, and what is left is less than a byte of zero padding: an out-of-range value costs only
  its own magnitude.
\<close>

lemma esc_stream_decodes:
  assumes "0 < cmax" "cmax \<le> 32"
  shows "\<exists>k<8. dec_many (dec_esc t cmax) (length vs)
      (bytes_bits (finish (foldl (\<lambda>s v. esc s v cmax) (Bits_new t) vs))) =
    Some (map (clamp (- (2 ^ cmax - 1)) (2 ^ cmax - 1)) vs, replicate k False)"
proof -
  define s where "s = foldl (\<lambda>s v. esc s v cmax) (Bits_new t) vs"
  have "writes t (\<lambda>s. foldl (\<lambda>s v. esc s v cmax) s vs) (concat (map (esc_bits t cmax) vs))"
    by (intro writes_foldl writes_esc assms(1))
  then have "bits_wf s" "bits_of s = concat (map (esc_bits t cmax) vs)"
    by (simp_all add: writes_def s_def)
  then have "dec_many (dec_esc t cmax) (length vs) (bytes_bits (finish s)) =
      Some (map (clamp (- (2 ^ cmax - 1)) (2 ^ cmax - 1)) vs,
        replicate (8 * ((bits_nacc s + 7) div 8) - bits_nacc s) False)"
    by (simp add: finish_bits dec_many_esc [OF assms])
  moreover have "8 * ((bits_nacc s + 7) div 8) - bits_nacc s < 8" by linarith
  ultimately show ?thesis unfolding s_def by blast
qed

text \<open>
  The code tables stated to a wide-dialect dock are those the coder uses: at either depth the first
  three tables are the regular tables whose category counts are the luma AC, chroma AC and DC ceilings.
\<close>

lemma stated_tables_match_coder:
  "wide_table (d = Ten) 0 = code_table (ac_cmax d - 1) \<and>
   wide_table (d = Ten) 1 = code_table (chroma_ac_cmax d - 1) \<and>
   wide_table (d = Ten) 2 = code_table (dc_cmax d - 1)"
  by (cases d) (simp_all add: wide_table_def DEEP_NATURALS_def AC_CMAX_def CHROMA_AC_CMAX_def
      SOLID_DC_CMAX_def code_table_captured [symmetric] del: One_nat_def)

end
