(* ===== verification/Strip_Codec.thy ===== *)
theory Strip_Codec
  imports Bit_Coder
begin

text \<open>
  Strip geometry and the encoding of one strip (\<open>chimera/vino/video/haar/strip.rs\<close>). A strip is sixteen
  8x8 blocks; its bytes are a header with two offsets, the main region (significance trees, then
  differential DCs) and two AC rows. The decoder below reads a strip back from those offsets alone.
\<close>

section \<open>Geometry\<close>

definition STRIP_ROW_BLOCKS :: nat where "STRIP_ROW_BLOCKS = 8"
definition STRIP_BLOCKS :: nat where "STRIP_BLOCKS = 16"
definition DIM_SHIFT :: nat where "DIM_SHIFT = 3"

record Geometry =
  strip_w_shift :: nat
  strip_h_shift :: nat
  interlaced_bands :: bool
  band_parity_bit :: bool
  connector_selector_shift :: nat
  stream_id_mask :: byte
  dock_buffers :: byte
  steady_sub_bit :: byte
  depth :: Depth
  coding :: CodeTables

definition Geometry_new :: "nat \<Rightarrow> bool \<Rightarrow> bool \<Rightarrow> nat \<Rightarrow> byte \<Rightarrow> byte \<Rightarrow> Geometry" where
  "Geometry_new strip_blocks_x interlaced parity shift id_mask buffers =
    (let (w, h) = (if strip_blocks_x = 16 then (7, 3) else (6, 4))
     in \<lparr>strip_w_shift = w, strip_h_shift = h, interlaced_bands = interlaced, band_parity_bit = parity,
         connector_selector_shift = shift, stream_id_mask = id_mask, dock_buffers = max buffers 1,
         steady_sub_bit = 0, depth = Eight, coding = Wide\<rparr>)"

definition with_depth :: "Geometry \<Rightarrow> Depth \<Rightarrow> Geometry" where
  "with_depth g d = g\<lparr>depth := d\<rparr>"

definition with_coding :: "Geometry \<Rightarrow> CodeTables \<Rightarrow> Geometry" where
  "with_coding g t = g\<lparr>coding := t\<rparr>"

definition with_steady_sub_bit :: "Geometry \<Rightarrow> byte \<Rightarrow> Geometry" where
  "with_steady_sub_bit g b = g\<lparr>steady_sub_bit := b\<rparr>"

definition geometry_opening :: "Geometry \<Rightarrow> Geometry" where
  "geometry_opening g = g\<lparr>steady_sub_bit := 0\<rparr>"

definition strip_w :: "Geometry \<Rightarrow> nat" where "strip_w g = 2 ^ strip_w_shift g"
definition strip_h :: "Geometry \<Rightarrow> nat" where "strip_h g = 2 ^ strip_h_shift g"
definition macro_w :: "Geometry \<Rightarrow> nat" where "macro_w g = 4 * strip_w g"
definition macro_h :: "Geometry \<Rightarrow> nat" where "macro_h g = 4 * strip_h g"

definition connector_selector :: "Geometry \<Rightarrow> byte \<Rightarrow> byte" where
  "connector_selector g connector = push_bit (connector_selector_shift g) connector"

definition stream_id :: "Geometry \<Rightarrow> byte \<Rightarrow> u16" where
  "stream_id g connector = ucast (connector_selector g connector OR stream_id_mask g)"

definition RIDGE_GEOMETRY :: Geometry where
  "RIDGE_GEOMETRY =
    \<lparr>strip_w_shift = 6, strip_h_shift = 4, interlaced_bands = False, band_parity_bit = True,
     connector_selector_shift = 0, stream_id_mask = 0x08, dock_buffers = 2, steady_sub_bit = 0,
     depth = Eight, coding = Wide\<rparr>"

section \<open>Blocks\<close>

definition round_even :: "nat \<Rightarrow> nat" where
  "round_even n = n + n mod 2"

record ColourBlock =
  qcr :: "int list"
  qcb :: "int list"
  qy :: "int list"
  lcr :: nat
  lcb :: nat
  ly :: nat

text \<open>The reference search for the last significant coefficient, from the top down.\<close>

definition chroma_last :: "int list \<Rightarrow> nat" where
  "chroma_last q = (case find (\<lambda>i. q ! i \<noteq> 0) (rev [1..<COEFFS]) of None \<Rightarrow> 0 | Some i \<Rightarrow> i)"

text \<open>
  \<open>colour_block\<close> fills the three planes and their extents in one ascending loop; the planes do not
  interact, so each is its own list and its own fold.
\<close>

definition last_significant :: "int list \<Rightarrow> nat" where
  "last_significant q = foldl (\<lambda>l i. if q ! i \<noteq> 0 then i else l) 0 [1..<COEFFS]"

definition colour_block :: "int list \<Rightarrow> int list \<Rightarrow> int list \<Rightarrow> ColourBlock" where
  "colour_block cr cb y =
    (let tcr = transform cr; tcb = transform cb; ty = transform y;
         pcr = quantize_dc_round 2 (tcr ! 0) # map (\<lambda>i. quantize_chroma_ac (tcr ! i) i) [1..<COEFFS];
         pcb = quantize_dc_round 1 (tcb ! 0) # map (\<lambda>i. quantize_chroma_ac (tcb ! i) i) [1..<COEFFS];
         py = quantize_dc_round 0 (ty ! 0) # map (\<lambda>i. quantize (ty ! i) i) [1..<COEFFS]
     in \<lparr>qcr = pcr, qcb = pcb, qy = py, lcr = last_significant pcr, lcb = last_significant pcb,
         ly = last_significant py\<rparr>)"

section \<open>One strip\<close>

definition dc_step :: "nat \<Rightarrow> Bits \<times> int \<times> int \<times> int \<Rightarrow> ColourBlock \<Rightarrow> Bits \<times> int \<times> int \<times> int" where
  "dc_step cmax = (\<lambda>(s, pcr, pcb, py) b.
    let cr = qcr b ! 0; cb = qcb b ! 0; yv = qy b ! 0;
        s = esc s (cr - pcr) cmax;
        s = esc s (cb - pcb) cmax;
        s = esc s (yv - py) cmax
    in (s, cr, cb, yv))"

definition block_ac :: "Depth \<Rightarrow> Bits \<Rightarrow> ColourBlock \<Rightarrow> Bits" where
  "block_ac d s b = colour_block_ac s (qcr b) (qcb b) (qy b) (lcr b) (lcb b) (ly b) d"

definition colour_strip :: "Geometry \<Rightarrow> ColourBlock list \<Rightarrow> u16 \<Rightarrow> u16 \<Rightarrow> bytes result" where
  "colour_strip g blocks x y =
    (let main = foldl (\<lambda>s b. colour_sync_unit s (lcr b) (lcb b) (ly b)) (Bits_new (coding g)) blocks;
         main = fst (foldl (dc_step (dc_cmax (depth g))) (main, 0, 0, 0) blocks)
     in if length blocks < STRIP_ROW_BLOCKS then Err Panic
        else let row0 = finish (foldl (block_ac (depth g)) (Bits_new (coding g)) (take STRIP_ROW_BLOCKS blocks));
                 row1 = finish (foldl (block_ac (depth g)) (Bits_new (coding g)) (drop STRIP_ROW_BLOCKS blocks));
                 main = finish main;
                 r0 = round_even (length row0);
                 r1 = round_even (length row1);
                 main_b = round_even (length main) + 2;
                 w18 = 16 + main_b;
                 w1c = w18 + r0;
                 len = w1c + r1;
                 out = (replicate len 0)[0 := 0x01, 1 := 0x28];
                 out = put 2 (le16 x) out;
                 out = put 4 (le16 y) out;
                 out = put 10 (le16 (of_nat w18)) out;
                 out = put 12 (le16 (of_nat w1c)) out;
                 out = put 16 main out;
                 out = put w18 row0 out;
                 out = put w1c row1 out
             in Ok out)"

definition block_origin :: "Geometry \<Rightarrow> nat \<Rightarrow> nat \<times> nat" where
  "block_origin g k =
    (let across_shift = strip_w_shift g - DIM_SHIFT in (k mod 2 ^ across_shift, k div 2 ^ across_shift))"

definition colour_strip_blocks ::
    "Geometry \<Rightarrow> nat \<Rightarrow> nat \<Rightarrow> (nat \<Rightarrow> nat \<Rightarrow> u16 \<times> u16 \<times> u16) \<Rightarrow> ColourBlock list" where
  "colour_strip_blocks g ox oy px =
    map (\<lambda>k. let (bx, b_y) = block_origin g k;
                 samples = concat (map (\<lambda>r. map (\<lambda>c.
                   let (rr, gg, bb) = px (ox + bx * DIM + c) (oy + b_y * DIM + r)
                   in colour (uint rr) (uint gg) (uint bb)) [0..<DIM]) [0..<DIM])
             in colour_block (map (\<lambda>(yv, cbv, crv). crv) samples) (map (\<lambda>(yv, cbv, crv). cbv) samples)
                  (map (\<lambda>(yv, cbv, crv). yv) samples)) [0..<STRIP_BLOCKS]"

definition colour_strip_at ::
    "Geometry \<Rightarrow> nat \<Rightarrow> nat \<Rightarrow> (nat \<Rightarrow> nat \<Rightarrow> u16 \<times> u16 \<times> u16) \<Rightarrow> bytes result" where
  "colour_strip_at g sx sy px = colour_strip g (colour_strip_blocks g sx sy px) (of_nat sx) (of_nat sy)"

definition strip_y :: "bytes \<Rightarrow> u16" where "strip_y s = rd16 4 s"
definition strip_x :: "bytes \<Rightarrow> u16" where "strip_x s = rd16 2 s"

section \<open>A decoder\<close>

definition dec_planes ::
    "CodeTables \<Rightarrow> Depth \<Rightarrow> (nat \<times> nat) \<times> nat \<Rightarrow> bool list \<Rightarrow> ((int list \<times> int list \<times> int list) \<times> bool list) option" where
  "dec_planes t d l bs = (case l of ((l_cr, l_cb), l_y) \<Rightarrow>
    (case dec_many (dec_esc t (chroma_ac_cmax d)) l_cr bs of None \<Rightarrow> None | Some (a, r) \<Rightarrow>
    (case dec_many (dec_esc t (chroma_ac_cmax d)) l_cb r of None \<Rightarrow> None | Some (b, r) \<Rightarrow>
    (case dec_many (dec_esc t (ac_cmax d)) l_y r of None \<Rightarrow> None | Some (c, r) \<Rightarrow> Some ((a, b, c), r)))))"

fun dec_row ::
    "CodeTables \<Rightarrow> Depth \<Rightarrow> ((nat \<times> nat) \<times> nat) list \<Rightarrow> bool list \<Rightarrow> (int list \<times> int list \<times> int list) list option" where
  "dec_row t d [] bs = Some []"
| "dec_row t d (l # ls) bs = (case dec_planes t d l bs of None \<Rightarrow> None
    | Some (v, r) \<Rightarrow> (case dec_row t d ls r of None \<Rightarrow> None | Some vs \<Rightarrow> Some (v # vs)))"

fun dc_sums :: "int \<times> int \<times> int \<Rightarrow> int list \<Rightarrow> (int \<times> int \<times> int) list" where
  "dc_sums (a, b, c) (x # y # z # r) = (a + x, b + y, c + z) # dc_sums (a + x, b + y, c + z) r"
| "dc_sums p _ = []"

definition rebuild_block ::
    "(nat \<times> nat) \<times> nat \<Rightarrow> int \<times> int \<times> int \<Rightarrow> int list \<times> int list \<times> int list \<Rightarrow> ColourBlock" where
  "rebuild_block = (\<lambda>((l_cr, l_cb), l_y) (dcr, dcb, dy) (acr, acb, ay).
    \<lparr>qcr = (dcr # acr) @ replicate (63 - l_cr) 0, qcb = (dcb # acb) @ replicate (63 - l_cb) 0,
     qy = (dy # ay) @ replicate (63 - l_y) 0, lcr = l_cr, lcb = l_cb, ly = l_y\<rparr>)"

definition strip_decode :: "Geometry \<Rightarrow> bytes \<Rightarrow> (u16 \<times> u16 \<times> ColourBlock list) option" where
  "strip_decode g s =
    (let w18 = unat (rd16 10 s); w1c = unat (rd16 12 s);
         main = bytes_bits (get 16 (w18 - 16) s); row0 = bytes_bits (get w18 (w1c - w18) s);
         row1 = bytes_bits (drop w1c s)
     in case dec_many (dec_sync (coding g)) 16 main of None \<Rightarrow> None | Some (ls, r) \<Rightarrow>
       (case dec_many (dec_esc (coding g) (dc_cmax (depth g))) 48 r of None \<Rightarrow> None | Some (ds, r) \<Rightarrow>
       (case dec_row (coding g) (depth g) (take 8 ls) row0 of None \<Rightarrow> None | Some ac0 \<Rightarrow>
       (case dec_row (coding g) (depth g) (drop 8 ls) row1 of None \<Rightarrow> None | Some ac1 \<Rightarrow>
         Some (strip_x s, strip_y s,
           map (\<lambda>(l, dc, ac). rebuild_block l dc ac) (zip ls (zip (dc_sums (0, 0, 0) ds) (ac0 @ ac1))))))))"

section \<open>Extents\<close>

lemma foldl_last_index:
  fixes P :: "nat \<Rightarrow> bool"
  defines "l n \<equiv> foldl (\<lambda>l i. if P i then i else l) 0 [1..<n]"
  shows "l n = (case find P (rev [1..<n]) of None \<Rightarrow> 0 | Some i \<Rightarrow> i)"
    and "l n = 0 \<or> l n < n" and "l n < i \<Longrightarrow> i < n \<Longrightarrow> \<not> P i"
proof (induction n)
  case (Suc n)
  { case 1 then show ?case using Suc by (auto simp: l_def) next
    case 2 then show ?case using Suc by (auto simp: l_def) next
    case 3 then show ?case using Suc by (cases "i = n") (auto simp: l_def split: if_splits) }
qed (simp_all add: l_def)

lemma last_significant_eq: "last_significant q = chroma_last q"
  unfolding last_significant_def chroma_last_def by (rule foldl_last_index(1))

lemma last_significant_lt: "last_significant q < 64"
  using foldl_last_index(2) [of "\<lambda>i. q ! i \<noteq> 0" 64] by (auto simp: last_significant_def COEFFS_def)

lemma last_significant_tail:
  "length q = 64 \<Longrightarrow> drop (Suc (last_significant q)) q = replicate (63 - last_significant q) 0"
  using foldl_last_index(3) [of "\<lambda>i. q ! i \<noteq> 0" 64]
  by (intro nth_equalityI) (auto simp: last_significant_def COEFFS_def)

section \<open>Admissible blocks\<close>

text \<open>
  What the decoder relies on: 64 coefficients per plane, none significant past the extent, every AC
  below its plane's ceiling and the DCs such that no difference of two of them exceeds the DC ceiling.
\<close>

definition plane_ok :: "nat \<Rightarrow> int list \<Rightarrow> nat \<Rightarrow> bool" where
  "plane_ok cmax q l \<longleftrightarrow> length q = 64 \<and> l < 64 \<and> drop (Suc l) q = replicate (63 - l) 0 \<and>
    (\<forall>i\<in>{1..l}. \<bar>q ! i\<bar> < 2 ^ cmax)"

definition block_ok :: "Depth \<Rightarrow> ColourBlock \<Rightarrow> bool" where
  "block_ok d b \<longleftrightarrow> plane_ok (chroma_ac_cmax d) (qcr b) (lcr b) \<and> plane_ok (chroma_ac_cmax d) (qcb b) (lcb b) \<and>
    plane_ok (ac_cmax d) (qy b) (ly b) \<and>
    2 * \<bar>qcr b ! 0\<bar> < 2 ^ dc_cmax d \<and> 2 * \<bar>qcb b ! 0\<bar> < 2 ^ dc_cmax d \<and>
    0 \<le> qy b ! 0 \<and> qy b ! 0 < 2 ^ dc_cmax d"

definition ac_list :: "int list \<Rightarrow> nat \<Rightarrow> int list" where
  "ac_list q l = map ((!) q) [1..<l + 1]"

lemma clamp_abs: "\<bar>v\<bar> < M \<Longrightarrow> clamp (- (M - 1)) (M - 1) v = v"
  by (simp add: clamp_def)

lemma plane_rebuild:
  assumes "plane_ok cmax q l"
  shows "(q ! 0 # ac_list q l) @ replicate (63 - l) 0 = q"
proof -
  have len: "length q = 64" "l < 64" and d: "drop (Suc l) q = replicate (63 - l) 0"
    using assms by (simp_all add: plane_ok_def)
  have "q ! 0 # ac_list q l = map ((!) q) [0..<Suc l]"
    unfolding ac_list_def by (subst (2) upt_conv_Cons) simp_all
  also have "\<dots> = take (Suc l) q"
    using len by (intro nth_equalityI) (simp_all add: nth_append del: upt_Suc)
  finally show ?thesis using d append_take_drop_id [of "Suc l" q] by simp
qed

lemma dec_plane:
  assumes "plane_ok cmax q l" "0 < cmax" "cmax \<le> 12"
  shows "dec_many (dec_esc t cmax) l (plane_bits t cmax q l @ r) = Some (ac_list q l, r)"
proof -
  have "map (clamp (- (2 ^ cmax - 1)) (2 ^ cmax - 1)) (ac_list q l) = ac_list q l"
  proof (intro map_idI)
    fix v assume "v \<in> set (ac_list q l)"
    then have "\<bar>v\<bar> < 2 ^ cmax" using assms(1) by (auto simp: ac_list_def plane_ok_def)
    then show "clamp (- (2 ^ cmax - 1)) (2 ^ cmax - 1) v = v" by (rule clamp_abs)
  qed
  then show ?thesis
    using dec_many_esc [of cmax t "ac_list q l" r] assms(2,3)
    by (simp add: plane_bits_def ac_list_def del: upt_Suc)
qed

definition block_bits :: "CodeTables \<Rightarrow> Depth \<Rightarrow> ColourBlock \<Rightarrow> bool list" where
  "block_bits t d b =
    plane_bits t (chroma_ac_cmax d) (qcr b) (lcr b) @ plane_bits t (chroma_ac_cmax d) (qcb b) (lcb b) @
    plane_bits t (ac_cmax d) (qy b) (ly b)"

definition block_lasts :: "ColourBlock \<Rightarrow> (nat \<times> nat) \<times> nat" where
  "block_lasts b = ((lcr b, lcb b), ly b)"

definition block_ac_lists :: "ColourBlock \<Rightarrow> int list \<times> int list \<times> int list" where
  "block_ac_lists b = (ac_list (qcr b) (lcr b), ac_list (qcb b) (lcb b), ac_list (qy b) (ly b))"

lemma writes_block_ac: "writes t (\<lambda>s. block_ac d s b) (block_bits t d b)"
  unfolding block_ac_def block_bits_def by (rule writes_colour_block_ac)

lemma dec_row_blocks:
  "\<forall>b\<in>set bs. block_ok d b \<Longrightarrow>
    dec_row t d (map block_lasts bs) (concat (map (block_bits t d) bs) @ r) = Some (map block_ac_lists bs)"
proof (induction bs)
  case (Cons b bs)
  then have "block_ok d b" by simp
  then have "dec_planes t d (block_lasts b) (block_bits t d b @ r') = Some (block_ac_lists b, r')" for r'
    by (simp add: dec_planes_def block_lasts_def block_bits_def block_ac_lists_def block_ok_def dec_plane)
  then show ?case using Cons by simp
qed simp

section \<open>Differential DCs\<close>

fun dc_deltas :: "int \<times> int \<times> int \<Rightarrow> ColourBlock list \<Rightarrow> int list" where
  "dc_deltas p [] = []"
| "dc_deltas (pcr, pcb, py) (b # bs) =
    [qcr b ! 0 - pcr, qcb b ! 0 - pcb, qy b ! 0 - py] @ dc_deltas (qcr b ! 0, qcb b ! 0, qy b ! 0) bs"

definition block_dc :: "ColourBlock \<Rightarrow> int \<times> int \<times> int" where
  "block_dc b = (qcr b ! 0, qcb b ! 0, qy b ! 0)"

lemma length_dc_deltas: "length (dc_deltas p bs) = 3 * length bs"
  by (induction p bs rule: dc_deltas.induct) simp_all

lemma dc_sums_deltas: "dc_sums p (dc_deltas p bs) = map block_dc bs"
  by (induction p bs rule: dc_deltas.induct) (simp_all add: block_dc_def)

lemma foldl_dc_step:
  "fst (foldl (dc_step cmax) (s, p) bs) = foldl (\<lambda>s v. esc s v cmax) s (dc_deltas p bs)"
  by (induction p bs arbitrary: s rule: dc_deltas.induct) (simp_all add: dc_step_def Let_def)

lemma dc_deltas_bound:
  fixes M :: int
  assumes "\<forall>b\<in>set bs. 2 * \<bar>qcr b ! 0\<bar> < M \<and> 2 * \<bar>qcb b ! 0\<bar> < M \<and> 0 \<le> qy b ! 0 \<and> qy b ! 0 < M"
    and "2 * \<bar>pcr\<bar> < M" "2 * \<bar>pcb\<bar> < M" "0 \<le> py" "py < M"
  shows "\<forall>v\<in>set (dc_deltas (pcr, pcb, py) bs). \<bar>v\<bar> < M"
  using assms
proof (induction bs arbitrary: pcr pcb py)
  case (Cons b bs)
  define cr cb yv where "cr = qcr b ! 0" and "cb = qcb b ! 0" and "yv = qy b ! 0"
  have b: "2 * \<bar>cr\<bar> < M" "2 * \<bar>cb\<bar> < M" "0 \<le> yv" "yv < M"
    using Cons.prems(1) by (simp_all add: cr_def cb_def yv_def)
  then have "\<bar>cr - pcr\<bar> < M" "\<bar>cb - pcb\<bar> < M" "\<bar>yv - py\<bar> < M"
    using Cons.prems(2-5) by linarith+
  moreover have "\<forall>v\<in>set (dc_deltas (cr, cb, yv) bs). \<bar>v\<bar> < M"
    using Cons.prems(1) by (intro Cons.IH b) auto
  ultimately show ?case by (simp add: cr_def cb_def yv_def)
qed simp

section \<open>Sizes\<close>

lemma length_unary_bits: "length (unary_bits t c stop p) = 2 * c + of_bool stop"
  by (cases t) (simp_all add: unary_bits_def length_concat comp_def sum_list_triv)

lemma length_esc_bits: "0 < cmax \<Longrightarrow> length (esc_bits t cmax v) \<le> 2 * cmax + 1"
  using esc_fields_value [of cmax v]
  by (auto simp: esc_bits_def enc_unary_def length_unary_bits split: prod.splits)

lemma length_concat_bound:
  "(\<And>x. x \<in> set xs \<Longrightarrow> length (f x) \<le> k) \<Longrightarrow> length (concat (map f xs)) \<le> length xs * k"
proof (induction xs)
  case (Cons x xs)
  then show ?case using Cons.prems [of x] by (simp add: add_mono)
qed simp

lemma length_esc_list:
  assumes "0 < cmax" "cmax \<le> 12"
  shows "length (concat (map (esc_bits t cmax) vs)) \<le> length vs * 25"
proof (rule length_concat_bound)
  show "length (esc_bits t cmax v) \<le> 25" for v
    using length_esc_bits [OF assms(1), of t v] assms(2) by linarith
qed

lemma length_sync_bits: "lcr b < 64 \<Longrightarrow> lcb b < 64 \<Longrightarrow> ly b < 64 \<Longrightarrow> length (sync_bits t (block_lasts b)) \<le> 39"
  using ilog2_less [of "lcr b + 1" 6] ilog2_less [of "lcb b + 1" 6] ilog2_less [of "64 - ly b" 5]
  by (auto simp: sync_bits_def block_lasts_def enc_unary_def length_unary_bits chroma_fields_def luma_fields_def)

lemma length_plane_bits:
  assumes "0 < cmax" "cmax \<le> 12" "l < 64"
  shows "length (plane_bits t cmax q l) \<le> 1575"
  using length_esc_list [OF assms(1,2), of t "map ((!) q) [1..<l + 1]"] assms(3)
  by (simp add: plane_bits_def del: upt_Suc)

lemma length_block_bits: "block_ok d b \<Longrightarrow> length (block_bits t d b) \<le> 4725"
  using length_plane_bits [of "chroma_ac_cmax d" "lcr b" t "qcr b"]
    length_plane_bits [of "chroma_ac_cmax d" "lcb b" t "qcb b"] length_plane_bits [of "ac_cmax d" "ly b" t "qy b"]
  by (simp add: block_bits_def block_ok_def plane_ok_def)

lemma length_finish:
  assumes "bits_wf s"
  shows "8 * length (finish s) < length (bits_of s) + 8"
proof -
  have "8 * length (finish s) = length (bits_of s) + (8 * ((bits_nacc s + 7) div 8) - bits_nacc s)"
    using arg_cong [OF finish_bits [OF assms], of length] by simp
  moreover have "8 * ((bits_nacc s + 7) div 8) - bits_nacc s < 8" by linarith
  ultimately show ?thesis by linarith
qed

section \<open>Layout\<close>

lemma put_append1: "i + length v \<le> length a \<Longrightarrow> put i v (a @ b) = put i v a @ b"
  by (simp add: put_def)

lemma put_append2: "length a \<le> i \<Longrightarrow> put i v (a @ b) = a @ put (i - length a) v b"
  by (simp add: put_def)

definition strip_header :: "nat \<Rightarrow> nat \<Rightarrow> u16 \<Rightarrow> u16 \<Rightarrow> bytes" where
  "strip_header w18 w1c x y =
    put 12 (le16 (of_nat w1c)) (put 10 (le16 (of_nat w18)) (put 4 (le16 y) (put 2 (le16 x)
      ((replicate 16 0)[0 := 0x01, 1 := 0x28]))))"

definition strip_main :: "Geometry \<Rightarrow> ColourBlock list \<Rightarrow> Bits" where
  "strip_main g blocks =
    fst (foldl (dc_step (dc_cmax (depth g)))
      (foldl (\<lambda>s b. colour_sync_unit s (lcr b) (lcb b) (ly b)) (Bits_new (coding g)) blocks, 0, 0, 0) blocks)"

definition strip_row :: "Geometry \<Rightarrow> ColourBlock list \<Rightarrow> Bits" where
  "strip_row g bs = foldl (block_ac (depth g)) (Bits_new (coding g)) bs"

definition region :: "nat \<Rightarrow> bytes \<Rightarrow> bytes" where
  "region n v = v @ replicate (n - length v) 0"

lemma length_region [simp]: "length v \<le> n \<Longrightarrow> length (region n v) = n"
  by (simp add: region_def)

lemma put_region: "length v \<le> n \<Longrightarrow> put 0 v (replicate n 0 @ c) = region n v @ c"
  by (simp add: put_def region_def)

lemma length_strip_header [simp]: "length (strip_header w18 w1c x y) = 16"
  by (simp add: strip_header_def)

lemma strip_header_fields [simp]:
  "rd16 10 (strip_header w18 w1c x y) = of_nat w18" "rd16 12 (strip_header w18 w1c x y) = of_nat w1c"
  "rd16 2 (strip_header w18 w1c x y) = x" "rd16 4 (strip_header w18 w1c x y) = y"
  by (simp_all add: strip_header_def)

lemma round_even_ge: "n \<le> round_even n" "round_even n \<le> n + 1"
  by (simp_all add: round_even_def)

lemma colour_strip_layout:
  fixes g blocks
  defines "m \<equiv> finish (strip_main g blocks)" and "v0 \<equiv> finish (strip_row g (take 8 blocks))"
    and "v1 \<equiv> finish (strip_row g (drop 8 blocks))"
  assumes "8 \<le> length blocks"
  shows "colour_strip g blocks x y =
    Ok (strip_header (18 + round_even (length m)) (18 + round_even (length m) + round_even (length v0)) x y @
      region (round_even (length m) + 2) m @ region (round_even (length v0)) v0 @ region (round_even (length v1)) v1)"
proof -
  define n n0 n1 where "n = round_even (length m) + 2" and "n0 = round_even (length v0)"
    and "n1 = round_even (length v1)"
  have le: "length m \<le> n" "length v0 \<le> n0" "length v1 \<le> n1"
    using round_even_ge(1) [of "length m"] round_even_ge(1) [of "length v0"] round_even_ge(1) [of "length v1"]
    by (simp_all add: n_def n0_def n1_def)
  have split: "replicate (16 + n + n0 + n1) 0 =
      replicate 16 (0 :: byte) @ replicate n 0 @ replicate n0 0 @ replicate n1 0"
    by (simp only: replicate_add append_assoc)
  have "colour_strip g blocks x y = Ok (put (16 + n + n0) v1 (put (16 + n) v0 (put 16 m
      (put 12 (le16 (of_nat (16 + n + n0))) (put 10 (le16 (of_nat (16 + n))) (put 4 (le16 y) (put 2 (le16 x)
        ((replicate (16 + n + n0 + n1) 0)[0 := 0x01, 1 := 0x28]))))))))"
    using assms(4) unfolding colour_strip_def Let_def STRIP_ROW_BLOCKS_def n_def n0_def n1_def m_def v0_def
      v1_def strip_main_def strip_row_def by simp
  also have "\<dots> = Ok (put (16 + n + n0) v1 (put (16 + n) v0 (put 16 m
      (strip_header (16 + n) (16 + n + n0) x y @ replicate n 0 @ replicate n0 0 @ replicate n1 0))))"
    unfolding split by (simp add: strip_header_def put_append1 list_update_append)
  also have "\<dots> = Ok (strip_header (16 + n) (16 + n + n0) x y @ region n m @ region n0 v0 @ region n1 v1)"
    using le put_region [of v1 n1 "[]"] by (simp add: put_append2 put_region)
  finally show ?thesis by (simp add: n_def n0_def n1_def add.assoc)
qed

section \<open>Reading a strip back\<close>

lemma strip_main_bits:
  assumes "\<forall>b\<in>set blocks. block_ok (depth g) b"
  shows "bits_wf (strip_main g blocks)"
    and "bits_of (strip_main g blocks) = concat (map (sync_bits (coding g)) (map block_lasts blocks)) @
      concat (map (esc_bits (coding g) (dc_cmax (depth g))) (dc_deltas (0, 0, 0) blocks))"
proof -
  have "writes (coding g) (\<lambda>s. foldl (\<lambda>s b. colour_sync_unit s (lcr b) (lcb b) (ly b)) s blocks)
      (concat (map (\<lambda>b. sync_bits (coding g) (block_lasts b)) blocks))"
    using assms unfolding block_lasts_def
    by (intro writes_foldl writes_colour_sync_unit) (auto simp: block_ok_def plane_ok_def)
  moreover have "writes (coding g) (\<lambda>s. foldl (\<lambda>s v. esc s v (dc_cmax (depth g))) s (dc_deltas (0, 0, 0) blocks))
      (concat (map (esc_bits (coding g) (dc_cmax (depth g))) (dc_deltas (0, 0, 0) blocks)))"
    by (intro writes_foldl writes_esc) simp
  ultimately show "bits_wf (strip_main g blocks)"
    "bits_of (strip_main g blocks) = concat (map (sync_bits (coding g)) (map block_lasts blocks)) @
      concat (map (esc_bits (coding g) (dc_cmax (depth g))) (dc_deltas (0, 0, 0) blocks))"
    by (simp_all add: strip_main_def foldl_dc_step writes_def comp_def)
qed

lemma strip_row_bits:
  "bits_wf (strip_row g bs)" "bits_of (strip_row g bs) = concat (map (block_bits (coding g) (depth g)) bs)"
proof -
  have "writes (coding g) (\<lambda>s. foldl (block_ac (depth g)) s bs) (concat (map (block_bits (coding g) (depth g)) bs))"
    by (intro writes_foldl writes_block_ac)
  then show "bits_wf (strip_row g bs)" "bits_of (strip_row g bs) = concat (map (block_bits (coding g) (depth g)) bs)"
    by (simp_all add: strip_row_def writes_def)
qed

lemma region_bits: "bits_wf s \<Longrightarrow> \<exists>r. bytes_bits (region n (finish s)) = bits_of s @ r"
  by (simp add: region_def finish_bits)

lemma strip_main_size:
  assumes "length blocks = 16" "\<forall>b\<in>set blocks. block_ok (depth g) b"
  shows "length (finish (strip_main g blocks)) \<le> 228"
proof -
  have "length (concat (map (sync_bits (coding g)) (map block_lasts blocks))) \<le> 16 * 39"
  proof (rule le_trans [OF length_concat_bound [where k = 39]])
    fix l assume "l \<in> set (map block_lasts blocks)"
    then obtain b where "b \<in> set blocks" "l = block_lasts b" by auto
    with assms(2) show "length (sync_bits (coding g) l) \<le> 39"
      using length_sync_bits [of b "coding g"] by (simp add: block_ok_def plane_ok_def)
  qed (use assms(1) in simp)
  moreover have "length (concat (map (esc_bits (coding g) (dc_cmax (depth g))) (dc_deltas (0, 0, 0) blocks))) \<le> 48 * 25"
    using length_esc_list [of "dc_cmax (depth g)" "coding g" "dc_deltas (0, 0, 0) blocks"] assms(1)
    by (simp add: length_dc_deltas)
  ultimately show ?thesis
    using length_finish [OF strip_main_bits(1) [OF assms(2)]] strip_main_bits(2) [OF assms(2)] by simp
qed

lemma strip_row_size:
  assumes "length bs = 8" "\<forall>b\<in>set bs. block_ok (depth g) b"
  shows "length (finish (strip_row g bs)) \<le> 4725"
  using length_concat_bound [of bs "block_bits (coding g) (depth g)" 4725] length_block_bits assms
    length_finish [OF strip_row_bits(1) [of g bs]] strip_row_bits(2) [of g bs] by auto

lemma rebuild_block_id:
  "block_ok d b \<Longrightarrow> rebuild_block (block_lasts b) (block_dc b) (block_ac_lists b) = b"
  using plane_rebuild [of "chroma_ac_cmax d" "qcr b" "lcr b"]
    plane_rebuild [of "chroma_ac_cmax d" "qcb b" "lcb b"] plane_rebuild [of "ac_cmax d" "qy b" "ly b"]
  by (intro ColourBlock.equality)
    (simp_all add: rebuild_block_def block_lasts_def block_dc_def block_ac_lists_def block_ok_def)

lemma dec_main:
  assumes "length blocks = 16" and ok: "\<forall>b\<in>set blocks. block_ok (depth g) b"
  shows "dec_many (dec_sync (coding g)) 16 (bits_of (strip_main g blocks) @ r) =
      Some (map block_lasts blocks,
        concat (map (esc_bits (coding g) (dc_cmax (depth g))) (dc_deltas (0, 0, 0) blocks)) @ r)"
    and "dec_many (dec_esc (coding g) (dc_cmax (depth g))) 48
      (concat (map (esc_bits (coding g) (dc_cmax (depth g))) (dc_deltas (0, 0, 0) blocks)) @ r) =
      Some (dc_deltas (0, 0, 0) blocks, r)"
proof -
  have "\<forall>v\<in>set (map block_lasts blocks). case v of (v, w) \<Rightarrow> (case v of (a, b) \<Rightarrow> a < 64 \<and> b < 64) \<and> w < 64"
    using ok by (auto simp: block_lasts_def block_ok_def plane_ok_def)
  from sync_code.pair.dec_many_enc [OF this, of "coding g"] assms(1)
  show "dec_many (dec_sync (coding g)) 16 (bits_of (strip_main g blocks) @ r) =
      Some (map block_lasts blocks,
        concat (map (esc_bits (coding g) (dc_cmax (depth g))) (dc_deltas (0, 0, 0) blocks)) @ r)"
    unfolding strip_main_bits(2) [OF ok] sync_bits_def dec_sync_def by simp
  have "\<forall>v\<in>set (dc_deltas (0, 0, 0) blocks). \<bar>v\<bar> < 2 ^ dc_cmax (depth g)"
    using ok by (intro dc_deltas_bound) (auto simp: block_ok_def)
  then have "map (clamp (- (2 ^ dc_cmax (depth g) - 1)) (2 ^ dc_cmax (depth g) - 1)) (dc_deltas (0, 0, 0) blocks) =
      dc_deltas (0, 0, 0) blocks"
    by (intro map_idI clamp_abs) blast
  then show "dec_many (dec_esc (coding g) (dc_cmax (depth g))) 48
      (concat (map (esc_bits (coding g) (dc_cmax (depth g))) (dc_deltas (0, 0, 0) blocks)) @ r) =
      Some (dc_deltas (0, 0, 0) blocks, r)"
    using dec_many_esc [of "dc_cmax (depth g)" "coding g" "dc_deltas (0, 0, 0) blocks" r] assms(1)
    by (simp add: length_dc_deltas le_trans [OF cmax_bounds(6)])
qed

lemma strip_decode_strip:
  assumes len: "length blocks = 16" and ok: "\<forall>b\<in>set blocks. block_ok (depth g) b"
  shows "\<exists>s. colour_strip g blocks x y = Ok s \<and> strip_decode g s = Some (x, y, blocks)"
proof -
  define m v0 v1 where "m = finish (strip_main g blocks)" and "v0 = finish (strip_row g (take 8 blocks))"
    and "v1 = finish (strip_row g (drop 8 blocks))"
  define w18 w1c where "w18 = 18 + round_even (length m)" and "w1c = w18 + round_even (length v0)"
  define s where "s = strip_header w18 w1c x y @
      region (round_even (length m) + 2) m @ region (round_even (length v0)) v0 @ region (round_even (length v1)) v1"
  have ok0: "\<forall>b\<in>set (take 8 blocks). block_ok (depth g) b" and ok1: "\<forall>b\<in>set (drop 8 blocks). block_ok (depth g) b"
    using ok by (meson in_set_takeD in_set_dropD)+
  have out: "colour_strip g blocks x y = Ok s"
    using colour_strip_layout [of blocks g x y] len
    by (simp add: s_def w18_def w1c_def m_def v0_def v1_def)
  have ge: "length m \<le> round_even (length m) + 2" "length v0 \<le> round_even (length v0)"
    "length v1 \<le> round_even (length v1)"
    using round_even_ge(1) [of "length m"] round_even_ge(1) [of "length v0"] round_even_ge(1) [of "length v1"] by simp_all
  have "length m \<le> 228" "length v0 \<le> 4725"
    using strip_main_size [OF len ok] strip_row_size [OF _ ok0] len by (simp_all add: m_def v0_def)
  then have small: "w18 < 65536" "w1c < 65536"
    using round_even_ge(2) [of "length m"] round_even_ge(2) [of "length v0"] by (simp_all add: w18_def w1c_def)
  have off: "unat (rd16 10 s) = w18" "unat (rd16 12 s) = w1c" "strip_x s = x" "strip_y s = y"
    using small by (simp_all add: s_def unat_of_nat strip_x_def strip_y_def)
  have regions: "get 16 (w18 - 16) s = region (round_even (length m) + 2) m"
    "get w18 (w1c - w18) s = region (round_even (length v0)) v0"
    "drop w1c s = region (round_even (length v1)) v1"
    using ge by (simp_all add: s_def w18_def w1c_def)
  obtain r r0 r1 where bits: "bytes_bits (region (round_even (length m) + 2) m) = bits_of (strip_main g blocks) @ r"
    "bytes_bits (region (round_even (length v0)) v0) = concat (map (block_bits (coding g) (depth g)) (take 8 blocks)) @ r0"
    "bytes_bits (region (round_even (length v1)) v1) = concat (map (block_bits (coding g) (depth g)) (drop 8 blocks)) @ r1"
    using region_bits [OF strip_main_bits(1) [OF ok]] region_bits [OF strip_row_bits(1)] strip_row_bits(2)
    unfolding m_def v0_def v1_def by metis
  have "map (\<lambda>b. rebuild_block (block_lasts b) (block_dc b) (block_ac_lists b)) blocks = blocks"
    using ok rebuild_block_id by (intro map_idI) blast
  then have "strip_decode g s = Some (x, y, blocks)"
    using dec_row_blocks [OF ok0, of "coding g" r0] dec_row_blocks [OF ok1, of "coding g" r1]
    by (simp add: strip_decode_def off regions bits dec_main [OF len ok] Let_def dc_sums_deltas zip_map_map
        zip_same_conv_map take_map drop_map comp_def flip: map_append del: add_2_eq_Suc')
  then show ?thesis using out by blast
qed

section \<open>Every picture is admissible\<close>

lemma last_significant_plane_ok:
  assumes "length q = 64" "\<And>i. 0 < i \<Longrightarrow> i < 64 \<Longrightarrow> \<bar>q ! i\<bar> < 2 ^ cmax"
  shows "plane_ok cmax q (last_significant q)"
  using assms last_significant_lt [of q] last_significant_tail [of q] by (auto simp: plane_ok_def)

lemma nth_dc_ac: "0 < i \<Longrightarrow> i < 64 \<Longrightarrow> (dc # map f [1..<COEFFS]) ! i = f i"
  by (cases i) (simp_all add: COEFFS_def)

lemma luma_plane_ok:
  assumes "length p = 64" "within 0 (sample_max d) p"
  defines "q \<equiv> quantize_dc_round 0 (transform (map ((*) 64) p) ! 0) #
    map (\<lambda>i. quantize (transform (map ((*) 64) p) ! i) i) [1..<COEFFS]"
  shows "plane_ok (ac_cmax d) q (last_significant q)" "0 \<le> q ! 0" "q ! 0 < 2 ^ dc_cmax d"
proof -
  note t = transform_scaled [OF assms(1)] and r = raw_coeffs_range [OF assms(1,2)]
  have s: "0 \<le> sample_max d" "sample_max d \<le> 1023" by (cases d; simp)+
  have "\<bar>q ! i\<bar> \<le> 2 * sample_max d" if "0 < i" "i < 64" for i
    using quantize_bound [OF that, of "raw_coeffs p ! i" "sample_max d"] r(2) [OF that] s t
    by (simp add: q_def nth_dc_ac [OF that] del: One_nat_def)
  moreover have "2 * sample_max d < 2 ^ ac_cmax d" by (cases d) (simp_all add: AC_CMAX_def)
  ultimately show "plane_ok (ac_cmax d) q (last_significant q)"
    by (intro last_significant_plane_ok) (simp add: q_def COEFFS_def, meson le_less_trans)
  have "4 * sample_max d < 2 ^ dc_cmax d" by (cases d) (simp_all add: SOLID_DC_CMAX_def)
  then show "0 \<le> q ! 0" "q ! 0 < 2 ^ dc_cmax d"
    using quantize_dc_round_bound(1) [of 0 "raw_coeffs p ! 0" "sample_max d"] r(1) t by (simp_all add: q_def)
qed

lemma chroma_plane_ok:
  assumes "length p = 64" "within (- sample_max d) (sample_max d) p"
  defines "q k \<equiv> quantize_dc_round (Suc k) (transform (map ((*) 64) p) ! 0) #
    map (\<lambda>i. quantize_chroma_ac (transform (map ((*) 64) p) ! i) i) [1..<COEFFS]"
  shows "plane_ok (chroma_ac_cmax d) (q k) (last_significant (q k))" "2 * \<bar>q k ! 0\<bar> < 2 ^ dc_cmax d"
proof -
  note t = transform_scaled [OF assms(1)] and r = raw_coeffs_range [OF assms(1,2)]
  have s: "0 \<le> 2 * sample_max d" by (cases d; simp)
  have "\<bar>q k ! i\<bar> \<le> 4 * sample_max d" if "0 < i" "i < 64" for i
    using quantize_chroma_ac_bound [OF that, of "raw_coeffs p ! i" "2 * sample_max d"] r(2) [OF that] s t
    by (simp add: q_def nth_dc_ac [OF that] del: One_nat_def)
  moreover have "4 * sample_max d < 2 ^ chroma_ac_cmax d" by (cases d) (simp_all add: CHROMA_AC_CMAX_def)
  ultimately show "plane_ok (chroma_ac_cmax d) (q k) (last_significant (q k))"
    by (intro last_significant_plane_ok) (simp add: q_def COEFFS_def, meson le_less_trans)
  have "\<bar>q k ! 0\<bar> \<le> sample_max d"
    using quantize_dc_round_bound(2) [of "- sample_max d" "raw_coeffs p ! 0" "sample_max d" k] r(1) t
    by (simp add: q_def abs_le_iff)
  moreover have "2 * sample_max d < 2 ^ dc_cmax d" by (cases d) (simp_all add: SOLID_DC_CMAX_def)
  ultimately show "2 * \<bar>q k ! 0\<bar> < 2 ^ dc_cmax d" by linarith
qed

lemma colour_block_ok:
  assumes "length p1 = 64" "length p2 = 64" "length p3 = 64"
    and "within (- sample_max d) (sample_max d) p1" "within (- sample_max d) (sample_max d) p2"
      "within 0 (sample_max d) p3"
  shows "block_ok d (colour_block (map ((*) 64) p1) (map ((*) 64) p2) (map ((*) 64) p3))"
  using chroma_plane_ok [OF assms(1,4), of 1] chroma_plane_ok [OF assms(2,5), of 0] luma_plane_ok [OF assms(3,6)]
  by (simp add: block_ok_def colour_block_def Let_def numeral_2_eq_2)

text \<open>A pixel source delivers samples of depth \<open>d\<close>.\<close>

definition source_ok :: "Depth \<Rightarrow> (nat \<Rightarrow> nat \<Rightarrow> u16 \<times> u16 \<times> u16) \<Rightarrow> bool" where
  "source_ok d px \<longleftrightarrow> (\<forall>x y. case px x y of (r, g, b) \<Rightarrow>
     uint r \<le> sample_max d \<and> uint g \<le> sample_max d \<and> uint b \<le> sample_max d)"

lemma colour_planes:
  assumes "\<forall>(r, g, b)\<in>set ps. 0 \<le> r \<and> r \<le> m \<and> 0 \<le> g \<and> g \<le> m \<and> 0 \<le> b \<and> b \<le> m"
  defines "samples \<equiv> map (\<lambda>(r, g, b). colour r g b) ps"
  shows "\<exists>p1 p2 p3. map (\<lambda>(yv, cbv, crv). crv) samples = map ((*) 64) p1 \<and>
    map (\<lambda>(yv, cbv, crv). cbv) samples = map ((*) 64) p2 \<and> map (\<lambda>(yv, cbv, crv). yv) samples = map ((*) 64) p3 \<and>
    length p1 = length ps \<and> length p2 = length ps \<and> length p3 = length ps \<and>
    within (- m) m p1 \<and> within (- m) m p2 \<and> within 0 m p3"
proof (intro exI conjI)
  show "map (\<lambda>(yv, cbv, crv). crv) samples = map ((*) 64) (map (\<lambda>(r, g, b). b - g) ps)"
    "map (\<lambda>(yv, cbv, crv). cbv) samples = map ((*) 64) (map (\<lambda>(r, g, b). r - g) ps)"
    "map (\<lambda>(yv, cbv, crv). yv) samples = map ((*) 64) (map (\<lambda>(r, g, b). g + (r - g + (b - g)) div 4) ps)"
    by (auto simp: samples_def colour_def)
  show "within (- m) m (map (\<lambda>(r, g, b). b - g) ps)" "within (- m) m (map (\<lambda>(r, g, b). r - g) ps)"
    using assms(1) by (auto simp: within_def)
  show "within 0 m (map (\<lambda>(r, g, b). g + (r - g + (b - g)) div 4) ps)"
    using assms(1) colour_range(1,2) by (fastforce simp: within_def)
qed simp_all

lemma colour_strip_blocks_ok:
  assumes "source_ok d px"
  shows "length (colour_strip_blocks g ox oy px) = 16" "\<forall>b\<in>set (colour_strip_blocks g ox oy px). block_ok d b"
proof -
  show "length (colour_strip_blocks g ox oy px) = 16" by (simp add: colour_strip_blocks_def STRIP_BLOCKS_def)
  show "\<forall>b\<in>set (colour_strip_blocks g ox oy px). block_ok d b"
  proof
    fix b assume "b \<in> set (colour_strip_blocks g ox oy px)"
    then obtain k where b: "b = (let (bx, b_y) = block_origin g k;
        samples = concat (map (\<lambda>r. map (\<lambda>c. let (rr, gg, bb) = px (ox + bx * DIM + c) (oy + b_y * DIM + r)
          in colour (uint rr) (uint gg) (uint bb)) [0..<DIM]) [0..<DIM])
      in colour_block (map (\<lambda>(yv, cbv, crv). crv) samples) (map (\<lambda>(yv, cbv, crv). cbv) samples)
        (map (\<lambda>(yv, cbv, crv). yv) samples))"
      unfolding colour_strip_blocks_def by auto
    obtain bx b_y where o: "block_origin g k = (bx, b_y)" by (cases "block_origin g k")
    define ps where "ps = map (\<lambda>(r, c). case px (ox + bx * DIM + c) (oy + b_y * DIM + r) of
      (rr, gg, bb) \<Rightarrow> (uint rr, uint gg, uint bb)) (concat (map (\<lambda>r. map (Pair r) [0..<DIM]) [0..<DIM]))"
    have "concat (map (\<lambda>r. map (\<lambda>c. let (rr, gg, bb) = px (ox + bx * DIM + c) (oy + b_y * DIM + r)
        in colour (uint rr) (uint gg) (uint bb)) [0..<DIM]) [0..<DIM]) = map (\<lambda>(r, g, b). colour r g b) ps"
      by (simp add: ps_def map_concat comp_def Let_def split_def)
    moreover have "\<forall>(r, g, b)\<in>set ps. 0 \<le> r \<and> r \<le> sample_max d \<and> 0 \<le> g \<and> g \<le> sample_max d \<and> 0 \<le> b \<and> b \<le> sample_max d"
      using assms by (fastforce simp: ps_def source_ok_def split: prod.splits)
    moreover have "length ps = 64" by (simp add: ps_def length_concat comp_def DIM_def sum_list_triv)
    ultimately show "block_ok d b"
      using colour_planes [of ps "sample_max d"] colour_block_ok b o by (auto simp: Let_def)
  qed
qed

section \<open>Properties\<close>

text \<open>
  C20: A strip determines its blocks. For any geometry and any sixteen admissible blocks the encoder
  returns a strip, and reading it back from its two offset fields gives the position and exactly the
  coefficients and extents that went in.
\<close>

theorem strip_roundtrip:
  assumes "length blocks = 16" "\<forall>b\<in>set blocks. block_ok (depth g) b"
  shows "\<exists>s. colour_strip g blocks x y = Ok s \<and> strip_decode g s = Some (x, y, blocks)"
  using assms by (rule strip_decode_strip)

definition sample_block :: ColourBlock where
  "sample_block = colour_block (map ((*) 64) (replicate 64 (- 3))) (map ((*) 64) (replicate 64 5))
    (map ((*) 64) (replicate 64 200))"

theorem strip_roundtrip_witness:
  "\<exists>s. colour_strip RIDGE_GEOMETRY (replicate 16 sample_block) 64 32 = Ok s \<and>
    strip_decode RIDGE_GEOMETRY s = Some (64, 32, replicate 16 sample_block)"
proof (rule strip_roundtrip)
  have "block_ok Eight sample_block"
    unfolding sample_block_def by (intro colour_block_ok) (simp_all add: within_def)
  then show "\<forall>b\<in>set (replicate 16 sample_block). block_ok (depth RIDGE_GEOMETRY) b"
    by (simp add: RIDGE_GEOMETRY_def)
qed simp

text \<open>
  C1: No picture desynchronises or saturates the codec. Whatever a source delivers within its depth,
  every coefficient of every strip is below its code's ceiling, so that the encoded strip decodes to the
  quantised coefficients exactly.
\<close>

theorem picture_strip_exact:
  assumes "source_ok (depth g) px"
  shows "\<exists>s. colour_strip_at g sx sy px = Ok s \<and>
    strip_decode g s = Some (of_nat sx, of_nat sy, colour_strip_blocks g sx sy px)"
  unfolding colour_strip_at_def
  using colour_strip_blocks_ok [OF assms, of g sx sy] by (intro strip_decode_strip) auto

theorem picture_strip_exact_witness:
  "\<exists>s. colour_strip_at RIDGE_GEOMETRY 64 32 (\<lambda>x y. (of_nat (x mod 256), of_nat (y mod 256), 17)) = Ok s \<and>
    strip_decode RIDGE_GEOMETRY s = Some (of_nat 64, of_nat 32,
      colour_strip_blocks RIDGE_GEOMETRY 64 32 (\<lambda>x y. (of_nat (x mod 256), of_nat (y mod 256), 17)))"
proof (rule picture_strip_exact)
  have "uint (of_nat (n mod 256) :: u16) \<le> 255" for n :: nat
    by (simp add: unsigned_of_nat take_bit_nat_eq_self_iff take_bit_nat_eq_self)
  then show "source_ok (depth RIDGE_GEOMETRY) (\<lambda>x y. (of_nat (x mod 256), of_nat (y mod 256), 17))"
    by (simp add: source_ok_def RIDGE_GEOMETRY_def)
qed

end
