(* ===== verification/Dock_Profile.thy ===== *)
theory Dock_Profile
  imports Strip_Codec Control_Messages
begin

text \<open>
  What distinguishes one dock from another: the identity descriptor that places a device
  (\<open>vino-driver/src/profile.rs\<close>) and the profile table with its policies (\<open>chimera/vino/profile.rs\<close>,
  \<open>render_stride\<close> of \<open>chimera/vino/cp/mode.rs\<close>). Doc comments there state why each value is what it is;
  the theorems state what the rest of the driver relies on across the three families. Fields of
  \<open>Protocol\<close> that \<open>Geometry\<close> copies under the same name carry the prefix \<open>proto_\<close>.
\<close>

section \<open>Identity\<close>

definition DESCRIPTOR_IDENTITY :: byte where "DESCRIPTOR_IDENTITY = 0x40"
definition IDENTITY_LEN :: nat where "IDENTITY_LEN = 16"
definition IDENTITY_NAME :: nat where "IDENTITY_NAME = 8"

record Identity =
  version :: "byte \<times> byte \<times> byte"
  id_name :: bytes

text \<open>The walk over the descriptor chain; it advances by at least two bytes or ends.\<close>

function identity_walk :: "bytes \<Rightarrow> nat \<Rightarrow> Identity option" where
  "identity_walk raw i =
    (if i + 2 \<le> length raw then
       let len = unat (raw ! i) in
       if len < 2 \<or> length raw < i + len then None
       else if raw ! (i + 1) = DESCRIPTOR_IDENTITY \<and> IDENTITY_LEN \<le> len then
         let d = get i IDENTITY_LEN raw in
         Some \<lparr>version = (d ! 2, d ! 3, d ! 4), id_name = get 8 IDENTITY_NAME d\<rparr>
       else identity_walk raw (i + len)
     else None)"
  by auto
termination
  by (relation "measure (\<lambda>(raw, i). length raw - i)") auto

declare identity_walk.simps [simp del]

definition Identity_parse :: "bytes \<Rightarrow> Identity option" where
  "Identity_parse raw = identity_walk raw 0"

definition platform :: "Identity \<Rightarrow> bytes" where
  "platform d = takeWhile (\<lambda>c. \<not> (c = 0 \<or> c = 0x20)) (id_name d)"

datatype Family = Navarro | Ridge | Ella | Firefly

definition ascii :: "string \<Rightarrow> bytes" where
  "ascii s = map (\<lambda>c. of_nat (of_char c)) s"

definition from_identity :: "bytes \<Rightarrow> Family option" where
  "from_identity nm =
    (if nm = ascii ''NavaDock'' then Some Navarro
     else if nm = ascii ''Ridge'' \<or> nm = ascii ''RidgeDoc'' then Some Ridge
     else if nm = ascii ''Ella'' \<or> nm = ascii ''EllaDock'' then Some Ella
     else if nm = ascii ''Firefly'' \<or> nm = ascii ''FflyMoni'' then Some Firefly
     else None)"

definition family :: "Identity \<Rightarrow> Family option" where
  "family d = from_identity (platform d)"

section \<open>Policies\<close>

datatype ReplyDiscipline = Lockstep | Drain
datatype VideoCommitPoint = BeforeConnectorRecords | AfterFinalize
datatype BlankBracket = MarkersHeld | BlackThenClose
datatype ProbeBracket = Always | DeferWithActiveSibling

record FrameDelivery =
  keyframe_presentations :: nat
  delta_presentations :: nat
  damage_frames :: nat

record SetupPolls =
  before_stream_opens :: nat
  between_stream_opens :: nat
  after_stream_opens :: nat

definition SetupPolls_new :: "nat \<Rightarrow> nat \<Rightarrow> nat \<Rightarrow> SetupPolls" where
  "SetupPolls_new before between after =
    \<lparr>before_stream_opens = before, between_stream_opens = between, after_stream_opens = after\<rparr>"

definition before_open :: "SetupPolls \<Rightarrow> byte \<Rightarrow> nat" where
  "before_open p connector = (if connector = 0 then before_stream_opens p else between_stream_opens p)"

record StreamPacing =
  bytes_per_sec :: u32
  burst_bytes :: u32

definition UNMETERED :: StreamPacing where
  "UNMETERED = \<lparr>bytes_per_sec = -1, burst_bytes = -1\<rparr>"

definition is_metered :: "StreamPacing \<Rightarrow> bool" where
  "is_metered p \<longleftrightarrow> bytes_per_sec p \<noteq> -1"

definition should_close :: "ProbeBracket \<Rightarrow> byte \<Rightarrow> u32 \<Rightarrow> bool" where
  "should_close b connector active =
    (case b of Always \<Rightarrow> True
     | DeferWithActiveSibling \<Rightarrow> active AND NOT (push_bit (unat connector) 1) = 0)"

section \<open>Framebuffer allocation\<close>

definition STRIDE_ALIGN :: nat where "STRIDE_ALIGN = 128"

definition render_stride :: "u16 \<Rightarrow> u16" where
  "render_stride hactive =
    (let quantised = (unat hactive + STRIDE_ALIGN - 1) div STRIDE_ALIGN
     in of_nat ((quantised + 1) * STRIDE_ALIGN))"

datatype Allocation =
    Fixed u16 u16
  | Derived u32
  | Measured "(u16 \<times> u16 \<times> u16) list" u16

definition words :: "Allocation \<Rightarrow> u16 \<Rightarrow> u16 \<Rightarrow> bool \<Rightarrow> u16 \<times> u16 \<times> bool" where
  "words a hactive vactive ten_bit =
    (let bytes_per_pixel = (if ten_bit then 4 else 3 :: nat) in
     case a of
       Fixed s r \<Rightarrow> (s, r, True)
     | Derived b \<Rightarrow>
         let s = render_stride hactive;
             row = unat s * bytes_per_pixel;
             r = (if row = 0 then 0 else min (unat b div row) 65535)
         in (s, of_nat r, True)
     | Measured table default_rows \<Rightarrow>
         let s = render_stride hactive;
             (r, known) = (case find (\<lambda>(w, h, _). w = hactive \<and> h = vactive) table of
                 Some (_, _, r) \<Rightarrow> (r, True)
               | None \<Rightarrow> (default_rows, False))
         in (s, of_nat (unat r * 3 div bytes_per_pixel), known))"

section \<open>The profile\<close>

record Topology =
  video_endpoints :: bytes
  video_on_ctrl_pipe :: bool
  connectors :: nat

record Capabilities =
  max_refresh_hz :: u32
  max_connector_clock_khz :: u32
  pixel_budget :: u32
  hdr_capable :: bool
  hw_cursor :: bool

record Quirks =
  shared_edid_handler :: bool
  edid_ready_reported :: bool
  split_full_packet_frame :: bool

record Protocol =
  initial_vendor_state :: u16
  per_connector_onehot :: bool
  reply_discipline :: ReplyDiscipline
  video_commit_point :: VideoCommitPoint
  dock_wide_modeset :: bool
  clear_mode_before_set :: bool
  blank_bracket :: BlankBracket
  video_keepalive :: bool
  proto_connector_selector_shift :: nat
  proto_stream_id_mask :: byte
  strm2_marker :: byte
  proto_band_parity_bit :: bool
  strip_blocks_x :: nat
  proto_interlaced_bands :: bool
  proto_dock_buffers :: byte
  frame_delivery :: FrameDelivery
  reports_presence :: bool
  steady_record_sub_bit :: byte
  probe_bracket :: ProbeBracket
  setup_polls :: SetupPolls
  ep84_queue_depth :: nat
  carrier_frames :: u32
  arm_burst :: bool
  sink_down_state :: byte
  post_mode_sink_states :: bytes
  pre_mode_sink_state :: "byte option"
  stream_marker_kind :: byte
  layout_word :: u16
  code_tables :: CodeTables
  dock_wide_init :: bool
  frame_period_ms :: int
  status_period_ms :: int
  stream_pacing :: StreamPacing
  allocation :: Allocation

record DockProfile =
  prof_name :: string
  topology :: Topology
  capabilities :: Capabilities
  protocol :: Protocol
  quirks :: Quirks

definition geometry :: "DockProfile \<Rightarrow> Geometry" where
  "geometry p =
    (let q = protocol p in
     with_steady_sub_bit
       (with_coding
         (Geometry_new (strip_blocks_x q) (proto_interlaced_bands q) (proto_band_parity_bit q)
           (proto_connector_selector_shift q) (proto_stream_id_mask q) (proto_dock_buffers q))
         (code_tables q))
       (steady_record_sub_bit q))"

definition PROFILE_ELLA :: DockProfile where
  "PROFILE_ELLA =
    \<lparr>prof_name = ''DL-3x00 dock (Ella, DL-3900)'',
     topology = \<lparr>video_endpoints = [0x02, 0x02, 0x02, 0x02], video_on_ctrl_pipe = True, connectors = 2\<rparr>,
     capabilities = \<lparr>max_refresh_hz = 75, max_connector_clock_khz = 148500, pixel_budget = 248832000,
       hdr_capable = False, hw_cursor = False\<rparr>,
     protocol = \<lparr>initial_vendor_state = 3, per_connector_onehot = False, reply_discipline = Drain,
       video_commit_point = AfterFinalize, dock_wide_modeset = False, clear_mode_before_set = False,
       blank_bracket = MarkersHeld, video_keepalive = False, proto_connector_selector_shift = 0,
       proto_stream_id_mask = 0x08, strm2_marker = 0x10, proto_band_parity_bit = False,
       strip_blocks_x = 8, proto_interlaced_bands = True, proto_dock_buffers = 3,
       frame_delivery = \<lparr>keyframe_presentations = 3, delta_presentations = 1, damage_frames = 3\<rparr>,
       reports_presence = False, steady_record_sub_bit = 0, probe_bracket = DeferWithActiveSibling,
       setup_polls = SetupPolls_new 2 3 3, ep84_queue_depth = 1, carrier_frames = 1,
       arm_burst = False, sink_down_state = 3, post_mode_sink_states = [3, 0], pre_mode_sink_state = None,
       stream_marker_kind = 0x01, layout_word = 0x1800, code_tables = Narrow, dock_wide_init = True,
       frame_period_ms = 16, status_period_ms = 2500,
       stream_pacing = \<lparr>bytes_per_sec = 8000000, burst_bytes = 24000000\<rparr>,
       allocation = Derived (48 * 1024 * 1024)\<rparr>,
     quirks = \<lparr>shared_edid_handler = False, edid_ready_reported = False, split_full_packet_frame = True\<rparr>\<rparr>"

definition PROFILE_RIDGE :: DockProfile where
  "PROFILE_RIDGE =
    \<lparr>prof_name = ''Dell D6000 (Ridge, DL-6xxx)'',
     topology = \<lparr>video_endpoints = [0x08, 0x0b, 0x08, 0x0b], video_on_ctrl_pipe = False, connectors = 2\<rparr>,
     capabilities = \<lparr>max_refresh_hz = -1, max_connector_clock_khz = 655350, pixel_budget = 973209600,
       hdr_capable = False, hw_cursor = True\<rparr>,
     protocol = \<lparr>initial_vendor_state = 3, per_connector_onehot = False, reply_discipline = Drain,
       video_commit_point = AfterFinalize, dock_wide_modeset = False, clear_mode_before_set = False,
       blank_bracket = BlackThenClose, video_keepalive = False, proto_connector_selector_shift = 0,
       proto_stream_id_mask = 0x08, strm2_marker = 0x06, proto_band_parity_bit = True,
       strip_blocks_x = 8, proto_interlaced_bands = False, proto_dock_buffers = 2,
       frame_delivery = \<lparr>keyframe_presentations = 2, delta_presentations = 1, damage_frames = 3\<rparr>,
       reports_presence = True, steady_record_sub_bit = 0x20, probe_bracket = Always,
       setup_polls = SetupPolls_new 0 0 0, ep84_queue_depth = 4, carrier_frames = -1,
       arm_burst = True, sink_down_state = 1, post_mode_sink_states = [0, 0], pre_mode_sink_state = Some 3,
       stream_marker_kind = 0x03, layout_word = 0x4000, code_tables = Wide, dock_wide_init = False,
       frame_period_ms = 8, status_period_ms = 250, stream_pacing = UNMETERED,
       allocation = Fixed 0x4000 0x6000\<rparr>,
     quirks = \<lparr>shared_edid_handler = True, edid_ready_reported = True, split_full_packet_frame = False\<rparr>\<rparr>"

definition PROFILE_NAVARRO :: DockProfile where
  "PROFILE_NAVARRO =
    \<lparr>prof_name = ''DL-7400 quad dock (Navarro, DL-7000)'',
     topology = \<lparr>video_endpoints = [0x08, 0x0a, 0x08, 0x0a], video_on_ctrl_pipe = False, connectors = 4\<rparr>,
     capabilities = \<lparr>max_refresh_hz = -1, max_connector_clock_khz = 699500, pixel_budget = 1216512000,
       hdr_capable = True, hw_cursor = True\<rparr>,
     protocol = \<lparr>initial_vendor_state = 0, per_connector_onehot = True, reply_discipline = Lockstep,
       video_commit_point = BeforeConnectorRecords, dock_wide_modeset = True, clear_mode_before_set = True,
       blank_bracket = MarkersHeld, video_keepalive = True, proto_connector_selector_shift = 3,
       proto_stream_id_mask = 0x07, strm2_marker = 0x0c, proto_band_parity_bit = False,
       strip_blocks_x = 16, proto_interlaced_bands = True, proto_dock_buffers = 3,
       frame_delivery = \<lparr>keyframe_presentations = 3, delta_presentations = 1, damage_frames = 4\<rparr>,
       reports_presence = True, steady_record_sub_bit = 0, probe_bracket = Always,
       setup_polls = SetupPolls_new 0 0 0, ep84_queue_depth = 1, carrier_frames = 5,
       arm_burst = False, sink_down_state = 3, post_mode_sink_states = [3, 3], pre_mode_sink_state = Some 3,
       stream_marker_kind = 0x05, layout_word = 0x2100, code_tables = Wide, dock_wide_init = True,
       frame_period_ms = 5, status_period_ms = 250, stream_pacing = UNMETERED,
       allocation = Measured [(2560, 1440, 0x66db), (640, 480, 0x6800)] 0x6000\<rparr>,
     quirks = \<lparr>shared_edid_handler = False, edid_ready_reported = True, split_full_packet_frame = True\<rparr>\<rparr>"

definition for_family :: "Family \<Rightarrow> DockProfile option" where
  "for_family f = (case f of Ella \<Rightarrow> Some PROFILE_ELLA | Ridge \<Rightarrow> Some PROFILE_RIDGE
    | Navarro \<Rightarrow> Some PROFILE_NAVARRO | Firefly \<Rightarrow> None)"

definition PID_D6000 :: u16 where "PID_D6000 = 0x6006"
definition PID_DL7400 :: u16 where "PID_DL7400 = 0x7000"

definition for_product :: "u16 \<Rightarrow> DockProfile option" where
  "for_product product =
    (if product = PID_D6000 then Some PROFILE_RIDGE
     else if product = PID_DL7400 then Some PROFILE_NAVARRO else None)"

definition EP_CTRL_OUT :: byte where "EP_CTRL_OUT = 0x02"
definition EP_CTRL_IN :: byte where "EP_CTRL_IN = 0x84"

section \<open>Lemmas\<close>

text \<open>A descriptor as the chain carries it: its first byte is its length.\<close>

definition descriptor_wf :: "bytes \<Rightarrow> bool" where
  "descriptor_wf d \<longleftrightarrow> 2 \<le> length d \<and> unat (d ! 0) = length d"

definition is_identity :: "bytes \<Rightarrow> bool" where
  "is_identity d \<longleftrightarrow> d ! 1 = DESCRIPTOR_IDENTITY \<and> IDENTITY_LEN \<le> length d"

lemma identity_walk_skip:
  assumes "descriptor_wf d" "\<not> is_identity d"
  shows "identity_walk (a @ d @ r) (length a) = identity_walk (a @ d @ r) (length (a @ d))"
  using assms by (subst identity_walk.simps) (auto simp: descriptor_wf_def is_identity_def nth_append Let_def)

lemma identity_walk_chain:
  assumes "\<forall>d\<in>set ds. descriptor_wf d \<and> \<not> is_identity d"
  shows "identity_walk (a @ concat ds @ r) (length a) = identity_walk (a @ concat ds @ r) (length (a @ concat ds))"
  using assms
proof (induction ds arbitrary: a)
  case (Cons d ds)
  then show ?case
    using identity_walk_skip [of d a "concat ds @ r"] Cons.IH [of "a @ d"] by simp
qed simp

lemma identity_walk_hit:
  assumes "descriptor_wf d" "is_identity d"
  shows "identity_walk (a @ d @ r) (length a) = Some \<lparr>version = (d ! 2, d ! 3, d ! 4), id_name = get 8 8 d\<rparr>"
  using assms
  by (subst identity_walk.simps)
    (auto simp: descriptor_wf_def is_identity_def nth_append Let_def IDENTITY_LEN_def IDENTITY_NAME_def get_def drop_take)

lemma render_stride_nat:
  assumes "unat h \<le> 65280"
  shows "unat (render_stride h) = 128 * ((unat h + 127) div 128 + 1)"
proof -
  have "128 * ((unat h + 127) div 128 + 1) < 65536" using assms div_ceil_bounds(2) [of 128 "unat h"] by simp
  then have "unat (of_nat (128 * ((unat h + 127) div 128 + 1)) :: u16) = 128 * ((unat h + 127) div 128 + 1)"
    by (simp only: unat_of_nat) simp
  then show ?thesis
    by (simp add: render_stride_def STRIDE_ALIGN_def Let_def mult.commute add.commute)
qed

lemma words_Derived:
  assumes "words (Derived b) h v t = (s, r, known)"
  shows "unat s * (if t then 4 else 3) * unat r \<le> unat b"
    and "0 < unat s \<Longrightarrow> unat r < 65535 \<Longrightarrow> unat b < unat s * (if t then 4 else 3) * (unat r + 1)"
proof -
  define row where "row = unat s * (if t then 4 else 3 :: nat)"
  have r: "unat r = (if row = 0 then 0 else min (unat b div row) 65535)"
    using assms by (auto simp: words_def Let_def row_def unat_of_nat take_bit_nat_eq_self_iff min_def)
  have "row * (unat b div row) \<le> unat b" by simp
  moreover have "row * unat r \<le> row * (unat b div row)" using r by (intro mult_le_mono2) (simp add: min_def)
  ultimately show "unat s * (if t then 4 else 3) * unat r \<le> unat b"
    unfolding row_def [symmetric] by linarith
  assume "0 < unat s" "unat r < 65535"
  then have "0 < row" "unat r = unat b div row" using r by (auto simp: row_def min_def split: if_splits)
  then show "unat b < unat s * (if t then 4 else 3) * (unat r + 1)"
    unfolding row_def [symmetric] using dividend_less_times_div [of row "unat b"] by simp
qed

section \<open>Properties\<close>

text \<open>
  The identity descriptor is found wherever it stands. In any chain of well-formed descriptors the
  walk returns the version and name of the first identity descriptor, whatever follows it; the walk itself
  is total, so a malformed chain ends it too.
\<close>

lemma identity_found:
  assumes "\<forall>d\<in>set ds. descriptor_wf d \<and> \<not> is_identity d" "descriptor_wf d" "is_identity d"
  shows "Identity_parse (concat ds @ d @ rest) = Some \<lparr>version = (d ! 2, d ! 3, d ! 4), id_name = get 8 8 d\<rparr>"
  using identity_walk_chain [OF assms(1), of "[]" "d @ rest"] identity_walk_hit [OF assms(2,3), of "concat ds" rest]
  by (simp add: Identity_parse_def)

text \<open>
  A stated allocation fits. A derived row count never claims more bytes than the dock's partition
  at the depth actually sent, and no smaller count than the largest that fits; the render stride of every
  width up to 65280 is a multiple of 128 that exceeds the width by at most 255; and a measured row count
  shrinks at thirty bits by the ratio the rows grew.
\<close>

lemma allocation_fits:
  "(case words (Derived b) h v t of (s, r, known) \<Rightarrow>
      known \<and> unat s * (if t then 4 else 3) * unat r \<le> unat b \<and>
      (0 < unat s \<and> unat r < 65535 \<longrightarrow> unat b < unat s * (if t then 4 else 3) * (unat r + 1)) \<and>
      (unat h \<le> 65280 \<longrightarrow> 128 dvd unat s \<and> unat h < unat s \<and> unat s \<le> unat h + 255)) \<and>
   (case (words (Measured table dflt) h v True, words (Measured table dflt) h v False) of
      ((s10, r10, k10), (s8, r8, k8)) \<Rightarrow> s10 = s8 \<and> k10 = k8 \<and> unat r10 * 4 \<le> unat r8 * 3)"
proof -
  obtain s r known where w: "words (Derived b) h v t = (s, r, known)" by (cases "words (Derived b) h v t")
  have s: "s = render_stride h" "known" using w by (auto simp: words_def Let_def)
  have stride: "128 dvd unat s \<and> unat h < unat s \<and> unat s \<le> unat h + 255" if "unat h \<le> 65280"
    unfolding s(1) render_stride_nat [OF that] using div_ceil_bounds [of 128 "unat h"] by simp
  have "unat (of_nat (unat r * 3 div 4) :: u16) * 4 \<le> unat r * 3" for r :: u16
  proof -
    have "unat r * 3 div 4 < 65536" using unat_u16_lt [of r] by linarith
    then show ?thesis by (simp add: unat_of_nat take_bit_nat_eq_self) 
  qed
  then have "case (words (Measured table dflt) h v True, words (Measured table dflt) h v False) of
      ((s10, r10, k10), (s8, r8, k8)) \<Rightarrow> s10 = s8 \<and> k10 = k8 \<and> unat r10 * 4 \<le> unat r8 * 3"
    by (simp add: words_def Let_def split: option.splits prod.splits)
  then show ?thesis using w s(2) words_Derived [OF w] stride by auto
qed

text \<open>What the codec and the wire need of a profile.\<close>

definition profile_ok :: "DockProfile \<Rightarrow> bool" where
  "profile_ok p =
    (let g = geometry p; n = connectors (topology p); d = frame_delivery (protocol p);
         cs = map of_nat [0..<n] :: byte list
     in strip_w g * strip_h g = STRIP_BLOCKS * PIXELS \<and>
        distinct (map (\<lambda>c. ucast (connector_selector g c)) cs @ map (stream_id g) cs) \<and>
        unat (dock_buffers g) \<le> keyframe_presentations d \<and>
        unat (dock_buffers g) \<le> delta_presentations d * damage_frames d \<and>
        coding g = code_tables (protocol p) \<and>
        (hdr_capable (capabilities p) \<longrightarrow> coding g = Wide) \<and>
        n \<le> MAX_CONNECTORS \<and> length (video_endpoints (topology p)) = MAX_CONNECTORS \<and>
        (video_on_ctrl_pipe (topology p) \<longleftrightarrow> EP_CTRL_OUT \<in> set (video_endpoints (topology p))))"

lemma profile_ok_ella: "profile_ok PROFILE_ELLA" by code_simp
lemma profile_ok_ridge: "profile_ok PROFILE_RIDGE" by code_simp
lemma profile_ok_navarro: "profile_ok PROFILE_NAVARRO" by code_simp

text \<open>
  Every profile the driver can select is consistent with the codec and the wire: the strip is
  sixteen blocks, the connectors' record selectors and stream ids are pairwise distinct and disjoint, a
  keyframe and a damaged strip are each presented often enough to reach every buffer of the dock's ring,
  the coder speaks the dialect the dock is configured with, a dock driven at ten bits takes the wide
  tables, the only ones with deep forms, and video shares the control endpoint exactly on the docks that
  declare it.
\<close>

lemma profiles_consistent:
  assumes "for_family f = Some p \<or> for_product product = Some p"
  shows "profile_ok p"
  using assms profile_ok_ella profile_ok_ridge profile_ok_navarro
  by (auto simp: for_family_def for_product_def split: Family.splits if_splits)

text \<open>
  A deferred probe never touches a lit sibling: on a dock with the deferring policy the bracket of
  one of its connectors is closed exactly when no other connector is active.
\<close>

lemma should_close_spares_siblings:
  assumes "unat c < 32"
  shows "should_close DeferWithActiveSibling c active \<longleftrightarrow> (\<forall>k<32. k \<noteq> unat c \<longrightarrow> \<not> bit active k)"
  unfolding should_close_def
  using assms by (auto simp: bit_eq_iff bit_simps)

end
