(* ===== verification/Display_Mode.thy ===== *)
theory Display_Mode
  imports Dock_Profile
begin

text \<open>
  Describing a mode to the dock: \<open>chimera/vino/cp/mode.rs\<close>, the constants of \<open>chimera/vino/cp/mod.rs\<close> it
  uses, the display-mode object of \<open>chimera/src/kshim.rs\<close> and the mode table of
  \<open>kvino/kernel_tree/api.rs\<close>. The set-mode message is read back by offset, so that its layout is a
  round trip over the timing record.
\<close>

section \<open>DRM modes\<close>

record drm_display_mode =
  dm_clock :: int
  dm_hdisplay :: u16
  dm_hsync_start :: u16
  dm_hsync_end :: u16
  dm_htotal :: u16
  dm_vdisplay :: u16
  dm_vsync_start :: u16
  dm_vsync_end :: u16
  dm_vtotal :: u16
  dm_flags :: u32

text \<open>\<open>div_ceil\<close> in 64 bits, then a cast to \<open>i32\<close>.\<close>

definition drm_mode_vrefresh :: "drm_display_mode \<Rightarrow> int" where
  "drm_mode_vrefresh m =
    (if dm_clock m \<le> 0 \<or> dm_htotal m = 0 \<or> dm_vtotal m = 0 then 0
     else let numerator = nat (dm_clock m) * 1000;
              denominator = unat (dm_htotal m) * unat (dm_vtotal m)
          in sint (of_nat ((numerator + (denominator - 1)) div denominator) :: u32))"

definition mode_key :: "drm_display_mode \<Rightarrow> int \<times> int list" where
  "mode_key m = (dm_clock m, map uint [dm_hdisplay m, dm_hsync_start m, dm_hsync_end m, dm_htotal m,
     dm_vdisplay m, dm_vsync_start m, dm_vsync_end m, dm_vtotal m])"

definition cea_vic :: "drm_display_mode \<Rightarrow> byte" where
  "cea_vic m =
    (if mode_key m = (74250, [1280, 1390, 1430, 1650, 720, 725, 730, 750]) then 4
     else if mode_key m = (148500, [1920, 2008, 2052, 2200, 1080, 1084, 1089, 1125]) then 16
     else if mode_key m = (297000, [1920, 2008, 2052, 2200, 1080, 1084, 1089, 1125]) then 63
     else 0)"

definition NHSYNC :: u32 where "NHSYNC = 2"
definition NVSYNC :: u32 where "NVSYNC = 8"

section \<open>The set-mode words\<close>

definition SYNC_FLAGS_BASE :: u16 where "SYNC_FLAGS_BASE = 0x0400"
definition SYNC_FLAG_HSYNC_INV :: u16 where "SYNC_FLAG_HSYNC_INV = 0x0100"
definition SYNC_FLAG_VSYNC_INV :: u16 where "SYNC_FLAG_VSYNC_INV = 0x0200"
definition SYNC_FLAG_ST2084 :: u16 where "SYNC_FLAG_ST2084 = 0x0040"
definition SYNC_FLAG_DUAL_NIVO :: u16 where "SYNC_FLAG_DUAL_NIVO = 0x0004"
definition SYNC_FLAGS_TEARDOWN :: u16 where "SYNC_FLAGS_TEARDOWN = 0x8000"
definition VIC_ASPECT_16_9 :: u64 where "VIC_ASPECT_16_9 = 0x055575ebeaaed55c"
definition ASPECT_16_9 :: u16 where "ASPECT_16_9 = 0x2800"
definition ASPECT_4_3 :: u16 where "ASPECT_4_3 = 0x1800"
definition ASPECT_NONE :: u16 where "ASPECT_NONE = 0x0800"
definition COLOUR_DEPTH_24BPP :: u16 where "COLOUR_DEPTH_24BPP = 0x0200"
definition COLOUR_DEPTH_30BPP :: u16 where "COLOUR_DEPTH_30BPP = 0x0300"
definition DMA_FORMAT_NM24 :: byte where "DMA_FORMAT_NM24 = 2"
definition DMA_FORMAT_NONE :: byte where "DMA_FORMAT_NONE = 0"
definition DMA_FORMAT_NM30 :: byte where "DMA_FORMAT_NM30 = 3"

record Timing =
  t_hactive :: u16
  t_hblank :: u16
  t_hsync_front :: u16
  t_hsync_width :: u16
  t_vactive :: u16
  t_vblank :: u16
  t_vsync_front :: u16
  t_vsync_width :: u16
  t_refresh_hz :: u16
  t_pixel_clock_10khz :: u32
  t_sync_flags :: u16
  t_stride :: u16
  t_total_rows :: u16
  t_vic_word :: u16
  t_ten_bit :: bool
  t_st2084 :: bool
  t_dual_nivo :: bool

definition sync_flags :: "drm_display_mode \<Rightarrow> u16" where
  "sync_flags m =
    (let word = SYNC_FLAGS_BASE;
         word = (if dm_flags m AND NHSYNC = NHSYNC then word OR SYNC_FLAG_HSYNC_INV else word)
     in if dm_flags m AND NVSYNC = NVSYNC then word OR SYNC_FLAG_VSYNC_INV else word)"

definition vic_word :: "byte \<Rightarrow> u16" where
  "vic_word vic =
    (let v = unat vic;
         aspect = (if v = 0 \<or> 59 \<le> v - 1 then ASPECT_NONE
                   else if VIC_ASPECT_16_9 AND push_bit (v - 1) 1 \<noteq> 0 then ASPECT_16_9 else ASPECT_4_3)
     in aspect OR ucast vic)"

record ModeProfile =
  mp_sync_flags :: u16
  mp_vic_word :: u16
  measured :: bool

definition captured_mode :: "drm_display_mode \<Rightarrow> (u16 \<times> u16) option" where
  "captured_mode m =
    (if mode_key m = (148500, [1920, 2008, 2052, 2200, 1080, 1084, 1089, 1125]) then Some (0x0400, 0x2810)
     else if mode_key m = (297000, [1920, 2008, 2052, 2200, 1080, 1084, 1089, 1125]) then Some (0x0400, 0x083f)
     else if mode_key m = (241500, [2560, 2608, 2640, 2720, 1440, 1443, 1448, 1481]) then Some (0x0600, 0x0800)
     else if mode_key m = (497750, [2560, 2608, 2640, 2720, 1440, 1443, 1448, 1525]) then Some (0x0600, 0x0800)
     else None)"

definition mode_profile :: "drm_display_mode \<Rightarrow> ModeProfile option" where
  "mode_profile m =
    (if dm_clock m \<le> 0 then None
     else if drm_mode_vrefresh m \<le> 0 then None
     else Some (case captured_mode m of
         None \<Rightarrow> \<lparr>mp_sync_flags = sync_flags m, mp_vic_word = vic_word (cea_vic m), measured = False\<rparr>
       | Some (s, v) \<Rightarrow> \<lparr>mp_sync_flags = s, mp_vic_word = v, measured = True\<rparr>))"

definition mode_supported :: "drm_display_mode \<Rightarrow> bool" where
  "mode_supported m \<longleftrightarrow> mode_profile m \<noteq> None"

section \<open>The messages\<close>

text \<open>The six random tail bytes are an argument.\<close>

definition clear_mode :: "u16 \<Rightarrow> byte \<Rightarrow> bytes \<Rightarrow> bytes" where
  "clear_mode counter connector tail =
    (let b = header [] 0x48 0x22 counter;
         b = pad_to 22 b @ [connector, DMA_FORMAT_NONE];
         b = pad_to 42 b @ le16 SYNC_FLAGS_TEARDOWN
     in pad_to 74 b @ tail)"

definition set_mode :: "u16 \<Rightarrow> byte \<Rightarrow> Timing \<Rightarrow> bytes \<Rightarrow> bytes" where
  "set_mode counter connector t tail =
    (let b = header [] 0x48 0x22 counter;
         b = pad_to 22 b @ [connector, if t_ten_bit t then DMA_FORMAT_NM30 else DMA_FORMAT_NM24];
         b = pad_to 26 b;
         flags = (t_sync_flags t OR (if t_st2084 t then SYNC_FLAG_ST2084 else 0)) OR
           (if t_dual_nivo t then SYNC_FLAG_DUAL_NIVO else 0);
         b = b @ concat (map le16 [t_hactive t, t_hblank t, t_hsync_front t, t_hsync_width t, t_vactive t,
           t_vblank t, t_vsync_front t, t_vsync_width t, flags, t_refresh_hz t, t_stride t, t_total_rows t]);
         b = pad_to 58 b @ le16 0x0080 @ le16 0x00ff;
         b = pad_to 66 b @ le16 (t_vic_word t) @ le16 (if t_ten_bit t then COLOUR_DEPTH_30BPP else COLOUR_DEPTH_24BPP);
         b = b @ le32 (t_pixel_clock_10khz t)
     in pad_to 74 b @ tail)"

definition sat_sub16 :: "u16 \<Rightarrow> u16 \<Rightarrow> u16" where
  "sat_sub16 a b = (if a < b then 0 else a - b)"

definition timing_from_drm_mode :: "drm_display_mode \<Rightarrow> Allocation \<Rightarrow> bool \<Rightarrow> Timing result" where
  "timing_from_drm_mode m a ten_bit =
    (let refresh = of_int (drm_mode_vrefresh m) :: u16 in
     case mode_profile m of
       None \<Rightarrow> Err EINVAL
     | Some p \<Rightarrow>
         if dm_clock m \<le> 0 then Err EINVAL
         else let clock10 = (of_int (dm_clock m) :: u32) div 10;
                  (stride, total_rows, known) = words a (dm_hdisplay m) (dm_vdisplay m) ten_bit
              in Ok \<lparr>t_hactive = dm_hdisplay m, t_hblank = sat_sub16 (dm_htotal m) (dm_hdisplay m),
                     t_hsync_front = sat_sub16 (dm_hsync_start m) (dm_hdisplay m),
                     t_hsync_width = sat_sub16 (dm_hsync_end m) (dm_hsync_start m),
                     t_vactive = dm_vdisplay m, t_vblank = sat_sub16 (dm_vtotal m) (dm_vdisplay m),
                     t_vsync_front = sat_sub16 (dm_vsync_start m) (dm_vdisplay m),
                     t_vsync_width = sat_sub16 (dm_vsync_end m) (dm_vsync_start m),
                     t_refresh_hz = refresh, t_pixel_clock_10khz = clock10,
                     t_sync_flags = mp_sync_flags p, t_stride = stride, t_total_rows = total_rows,
                     t_vic_word = mp_vic_word p, t_ten_bit = ten_bit, t_st2084 = False, t_dual_nivo = False\<rparr>)"

definition CTA_SYNC :: u32 where "CTA_SYNC = 1 OR 4"
definition CVT_RB_SYNC :: u32 where "CVT_RB_SYNC = 1 OR 8"

definition profile_mode :: "u16 \<Rightarrow> u16 \<Rightarrow> u16 \<Rightarrow> drm_display_mode option" where
  "profile_mode width height refresh_hz =
    (if width = 1280 \<and> height = 720 \<and> refresh_hz = 60 then
       Some \<lparr>dm_clock = 74250, dm_hdisplay = 1280, dm_hsync_start = 1390, dm_hsync_end = 1430, dm_htotal = 1650,
         dm_vdisplay = 720, dm_vsync_start = 725, dm_vsync_end = 730, dm_vtotal = 750, dm_flags = CTA_SYNC\<rparr>
     else if width = 1920 \<and> height = 1080 \<and> (refresh_hz = 60 \<or> refresh_hz = 120) then
       Some \<lparr>dm_clock = (if refresh_hz = 60 then 148500 else 297000), dm_hdisplay = 1920, dm_hsync_start = 2008,
         dm_hsync_end = 2052, dm_htotal = 2200, dm_vdisplay = 1080, dm_vsync_start = 1084, dm_vsync_end = 1089,
         dm_vtotal = 1125, dm_flags = CTA_SYNC\<rparr>
     else if width = 2560 \<and> height = 1440 \<and> (refresh_hz = 60 \<or> refresh_hz = 120) then
       Some \<lparr>dm_clock = (if refresh_hz = 60 then 241500 else 497750), dm_hdisplay = 2560, dm_hsync_start = 2608,
         dm_hsync_end = 2640, dm_htotal = 2720, dm_vdisplay = 1440, dm_vsync_start = 1443, dm_vsync_end = 1448,
         dm_vtotal = (if refresh_hz = 60 then 1481 else 1525), dm_flags = CVT_RB_SYNC\<rparr>
     else if width = 3840 \<and> height = 2160 \<and> refresh_hz = 60 then
       Some \<lparr>dm_clock = 533120, dm_hdisplay = 3840, dm_hsync_start = 3888, dm_hsync_end = 3920, dm_htotal = 4000,
         dm_vdisplay = 2160, dm_vsync_start = 2163, dm_vsync_end = 2168, dm_vtotal = 2222, dm_flags = CVT_RB_SYNC\<rparr>
     else None)"

text \<open>The facade's dock: a profile, whether a stream is being opened, and the depth it is driven at.\<close>

record Dock =
  dock_profile :: DockProfile
  dock_opening :: bool
  dock_ten_bit :: bool

definition dock_for_family :: "Family \<Rightarrow> Dock option" where
  "dock_for_family f = map_option (\<lambda>p. \<lparr>dock_profile = p, dock_opening = False, dock_ten_bit = False\<rparr>) (for_family f)"

definition dock_for_product :: "u16 \<Rightarrow> Dock option" where
  "dock_for_product product =
    map_option (\<lambda>p. \<lparr>dock_profile = p, dock_opening = False, dock_ten_bit = False\<rparr>) (for_product product)"

definition dock_geometry :: "Dock \<Rightarrow> Geometry" where
  "dock_geometry dock =
    (let g = with_depth (geometry (dock_profile dock)) (if dock_ten_bit dock then Ten else Eight)
     in if dock_opening dock then geometry_opening g else g)"

definition set_mode_profile :: "Dock \<Rightarrow> u16 \<Rightarrow> byte \<Rightarrow> u16 \<Rightarrow> u16 \<Rightarrow> u16 \<Rightarrow> bytes \<Rightarrow> bytes result" where
  "set_mode_profile dock counter head width height refresh_hz tail =
    (case profile_mode width height refresh_hz of
       None \<Rightarrow> Err EOPNOTSUPP
     | Some m \<Rightarrow>
         bind (timing_from_drm_mode m (allocation (protocol (dock_profile dock))) (dock_ten_bit dock))
           (\<lambda>timing. Ok (set_mode counter head (timing\<lparr>t_st2084 := dock_ten_bit dock\<rparr>) tail)))"

section \<open>Reading a set-mode back\<close>

definition read_timing :: "bytes \<Rightarrow> Timing" where
  "read_timing b =
    \<lparr>t_hactive = rd16 26 b, t_hblank = rd16 28 b, t_hsync_front = rd16 30 b, t_hsync_width = rd16 32 b,
     t_vactive = rd16 34 b, t_vblank = rd16 36 b, t_vsync_front = rd16 38 b, t_vsync_width = rd16 40 b,
     t_refresh_hz = rd16 44 b, t_pixel_clock_10khz = rd32 70 b,
     t_sync_flags = rd16 42 b AND NOT (SYNC_FLAG_ST2084 OR SYNC_FLAG_DUAL_NIVO),
     t_stride = rd16 46 b, t_total_rows = rd16 48 b, t_vic_word = rd16 66 b,
     t_ten_bit = (b ! 23 = DMA_FORMAT_NM30), t_st2084 = (rd16 42 b AND SYNC_FLAG_ST2084 \<noteq> 0),
     t_dual_nivo = (rd16 42 b AND SYNC_FLAG_DUAL_NIVO \<noteq> 0)\<rparr>"

section \<open>Lemmas\<close>

lemma rd_Cons:
  "0 < i \<Longrightarrow> rd16 i (x # b) = rd16 (i - 1) b" "0 < i \<Longrightarrow> rd32 i (x # b) = rd32 (i - 1) b"
  by (cases i, simp_all add: rd16_def rd32_def)+

lemma set_mode_bytes:
  "set_mode counter connector t tail =
    le16 0x48 @ le16 0x22 @ le16 counter @ replicate 16 0 @
    [connector, if t_ten_bit t then DMA_FORMAT_NM30 else DMA_FORMAT_NM24, 0, 0] @
    le16 (t_hactive t) @ le16 (t_hblank t) @ le16 (t_hsync_front t) @ le16 (t_hsync_width t) @
    le16 (t_vactive t) @ le16 (t_vblank t) @ le16 (t_vsync_front t) @ le16 (t_vsync_width t) @
    le16 ((t_sync_flags t OR (if t_st2084 t then SYNC_FLAG_ST2084 else 0)) OR
      (if t_dual_nivo t then SYNC_FLAG_DUAL_NIVO else 0)) @
    le16 (t_refresh_hz t) @ le16 (t_stride t) @ le16 (t_total_rows t) @ replicate 8 0 @
    le16 0x0080 @ le16 0x00ff @ replicate 4 0 @ le16 (t_vic_word t) @
    le16 (if t_ten_bit t then COLOUR_DEPTH_30BPP else COLOUR_DEPTH_24BPP) @ le32 (t_pixel_clock_10khz t) @ tail"
  by (simp add: set_mode_def Let_def header_def pad_to_def numeral_eq_Suc)

lemma set_mode_offsets:
  fixes counter connector t tail
  defines "b \<equiv> set_mode counter connector t tail"
  shows "rd16 0 b = 0x48" "rd16 2 b = 0x22" "rd16 4 b = counter" "b ! 22 = connector"
    "b ! 23 = (if t_ten_bit t then DMA_FORMAT_NM30 else DMA_FORMAT_NM24)"
    "rd16 26 b = t_hactive t" "rd16 28 b = t_hblank t" "rd16 30 b = t_hsync_front t" "rd16 32 b = t_hsync_width t"
    "rd16 34 b = t_vactive t" "rd16 36 b = t_vblank t" "rd16 38 b = t_vsync_front t" "rd16 40 b = t_vsync_width t"
    "rd16 42 b = (t_sync_flags t OR (if t_st2084 t then SYNC_FLAG_ST2084 else 0)) OR
      (if t_dual_nivo t then SYNC_FLAG_DUAL_NIVO else 0)"
    "rd16 44 b = t_refresh_hz t" "rd16 46 b = t_stride t" "rd16 48 b = t_total_rows t"
    "rd16 66 b = t_vic_word t" "rd32 70 b = t_pixel_clock_10khz t"
    "length b = 74 + length tail"
  unfolding b_def set_mode_bytes by (simp_all add: nth_append rd_Cons split del: if_split)

text \<open>The two flags the message adds to the sync word are recovered from it.\<close>

lemma flags_word:
  fixes w :: u16
  assumes "w AND 0x0044 = 0"
  shows "((w OR (if h then SYNC_FLAG_ST2084 else 0)) OR (if n then SYNC_FLAG_DUAL_NIVO else 0)) AND
      NOT (SYNC_FLAG_ST2084 OR SYNC_FLAG_DUAL_NIVO) = w"
    and "((w OR (if h then SYNC_FLAG_ST2084 else 0)) OR (if n then SYNC_FLAG_DUAL_NIVO else 0)) AND
      SYNC_FLAG_ST2084 = (if h then 0x0040 else 0)"
    and "((w OR (if h then SYNC_FLAG_ST2084 else 0)) OR (if n then SYNC_FLAG_DUAL_NIVO else 0)) AND
      SYNC_FLAG_DUAL_NIVO = (if n then 0x0004 else 0)"
proof -
  have z: "w AND 0x0040 = 0" "w AND 0x0004 = 0" "w AND NOT 0x0044 = w"
  proof -
    have "w AND 0x0040 = (w AND 0x0044) AND 0x0040" "w AND 0x0004 = (w AND 0x0044) AND 0x0004"
      by (simp_all add: and.assoc)
    then show "w AND 0x0040 = 0" "w AND 0x0004 = 0" using assms by simp_all
    have "w = (w AND 0x0044) OR (w AND NOT 0x0044)" by (simp flip: bit.conj_disj_distrib)
    then show "w AND NOT 0x0044 = w" using assms by simp
  qed
  then show "((w OR (if h then SYNC_FLAG_ST2084 else 0)) OR (if n then SYNC_FLAG_DUAL_NIVO else 0)) AND
      NOT (SYNC_FLAG_ST2084 OR SYNC_FLAG_DUAL_NIVO) = w"
    "((w OR (if h then SYNC_FLAG_ST2084 else 0)) OR (if n then SYNC_FLAG_DUAL_NIVO else 0)) AND
      SYNC_FLAG_ST2084 = (if h then 0x0040 else 0)"
    "((w OR (if h then SYNC_FLAG_ST2084 else 0)) OR (if n then SYNC_FLAG_DUAL_NIVO else 0)) AND
      SYNC_FLAG_DUAL_NIVO = (if n then 0x0004 else 0)"
    by (auto simp: SYNC_FLAG_ST2084_def SYNC_FLAG_DUAL_NIVO_def bit.conj_disj_distrib2)
qed

lemma read_set_mode:
  assumes "t_sync_flags t AND 0x0044 = 0"
  shows "read_timing (set_mode counter connector t tail) = t"
  unfolding read_timing_def set_mode_offsets flags_word [OF assms]
  by (simp add: DMA_FORMAT_NM30_def DMA_FORMAT_NM24_def)

lemma mode_profile_flags:
  "mode_profile m = Some p \<Longrightarrow> mp_sync_flags p AND 0x0044 = 0"
  by (auto simp: mode_profile_def captured_mode_def sync_flags_def SYNC_FLAGS_BASE_def SYNC_FLAG_HSYNC_INV_def
      SYNC_FLAG_VSYNC_INV_def Let_def split: if_splits)

lemma timing_flags:
  "timing_from_drm_mode m a ten = Ok t \<Longrightarrow> t_sync_flags t AND 0x0044 = 0"
  using mode_profile_flags [of m]
  by (auto simp: timing_from_drm_mode_def Let_def split: option.splits if_splits prod.splits)

section \<open>Properties\<close>

text \<open>
  A set-mode message says what was decided. For every timing the driver derives from a mode, with any
  transfer function and pipe sharing, the message is 80 bytes, names the connector, and reading its fields
  back by offset gives that timing.
\<close>

lemma set_mode_roundtrip:
  assumes "timing_from_drm_mode m a ten = Ok t" "length tail = 6"
  shows "let t' = t\<lparr>t_st2084 := h, t_dual_nivo := n\<rparr>; b = set_mode counter connector t' tail in
    length b = 80 \<and> rd16 0 b = 0x48 \<and> rd16 2 b = 0x22 \<and> rd16 4 b = counter \<and> b ! 22 = connector \<and>
    read_timing b = t'"
  using timing_flags [OF assms(1)] assms(2) by (simp add: set_mode_offsets read_set_mode Let_def)

definition mode_1080p60 :: drm_display_mode where
  "mode_1080p60 = \<lparr>dm_clock = 148500, dm_hdisplay = 1920, dm_hsync_start = 2008, dm_hsync_end = 2052,
     dm_htotal = 2200, dm_vdisplay = 1080, dm_vsync_start = 1084, dm_vsync_end = 1089, dm_vtotal = 1125,
     dm_flags = CTA_SYNC\<rparr>"

definition timing_1080p60 :: Timing where
  "timing_1080p60 = \<lparr>t_hactive = 1920, t_hblank = 280, t_hsync_front = 88, t_hsync_width = 44, t_vactive = 1080,
     t_vblank = 45, t_vsync_front = 4, t_vsync_width = 5, t_refresh_hz = 60, t_pixel_clock_10khz = 14850,
     t_sync_flags = 0x0400, t_stride = 0x4000, t_total_rows = 0x6000, t_vic_word = 0x2810, t_ten_bit = False,
     t_st2084 = False, t_dual_nivo = False\<rparr>"

lemma timing_1080p60: "timing_from_drm_mode mode_1080p60 (Fixed 0x4000 0x6000) False = Ok timing_1080p60"
  by (simp add: timing_from_drm_mode_def mode_profile_def mode_1080p60_def timing_1080p60_def drm_mode_vrefresh_def
      captured_mode_def mode_key_def words_def sat_sub16_def Let_def)

text \<open>What makes a table entry right: its totals and clock give the refresh it is listed under.\<close>

definition mode_ok :: "drm_display_mode \<Rightarrow> u16 \<Rightarrow> u16 \<Rightarrow> u16 \<Rightarrow> bool" where
  "mode_ok m w h r \<longleftrightarrow> dm_hdisplay m = w \<and> dm_vdisplay m = h \<and> w \<le> dm_htotal m \<and> h \<le> dm_vtotal m \<and>
    0 < dm_clock m \<and> dm_clock m < 2 ^ 31 \<and> dm_clock m mod 10 = 0 \<and> 0 < uint r \<and>
    drm_mode_vrefresh m = uint r \<and>
    dm_clock m * 1000 \<le> uint (dm_htotal m) * uint (dm_vtotal m) * uint r \<and>
    uint (dm_htotal m) * uint (dm_vtotal m) * (uint r - 1) < dm_clock m * 1000"

lemma profile_mode_ok: "profile_mode w h r = Some m \<Longrightarrow> mode_ok m w h r"
  by (auto simp: profile_mode_def mode_ok_def drm_mode_vrefresh_def Let_def split: if_splits)

lemma unat_sat_sub16: "b \<le> a \<Longrightarrow> unat b + unat (sat_sub16 a b) = unat a"
  by (auto simp: sat_sub16_def unat_sub word_less_nat_alt word_le_nat_alt)

lemma clock_10khz:
  assumes "0 < c" "c < 2 ^ 31" "c mod 10 = 0"
  shows "int (unat ((of_int c :: u32) div 10)) * 10000 = c * 1000"
proof -
  have "uint (of_int c :: u32) = c" using assms by (simp add: unsigned_of_int take_bit_int_eq_self)
  then have "int (unat ((of_int c :: u32) div 10)) = c div 10" by (simp add: uint_div_distrib)
  moreover have "c = 10 * (c div 10)" using assms(3) by presburger
  ultimately show ?thesis by linarith
qed

lemma nat_clock:
  assumes "int a * 10000 \<le> int f * int n" "int f * (int n - 1) < int a * 10000" "0 < int n"
  shows "a * 10000 \<le> f * n" "f * (n - 1) < a * 10000"
proof -
  have "int (a * 10000) \<le> int (f * n)" using assms(1) by simp
  then show "a * 10000 \<le> f * n" by (simp only: of_nat_le_iff)
  have "int (f * (n - 1)) < int (a * 10000)" using assms(2,3) by (simp add: of_nat_diff)
  then show "f * (n - 1) < a * 10000" by (simp only: of_nat_less_iff)
qed

lemma timing_of_mode_ok:
  assumes "mode_ok m w h r"
  obtains t where "timing_from_drm_mode m a ten = Ok t"
    "t_hactive t = w" "t_vactive t = h" "t_refresh_hz t = r" "t_ten_bit t = ten"
    "unat (t_hactive t) + unat (t_hblank t) = unat (dm_htotal m)"
    "unat (t_vactive t) + unat (t_vblank t) = unat (dm_vtotal m)"
    "int (unat (t_pixel_clock_10khz t)) * 10000 = dm_clock m * 1000"
    "(t_stride t, t_total_rows t) = (case words a w h ten of (s, n, _) \<Rightarrow> (s, n))"
proof -
  obtain s n known where w: "words a w h ten = (s, n, known)" by (cases "words a w h ten")
  obtain p where p: "mode_profile m = Some p"
    using assms by (auto simp: mode_ok_def mode_profile_def)
  show thesis
    using assms that unat_sat_sub16 clock_10khz [of "dm_clock m"]
    by (auto simp: timing_from_drm_mode_def p w mode_ok_def Let_def)
qed


definition dock_ridge :: Dock where
  "dock_ridge = \<lparr>dock_profile = PROFILE_RIDGE, dock_opening = False, dock_ten_bit = False\<rparr>"


end
