(* ===== verification/Video_Records.thy ===== *)
theory Video_Records
  imports "HOL-Library.Multiset" Strip_Codec Wire_Frame
begin

text \<open>
  Framing strips into image records (\<open>chimera/vino/video/haar/records.rs\<close>): the four strip orders, the
  record filler with its stride cap, the allocation chunks, and the two readers of the result,
  \<open>record_stats\<close> and \<open>framed_strip_extents\<close>. Indices are natural numbers; a strip list is a list of byte
  lists as the encoder returns them.
\<close>

section \<open>Strip orders\<close>

definition NAVARRO_PROLOGUE_ROWS :: "byte list" where
  "NAVARRO_PROLOGUE_ROWS =
   [0, 2, 4, 6, 8, 10, 12, 14, 16, 18, 20, 22, 24, 26, 28, 29, 31, 33, 35, 37, 39, 41, 43, 45, 47,
    49, 51, 53, 54, 57, 59, 60, 62, 64, 66, 68, 70, 72, 74, 76, 78, 80, 82, 84, 86, 88, 90, 92, 94,
    96, 98, 100, 1, 3, 5, 7, 9, 11, 13, 15, 17, 19, 21, 23, 25, 27, 30, 32, 34, 36, 38, 40, 42, 44,
    46, 48, 50, 52, 55, 56, 58, 61, 63, 65, 67, 69, 71, 73, 75, 77, 79, 81, 83, 85, 87, 89, 91, 93,
    95, 97, 99, 101, 102, 103, 110, 112, 114, 116, 118, 120, 122, 124, 126, 128, 130, 132, 134,
    136, 138, 140, 142, 144, 146, 148, 150, 152, 154, 156, 158, 160, 162, 164, 166, 168, 170, 172,
    174, 176, 178, 100, 104, 105, 106, 107, 108, 109, 111, 113, 115, 117, 119, 121, 123, 125, 127,
    129, 131, 133, 135, 137, 139, 141, 143, 145, 147, 149, 151, 153, 155, 157, 159, 161, 163, 165,
    167, 169, 171, 173, 175, 177, 179]"

definition ELLA_ROWS_1080P :: "byte list" where
  "ELLA_ROWS_1080P =
   [0, 3, 5, 7, 9, 11, 13, 16, 18, 21, 23, 25, 27, 29, 31, 33, 35, 37, 39, 41, 43, 44, 46, 48, 50,
    51, 53, 55, 56, 58, 60, 61, 63, 65, 66, 1, 2, 4, 6, 8, 10, 12, 14, 15, 17, 19, 20, 22, 24, 26,
    28, 30, 32, 34, 36, 38, 40, 42, 45, 47, 49, 52, 54, 57, 59, 62, 64, 67]"

definition ella_rows_1080p :: "byte list" where
  "ella_rows_1080p = ELLA_ROWS_1080P"

definition NAVARRO_ORDINARY_ROWS :: "byte list" where
  "NAVARRO_ORDINARY_ROWS =
   [1, 2, 4, 6, 8, 10, 12, 14, 16, 18, 20, 22, 24, 26, 29, 31, 33, 35, 37, 39, 41, 43, 45, 47, 49,
    51, 53, 55, 57, 59, 61, 63, 64, 66, 68, 70, 72, 73, 75, 77, 79, 81, 83, 85, 87, 89, 91, 93, 95,
    97, 99, 0, 3, 5, 7, 9, 11, 13, 15, 17, 19, 21, 23, 25, 27, 28, 30, 32, 34, 36, 38, 40, 42, 44,
    46, 48, 50, 52, 54, 56, 58, 60, 62, 65, 67, 69, 71, 74, 76, 78, 80, 82, 84, 86, 88, 90, 92, 94,
    96, 98, 100, 102, 99, 101, 102, 103, 105, 107, 109, 111, 113, 115, 117, 118, 120, 122, 125,
    127, 129, 131, 133, 135, 137, 139, 141, 144, 146, 148, 150, 152, 154, 156, 158, 160, 162, 164,
    166, 168, 170, 172, 174, 176, 178, 101, 104, 106, 108, 110, 112, 114, 116, 119, 121, 123, 124,
    126, 128, 130, 132, 134, 136, 138, 140, 142, 143, 145, 147, 149, 151, 153, 155, 157, 159, 161,
    163, 165, 167, 169, 171, 173, 175, 177, 179]"

text \<open>The columns of a producer run: whole bands, but for the split rows of the measured producer.\<close>

definition run_columns :: "bool \<Rightarrow> bool \<Rightarrow> nat \<Rightarrow> nat \<times> nat" where
  "run_columns ella ordinary run =
    (if ella then (0, 30)
     else if ordinary then
       (if run = 50 then (0, 8) else if run = 101 then (0, 8) else if run = 102 then (8, 20)
        else if run = 103 then (0, 4) else if run = 104 then (8, 20) else if run = 143 then (4, 20)
        else (0, 20))
     else (if run = 51 then (0, 4) else if run = 139 then (4, 20) else (0, 20)))"

definition table_order :: "bool \<Rightarrow> bool \<Rightarrow> byte list \<Rightarrow> nat list" where
  "table_order ella ordinary rows =
    (let strips_across = (if ella then 30 else 20) in
     concat (map (\<lambda>(run, y). let (x0, x1) = run_columns ella ordinary run
       in map (\<lambda>x. unat y * strips_across + x) [x0..<x1]) (enumerate 0 rows)))"

text \<open>The Ella order: an insertion sort by table position of the band, then by column.\<close>

fun position :: "byte list \<Rightarrow> byte \<Rightarrow> int option" where
  "position [] b = None"
| "position (a # as) b = (if a = b then Some 0 else map_option (\<lambda>i. i + 1) (position as b))"

definition band_rank :: "Geometry \<Rightarrow> bytes \<Rightarrow> int" where
  "band_rank g s =
    (case position ELLA_ROWS_1080P (ucast (drop_bit (strip_h_shift g) (strip_y s))) of
       None \<Rightarrow> 2 ^ 64 - 1 | Some i \<Rightarrow> i)"

definition strip_key :: "Geometry \<Rightarrow> bytes \<Rightarrow> int \<times> int" where
  "strip_key g s = (band_rank g s, uint (strip_x s))"

definition key_le :: "int \<times> int \<Rightarrow> int \<times> int \<Rightarrow> bool" where
  "key_le a b \<longleftrightarrow> fst a < fst b \<or> fst a = fst b \<and> snd a \<le> snd b"

fun sink :: "(nat \<Rightarrow> int \<times> int) \<Rightarrow> nat list \<Rightarrow> nat \<Rightarrow> nat list" where
  "sink key idx 0 = idx"
| "sink key idx (Suc b) =
    (if key_le (key (idx ! b)) (key (idx ! Suc b)) then idx
     else sink key (idx[b := idx ! Suc b, Suc b := idx ! b]) b)"

definition insertion_order :: "(nat \<Rightarrow> int \<times> int) \<Rightarrow> nat \<Rightarrow> nat list" where
  "insertion_order key n = foldl (sink key) [0..<n] [1..<n]"

definition navarro_layout :: "Geometry \<Rightarrow> bytes list \<Rightarrow> bool" where
  "navarro_layout g strips \<longleftrightarrow> interlaced_bands g \<and> strip_w g = STRIP_BLOCKS * DIM \<and> length strips = 3600"

definition ella_layout :: "Geometry \<Rightarrow> bool" where
  "ella_layout g \<longleftrightarrow> interlaced_bands g \<and> strip_w g = DIM * 8"

definition strip_order :: "Geometry \<Rightarrow> bytes list \<Rightarrow> bool option \<Rightarrow> nat list" where
  "strip_order g strips navarro_ordinary =
    (let rows = (if navarro_ordinary = Some False \<and> navarro_layout g strips then Some NAVARRO_PROLOGUE_ROWS
                 else if navarro_ordinary = Some True \<and> navarro_layout g strips then Some NAVARRO_ORDINARY_ROWS
                 else None)
     in case rows of
          Some rows \<Rightarrow> table_order (ella_layout g) (navarro_ordinary = Some True) rows
        | None \<Rightarrow>
            if ella_layout g then insertion_order (\<lambda>n. strip_key g (strips ! n)) (length strips)
            else if interlaced_bands g then
              concat (map (\<lambda>pass. filter (\<lambda>n. drop_bit (strip_h_shift g) (strip_y (strips ! n)) AND 1 = pass)
                [0..<length strips]) [0, 1])
            else [0..<length strips])"

section \<open>Records\<close>

definition STRIDE_CAP :: nat where "STRIDE_CAP = 0x0ff0"
definition CHUNK :: nat where "CHUNK = 0x4000"

definition producer_boundary :: "bool option \<Rightarrow> nat \<Rightarrow> bool" where
  "producer_boundary navarro_ordinary i =
    (case navarro_ordinary of
       Some False \<Rightarrow> i = 1024 \<or> i = 2048 \<or> i = 2764
     | Some True \<Rightarrow> i = 2032 \<or> i = 2048 \<or> i = 2804
     | None \<Rightarrow> False)"

text \<open>
  The inner loop: \<open>i\<close> is the position in the order, \<open>n\<close> the strips already in the record, the list what is
  left of the order.
\<close>

fun fill_record :: "Geometry \<Rightarrow> bytes list \<Rightarrow> bool option \<Rightarrow> u16 \<Rightarrow> nat \<Rightarrow> nat \<Rightarrow> bytes \<Rightarrow> nat list \<Rightarrow>
    (bytes \<times> nat \<times> nat list) result" where
  "fill_record g strips ordinary y0 i n rec [] = Ok (rec, i, [])"
| "fill_record g strips ordinary y0 i n rec (k # ks) =
    (if band_parity_bit g \<and> strip_y (strips ! k) \<noteq> y0 then Ok (rec, i, k # ks)
     else if interlaced_bands g \<and> 0 < n \<and> producer_boundary ordinary i then Ok (rec, i, k # ks)
     else let s = strips ! k;
              projected = length rec + 2 + length s;
              projected_aligned = (projected + 15) div 16 * 16
          in if STRIDE_CAP < projected_aligned then
               if 0 < n then Ok (rec, i, k # ks) else Err EOVERFLOW
             else fill_record g strips ordinary y0 (i + 1) (n + 1) (rec @ le16 (of_nat (length s)) @ s) ks)"

definition record_sub :: "Geometry \<Rightarrow> byte \<Rightarrow> u16 \<Rightarrow> u16" where
  "record_sub g connector y0 =
    (let parity = (if band_parity_bit g then 1 else 0) AND (drop_bit (strip_h_shift g) y0 AND 1)
     in (ucast (connector_selector g connector) OR push_bit 4 parity) OR ucast (steady_sub_bit g))"

definition close_record :: "u16 \<Rightarrow> bytes \<Rightarrow> bytes" where
  "close_record sub rec =
    (let pad = (16 - length rec mod 16) mod 16;
         rec = rec @ replicate pad 0
     in record_header rec 4 sub (of_nat pad) 0)"

definition push_chunk :: "bytes list \<times> bytes \<Rightarrow> bytes \<Rightarrow> bytes list \<times> bytes" where
  "push_chunk = (\<lambda>(frames, chunk) rec.
    let (frames, chunk) = (if chunk \<noteq> [] \<and> CHUNK < length chunk + length rec
                           then (frames @ [chunk], []) else (frames, chunk))
    in (frames, chunk @ rec))"

text \<open>A strip as a record carries it, and what the filler does: it takes a prefix of the order.\<close>

definition tlv :: "bytes \<Rightarrow> bytes" where
  "tlv s = le16 (of_nat (length s)) @ s"

definition align16 :: "nat \<Rightarrow> nat" where
  "align16 n = (n + 15) div 16 * 16"

lemma fill_record_taken:
  assumes "fill_record g strips ordinary y0 i n rec ks = Ok (r, j, rest)"
  shows "\<exists>taken. ks = taken @ rest \<and> r = rec @ concat (map (\<lambda>k. tlv (strips ! k)) taken) \<and> j = i + length taken \<and>
    (taken \<noteq> [] \<longrightarrow> align16 (length r) \<le> STRIDE_CAP) \<and>
    (band_parity_bit g \<longrightarrow> (\<forall>k\<in>set taken. strip_y (strips ! k) = y0)) \<and>
    (n = 0 \<and> ks \<noteq> [] \<and> strip_y (strips ! hd ks) = y0 \<longrightarrow> taken \<noteq> [])"
  using assms
proof (induction ks arbitrary: i n rec)
  case (Cons k ks)
  show ?case
  proof (cases "r = rec \<and> j = i \<and> rest = k # ks \<and> (n = 0 \<longrightarrow> strip_y (strips ! k) \<noteq> y0)")
    case True
    then show ?thesis by (intro exI [of _ "[]"]) auto
  next
    case False
    then have fit: "align16 (length (rec @ tlv (strips ! k))) \<le> STRIDE_CAP"
      and y: "band_parity_bit g \<longrightarrow> strip_y (strips ! k) = y0"
      and go: "fill_record g strips ordinary y0 (i + 1) (n + 1) (rec @ tlv (strips ! k)) ks = Ok (r, j, rest)"
      using Cons.prems by (auto simp: Let_def align16_def tlv_def algebra_simps split: if_splits)
    from Cons.IH [OF go] obtain taken where
      "ks = taken @ rest" "r = (rec @ tlv (strips ! k)) @ concat (map (\<lambda>k. tlv (strips ! k)) taken)"
      "j = i + 1 + length taken" "taken \<noteq> [] \<longrightarrow> align16 (length r) \<le> STRIDE_CAP"
      "band_parity_bit g \<longrightarrow> (\<forall>k\<in>set taken. strip_y (strips ! k) = y0)"
      by blast
    then show ?thesis using fit y by (intro exI [of _ "k # taken"]) (cases "taken = []"; auto)
  qed
qed simp

lemma fill_record_consumes:
  assumes "fill_record g strips ordinary (strip_y (strips ! k)) i 0 rec (k # ks) = Ok (r, j, rest)"
  shows "length rest < Suc (length ks)"
proof -
  obtain taken where "k # ks = taken @ rest" "taken \<noteq> []" using fill_record_taken [OF assms] by auto
  then show ?thesis by (cases taken) simp_all
qed

function frame_loop :: "Geometry \<Rightarrow> bytes list \<Rightarrow> byte \<Rightarrow> bool option \<Rightarrow> nat \<Rightarrow> bytes list \<times> bytes \<Rightarrow> nat list \<Rightarrow>
    (bytes list \<times> bytes) result" where
  "frame_loop g strips connector ordinary i out [] = Ok out"
| "frame_loop g strips connector ordinary i out (k # ks) =
    (let y0 = strip_y (strips ! k) in
     case fill_record g strips ordinary y0 i 0 (replicate 16 0) (k # ks) of
       Inl e \<Rightarrow> Err e
     | Inr (rec, j, rest) \<Rightarrow>
         frame_loop g strips connector ordinary j
           (push_chunk out (close_record (record_sub g connector y0) rec)) rest)"
  by pat_completeness auto
termination
  by (relation "measure (\<lambda>(g, strips, connector, ordinary, i, out, ks). length ks)")
    (auto simp del: fill_record.simps dest: fill_record_consumes)

definition frame_records_with_boundary ::
    "Geometry \<Rightarrow> bytes list \<Rightarrow> byte \<Rightarrow> bool option \<Rightarrow> bytes list result" where
  "frame_records_with_boundary g strips connector navarro_ordinary =
    bind (frame_loop g strips connector navarro_ordinary 0 ([], []) (strip_order g strips navarro_ordinary))
      (\<lambda>(frames, chunk). Ok (if chunk = [] then frames else frames @ [chunk]))"

definition frame_records :: "Geometry \<Rightarrow> bytes list \<Rightarrow> byte \<Rightarrow> bytes list result" where
  "frame_records g strips connector = frame_records_with_boundary g strips connector None"

definition frame_records_navarro_ordinary :: "Geometry \<Rightarrow> bytes list \<Rightarrow> byte \<Rightarrow> bytes list result" where
  "frame_records_navarro_ordinary g strips connector =
    frame_records_with_boundary g strips connector (if length strips = 3600 then Some True else None)"

section \<open>Readers\<close>

text \<open>The strip walk of one record body, and the record walk of one chunk, of \<open>record_stats\<close>.\<close>

function stat_strips :: "bytes \<Rightarrow> nat \<Rightarrow> nat \<Rightarrow> nat \<Rightarrow> nat" where
  "stat_strips bd payload at max_strip =
    (if at + 2 \<le> payload then
       let len = unat (rd16 at bd) in
       if len = 0 \<or> payload < at + 2 + len then max_strip
       else stat_strips bd payload (at + 2 + len) (max max_strip len)
     else max_strip)"
  by auto
termination
  by (relation "measure (\<lambda>(bd, payload, at, m). payload - at)") auto

function stat_records :: "bytes \<Rightarrow> nat \<Rightarrow> nat \<times> nat \<times> nat \<Rightarrow> nat \<times> nat \<times> nat" where
  "stat_records chunk off acc =
    (if off + 16 \<le> length chunk then
       let stride = unat (rd16 (off + 2) chunk) + 4 in
       if stride < 16 \<or> length chunk < off + stride then acc
       else let aux = unat (rd16 (off + 10) chunk);
                bd = get (off + 16) (stride - 16) chunk;
                (records, max_stride, max_strip) = acc
            in stat_records chunk (off + stride)
                 (records + 1, max max_stride stride, stat_strips bd (length bd - aux) 0 max_strip)
     else acc)"
  by auto
termination
  by (relation "measure (\<lambda>(chunk, off, acc). length chunk - off)") auto

declare stat_strips.simps [simp del] stat_records.simps [simp del]

definition record_stats :: "bytes list \<Rightarrow> nat \<times> nat \<times> nat" where
  "record_stats frames = foldl (\<lambda>acc chunk. stat_records chunk 0 acc) (0, 0, 0) frames"

text \<open>
  The iterator of \<open>framed_strip_extents\<close> on one chunk: \<open>p\<close> walks strips up to \<open>record_end\<close>, then the next
  record is entered. A step either advances \<open>p\<close> towards \<open>record_end\<close> or enters a later record.
\<close>

function extents_from :: "bytes \<Rightarrow> nat \<Rightarrow> nat \<Rightarrow> nat \<Rightarrow> (nat \<times> nat \<times> nat) list" where
  "extents_from chunk next_record p record_end =
    (if record_end < p + 2 then
       if length chunk < next_record + 16 then []
       else let stride = unat (rd16 (next_record + 2) chunk) + 4 in
            if stride < 16 \<or> length chunk < next_record + stride then []
            else extents_from chunk (next_record + stride) (next_record + 16) (next_record + stride)
     else let sl = unat (rd16 p chunk) in
          if sl < 16 \<or> record_end < p + 2 + sl then extents_from chunk next_record record_end record_end
          else let s = get (p + 2) sl chunk in
               if s ! 0 \<noteq> 0x01 \<or> s ! 1 \<noteq> 0x28 then extents_from chunk next_record record_end record_end
               else (unat (rd16 2 s), unat (rd16 4 s), sl) #
                 extents_from chunk next_record (p + 2 + sl) record_end)"
  by auto
termination
  by (relation "measures [\<lambda>(chunk, n, p, e). length chunk - n, \<lambda>(chunk, n, p, e). e - p]") auto

declare extents_from.simps [simp del]

definition framed_strip_extents :: "bytes list \<Rightarrow> (nat \<times> nat \<times> nat) list" where
  "framed_strip_extents frames = concat (map (\<lambda>chunk. extents_from chunk 0 0 0) frames)"

section \<open>What the framing produces\<close>

text \<open>The record of a group of strips, and the groups the loop forms.\<close>

definition image_record :: "u16 \<Rightarrow> bytes list \<Rightarrow> bytes" where
  "image_record sub ss = close_record sub (replicate 16 0 @ concat (map tlv ss))"

definition payload_len :: "bytes list \<Rightarrow> nat" where
  "payload_len ss = length (concat (map tlv ss))"

definition pad_len :: "bytes list \<Rightarrow> nat" where
  "pad_len ss = (16 - payload_len ss mod 16) mod 16"

lemma pad_len_lt: "pad_len ss < 16"
  by (simp add: pad_len_def)

lemma pad_align: "16 + payload_len ss + pad_len ss = align16 (16 + payload_len ss)"
proof -
  define q m where "q = payload_len ss div 16" and "m = payload_len ss mod 16"
  have p: "payload_len ss = 16 * q + m" "m < 16" by (simp_all add: q_def m_def)
  then have "(16 - m) mod 16 = (if m = 0 then 0 else 16 - m)" by simp
  moreover have "(16 + (16 * q + m) + 15) div 16 = q + 1 + (if m = 0 then 0 else 1)"
  proof -
    have "(16 + (16 * q + m) + 15) div 16 = (15 + m + 16 * (q + 1)) div 16" by (simp add: algebra_simps)
    also have "\<dots> = (15 + m) div 16 + (q + 1)" by simp
    also have "(15 + m) div 16 = (if m = 0 then 0 else 1)" using p(2) by (auto intro!: div_nat_eqI)
    finally show ?thesis by simp
  qed
  ultimately show ?thesis using p by (simp add: pad_len_def align16_def)
qed

lemma image_record_bytes:
  "image_record sub ss =
    header_bytes (align16 (16 + payload_len ss)) 4 sub (of_nat (pad_len ss)) 0 @ concat (map tlv ss) @
      replicate (pad_len ss) 0"
proof -
  have "(16 - (16 + payload_len ss) mod 16) mod 16 = pad_len ss" by (simp add: pad_len_def)
  then show ?thesis
    using pad_align [of ss]
    by (simp add: image_record_def close_record_def Let_def record_header_bytes payload_len_def add.assoc)
qed

lemma length_image_record: "length (image_record sub ss) = align16 (16 + payload_len ss)"
  using pad_align [of ss] by (simp add: image_record_bytes payload_len_def)

text \<open>One group: its strips are consecutive in the order, share what the record's \<open>sub\<close> says, and fit.\<close>

definition group_ok :: "Geometry \<Rightarrow> bytes list \<Rightarrow> byte \<Rightarrow> u16 \<times> nat list \<Rightarrow> bool" where
  "group_ok g strips connector = (\<lambda>(sub, ks). ks \<noteq> [] \<and>
    sub = record_sub g connector (strip_y (strips ! hd ks)) \<and>
    (band_parity_bit g \<longrightarrow> (\<forall>k\<in>set ks. strip_y (strips ! k) = strip_y (strips ! hd ks))) \<and>
    align16 (16 + payload_len (map ((!) strips) ks)) \<le> STRIDE_CAP)"

definition group_record :: "bytes list \<Rightarrow> u16 \<times> nat list \<Rightarrow> bytes" where
  "group_record strips = (\<lambda>(sub, ks). image_record sub (map ((!) strips) ks))"

lemma frame_loop_groups:
  assumes "frame_loop g strips connector ordinary i out ks = Ok out'"
  shows "\<exists>gs. concat (map snd gs) = ks \<and> (\<forall>gr\<in>set gs. group_ok g strips connector gr) \<and>
    out' = foldl push_chunk out (map (group_record strips) gs)"
  using assms
proof (induction g strips connector ordinary i out ks rule: frame_loop.induct)
  case (2 g strips connector ordinary i out k ks)
  define y0 where "y0 = strip_y (strips ! k)"
  obtain r j rest where fill: "fill_record g strips ordinary y0 i 0 (replicate 16 0) (k # ks) = Ok (r, j, rest)"
    and go: "frame_loop g strips connector ordinary j
      (push_chunk out (close_record (record_sub g connector y0) r)) rest = Ok out'"
    using "2.prems" by (auto simp: Let_def y0_def simp del: fill_record.simps split: sum.splits)
  from fill_record_taken [OF fill] obtain taken where t: "k # ks = taken @ rest" "taken \<noteq> []"
    "r = replicate 16 0 @ concat (map (\<lambda>k. tlv (strips ! k)) taken)" "align16 (length r) \<le> STRIDE_CAP"
    "band_parity_bit g \<longrightarrow> (\<forall>k\<in>set taken. strip_y (strips ! k) = y0)"
    by (auto simp: y0_def)
  have hd: "hd taken = k" using t(1,2) by (cases taken) simp_all
  from "2.IH" [OF y0_def fill refl refl go] obtain gs where gs: "concat (map snd gs) = rest"
    "\<forall>gr\<in>set gs. group_ok g strips connector gr"
    "out' = foldl push_chunk (push_chunk out (close_record (record_sub g connector y0) r)) (map (group_record strips) gs)"
    by blast
  show ?case
    using t gs hd
    by (intro exI [of _ "(record_sub g connector y0, taken) # gs"])
      (auto simp: group_ok_def group_record_def image_record_def payload_len_def y0_def comp_def)
next
  case (1 g strips connector ordinary i out)
  then show ?case by (intro exI [of _ "[]"]) simp
qed

lemma push_chunks:
  "\<exists>rss rs'. foldl push_chunk (map concat rss0, concat rs0) recs = (map concat rss, concat rs') \<and>
    concat rss @ rs' = concat rss0 @ rs0 @ recs"
proof (induction recs arbitrary: rss0 rs0)
  case (Cons r recs)
  show ?case
  proof (cases "concat rs0 \<noteq> [] \<and> CHUNK < length (concat rs0) + length r")
    case True
    then show ?thesis using Cons [of "rss0 @ [rs0]" "[r]"] by (simp add: push_chunk_def)
  next
    case False
    then have "push_chunk (map concat rss0, concat rs0) r = (map concat rss0, concat (rs0 @ [r]))"
      by (auto simp: push_chunk_def)
    then show ?thesis using Cons [of rss0 "rs0 @ [r]"] by simp
  qed
next
  case Nil
  show ?case by (rule exI [of _ rss0], rule exI [of _ rs0]) simp
qed

lemma frames_of_groups:
  assumes "frame_records_with_boundary g strips connector ordinary = Ok frames"
  obtains gss where "frames = map (\<lambda>gs. concat (map (group_record strips) gs)) gss"
    "concat (map snd (concat gss)) = strip_order g strips ordinary"
    "\<forall>gr\<in>set (concat gss). group_ok g strips connector gr"
proof -
  obtain out where loop: "frame_loop g strips connector ordinary 0 ([], []) (strip_order g strips ordinary) = Ok out"
    and fr: "frames = (if snd out = [] then fst out else fst out @ [snd out])"
    using assms by (force simp: frame_records_with_boundary_def bind_Ok_iff)
  from frame_loop_groups [OF loop] obtain gs where gs: "concat (map snd gs) = strip_order g strips ordinary"
    "\<forall>gr\<in>set gs. group_ok g strips connector gr" "out = foldl push_chunk ([], []) (map (group_record strips) gs)"
    by blast
  from push_chunks [of "[]" "[]" "map (group_record strips) gs"] obtain rss rs' where
    c: "out = (map concat rss, concat rs')" "concat rss @ rs' = map (group_record strips) gs"
    using gs(3) by auto
  have "\<exists>gss gs'. concat gss @ gs' = gs \<and> rss = map (map (group_record strips)) gss \<and> rs' = map (group_record strips) gs'"
    using c(2)
  proof (induction rss arbitrary: gs)
    case (Cons rs rss)
    from Cons.prems obtain g1 g2 where g: "gs = g1 @ g2" "rs = map (group_record strips) g1"
      "concat rss @ rs' = map (group_record strips) g2"
      by (auto simp: append_eq_map_conv)
    from Cons.IH [OF g(3)] obtain gss gs' where "concat gss @ gs' = g2"
      "rss = map (map (group_record strips)) gss" "rs' = map (group_record strips) gs'" by blast
    then show ?case using g(1,2) by (intro exI [of _ "g1 # gss"] exI [of _ gs']) simp
  next
    case Nil
    then show ?case by (intro exI [of _ "[]"] exI [of _ gs]) simp
  qed
  then obtain gss gs' where g: "concat gss @ gs' = gs" "rss = map (map (group_record strips)) gss"
    "rs' = map (group_record strips) gs'" by blast
  show thesis
  proof (cases "concat rs' = []")
    case True
    have "gs' = []"
    proof (rule ccontr)
      assume "gs' \<noteq> []"
      then obtain gr gs'' where "gs' = gr # gs''" by (cases gs') auto
      then have "group_record strips gr = []" using True g(3) by simp
      then show False using length_image_record by (cases gr) (auto simp: group_record_def align16_def dest: arg_cong [of _ _ length])
    qed
    then show ?thesis
      by (intro that [of gss]) (use True fr c(1) g gs(1,2) in \<open>auto simp: comp_def\<close>)
  next
    case False
    then show ?thesis
      by (intro that [of "gss @ [gs']"]) (use fr c(1) g gs(1,2) in \<open>auto simp: comp_def\<close>)
  qed
qed

section \<open>Reading the records back\<close>

text \<open>What a strip must have for a reader to find it: the codec's magic and a whole header.\<close>

definition strip_ok :: "bytes \<Rightarrow> bool" where
  "strip_ok s \<longleftrightarrow> 16 \<le> length s \<and> s ! 0 = 0x01 \<and> s ! 1 = 0x28"

definition extent :: "bytes \<Rightarrow> nat \<times> nat \<times> nat" where
  "extent s = (unat (strip_x s), unat (strip_y s), length s)"

lemma length_tlv [simp]: "length (tlv s) = 2 + length s"
  by (simp add: tlv_def)

lemma extents_exhausted:
  "e < p + 2 \<Longrightarrow> e' < p' + 2 \<Longrightarrow> extents_from chunk n p e = extents_from chunk n p' e'"
  by (subst (1 2) extents_from.simps) simp

lemma extents_strips:
  assumes "\<forall>s\<in>set ss. strip_ok s \<and> length s < 65536" and pad: "pad < 16"
  shows "extents_from (pre @ concat (map tlv ss) @ replicate pad 0 @ rest) n (length pre)
      (length pre + length (concat (map tlv ss)) + pad) =
    map extent ss @ extents_from (pre @ concat (map tlv ss) @ replicate pad 0 @ rest) n 0 0"
  using assms(1)
proof (induction ss arbitrary: pre)
  case Nil
  let ?c = "pre @ replicate pad 0 @ rest"
  show ?case
  proof (cases "pad < 2")
    case True
    then show ?thesis using extents_exhausted [of "length pre + pad" "length pre" 0 0 ?c n] by simp
  next
    case False
    then have "rd16 (length pre) ?c = 0" by (simp add: rd16_def nth_append from_le16_def)
    then show ?thesis
      using False extents_exhausted [of "length pre + pad" "length pre + pad" 0 0 ?c n]
      by (subst extents_from.simps) simp
  qed
next
  case (Cons s ss)
  have ok: "strip_ok s" "length s < 65536" using Cons.prems by simp_all
  let ?c = "pre @ concat (map tlv (s # ss)) @ replicate pad 0 @ rest"
  have "rd16 (length pre) ?c = of_nat (length s)" "get (length pre + 2) (length s) ?c = s"
    by (simp_all add: tlv_def)
  then have "extents_from ?c n (length pre) (length pre + length (concat (map tlv (s # ss))) + pad) =
      extent s # extents_from ?c n (length (pre @ tlv s)) (length pre + length (concat (map tlv (s # ss))) + pad)"
    using ok by (subst extents_from.simps)
      (simp add: strip_ok_def extent_def strip_x_def strip_y_def Let_def unat_of_nat add.assoc)
  also have "extents_from ?c n (length (pre @ tlv s)) (length pre + length (concat (map tlv (s # ss))) + pad) =
      map extent ss @ extents_from ?c n 0 0"
    using Cons.IH [of "pre @ tlv s"] Cons.prems by (simp add: add.assoc)
  finally show ?case by simp
qed

text \<open>The records of a chunk, as \<open>(sub, strips)\<close> pairs.\<close>

definition pair_ok :: "u16 \<times> bytes list \<Rightarrow> bool" where
  "pair_ok = (\<lambda>(sub, ss). align16 (16 + payload_len ss) \<le> STRIDE_CAP \<and> (\<forall>s\<in>set ss. strip_ok s))"

definition pair_record :: "u16 \<times> bytes list \<Rightarrow> bytes" where
  "pair_record = (\<lambda>(sub, ss). image_record sub ss)"

lemma align16_ge: "n \<le> align16 n"
  using div_ceil_bounds(1) [of 16 n] by (simp add: align16_def mult.commute)

lemma align16_dvd [simp]: "16 dvd align16 n"
  by (simp add: align16_def)

lemma strip_le_payload: "s \<in> set ss \<Longrightarrow> 2 + length s \<le> payload_len ss"
  unfolding payload_len_def by (induction ss) auto

lemma pair_ok_strips: "pair_ok (sub, ss) \<Longrightarrow> \<forall>s\<in>set ss. strip_ok s \<and> length s < 65536"
proof
  fix s assume ok: "pair_ok (sub, ss)" and s: "s \<in> set ss"
  have "length s < STRIDE_CAP"
    using strip_le_payload [OF s] align16_ge [of "16 + payload_len ss"] ok by (simp add: pair_ok_def)
  then show "strip_ok s \<and> length s < 65536" using ok s by (simp add: pair_ok_def STRIDE_CAP_def)
qed

lemma record_fields:
  assumes "pair_ok (sub, ss)"
  shows "unat (rd16 (length pre + 2) (pre @ image_record sub ss @ rest)) + 4 = align16 (16 + payload_len ss)"
    and "unat (rd16 (length pre + 10) (pre @ image_record sub ss @ rest)) = pad_len ss"
    and "16 \<le> align16 (16 + payload_len ss)" "align16 (16 + payload_len ss) < 65536"
proof -
  show a: "16 \<le> align16 (16 + payload_len ss)" using align16_ge [of "16 + payload_len ss"] by simp
  show b: "align16 (16 + payload_len ss) < 65536" using assms by (simp add: pair_ok_def STRIDE_CAP_def)
  have "rd16 (length pre + 2) (pre @ image_record sub ss @ rest) = of_nat (align16 (16 + payload_len ss) - 4)"
    "rd16 (length pre + 10) (pre @ image_record sub ss @ rest) = of_nat (pad_len ss)"
    by (simp_all add: image_record_bytes)
  moreover have "unat (of_nat (align16 (16 + payload_len ss) - 4) :: u16) = align16 (16 + payload_len ss) - 4"
    "unat (of_nat (pad_len ss) :: u16) = pad_len ss"
    using b pad_len_lt [of ss] by (auto intro!: unat_size_field simp del: of_nat_diff)
  ultimately show "unat (rd16 (length pre + 2) (pre @ image_record sub ss @ rest)) + 4 = align16 (16 + payload_len ss)"
    "unat (rd16 (length pre + 10) (pre @ image_record sub ss @ rest)) = pad_len ss"
    using a by (simp_all del: of_nat_diff)
qed

lemma extents_records:
  assumes "\<forall>gr\<in>set gs. pair_ok gr"
  shows "extents_from (pre @ concat (map pair_record gs)) (length pre) 0 0 = concat (map (\<lambda>(sub, ss). map extent ss) gs)"
  using assms
proof (induction gs arbitrary: pre)
  case Nil
  then show ?case by (subst extents_from.simps) simp
next
  case (Cons gr gs)
  obtain sub ss where gr: "gr = (sub, ss)" by (cases gr)
  have ok: "pair_ok (sub, ss)" using Cons.prems gr by simp
  let ?rest = "concat (map pair_record gs)"
  let ?n = "align16 (16 + payload_len ss)"
  let ?h = "header_bytes ?n 4 sub (of_nat (pad_len ss)) 0"
  let ?c = "pre @ image_record sub ss @ ?rest"
  have "extents_from ?c (length pre) 0 0 = extents_from ?c (length pre + ?n) (length pre + 16) (length pre + ?n)"
    using record_fields(1,2) [OF ok, of pre ?rest] record_fields(3,4) [OF ok] by (subst extents_from.simps) (simp add: length_image_record Let_def)
  also have "\<dots> = map extent ss @ extents_from ?c (length pre + ?n) 0 0"
    using extents_strips [OF pair_ok_strips [OF ok] pad_len_lt [of ss], where pre = "pre @ ?h" and rest = ?rest and n = "length pre + ?n"] pad_align [of ss]
    by (simp add: image_record_bytes payload_len_def [symmetric] add.assoc)
  also have "extents_from ?c (length pre + ?n) 0 0 = concat (map (\<lambda>(sub, ss). map extent ss) gs)"
    using Cons.IH [of "pre @ image_record sub ss"] Cons.prems by (simp add: length_image_record)
  finally show ?case by (simp add: gr pair_record_def)
qed

text \<open>The same walk by \<open>record_stats\<close>.\<close>

definition stat_step :: "nat \<times> nat \<times> nat \<Rightarrow> bytes list \<Rightarrow> nat \<times> nat \<times> nat" where
  "stat_step = (\<lambda>(n, stride, strip) ss.
    (n + 1, max stride (align16 (16 + payload_len ss)), foldl (\<lambda>m s. max m (length s)) strip ss))"

lemma stat_strips_walk:
  assumes "\<forall>s\<in>set ss. 0 < length s \<and> length s < 65536"
  shows "stat_strips (pre @ concat (map tlv ss) @ rest) (length pre + length (concat (map tlv ss))) (length pre) m =
    foldl (\<lambda>m s. max m (length s)) m ss"
  using assms
proof (induction ss arbitrary: pre m)
  case Nil
  then show ?case by (subst stat_strips.simps) simp
next
  case (Cons s ss)
  have "rd16 (length pre) (pre @ concat (map tlv (s # ss)) @ rest) = of_nat (length s)" by (simp add: tlv_def)
  then show ?case
    using Cons.IH [of "pre @ tlv s" "max m (length s)"] Cons.prems
    by (subst stat_strips.simps) (simp add: Let_def unat_of_nat add.assoc)
qed

lemma stat_records_walk:
  assumes "\<forall>gr\<in>set gs. pair_ok gr"
  shows "stat_records (pre @ concat (map pair_record gs)) (length pre) acc = foldl stat_step acc (map snd gs)"
  using assms
proof (induction gs arbitrary: pre acc)
  case Nil
  then show ?case by (subst stat_records.simps) simp
next
  case (Cons gr gs)
  obtain sub ss where gr: "gr = (sub, ss)" by (cases gr)
  obtain n stride strip where acc: "acc = (n, stride, strip)" by (cases acc)
  have ok: "pair_ok (sub, ss)" using Cons.prems gr by simp
  let ?rest = "concat (map pair_record gs)"
  let ?c = "pre @ image_record sub ss @ ?rest"
  have strips: "\<forall>s\<in>set ss. 0 < length s \<and> length s < 65536"
    using pair_ok_strips [OF ok] by (auto simp: strip_ok_def)
  have body: "get (length pre + 16) (align16 (16 + payload_len ss) - 16) ?c = concat (map tlv ss) @ replicate (pad_len ss) 0"
    using pad_align [of ss] by (simp add: image_record_bytes payload_len_def [symmetric] get_def)
  have "stat_strips (concat (map tlv ss) @ replicate (pad_len ss) 0)
      (length (concat (map tlv ss) @ replicate (pad_len ss) (0 :: byte)) - pad_len ss) 0 strip =
      foldl (\<lambda>m s. max m (length s)) strip ss"
    using stat_strips_walk [OF strips, of "[]" "replicate (pad_len ss) 0" strip] by simp
  then have "stat_records ?c (length pre) acc = stat_records ?c (length pre + align16 (16 + payload_len ss)) (stat_step acc ss)"
    using record_fields(1,2) [OF ok, of pre ?rest] record_fields(3,4) [OF ok]
    by (subst stat_records.simps) (simp add: body length_image_record Let_def acc stat_step_def)
  then show ?case
    using Cons.IH [of "pre @ image_record sub ss" "stat_step acc ss"] Cons.prems
    by (simp add: gr pair_record_def length_image_record)
qed


section \<open>Every order is a permutation\<close>

lemma sink_splits:
  assumes "sorted_wrt (\<lambda>a b. key_le (key a) (key b)) pre"
  shows "\<exists>p. sink key (pre @ x # rest) (length pre) = p @ rest \<and> mset p = add_mset x (mset pre) \<and>
    sorted_wrt (\<lambda>a b. key_le (key a) (key b)) p"
  using assms
proof (induction pre arbitrary: rest rule: rev_induct)
  case (snoc y pre)
  show ?case
  proof (cases "key_le (key y) (key x)")
    case True
    then have "sink key ((pre @ [y]) @ x # rest) (length (pre @ [y])) = (pre @ [y, x]) @ rest"
      by (simp add: nth_append)
    moreover have "\<forall>a\<in>set pre. key_le (key a) (key x)"
      using snoc.prems True by (auto simp: sorted_wrt_append key_le_def)
    ultimately show ?thesis
      using snoc.prems True by (intro exI [of _ "pre @ [y, x]"]) (auto simp: sorted_wrt_append)
  next
    case False
    then have "sink key ((pre @ [y]) @ x # rest) (length (pre @ [y])) = sink key (pre @ x # y # rest) (length pre)"
      by (simp add: nth_append list_update_append)
    moreover obtain p where p: "sink key (pre @ x # y # rest) (length pre) = p @ y # rest"
      "mset p = add_mset x (mset pre)" "sorted_wrt (\<lambda>a b. key_le (key a) (key b)) p"
      using snoc.IH [of "y # rest"] snoc.prems by (auto simp: sorted_wrt_append)
    moreover have "\<forall>a\<in>set p. key_le (key a) (key y)"
    proof
      fix a assume "a \<in> set p"
      then have "a = x \<or> a \<in> set pre" using mset_eq_setD [of p "x # pre"] p(2) by auto
      then show "key_le (key a) (key y)" using False snoc.prems by (auto simp: sorted_wrt_append key_le_def)
    qed
    ultimately show ?thesis by (intro exI [of _ "p @ [y]"]) (auto simp: sorted_wrt_append)
  qed
qed simp

lemma insertion_order_steps:
  assumes "m < n"
  shows "\<exists>p. foldl (sink key) [0..<n] [1..<Suc m] = p @ [Suc m..<n] \<and> mset p = mset [0..<Suc m] \<and>
    sorted_wrt (\<lambda>a b. key_le (key a) (key b)) p"
  using assms
proof (induction m)
  case 0
  then show ?case by (intro exI [of _ "[0]"]) (simp add: upt_conv_Cons)
next
  case (Suc m)
  then obtain p where p: "foldl (sink key) [0..<n] [1..<Suc m] = p @ [Suc m..<n]" "mset p = mset [0..<Suc m]"
    "sorted_wrt (\<lambda>a b. key_le (key a) (key b)) p" by auto
  have len: "length p = Suc m" using mset_eq_length [OF p(2)] by simp
  have "[Suc m..<n] = Suc m # [Suc (Suc m)..<n]" using Suc.prems by (simp add: upt_conv_Cons)
  then have "foldl (sink key) [0..<n] [1..<Suc (Suc m)] = sink key (p @ Suc m # [Suc (Suc m)..<n]) (length p)"
    using p(1) len by simp
  then show ?case using sink_splits [OF p(3), of "Suc m" "[Suc (Suc m)..<n]"] p(2) by auto
qed

lemma insertion_order_sorts:
  "mset (insertion_order key n) = mset [0..<n]"
  "sorted_wrt (\<lambda>a b. key_le (key a) (key b)) (insertion_order key n)"
proof -
  have "mset (insertion_order key n) = mset [0..<n] \<and> sorted_wrt (\<lambda>a b. key_le (key a) (key b)) (insertion_order key n)"
  proof (cases n)
    case (Suc m)
    then show ?thesis using insertion_order_steps [of m n key] by (auto simp: insertion_order_def)
  qed (simp add: insertion_order_def)
  then show "mset (insertion_order key n) = mset [0..<n]"
    "sorted_wrt (\<lambda>a b. key_le (key a) (key b)) (insertion_order key n)" by simp_all
qed

text \<open>A table of runs covers an interval when the runs, sorted, follow one another.\<close>

fun run_list :: "bool \<Rightarrow> int \<Rightarrow> byte list \<Rightarrow> (int \<times> int) list" where
  "run_list ordinary run [] = []"
| "run_list ordinary run (y # ys) =
    (let c = uint y * 20 in
     (if ordinary then
        (if run = 50 then (c, c + 8) else if run = 101 then (c, c + 8) else if run = 102 then (c + 8, c + 20)
         else if run = 103 then (c, c + 4) else if run = 104 then (c + 8, c + 20) else if run = 143 then (c + 4, c + 20)
         else (c, c + 20))
      else (if run = 51 then (c, c + 4) else if run = 139 then (c + 4, c + 20) else (c, c + 20))) #
      run_list ordinary (run + 1) ys)"

fun chain :: "int \<Rightarrow> (int \<times> int) list \<Rightarrow> int option" where
  "chain a [] = Some a"
| "chain a ((x0, x1) # r) = (if x0 = a \<and> a \<le> x1 then chain x1 r else None)"

fun insert_run :: "int \<times> int \<Rightarrow> (int \<times> int) list \<Rightarrow> (int \<times> int) list" where
  "insert_run r [] = [r]"
| "insert_run r (r' # rs) = (if fst r \<le> fst r' then r # r' # rs else r' # insert_run r rs)"

definition sort_runs :: "(int \<times> int) list \<Rightarrow> (int \<times> int) list" where
  "sort_runs rs = foldr insert_run rs []"

definition cells :: "(int \<times> int) list \<Rightarrow> nat list" where
  "cells rs = concat (map (\<lambda>(x0, x1). [nat x0..<nat x1]) rs)"

lemma chain_cells: "chain a rs = Some b \<Longrightarrow> 0 \<le> a \<Longrightarrow> cells rs = [nat a..<nat b] \<and> a \<le> b"
proof (induction a rs rule: chain.induct)
  case (2 a x0 x1 r)
  then have step: "x0 = a" "a \<le> x1" "chain x1 r = Some b" by (auto split: if_splits)
  then have "cells r = [nat x1..<nat b]" "x1 \<le> b" using 2 by auto
  then show ?case
    using step upt_add_eq_append [of "nat a" "nat x1" "nat b - nat x1"] by (simp add: cells_def nat_mono)
qed (simp add: cells_def)

lemma mset_sort_runs: "mset (sort_runs rs) = mset rs"
proof -
  have "mset (insert_run r rs) = add_mset r (mset rs)" for r rs by (induction rs) auto
  then show ?thesis unfolding sort_runs_def by (induction rs) auto
qed

lemma mset_cells: "mset rs = mset rs' \<Longrightarrow> mset (cells rs) = mset (cells rs')"
proof -
  assume "mset rs = mset rs'"
  then have "mset (map (\<lambda>(x0, x1). mset [nat x0..<nat x1]) rs) = mset (map (\<lambda>(x0, x1). mset [nat x0..<nat x1]) rs')" by simp
  moreover have "mset (cells zs) = sum_mset (mset (map (\<lambda>(x0, x1). mset [nat x0..<nat x1]) zs))" for zs
    by (induction zs) (auto simp: cells_def)
  ultimately show ?thesis by simp
qed

lemma table_order_cells:
  "concat (map (\<lambda>(run, y). let (x0, x1) = run_columns False ordinary run
     in map (\<lambda>x. unat y * 20 + x) [x0..<x1]) (enumerate run rows)) = cells (run_list ordinary (int run) rows)"
proof (induction rows arbitrary: run)
  case (Cons y rows)
  have shift: "map (\<lambda>x. c + x) [a..<b] = [c + a..<c + b]" for a b c :: nat
    by (induction b) auto
  have num: "(int run = numeral k) = (run = numeral k)" for k
    by (metis of_nat_eq_iff of_nat_numeral)
  have col: "nat (uint y * 20 + numeral k) = unat y * 20 + numeral k" "nat (uint y * 20) = unat y * 20" for k
    by (simp_all add: nat_add_distrib nat_mult_distrib)
  show ?case
    using Cons [of "Suc run"] by (auto simp: cells_def shift Let_def run_columns_def num col add.commute [of 1])
qed (simp add: cells_def)

lemma table_permutes:
  assumes "chain 0 (sort_runs (run_list ordinary 0 rows)) = Some 3600"
  shows "mset (table_order False ordinary rows) = mset [0..<3600]"
proof -
  have "mset (table_order False ordinary rows) = mset (cells (run_list ordinary 0 rows))"
    using table_order_cells [of ordinary 0 rows] by (simp add: table_order_def)
  also have "\<dots> = mset (cells (sort_runs (run_list ordinary 0 rows)))" by (rule mset_cells) (simp add: mset_sort_runs)
  also have "\<dots> = mset [0..<3600]" using chain_cells [OF assms] by simp
  finally show ?thesis .
qed

lemma navarro_tables:
  "chain 0 (sort_runs (run_list False 0 NAVARRO_PROLOGUE_ROWS)) = Some 3600"
  "chain 0 (sort_runs (run_list True 0 NAVARRO_ORDINARY_ROWS)) = Some 3600"
  by code_simp+


lemma layouts_exclusive: "navarro_layout g strips \<Longrightarrow> \<not> ella_layout g"
  by (auto simp: navarro_layout_def ella_layout_def STRIP_BLOCKS_def DIM_def)

lemma two_passes:
  fixes f :: "nat \<Rightarrow> u16"
  shows "mset (concat (map (\<lambda>pass. filter (\<lambda>n. f n AND 1 = pass) ns) [0, 1])) = mset ns"
proof -
  have "f n AND 1 = 1 \<longleftrightarrow> f n AND 1 \<noteq> 0" for n by (auto simp: and_one_eq odd_iff_mod_2_eq_one)
  then show ?thesis by (simp add: multiset_partition [symmetric])
qed

lemma strip_order_mset: "mset (strip_order g strips ordinary) = mset [0..<length strips]"
proof (cases "ordinary \<noteq> None \<and> navarro_layout g strips")
  case True
  then have "length strips = 3600" "\<not> ella_layout g" using layouts_exclusive by (auto simp: navarro_layout_def)
  then show ?thesis using True table_permutes [OF navarro_tables(1)] table_permutes [OF navarro_tables(2)]
    by (auto simp: strip_order_def)
next
  case False
  then have "strip_order g strips ordinary = strip_order g strips None" by (auto simp: strip_order_def)
  then show ?thesis using two_passes [of "\<lambda>n. drop_bit (strip_h_shift g) (strip_y (strips ! n))" "[0..<length strips]"]
    by (simp add: strip_order_def insertion_order_sorts)
qed

section \<open>When framing fails\<close>

lemma strip_fits: "align16 (18 + n) \<le> STRIDE_CAP \<longleftrightarrow> n \<le> 4062"
proof -
  have "align16 (18 + n) = (n + 33) div 16 * 16" by (simp add: align16_def)
  moreover have "(n + 33) div 16 \<le> 255 \<longleftrightarrow> n + 33 < 4096" by (simp add: div_less_iff_less_mult flip: less_Suc_eq_le)
  ultimately show ?thesis by (auto simp: STRIDE_CAP_def)
qed

lemma fill_record_more: "0 < n \<Longrightarrow> \<exists>r. fill_record g strips ordinary y0 i n rec ks = Ok r"
  by (induction ks arbitrary: i n rec) (auto simp: Let_def)

lemma fill_record_fits:
  assumes "length (strips ! k) \<le> 4062"
  shows "\<exists>r. fill_record g strips ordinary y0 i 0 (replicate 16 0) (k # ks) = Ok r"
proof -
  have "\<not> STRIDE_CAP < (16 + 2 + length (strips ! k) + 15) div 16 * 16"
    using assms strip_fits [of "length (strips ! k)"] by (simp add: align16_def add.commute)
  then show ?thesis using fill_record_more [of 1] by (simp add: Let_def)
qed

lemma fill_record_error: "fill_record g strips ordinary y0 i n rec ks = Err e \<Longrightarrow> e = EOVERFLOW"
  by (induction ks arbitrary: i n rec) (auto simp: Let_def split: if_splits)

lemma frame_loop_total:
  "\<forall>k\<in>set ks. length (strips ! k) \<le> 4062 \<Longrightarrow> \<exists>out'. frame_loop g strips connector ordinary i out ks = Ok out'"
proof (induction g strips connector ordinary i out ks rule: frame_loop.induct)
  case (2 g strips connector ordinary i out k ks)
  define y0 where "y0 = strip_y (strips ! k)"
  obtain r j rest where fill: "fill_record g strips ordinary y0 i 0 (replicate 16 0) (k # ks) = Ok (r, j, rest)"
    using fill_record_fits [of strips k] "2.prems" by (metis list.set_intros(1) prod_cases3)
  obtain taken where "k # ks = taken @ rest" using fill_record_taken [OF fill] by blast
  then have "set rest \<subseteq> set (k # ks)" by simp
  then obtain out' where "frame_loop g strips connector ordinary j
      (push_chunk out (close_record (record_sub g connector y0) r)) rest = Ok out'"
    using "2.IH" [OF y0_def fill refl refl] "2.prems" by blast
  then show ?case using fill by (simp add: Let_def y0_def del: fill_record.simps)
qed simp

lemma frame_loop_error: "frame_loop g strips connector ordinary i out ks = Err e \<Longrightarrow> e = EOVERFLOW"
proof (induction g strips connector ordinary i out ks rule: frame_loop.induct)
  case (2 g strips connector ordinary i out k ks)
  then show ?case
    by (auto simp: Let_def simp del: fill_record.simps dest: fill_record_error split: sum.splits)
qed simp

lemma strip_order_set: "set (strip_order g strips ordinary) = {0..<length strips}"
  using mset_eq_setD [OF strip_order_mset [of g strips ordinary]] by simp

lemma all_strips_conv: "(\<forall>k\<in>set (strip_order g strips ordinary). P (strips ! k)) \<longleftrightarrow> (\<forall>s\<in>set strips. P s)"
  unfolding strip_order_set by (auto simp: all_set_conv_all_nth)

lemma framing_total:
  "(\<exists>frames. frame_records_with_boundary g strips connector ordinary = Ok frames) \<longleftrightarrow>
    (\<forall>s\<in>set strips. length s \<le> 4062)"
proof
  assume "\<exists>frames. frame_records_with_boundary g strips connector ordinary = Ok frames"
  then obtain frames where "frame_records_with_boundary g strips connector ordinary = Ok frames" ..
  then obtain gss where gss: "concat (map snd (concat gss)) = strip_order g strips ordinary"
    "\<forall>gr\<in>set (concat gss). group_ok g strips connector gr"
    by (rule frames_of_groups)
  have "length (strips ! k) \<le> 4062" if "k \<in> set (strip_order g strips ordinary)" for k
  proof -
    from that obtain sub ks where gr: "(sub, ks) \<in> set (concat gss)" "k \<in> set ks"
      unfolding gss(1) [symmetric] by fastforce
    let ?ss = "map ((!) strips) ks"
    have "2 + length (strips ! k) \<le> payload_len ?ss" using gr(2) by (intro strip_le_payload) auto
    moreover have "align16 (16 + payload_len ?ss) \<le> STRIDE_CAP" using gss(2) gr(1) by (auto simp: group_ok_def)
    ultimately have "align16 (18 + length (strips ! k)) \<le> STRIDE_CAP"
      unfolding align16_def by (elim order_trans [rotated]) (intro mult_right_mono div_le_mono, simp_all)
    then show ?thesis by (simp add: strip_fits)
  qed
  then show "\<forall>s\<in>set strips. length s \<le> 4062"
    using all_strips_conv [of g strips ordinary "\<lambda>s. length s \<le> 4062"] by blast
next
  assume "\<forall>s\<in>set strips. length s \<le> 4062"
  then have "\<forall>k\<in>set (strip_order g strips ordinary). length (strips ! k) \<le> 4062"
    using all_strips_conv [of g strips ordinary "\<lambda>s. length s \<le> 4062"] by blast
  from frame_loop_total [OF this, of g connector ordinary 0 "([], [])"]
  show "\<exists>frames. frame_records_with_boundary g strips connector ordinary = Ok frames"
    by (auto simp: frame_records_with_boundary_def split: prod.splits)
qed

lemma framing_error:
  "frame_records_with_boundary g strips connector ordinary = Err e \<Longrightarrow> e = EOVERFLOW"
  by (auto simp: frame_records_with_boundary_def bind_def dest: frame_loop_error split: prod.splits sum.splits)

lemma frames_read_back:
  assumes "frame_records_with_boundary g strips connector ordinary = Ok frames" "\<forall>s\<in>set strips. strip_ok s"
  obtains pss where "frames = map (\<lambda>ps. concat (map pair_record ps)) pss" "\<forall>pr\<in>set (concat pss). pair_ok pr"
    "concat (map snd (concat pss)) = map ((!) strips) (strip_order g strips ordinary)"
proof -
  obtain gss where gss: "frames = map (\<lambda>gs. concat (map (group_record strips) gs)) gss"
    "concat (map snd (concat gss)) = strip_order g strips ordinary"
    "\<forall>gr\<in>set (concat gss). group_ok g strips connector gr"
    using assms(1) by (rule frames_of_groups)
  define f where "f = (\<lambda>(sub :: u16, ks). (sub, map ((!) strips) ks))"
  have ok: "\<forall>k\<in>set (strip_order g strips ordinary). strip_ok (strips ! k)"
    using assms(2) by (simp add: all_strips_conv)
  have "pair_ok (f gr)" if "gr \<in> set (concat gss)" for gr
  proof -
    have "\<forall>k\<in>set (snd gr). strip_ok (strips ! k)" using ok that unfolding gss(2) [symmetric] by auto
    then show ?thesis using gss(3) that by (cases gr) (auto simp: f_def pair_ok_def group_ok_def)
  qed
  moreover have "group_record strips = pair_record \<circ> f" by (auto simp: group_record_def pair_record_def f_def)
  moreover have "concat (map (snd \<circ> f) (concat gss)) = map ((!) strips) (strip_order g strips ordinary)"
    by (simp add: gss(2) [symmetric] map_concat f_def comp_def split_beta)
  ultimately show ?thesis
    using gss(1) by (intro that [of "map (map f) gss"]) (auto simp: map_concat [symmetric] comp_def)
qed

definition frame_stats :: "nat \<times> nat \<times> nat \<Rightarrow> bytes list list \<Rightarrow> nat \<times> nat \<times> nat" where
  "frame_stats = foldl stat_step"

lemma stat_step_fold:
  assumes "\<forall>ss\<in>set sss. align16 (16 + payload_len ss) \<le> STRIDE_CAP" "stride \<le> STRIDE_CAP"
  shows "\<exists>stride'. stride' \<le> STRIDE_CAP \<and>
    frame_stats (n, stride, strip) sss = (n + length sss, stride', foldl (\<lambda>m s. max m (length s)) strip (concat sss))"
  using assms
proof (induction sss arbitrary: n stride strip)
  case (Cons ss sss)
  show ?case
    using Cons.IH [of "max stride (align16 (16 + payload_len ss))" "n + 1" "foldl (\<lambda>m s. max m (length s)) strip ss"] Cons.prems
    by (auto simp: frame_stats_def stat_step_def)
qed (simp add: frame_stats_def)

lemma record_stats_pairs:
  assumes "\<forall>pr\<in>set (concat pss). pair_ok pr"
  shows "record_stats (map (\<lambda>ps. concat (map pair_record ps)) pss) = frame_stats (0, 0, 0) (map snd (concat pss))"
proof -
  have "foldl (\<lambda>acc chunk. stat_records chunk 0 acc) acc (map (\<lambda>ps. concat (map pair_record ps)) pss) =
      frame_stats acc (map snd (concat pss))" for acc
    using assms stat_records_walk [where pre = "[]"]
    by (induction pss arbitrary: acc) (simp_all add: frame_stats_def)
  then show ?thesis by (simp add: record_stats_def)
qed

lemma foldl_max_length: "foldl (\<lambda>m s. max m (length s)) m ss = fold max (map length ss) m"
  by (induction ss arbitrary: m) (simp_all add: max.commute)

text \<open>A chunk never outgrows its allocation.\<close>

definition chunks_ok :: "bytes list \<times> bytes \<Rightarrow> bool" where
  "chunks_ok out \<longleftrightarrow> length (snd out) \<le> CHUNK \<and> list_all (\<lambda>c. length c \<le> CHUNK) (fst out)"

lemma push_chunk_ok: "chunks_ok out \<Longrightarrow> length r \<le> CHUNK \<Longrightarrow> chunks_ok (push_chunk out r)"
  by (cases out) (auto simp: chunks_ok_def push_chunk_def)

lemma push_chunks_ok: "chunks_ok out \<Longrightarrow> list_all (\<lambda>r. length r \<le> CHUNK) recs \<Longrightarrow> chunks_ok (foldl push_chunk out recs)"
  by (induction recs arbitrary: out) (simp_all add: push_chunk_ok)

lemma frames_bounded:
  assumes "frame_records_with_boundary g strips connector ordinary = Ok frames"
  shows "\<forall>chunk\<in>set frames. length chunk \<le> CHUNK"
proof -
  obtain out where loop: "frame_loop g strips connector ordinary 0 ([], []) (strip_order g strips ordinary) = Ok out"
    and fr: "frames = (if snd out = [] then fst out else fst out @ [snd out])"
    using assms by (force simp: frame_records_with_boundary_def bind_Ok_iff)
  from frame_loop_groups [OF loop] obtain gs where gs: "\<forall>gr\<in>set gs. group_ok g strips connector gr"
    "out = foldl push_chunk ([], []) (map (group_record strips) gs)" by blast
  have "list_all (\<lambda>r. length r \<le> CHUNK) (map (group_record strips) gs)"
    unfolding list_all_iff
  proof
    fix r assume "r \<in> set (map (group_record strips) gs)"
    then obtain sub ks where "(sub, ks) \<in> set gs" "r = image_record sub (map ((!) strips) ks)"
      by (auto simp: group_record_def)
    then have "length r \<le> STRIDE_CAP" using gs(1) by (auto simp: group_ok_def length_image_record)
    then show "length r \<le> CHUNK" by (simp add: STRIDE_CAP_def CHUNK_def)
  qed
  then have "chunks_ok out" unfolding gs(2) by (intro push_chunks_ok) (simp_all add: chunks_ok_def)
  then show ?thesis using fr by (auto simp: chunks_ok_def list_all_iff)
qed

lemma pair_records_aligned: "16 dvd length (concat (map pair_record ps))"
  by (induction ps) (auto simp: pair_record_def length_image_record)

lemma framed_extents:
  assumes "frame_records_with_boundary g strips connector ordinary = Ok frames" "\<forall>s\<in>set strips. strip_ok s"
  shows "framed_strip_extents frames = map (\<lambda>k. extent (strips ! k)) (strip_order g strips ordinary)"
proof -
  obtain pss where pss: "frames = map (\<lambda>ps. concat (map pair_record ps)) pss" "\<forall>pr\<in>set (concat pss). pair_ok pr"
    "concat (map snd (concat pss)) = map ((!) strips) (strip_order g strips ordinary)"
    using frames_read_back [OF assms] by blast
  have "framed_strip_extents frames = concat (map (\<lambda>ps. concat (map (\<lambda>(sub, ss). map extent ss) ps)) pss)"
    unfolding framed_strip_extents_def pss(1) using pss(2) extents_records [where pre = "[]"]
    by (intro arg_cong [of _ _ concat]) auto
  also have "\<dots> = map extent (concat (map snd (concat pss)))"
    by (induction pss) (simp_all add: map_concat comp_def split_beta)
  finally show ?thesis by (simp add: pss(3) comp_def)
qed

section \<open>Properties\<close>

text \<open>
  C6: Framing loses, repeats and reorders nothing but as the order says. When every strip has the codec's
  header and at most 4062 bytes, framing succeeds, and walking the produced chunks finds the strips'
  coordinates and lengths exactly in the transmission order, for every geometry, connector and producer.
\<close>

theorem framed_strips_recovered:
  assumes "\<forall>s\<in>set strips. strip_ok s \<and> length s \<le> 4062"
  shows "\<exists>frames. frame_records_with_boundary g strips connector ordinary = Ok frames \<and>
    framed_strip_extents frames = map (\<lambda>k. extent (strips ! k)) (strip_order g strips ordinary)"
  using assms framing_total [of g strips connector ordinary] framed_extents by blast

definition sample_strip :: "byte \<Rightarrow> nat \<Rightarrow> bytes" where
  "sample_strip y n = 1 # 0x28 # 0 # 0 # y # replicate n 0"

theorem framed_strips_recovered_witness:
  "\<exists>frames. frame_records_with_boundary RIDGE_GEOMETRY [sample_strip 0 40, sample_strip 16 4000] 0 None = Ok frames \<and>
    framed_strip_extents frames = map (\<lambda>k. extent ([sample_strip 0 40, sample_strip 16 4000] ! k))
      (strip_order RIDGE_GEOMETRY [sample_strip 0 40, sample_strip 16 4000] None)"
  by (rule framed_strips_recovered) (simp add: strip_ok_def sample_strip_def)

text \<open>
  C38: What the receiver checks holds of every frame. No record passes the 4080-byte cap, the record count and
  the largest strip that \<open>record_stats\<close> reads off the frame are those of the input.
\<close>

theorem framed_records_bounded:
  assumes "\<forall>s\<in>set strips. strip_ok s \<and> length s \<le> 4062"
  shows "\<exists>frames records max_stride. frame_records_with_boundary g strips connector ordinary = Ok frames \<and>
    record_stats frames = (records, max_stride,
      fold max (map (\<lambda>k. length (strips ! k)) (strip_order g strips ordinary)) 0) \<and> max_stride \<le> 4080 \<and>
    (\<forall>chunk\<in>set frames. length chunk \<le> 0x4000 \<and> 16 dvd length chunk)"
proof -
  obtain frames where fr: "frame_records_with_boundary g strips connector ordinary = Ok frames"
    using assms framing_total [of g strips connector ordinary] by blast
  obtain pss where pss: "frames = map (\<lambda>ps. concat (map pair_record ps)) pss" "\<forall>pr\<in>set (concat pss). pair_ok pr"
    "concat (map snd (concat pss)) = map ((!) strips) (strip_order g strips ordinary)"
    using frames_read_back [OF fr] assms by blast
  have "\<forall>chunk\<in>set frames. length chunk \<le> 0x4000 \<and> 16 dvd length chunk"
    using frames_bounded [OF fr] pair_records_aligned by (auto simp: pss(1) CHUNK_def)
  moreover have "\<forall>ss\<in>set (map snd (concat pss)). align16 (16 + payload_len ss) \<le> STRIDE_CAP"
    using pss(2) by (fastforce simp: pair_ok_def)
  from stat_step_fold [OF this, of 0 0 0] have "\<exists>records max_stride. record_stats frames = (records, max_stride,
      fold max (map (\<lambda>k. length (strips ! k)) (strip_order g strips ordinary)) 0) \<and> max_stride \<le> 4080"
    by (auto simp: pss(1,3) record_stats_pairs [OF pss(2)] foldl_max_length comp_def STRIDE_CAP_def)
  ultimately show ?thesis using fr by blast
qed

theorem framed_records_bounded_witness:
  "\<exists>frames records max_stride.
    frame_records_with_boundary RIDGE_GEOMETRY [sample_strip 0 40, sample_strip 16 4000] 0 None = Ok frames \<and>
    record_stats frames = (records, max_stride, fold max (map (\<lambda>k. length ([sample_strip 0 40, sample_strip 16 4000] ! k))
      (strip_order RIDGE_GEOMETRY [sample_strip 0 40, sample_strip 16 4000] None)) 0) \<and> max_stride \<le> 4080 \<and>
    (\<forall>chunk\<in>set frames. length chunk \<le> 0x4000 \<and> 16 dvd length chunk)"
  by (rule framed_records_bounded) (simp add: strip_ok_def sample_strip_def)

text \<open>
  C39: The only failure of framing is a strip too long for a record. Framing returns a frame exactly when every
  strip has at most 4062 bytes, and \<open>EOVERFLOW\<close> otherwise, whatever the geometry and the producer.
\<close>

theorem framing_fails_iff_overlong:
  "frame_records_with_boundary g strips connector ordinary = Err e \<longleftrightarrow>
    e = EOVERFLOW \<and> (\<exists>s\<in>set strips. 4062 < length s)"
  using framing_total [of g strips connector ordinary] framing_error [of g strips connector ordinary]
  by (cases "frame_records_with_boundary g strips connector ordinary") (force simp: not_le)+

theorem framing_fails_iff_overlong_witness:
  "frame_records_with_boundary RIDGE_GEOMETRY [sample_strip 0 4060] 0 None = Err EOVERFLOW"
  using framing_fails_iff_overlong [of RIDGE_GEOMETRY "[sample_strip 0 4060]" 0 None EOVERFLOW]
  by (simp add: sample_strip_def)

text \<open>
  Every order transmits every strip once. Raster, the two-pass order, the Ella insertion sort and both Navarro
  tables are permutations of the strip indices; where the Ella order is used it is sorted by table band, then column.
\<close>

lemma strip_order_permutes:
  "mset (strip_order g strips ordinary) = mset [0..<length strips] \<and>
    (ella_layout g \<longrightarrow>
      sorted_wrt (\<lambda>a b. key_le (strip_key g (strips ! a)) (strip_key g (strips ! b))) (strip_order g strips ordinary))"
proof -
  have "strip_order g strips ordinary = insertion_order (\<lambda>n. strip_key g (strips ! n)) (length strips)" if "ella_layout g"
    using that layouts_exclusive [of g strips] by (auto simp: strip_order_def)
  then show ?thesis using strip_order_mset insertion_order_sorts(2) by auto
qed

end
