(* ===== verification/Frame_Assembly.thy ===== *)
theory Frame_Assembly
  imports Video_Records Display_Mode Control_Messages
begin

text \<open>
  Frames (\<open>chimera/vino/video/mod.rs\<close>, the closing records of \<open>haar/records.rs\<close> and their callers in
  \<open>kernel_tree/api.rs\<close>): the tiling of a surface into strips, the damage selection, whole and black
  frames, the packed-RGB reader, the ring records that open and close a frame on each dock, and the
  DL7400's strip-size map.
\<close>

section \<open>Tiling\<close>

text \<open>The \<open>while at < limit\<close> loops over strip origins; a strip dimension is a power of two, never zero.\<close>

function strip_starts :: "nat \<Rightarrow> nat \<Rightarrow> nat \<Rightarrow> nat list" where
  "strip_starts step limit at = (if at < limit \<and> 0 < step then at # strip_starts step limit (at + step) else [])"
  by auto
termination
  by (relation "measure (\<lambda>(step, limit, at). limit - at)") auto

declare strip_starts.simps [simp del]

definition all_strip_coords :: "Geometry \<Rightarrow> nat \<Rightarrow> nat \<Rightarrow> (nat \<times> nat) list" where
  "all_strip_coords g width height =
    concat (map (\<lambda>sy. map (\<lambda>sx. (sx, sy)) (strip_starts (strip_w g) width 0)) (strip_starts (strip_h g) height 0))"

text \<open>\<open>sx & !(mw - 1)\<close> with \<open>mw\<close> a power of two is the multiple of \<open>mw\<close> below.\<close>

definition tile_hit :: "Geometry \<Rightarrow> nat \<Rightarrow> nat \<Rightarrow> (nat \<times> nat \<times> nat \<times> nat) list \<Rightarrow> bool" where
  "tile_hit g sx sy clips =
    (let mw = macro_w g; mh = macro_h g; mx = sx div mw * mw; my = sy div mh * mh
     in list_ex (\<lambda>(x0, y0, x1, y1). mx < x1 \<and> x0 < mx + mw \<and> my < y1 \<and> y0 < my + mh) clips)"

definition damage_strip_coords :: "Geometry \<Rightarrow> nat \<Rightarrow> nat \<Rightarrow> (nat \<times> nat \<times> nat \<times> nat) list \<Rightarrow> (nat \<times> nat) list" where
  "damage_strip_coords g width height clips =
    concat (map (\<lambda>sy. concat (map (\<lambda>sx. if tile_hit g sx sy clips then [(sx, sy)] else [])
      (strip_starts (strip_w g) width 0))) (strip_starts (strip_h g) height 0))"

definition aligned :: "Geometry \<Rightarrow> nat \<Rightarrow> nat \<Rightarrow> bool" where
  "aligned g width height \<longleftrightarrow> \<not> (width mod strip_w g \<noteq> 0 \<or> height mod strip_h g \<noteq> 0)"

section \<open>Whole frames\<close>

definition colour_frame_ep08_variant ::
    "Geometry \<Rightarrow> nat \<Rightarrow> nat \<Rightarrow> byte \<Rightarrow> bool option \<Rightarrow> (nat \<Rightarrow> nat \<Rightarrow> u16 \<times> u16 \<times> u16) \<Rightarrow> bytes list result" where
  "colour_frame_ep08_variant g width height connector navarro_ordinary px =
    (if \<not> aligned g width height then Err EINVAL
     else bind (traverse (\<lambda>(sx, sy). colour_strip g (colour_strip_blocks g sx sy px) (of_nat sx) (of_nat sy))
         (all_strip_coords g width height))
       (\<lambda>strips. frame_records_with_boundary g strips connector
         (if length strips = 3600 then navarro_ordinary else None)))"

definition colour_frame_ep08 ::
    "Geometry \<Rightarrow> nat \<Rightarrow> nat \<Rightarrow> byte \<Rightarrow> (nat \<Rightarrow> nat \<Rightarrow> u16 \<times> u16 \<times> u16) \<Rightarrow> bytes list result" where
  "colour_frame_ep08 g width height connector px = colour_frame_ep08_variant g width height connector None px"

definition colour_frame_ep08_navarro_ordinary ::
    "Geometry \<Rightarrow> nat \<Rightarrow> nat \<Rightarrow> byte \<Rightarrow> (nat \<Rightarrow> nat \<Rightarrow> u16 \<times> u16 \<times> u16) \<Rightarrow> bytes list result" where
  "colour_frame_ep08_navarro_ordinary g width height connector px =
    colour_frame_ep08_variant g width height connector (Some True) px"

definition black_block :: ColourBlock where
  "black_block = \<lparr>qcr = replicate COEFFS 0, qcb = replicate COEFFS 0, qy = replicate COEFFS 0, lcr = 0, lcb = 0, ly = 0\<rparr>"

definition black_frame_ep08_variant :: "Geometry \<Rightarrow> nat \<Rightarrow> nat \<Rightarrow> byte \<Rightarrow> bool option \<Rightarrow> bytes list result" where
  "black_frame_ep08_variant g width height connector navarro_ordinary =
    (if \<not> aligned g width height then Err EINVAL
     else bind (traverse (\<lambda>(sx, sy). colour_strip g (replicate STRIP_BLOCKS black_block) (of_nat sx) (of_nat sy))
         (all_strip_coords g width height))
       (\<lambda>strips. frame_records_with_boundary g strips connector navarro_ordinary))"

definition black_frame_ep08 :: "Geometry \<Rightarrow> nat \<Rightarrow> nat \<Rightarrow> byte \<Rightarrow> bytes list result" where
  "black_frame_ep08 g width height connector = black_frame_ep08_variant g width height connector (Some False)"

definition black_frame_ep08_ordinary :: "Geometry \<Rightarrow> nat \<Rightarrow> nat \<Rightarrow> byte \<Rightarrow> bytes list result" where
  "black_frame_ep08_ordinary g width height connector = black_frame_ep08_variant g width height connector (Some True)"

definition colour_frame_ep08_damage ::
    "Geometry \<Rightarrow> nat \<Rightarrow> nat \<Rightarrow> byte \<Rightarrow> (nat \<times> nat \<times> nat \<times> nat) list \<Rightarrow>
      (nat \<Rightarrow> nat \<Rightarrow> u16 \<times> u16 \<times> u16) \<Rightarrow> bytes list result" where
  "colour_frame_ep08_damage g width height connector clips px =
    (if \<not> aligned g width height then Err EINVAL
     else bind (traverse (\<lambda>(sx, sy). colour_strip g (colour_strip_blocks g sx sy px) (of_nat sx) (of_nat sy))
         (damage_strip_coords g width height clips))
       (\<lambda>strips. frame_records g strips connector))"

section \<open>The packed-RGB reader and its users\<close>

definition widen :: "bool \<Rightarrow> byte \<Rightarrow> u16" where
  "widen ten_bit v = (let v = ucast v :: u16 in if ten_bit then push_bit 2 v OR drop_bit 6 v else v)"

definition rgb_reader :: "bool \<Rightarrow> nat \<Rightarrow> bytes \<Rightarrow> nat \<Rightarrow> nat \<Rightarrow> u16 \<times> u16 \<times> u16" where
  "rgb_reader ten_bit width rgb x y =
    (let i = (y * width + x) * 3 in (widen ten_bit (rgb ! i), widen ten_bit (rgb ! (i + 1)), widen ten_bit (rgb ! (i + 2))))"

text \<open>The pixels \<open>colour_strip_blocks\<close> reads; an index past the buffer panics.\<close>

definition strip_pixels :: "Geometry \<Rightarrow> nat \<Rightarrow> nat \<Rightarrow> (nat \<times> nat) list" where
  "strip_pixels g ox oy = concat (map (\<lambda>k. let (bx, b_y) = block_origin g k in
    concat (map (\<lambda>r. map (\<lambda>c. (ox + bx * DIM + c, oy + b_y * DIM + r)) [0..<DIM]) [0..<DIM])) [0..<STRIP_BLOCKS])"

definition strip_readable :: "Geometry \<Rightarrow> nat \<Rightarrow> bytes \<Rightarrow> nat \<times> nat \<Rightarrow> bool" where
  "strip_readable g width rgb = (\<lambda>(sx, sy).
    list_all (\<lambda>(x, y). (y * width + x) * 3 + 2 < length rgb) (strip_pixels g sx sy))"

definition encode_strip :: "Dock \<Rightarrow> nat \<Rightarrow> bytes \<Rightarrow> nat \<Rightarrow> nat \<Rightarrow> bytes result" where
  "encode_strip dock width rgb sx sy =
    (if \<not> strip_readable (dock_geometry dock) width rgb (sx, sy) then Err Panic
     else colour_strip_at (dock_geometry dock) sx sy (rgb_reader (dock_ten_bit dock) width rgb))"

definition strip_coords :: "Dock \<Rightarrow> nat \<Rightarrow> nat \<Rightarrow> (nat \<times> nat \<times> nat \<times> nat) list option \<Rightarrow> (nat \<times> nat) list" where
  "strip_coords dock width height clips =
    (case clips of
       Some clips \<Rightarrow> damage_strip_coords (dock_geometry dock) width height clips
     | None \<Rightarrow> all_strip_coords (dock_geometry dock) width height)"

definition dock_frame_records :: "Dock \<Rightarrow> bytes list \<Rightarrow> byte \<Rightarrow> bytes list result" where
  "dock_frame_records dock strips head = frame_records (dock_geometry dock) strips head"

text \<open>The whole-surface encoder: its strips are encoded one by one, so the first unreadable one panics.\<close>

definition colour_frame_ep08_head :: "Dock \<Rightarrow> nat \<Rightarrow> nat \<Rightarrow> bytes \<Rightarrow> byte \<Rightarrow> bytes list result" where
  "colour_frame_ep08_head dock width height rgb head =
    (if aligned (dock_geometry dock) width height \<and>
        \<not> list_all (strip_readable (dock_geometry dock) width rgb) (all_strip_coords (dock_geometry dock) width height)
     then Err Panic
     else colour_frame_ep08 (dock_geometry dock) width height head (rgb_reader (dock_ten_bit dock) width rgb))"

definition dock_black_frame_ep08 :: "Dock \<Rightarrow> nat \<Rightarrow> nat \<Rightarrow> byte \<Rightarrow> bytes list result" where
  "dock_black_frame_ep08 dock width height head = black_frame_ep08 (dock_geometry dock) width height head"

definition colour_strip_from_planes :: "Dock \<Rightarrow> (int list \<times> int list \<times> int list) list \<Rightarrow> u16 \<Rightarrow> u16 \<Rightarrow> bytes result" where
  "colour_strip_from_planes dock planes x y =
    colour_strip (dock_geometry dock) (map (\<lambda>(p0, p1, p2). colour_block p0 p1 p2) planes) x y"

section \<open>Ring records\<close>

record FrameTrailer =
  ft_bytes :: bytes
  ft_len :: nat

definition FrameTrailer_none :: FrameTrailer where
  "FrameTrailer_none = \<lparr>ft_bytes = replicate 96 0, ft_len = 0\<rparr>"

definition FrameTrailer_one :: "bytes \<Rightarrow> FrameTrailer" where
  "FrameTrailer_one rec =
    (let len = min (length rec) 96 in \<lparr>ft_bytes = put 0 (take len rec) (replicate 96 0), ft_len = len\<rparr>)"

definition trailer_deref :: "FrameTrailer \<Rightarrow> bytes" where
  "trailer_deref t = take (ft_len t) (ft_bytes t)"

definition ring_phase :: "u32 \<Rightarrow> byte \<times> byte" where
  "ring_phase seq0 = (let phase = ucast (seq0 mod 3) * 2 in (phase, (phase + 2) mod 6))"

definition navarro_frame_opener :: "Geometry \<Rightarrow> byte \<Rightarrow> u32 \<Rightarrow> bytes" where
  "navarro_frame_opener g connector seq0 =
    (let phase = fst (ring_phase seq0);
         prev_phase = (phase + 4) mod 6;
         slot = navarro_pipe_slot connector (ucast phase);
         ring = (ucast (navarro_pipe_ring connector (ucast phase)) :: u16);
         prev_ring = (ucast (navarro_pipe_ring connector (ucast prev_phase)) :: u16);
         sub = ucast (connector_selector g connector);
         out = record_header (replicate 32 0) 4 sub 0x0004 0;
         out = put 16 [0x0a, 0x00, 0x04] out;
         out = out[19 := ucast slot];
         out = put 22 (le16 ring) out
     in put 26 (le16 prev_ring) out)"

definition ELLA_RING_SLOTS :: u32 where "ELLA_RING_SLOTS = 3"

definition ella_record_header :: "bytes \<Rightarrow> Geometry \<Rightarrow> byte \<Rightarrow> u16 \<Rightarrow> bytes" where
  "ella_record_header out g connector aux = record_header out 4 (ucast (connector_selector g connector)) aux 0"

definition ella_stream_open :: "Geometry \<Rightarrow> byte \<Rightarrow> bytes" where
  "ella_stream_open g connector =
    (let out = ella_record_header (replicate 48 0) g connector 0x0008;
         out = put 16 (le16 10) out;
         out = out[18 := 0x04, 27 := ucast (ELLA_RING_SLOTS - 1)];
         out = put 28 (le16 10) out
     in out[30 := 0x04])"

text \<open>\<open>seq0 + 1\<close> is the wrapping sum; with overflow checks on it panics at the last \<open>u32\<close> instead.\<close>

definition ella_frame_close :: "Geometry \<Rightarrow> byte \<Rightarrow> u32 \<Rightarrow> bytes" where
  "ella_frame_close g connector seq0 =
    (let cur = ucast (seq0 mod ELLA_RING_SLOTS);
         next_slot = ucast ((seq0 + 1) mod ELLA_RING_SLOTS);
         sq = (ucast (seq0 mod 256) :: byte);
         out = ella_record_header (replicate 48 0) g connector 0x000a;
         out = put 16 (le16 8) out;
         out = out[18 := 0x05, 19 := cur, 23 := cur, 24 := 0x01, 25 := sq + 1];
         out = put 26 (le16 10) out
     in out[28 := 0x04, 29 := next_slot, 33 := next_slot, 37 := cur])"

definition navarro_frame_trailer :: "Geometry \<Rightarrow> byte \<Rightarrow> u32 \<Rightarrow> FrameTrailer" where
  "navarro_frame_trailer g connector seq0 =
    (let phase = fst (ring_phase seq0);
         slot = navarro_pipe_slot connector (ucast phase);
         ring = (ucast (navarro_pipe_ring connector (ucast phase)) :: u16);
         sub = ucast (connector_selector g connector);
         out = replicate 96 0;
         out = put 0 (record_header (take 32 out) 4 sub 0x0006 0) out;
         out = put 16 [0x08, 0x00, 0x05] out;
         out = out[19 := ucast slot];
         out = put 22 (le16 ring) out;
         out = out[25 := ucast seq0 + 1]
     in \<lparr>ft_bytes = out, ft_len = 32\<rparr>)"

definition frame_trailer :: "Geometry \<Rightarrow> byte \<Rightarrow> u32 \<Rightarrow> FrameTrailer" where
  "frame_trailer g connector seq0 =
    (let (phase, next_phase) = ring_phase seq0;
         phase_off = phase * 4;
         next_off = next_phase * 4;
         frame_no = ucast seq0 + 1;
         out = replicate 96 0;
         h = connector_selector g connector;
         out = foldl (\<lambda>out (i, connector_byte). let o' = i * 32; aux = (if i = 0 then 0x0006 else 0x0004)
             in put o' (record_header (get o' 32 out) 4 (ucast connector_byte) aux 0) out)
           out (enumerate 0 [h, h, h OR 0x10]);
         out = out[16 := 0x08, 18 := 0x05, 19 := phase, 23 := phase_off, 25 := frame_no];
         out = foldl (\<lambda>out o'. out[o' + 16 := 0x0a, o' + 18 := 0x04, o' + 19 := next_phase, o' + 23 := next_off,
             o' + 27 := phase_off]) out [32, 64]
     in \<lparr>ft_bytes = out, ft_len = 96\<rparr>)"

text \<open>The dock-level choices of \<open>kernel_tree/api.rs\<close>.\<close>

definition dock_frame_trailer :: "Dock \<Rightarrow> byte \<Rightarrow> u32 \<Rightarrow> bytes" where
  "dock_frame_trailer dock head sq =
    (let geom = dock_geometry dock in
     trailer_deref
       (if video_on_ctrl_pipe (topology (dock_profile dock)) then FrameTrailer_one (ella_frame_close geom head sq)
        else if arm_burst (protocol (dock_profile dock)) then frame_trailer geom head sq
        else navarro_frame_trailer geom head sq))"

definition frame_opener :: "Dock \<Rightarrow> byte \<Rightarrow> u32 \<Rightarrow> bytes option" where
  "frame_opener dock head sq =
    (if arm_burst (protocol (dock_profile dock)) \<or> video_on_ctrl_pipe (topology (dock_profile dock)) then None
     else Some (navarro_frame_opener (dock_geometry dock) head sq))"

definition stream_ring_record :: "Dock \<Rightarrow> byte \<Rightarrow> bytes option" where
  "stream_ring_record dock head =
    (if video_on_ctrl_pipe (topology (dock_profile dock)) then Some (ella_stream_open (dock_geometry dock) head) else None)"

section \<open>The strip-size map\<close>

definition PARAM_BANDS_PER_TLV :: nat where "PARAM_BANDS_PER_TLV = 8"
definition PARAM_BAND_STRIDE :: nat where "PARAM_BAND_STRIDE = 32"
definition PARAM_TLVS_PER_RECORD :: nat where "PARAM_TLVS_PER_RECORD = 15"

definition strip_size_class :: "nat \<Rightarrow> byte" where
  "strip_size_class len = of_nat (len div 512)"

definition map_step :: "Geometry \<Rightarrow> nat \<Rightarrow> nat \<Rightarrow> bytes \<Rightarrow> nat \<times> nat \<times> nat \<Rightarrow> bytes" where
  "map_step g across bands values = (\<lambda>(x, y, len).
    let bx = x div strip_w g; b_y = y div strip_h g in
    if across \<le> bx \<or> bands \<le> b_y then values
    else values[b_y * PARAM_BAND_STRIDE + bx := strip_size_class len])"

fun map_tlvs :: "bytes \<Rightarrow> nat \<Rightarrow> nat \<Rightarrow> nat \<Rightarrow> bytes \<times> nat" where
  "map_tlvs values bands 0 bnd = ([], bnd)"
| "map_tlvs values bands (Suc n) bnd =
    (if bands \<le> bnd then ([], bnd)
     else let count = min PARAM_BANDS_PER_TLV (bands - bnd);
              payload = count * PARAM_BAND_STRIDE;
              tlv = le16 (of_nat (6 + payload)) @ le16 0x200f @ le16 (of_nat bnd) @ le16 (of_nat count) @
                get (bnd * PARAM_BAND_STRIDE) payload values;
              (rest, bnd) = map_tlvs values bands n (bnd + count)
          in (tlv @ rest, bnd))"

lemma map_tlvs_advance: "bnd < bands \<Longrightarrow> 0 < n \<Longrightarrow> bnd < snd (map_tlvs values bands n bnd)"
proof -
  have "bnd \<le> snd (map_tlvs values bands m bnd)" for m bnd
    by (induction m arbitrary: bnd) (auto simp: Let_def split_beta intro: le_trans [OF le_add1])
  then show "bnd < bands \<Longrightarrow> 0 < n \<Longrightarrow> bnd < snd (map_tlvs values bands n bnd)"
    by (cases n) (simp_all add: Let_def split_beta PARAM_BANDS_PER_TLV_def, rule less_le_trans [of _ "bnd + min 8 (bands - bnd)"], simp_all)
qed

function map_records :: "u16 \<Rightarrow> bytes \<Rightarrow> nat \<Rightarrow> nat \<Rightarrow> nat \<Rightarrow> bytes" where
  "map_records sub values bands rec_no bnd =
    (if bnd < bands then
       let take_tlvs = (if rec_no = 0 then PARAM_TLVS_PER_RECORD
             else (bands + (PARAM_BANDS_PER_TLV - 1)) div PARAM_BANDS_PER_TLV);
           (bd, bnd') = map_tlvs values bands take_tlvs bnd;
           bd = (if rec_no = 0 \<and> length bd < 3968 then bd @ replicate (3968 - length bd) 0 else bd);
           size = of_nat (length bd + 12);
           aux = (if rec_no = 0 then 0x0008 else 0x0000)
       in (le16 0 @ le16 size @ le32 4 @ le16 sub @ le16 aux @ le32 0 @ bd) @
          map_records sub values bands (rec_no + 1) bnd'
     else [])"
  by auto
termination
proof (relation "measure (\<lambda>(sub, values, bands, rec_no, bnd). bands - bnd)", simp, goal_cases)
  case (1 sub vs bands rec_no bnd n p bd bnd')
  then have "0 < n" by (auto simp: PARAM_TLVS_PER_RECORD_def PARAM_BANDS_PER_TLV_def div_greater_zero_iff)
  moreover have "bnd < bands" "snd (map_tlvs vs bands n bnd) = bnd'" using 1 by (simp, metis snd_conv)
  ultimately show ?case using map_tlvs_advance [of bnd bands n vs] by simp
qed

declare map_records.simps [simp del]

definition navarro_strip_params ::
    "Geometry \<Rightarrow> byte \<Rightarrow> nat \<Rightarrow> nat \<Rightarrow> bytes list \<Rightarrow> bytes \<Rightarrow> bytes \<times> bytes" where
  "navarro_strip_params g connector width height frames remembered =
    (let bands = (height + (strip_h g - 1)) div strip_h g;
         across = min ((width + (strip_w g - 1)) div strip_w g) PARAM_BAND_STRIDE;
         sub = ucast (connector_selector g connector);
         remembered = (if length remembered \<noteq> bands * PARAM_BAND_STRIDE then replicate (bands * PARAM_BAND_STRIDE) 0
                       else remembered);
         values = foldl (map_step g across bands) remembered (framed_strip_extents frames)
     in (map_records sub values bands 0 0, values))"

section \<open>Tiling lemmas\<close>

lemma strip_starts_set: "0 < step \<Longrightarrow> set (strip_starts step limit at) = {at + k * step | k. at + k * step < limit}"
proof (induction step limit at rule: strip_starts.induct)
  case (1 step limit at)
  show ?case
  proof (cases "at < limit")
    case True
    have "{at + k * step | k. at + k * step < limit} =
        insert at {at + step + k * step | k. at + step + k * step < limit}"
    proof (intro set_eqI iffI)
      fix x assume "x \<in> {at + k * step | k. at + k * step < limit}"
      then obtain k where "x = at + k * step" "x < limit" by blast
      then show "x \<in> insert at {at + step + k * step | k. at + step + k * step < limit}"
        by (cases k) (auto simp: add.assoc)
    next
      fix x assume "x \<in> insert at {at + step + k * step | k. at + step + k * step < limit}"
      then show "x \<in> {at + k * step | k. at + k * step < limit}"
      proof
        assume "x = at"
        then show ?thesis using True by (auto intro!: exI [of _ 0])
      next
        assume "x \<in> {at + step + k * step | k. at + step + k * step < limit}"
        then obtain k where "x = at + step + k * step" "x < limit" by blast
        then show ?thesis by (auto intro!: exI [of _ "Suc k"])
      qed
    qed
    then show ?thesis using 1 True by (simp add: strip_starts.simps [of step limit at])
  qed (simp add: strip_starts.simps)
qed

lemma strip_starts_iff: "0 < step \<Longrightarrow> s \<in> set (strip_starts step limit 0) \<longleftrightarrow> s < limit \<and> step dvd s"
  by (auto simp: strip_starts_set mult.commute)

lemma strip_starts_ge: "\<forall>s\<in>set (strip_starts step limit at). at \<le> s"
proof (induction step limit at rule: strip_starts.induct)
  case (1 step limit at)
  then show ?case by (subst strip_starts.simps) (auto dest!: bspec)
qed

lemma strip_starts_sorted: "sorted_wrt (<) (strip_starts step limit at)"
proof (induction step limit at rule: strip_starts.induct)
  case (1 step limit at)
  have "at < s" if "0 < step" "s \<in> set (strip_starts step limit (at + step))" for s
    using strip_starts_ge [of step limit "at + step"] that by fastforce
  then show ?case using 1 by (subst strip_starts.simps) simp
qed

lemma strip_dims_pos [simp]: "0 < strip_w g" "0 < strip_h g" "0 < macro_w g" "0 < macro_h g"
  by (simp_all add: strip_w_def strip_h_def macro_w_def macro_h_def)

lemma all_strip_coords_iff:
  "(sx, sy) \<in> set (all_strip_coords g w h) \<longleftrightarrow> sx < w \<and> sy < h \<and> strip_w g dvd sx \<and> strip_h g dvd sy"
  by (auto simp: all_strip_coords_def strip_starts_iff image_iff)

text \<open>Raster order: by row, then by column.\<close>

definition raster_less :: "nat \<times> nat \<Rightarrow> nat \<times> nat \<Rightarrow> bool" where
  "raster_less = (\<lambda>(x, y) (x', y'). y < y' \<or> y = y' \<and> x < x')"

lemma raster_concat:
  assumes "sorted_wrt (<) ys" "sorted_wrt (<) xs"
  shows "sorted_wrt raster_less (concat (map (\<lambda>y. map (\<lambda>x. (x, y)) xs) ys))"
  using assms(1)
proof (induction ys)
  case (Cons y ys)
  then show ?case using assms(2) by (auto simp: sorted_wrt_append sorted_wrt_map raster_less_def)
qed simp

lemma all_strip_coords_raster: "sorted_wrt raster_less (all_strip_coords g w h)"
  unfolding all_strip_coords_def by (intro raster_concat strip_starts_sorted)

lemma raster_distinct: "sorted_wrt raster_less cs \<Longrightarrow> distinct cs"
  by (induction cs) (auto simp: raster_less_def)

lemma damage_filter:
  "damage_strip_coords g w h clips = filter (\<lambda>(sx, sy). tile_hit g sx sy clips) (all_strip_coords g w h)"
proof -
  have row: "concat (map (\<lambda>sx. if tile_hit g sx sy clips then [(sx, sy)] else []) xs) =
      filter (\<lambda>(sx, sy). tile_hit g sx sy clips) (map (\<lambda>sx. (sx, sy)) xs)" for sy xs
    by (induction xs) auto
  show ?thesis unfolding damage_strip_coords_def all_strip_coords_def row by (simp add: filter_concat comp_def)
qed

lemma macro_cover:
  fixes x :: nat
  assumes "0 < s" "k = 4 * s"
  shows "(x div s * s) div k * k = x div k * k" "x div k * k \<le> x" "x < x div k * k + k"
proof -
  have "x div s * s div k = x div s div 4" using assms by (simp add: div_mult2_eq mult.commute)
  also have "\<dots> = x div k" using assms by (simp add: div_mult2_eq mult.commute flip: div_mult2_eq)
  finally show "(x div s * s) div k * k = x div k * k" by simp
  show "x div k * k \<le> x" by simp
  show "x < x div k * k + k" using assms mod_less_divisor [of k x] div_mult_mod_eq [of x k] by linarith
qed

lemma damage_selects:
  assumes "(x0, y0, x1, y1) \<in> set clips" "x0 \<le> x" "x < x1" "y0 \<le> y" "y < y1" "x < w" "y < h"
  shows "(x div strip_w g * strip_w g, y div strip_h g * strip_h g) \<in> set (damage_strip_coords g w h clips)"
proof -
  note mx = macro_cover [OF strip_dims_pos(1) [of g] macro_w_def [of g], of x]
    and my = macro_cover [OF strip_dims_pos(2) [of g] macro_h_def [of g], of y]
  have "tile_hit g (x div strip_w g * strip_w g) (y div strip_h g * strip_h g) clips"
    unfolding tile_hit_def Let_def list_ex_iff mx(1) my(1)
    by (rule bexI [OF _ assms(1)], unfold prod.case, intro conjI) (use assms mx(2,3) my(2,3) in linarith)+
  moreover have "z div s * s < n" if "z < n" for z s n :: nat
    using that le_less_trans [OF div_times_less_eq_dividend] by blast
  ultimately show ?thesis using assms(6,7) by (simp add: damage_filter all_strip_coords_iff)
qed

section \<open>Every pixel buffer encodes\<close>

lemma widen_range: "uint (widen ten v) \<le> sample_max (if ten then Ten else Eight)"
proof (cases ten)
  case True
  have "n < 10" if "bit v (n - 2)" for n using bit_imp_le_length [OF that] by simp
  moreover have "n < 10" if "bit v (6 + n)" for n using bit_imp_le_length [OF that] by simp
  ultimately have "take_bit 10 (widen True v) = widen True v"
    unfolding widen_def Let_def by (intro bit_word_eqI) (auto simp: bit_simps)
  then have "uint (widen True v) = take_bit 10 (uint (widen True v))" by (metis unsigned_take_bit_eq)
  also have "\<dots> < 1024" by (simp add: take_bit_eq_mod)
  finally show ?thesis using True by simp
next
  case False
  have "uint (ucast v :: u16) = uint v" by (simp add: unsigned_ucast_eq take_bit_int_eq_self_iff uint_lt2p [THEN less_trans])
  then show ?thesis using False uint_lt2p [of v] by (simp add: widen_def)
qed

lemma depth_dock_geometry: "depth (dock_geometry dock) = (if dock_ten_bit dock then Ten else Eight)"
  by (simp add: dock_geometry_def Let_def with_depth_def geometry_opening_def)

lemma rgb_source_ok: "source_ok (depth (dock_geometry dock)) (rgb_reader (dock_ten_bit dock) width rgb)"
  using widen_range by (simp add: source_ok_def rgb_reader_def Let_def depth_dock_geometry)

lemma dock_strip_shifts:
  "(strip_w_shift (dock_geometry dock), strip_h_shift (dock_geometry dock)) \<in> {(7, 3), (6, 4)}"
  by (simp add: dock_geometry_def geometry_def Let_def with_depth_def geometry_opening_def with_steady_sub_bit_def
      with_coding_def Geometry_new_def)

lemma strip_pixels_inside:
  assumes "(strip_w_shift g, strip_h_shift g) \<in> {(7, 3), (6, 4)}" "(x, y) \<in> set (strip_pixels g sx sy)"
  shows "x < sx + strip_w g \<and> y < sy + strip_h g"
proof -
  obtain k r c where k: "k < 16" "r < 8" "c < 8"
    "x = sx + fst (block_origin g k) * 8 + c" "y = sy + snd (block_origin g k) * 8 + r"
    using assms(2) by (auto simp: strip_pixels_def STRIP_BLOCKS_def DIM_def split_beta)
  have "fst (block_origin g k) * 8 + 8 \<le> strip_w g \<and> snd (block_origin g k) * 8 + 8 \<le> strip_h g"
    using assms(1)
  proof (elim insertE)
    assume "(strip_w_shift g, strip_h_shift g) = (7, 3)"
    then show ?thesis using k(1) by (simp add: block_origin_def DIM_SHIFT_def strip_w_def strip_h_def)
  next
    assume "(strip_w_shift g, strip_h_shift g) = (6, 4)"
    moreover have "k mod 8 \<le> 7" "k div 8 \<le> 1" using k(1) by (simp_all add: less_mult_imp_div_less flip: less_Suc_eq_le)
    ultimately show ?thesis by (simp add: block_origin_def DIM_SHIFT_def strip_w_def strip_h_def)
  qed simp
  then show ?thesis using k by linarith
qed

lemma aligned_step: "a dvd n \<Longrightarrow> a dvd m \<Longrightarrow> m < n \<Longrightarrow> m + a \<le> (n :: nat)"
  by (metis add.commute dvd_imp_le dvd_minus_self le_diff_conv2 less_imp_le zero_less_diff dvd_diff_nat)

lemma strip_inside_readable:
  assumes "aligned (dock_geometry dock) w h" "w * h * 3 \<le> length rgb" "(sx, sy) \<in> set (all_strip_coords (dock_geometry dock) w h)"
  shows "strip_readable (dock_geometry dock) w rgb (sx, sy)"
  unfolding strip_readable_def prod.case list_all_iff
proof (clarify)
  let ?g = "dock_geometry dock"
  fix x y assume "(x, y) \<in> set (strip_pixels ?g sx sy)"
  then have "x < sx + strip_w ?g" "y < sy + strip_h ?g"
    using strip_pixels_inside [OF dock_strip_shifts] by blast+
  moreover have "sx + strip_w ?g \<le> w" "sy + strip_h ?g \<le> h"
    using assms(1,3) by (auto simp: all_strip_coords_iff aligned_def intro!: aligned_step)
  ultimately have xy: "x + 1 \<le> w" "y + 1 \<le> h" by linarith+
  have "y * w + x + 1 \<le> y * w + w" using xy(1) by simp
  also have "\<dots> = (y + 1) * w" by simp
  also have "\<dots> \<le> h * w" using xy(2) by (intro mult_right_mono) simp_all
  finally show "(y * w + x) * 3 + 2 < length rgb" using assms(2) by (simp add: mult.commute)
qed

lemma colour_strip_at_ok:
  assumes "source_ok (depth g) px"
  shows "\<exists>s. colour_strip_at g sx sy px = Ok s \<and> strip_decode g s = Some (of_nat sx, of_nat sy, colour_strip_blocks g sx sy px)"
  unfolding colour_strip_at_def
  using colour_strip_blocks_ok [OF assms, of g sx sy] by (intro strip_decode_strip) auto

lemma colour_strip_strip_ok:
  assumes "colour_strip g blocks x y = Ok s"
  shows "strip_ok s" "strip_x s = x" "strip_y s = y"
proof -
  have "8 \<le> length blocks" using assms by (auto simp: colour_strip_def STRIP_ROW_BLOCKS_def split: if_splits)
  then obtain a b rest where "s = strip_header a b x y @ rest" using colour_strip_layout [of blocks g x y] assms by auto
  then show "strip_ok s" "strip_x s = x" "strip_y s = y"
    by (simp_all add: strip_ok_def strip_x_def strip_y_def nth_append) (simp_all add: strip_header_def)
qed

lemma damage_subset: "set (strip_coords dock w h clips) \<subseteq> set (all_strip_coords (dock_geometry dock) w h)"
  by (cases clips) (auto simp: strip_coords_def damage_filter)

section \<open>Frames\<close>

lemma extents_coords:
  assumes "list_all2 (\<lambda>(sx, sy) s. \<exists>blocks. colour_strip g blocks (of_nat sx) (of_nat sy) = Ok s) coords strips"
    "\<forall>(sx, sy)\<in>set coords. sx < 65536 \<and> sy < 65536"
  shows "\<forall>s\<in>set strips. strip_ok s" "map (\<lambda>s. case extent s of (x, y, len) \<Rightarrow> (x, y)) strips = coords"
proof -
  have "(\<forall>s\<in>set strips. strip_ok s) \<and> map (\<lambda>s. case extent s of (x, y, len) \<Rightarrow> (x, y)) strips = coords"
    using assms
  proof (induction rule: list_all2_induct)
    case (Cons c cs s ss)
    then show ?case
      using colour_strip_strip_ok by (cases c) (fastforce simp: extent_def)
  qed simp
  then show "\<forall>s\<in>set strips. strip_ok s" "map (\<lambda>s. case extent s of (x, y, len) \<Rightarrow> (x, y)) strips = coords"
    by blast+
qed

lemma framed_extents_mset:
  assumes "frame_records_with_boundary g strips connector ordinary = Ok frames" "\<forall>s\<in>set strips. strip_ok s"
  shows "mset (framed_strip_extents frames) = mset (map extent strips)"
proof -
  have "framed_strip_extents frames = map (\<lambda>k. extent (strips ! k)) (strip_order g strips ordinary)"
    using framed_extents [OF assms] .
  also have "mset \<dots> = image_mset (\<lambda>k. extent (strips ! k)) (mset [0..<length strips])"
    by (simp only: mset_map strip_order_mset)
  also have "\<dots> = mset (map (\<lambda>k. extent (strips ! k)) [0..<length strips])" by (simp only: mset_map)
  also have "map (\<lambda>k. extent (strips ! k)) [0..<length strips] = map extent strips"
    by (rule nth_equalityI) simp_all
  finally show ?thesis .
qed

lemma coloured_frame_coords:
  assumes "traverse (\<lambda>(sx, sy). colour_strip g (f sx sy) (of_nat sx) (of_nat sy)) coords = Ok strips"
    "frame_records_with_boundary g strips connector ordinary = Ok frames"
    "\<forall>(sx, sy)\<in>set coords. sx < 65536 \<and> sy < 65536"
  shows "mset (map (\<lambda>(x, y, len). (x, y)) (framed_strip_extents frames)) = mset coords"
proof -
  have l2: "list_all2 (\<lambda>(sx, sy) s. \<exists>blocks. colour_strip g blocks (of_nat sx) (of_nat sy) = Ok s) coords strips"
    using assms(1) unfolding traverse_Ok_iff by (rule list_all2_mono) auto
  have "mset (map (\<lambda>(x, y, len). (x, y)) (framed_strip_extents frames)) =
      image_mset (\<lambda>(x, y, len). (x, y)) (mset (map extent strips))"
    using framed_extents_mset [OF assms(2) extents_coords(1) [OF l2 assms(3)]] by (simp only: mset_map)
  also have "\<dots> = mset (map (\<lambda>s. case extent s of (x, y, len) \<Rightarrow> (x, y)) strips)" by (simp add: image_mset.compositionality comp_def)
  finally show ?thesis using extents_coords(2) [OF l2 assms(3)] by simp
qed

lemma colour_strips_total:
  assumes "source_ok (depth g) px"
  shows "\<exists>strips. traverse (\<lambda>(sx, sy). colour_strip g (colour_strip_blocks g sx sy px) (of_nat sx) (of_nat sy)) coords = Ok strips"
proof (rule traverse_total)
  fix c :: "nat \<times> nat"
  obtain sx sy where "c = (sx, sy)" by (cases c)
  then show "\<exists>s. (case c of (sx, sy) \<Rightarrow> colour_strip g (colour_strip_blocks g sx sy px) (of_nat sx) (of_nat sy)) = Ok s"
    using colour_strip_at_ok [OF assms, of sx sy] by (auto simp: colour_strip_at_def)
qed

text \<open>A black strip is short: it has no AC bits.\<close>

lemma black_block_ok: "block_ok d black_block"
  by (cases d) (auto simp: block_ok_def plane_ok_def black_block_def COEFFS_def)

lemma black_strip: "\<exists>s. colour_strip g (replicate STRIP_BLOCKS black_block) x y = Ok s \<and> length s \<le> 4062"
proof -
  let ?blocks = "replicate 16 black_block"
  have ok: "\<forall>b\<in>set ?blocks. block_ok (depth g) b" using black_block_ok by simp
  have "length (finish (strip_row g (replicate 8 black_block))) = 0"
    using length_finish [OF strip_row_bits(1) [of g "replicate 8 black_block"]]
    by (simp add: strip_row_bits(2) block_bits_def black_block_def plane_bits_def)
  then have "colour_strip g ?blocks x y = Ok (strip_header (18 + round_even (length (finish (strip_main g ?blocks))))
      (18 + round_even (length (finish (strip_main g ?blocks)))) x y @
      region (round_even (length (finish (strip_main g ?blocks))) + 2) (finish (strip_main g ?blocks)))"
    using colour_strip_layout [of ?blocks g x y] by (simp add: round_even_def region_def)
  moreover have "length (finish (strip_main g ?blocks)) \<le> 228" using ok by (intro strip_main_size) simp
  ultimately show ?thesis
    using round_even_ge [of "length (finish (strip_main g ?blocks))"] by (simp add: STRIP_BLOCKS_def)
qed

section \<open>Ring rotation\<close>

lemma of_nat_unat_conv: "(of_nat (unat (w :: u32)) :: byte) = ucast w"
  by simp

lemma mod3_step:
  assumes "(sq :: u32) + 1 \<noteq> 0"
  shows "(sq mod 3, (sq + 1) mod 3) \<in> {(0, 1), (1, 2), (2, 0)}"
proof -
  have n: "unat (sq + 1) = unat sq + 1" using unatSuc [of sq] assms by (simp add: add.commute)
  have "unat (sq mod 3) = unat sq mod 3" "unat ((sq + 1) mod 3) = (unat sq + 1) mod 3" by (simp_all add: unat_mod n)
  moreover have "unat sq mod 3 = 0 \<and> (unat sq + 1) mod 3 = 1 \<or> unat sq mod 3 = 1 \<and> (unat sq + 1) mod 3 = 2 \<or>
      unat sq mod 3 = 2 \<and> (unat sq + 1) mod 3 = 0" by presburger
  ultimately show ?thesis by (auto simp: word_unat_eq_iff)
qed

lemma ring_phase_step:
  assumes "sq + 1 \<noteq> 0"
  shows "fst (ring_phase (sq + 1)) = snd (ring_phase sq)" "(fst (ring_phase (sq + 1)) + 4) mod 6 = fst (ring_phase sq)"
proof -
  define a b where "a = sq mod 3" and "b = (sq + 1) mod 3"
  have ab: "(a, b) \<in> {(0, 1), (1, 2), (2, 0)}" using mod3_step [OF assms] by (simp only: a_def b_def)
  have "ring_phase sq = (ucast a * 2, (ucast a * 2 + 2) mod 6)" "ring_phase (sq + 1) = (ucast b * 2, (ucast b * 2 + 2) mod 6)"
    by (simp_all only: ring_phase_def Let_def a_def b_def)
  then show "fst (ring_phase (sq + 1)) = snd (ring_phase sq)" "(fst (ring_phase (sq + 1)) + 4) mod 6 = fst (ring_phase sq)"
    using ab by auto
qed

lemma record_header_32:
  "record_header (replicate 32 0) k sub aux sq = header_bytes 32 k sub aux sq @ replicate 16 0"
  using record_header_bytes [of "replicate 32 0" k sub aux sq] by simp

lemma navarro_opener_fields:
  "navarro_frame_opener g c sq ! 19 = ucast (navarro_pipe_slot c (ucast (fst (ring_phase sq))))"
  "rd16 22 (navarro_frame_opener g c sq) = ucast (navarro_pipe_ring c (ucast (fst (ring_phase sq))))"
  "rd16 26 (navarro_frame_opener g c sq) = ucast (navarro_pipe_ring c (ucast ((fst (ring_phase sq) + 4) mod 6)))"
  by (simp_all add: navarro_frame_opener_def Let_def)

lemma navarro_trailer_fields:
  "trailer_deref (navarro_frame_trailer g c sq) ! 19 = ucast (navarro_pipe_slot c (ucast (fst (ring_phase sq))))"
  "rd16 22 (trailer_deref (navarro_frame_trailer g c sq)) = ucast (navarro_pipe_ring c (ucast (fst (ring_phase sq))))"
  "trailer_deref (navarro_frame_trailer g c sq) ! 25 = ucast sq + 1"
  by (simp_all add: navarro_frame_trailer_def Let_def trailer_deref_def rd16_def nth_put) (simp_all add: le16_def)

lemma ridge_trailer_fields:
  fixes g c sq
  defines "t \<equiv> trailer_deref (frame_trailer g c sq)"
  shows "t ! 19 = fst (ring_phase sq)" "t ! 23 = fst (ring_phase sq) * 4" "t ! 25 = ucast sq + 1"
    "t ! 51 = snd (ring_phase sq)" "t ! 55 = snd (ring_phase sq) * 4" "t ! 59 = fst (ring_phase sq) * 4"
    "t ! 83 = snd (ring_phase sq)" "t ! 87 = snd (ring_phase sq) * 4" "t ! 91 = fst (ring_phase sq) * 4"
  by (simp_all add: t_def frame_trailer_def Let_def trailer_deref_def split_beta nth_list_update)

lemma ella_close_fields:
  "ella_frame_close g c sq ! 19 = ucast (sq mod 3)" "ella_frame_close g c sq ! 37 = ucast (sq mod 3)"
  "ella_frame_close g c sq ! 29 = ucast ((sq + 1) mod 3)" "ella_frame_close g c sq ! 25 = ucast (sq mod 256) + 1"
  by (simp_all add: ella_frame_close_def Let_def ella_record_header_def ELLA_RING_SLOTS_def)

section \<open>The strip-size map, read back\<close>

function read_tlvs :: "bytes \<Rightarrow> (nat \<times> nat \<times> bytes) list" where
  "read_tlvs b =
    (if length b < 8 \<or> rd16 0 b < 6 then []
     else let n = unat (rd16 0 b) - 6
          in (unat (rd16 4 b), unat (rd16 6 b), get 8 n b) # read_tlvs (drop (8 + n) b))"
  by auto
termination
  by (relation "measure length") auto

declare read_tlvs.simps [simp del]

function read_map :: "bytes \<Rightarrow> bytes" where
  "read_map b =
    (case frame_decode b of
       None \<Rightarrow> []
     | Some f \<Rightarrow> concat (map (\<lambda>(at, count, v). v) (read_tlvs (body f))) @ read_map (drop (16 + length (body f)) b))"
  by auto
termination
proof (relation "measure length", simp)
  fix b f assume "frame_decode b = Some f"
  from frame_decode_SomeD(1) [OF this] have "16 \<le> length b" by simp
  then show "(drop (16 + length (body f)) b, b) \<in> measure length" by simp
qed

declare read_map.simps [simp del]

lemma map_tlvs_bound: "bnd \<le> bands \<Longrightarrow> snd (map_tlvs vs bands n bnd) = min bands (bnd + n * 8)"
  by (induction n arbitrary: bnd) (auto simp: Let_def split_beta PARAM_BANDS_PER_TLV_def min_def)

lemma read_tlvs_pad: "read_tlvs (replicate n 0) = []"
  by (subst read_tlvs.simps) (cases "n < 8"; simp add: rd16_def from_le16_def)

lemma read_map_tlvs:
  assumes "bands * 32 \<le> length vs" "bands < 65536" "bnd \<le> bands"
  shows "concat (map (\<lambda>(at, count, v). v) (read_tlvs (fst (map_tlvs vs bands n bnd) @ replicate pad 0))) =
    get (bnd * 32) ((snd (map_tlvs vs bands n bnd) - bnd) * 32) vs"
  using assms(3)
proof (induction n arbitrary: bnd)
  case (Suc n)
  show ?case
  proof (cases "bands \<le> bnd")
    case False
    define count where "count = min 8 (bands - bnd)"
    define payload where "payload = get (bnd * 32) (count * 32) vs"
    define rest where "rest = fst (map_tlvs vs bands n (bnd + count)) @ replicate pad 0"
    have c: "0 < count" "count \<le> 8" "bnd + count \<le> bands" using False by (auto simp: count_def)
    have len: "length payload = count * 32" using c(3) assms(1) by (simp add: payload_def)
    define hd4 where "hd4 = le16 (of_nat (6 + count * 32)) @ le16 0x200f @ le16 (of_nat bnd) @ le16 (of_nat count)"
    have tl: "fst (map_tlvs vs bands (Suc n) bnd) @ replicate pad 0 = hd4 @ payload @ rest"
      "snd (map_tlvs vs bands (Suc n) bnd) = snd (map_tlvs vs bands n (bnd + count))"
      using False by (simp_all add: Let_def split_beta hd4_def payload_def rest_def count_def PARAM_BANDS_PER_TLV_def PARAM_BAND_STRIDE_def)
    have "unat (of_nat (6 + count * 32) :: u16) = 6 + count * 32" using c(2) by (intro unat_size_field) simp
    then have field: "unat (rd16 0 (hd4 @ payload @ rest)) = 6 + count * 32" "length hd4 = 8" by (simp_all add: hd4_def)
    then have step: "read_tlvs (hd4 @ payload @ rest) =
        (unat (rd16 4 (hd4 @ payload @ rest)), unat (rd16 6 (hd4 @ payload @ rest)), payload) # read_tlvs rest"
      using len by (subst read_tlvs.simps) (simp add: word_less_nat_alt Let_def)
    have "get (bnd * 32) ((snd (map_tlvs vs bands n (bnd + count)) - bnd) * 32) vs =
        payload @ get ((bnd + count) * 32) ((snd (map_tlvs vs bands n (bnd + count)) - (bnd + count)) * 32) vs"
    proof -
      have "(snd (map_tlvs vs bands n (bnd + count)) - bnd) * 32 =
          count * 32 + (snd (map_tlvs vs bands n (bnd + count)) - (bnd + count)) * 32"
        using map_tlvs_bound [OF c(3), of vs n] c(3) by (simp add: min_def flip: add_mult_distrib)
      then show ?thesis by (simp add: get_split payload_def algebra_simps)
    qed
    then show ?thesis using Suc.IH [OF c(3)] unfolding tl step by (simp add: rest_def)
  qed (use Suc.prems in \<open>simp add: read_tlvs_pad get_def\<close>)
qed (simp add: read_tlvs_pad get_def)

lemma length_map_tlvs:
  "bands * 32 \<le> length vs \<Longrightarrow> bnd \<le> bands \<Longrightarrow>
    length (fst (map_tlvs vs bands n bnd)) \<le> 8 * n + 32 * (bands - bnd) \<and>
    length (fst (map_tlvs vs bands n bnd)) \<le> 264 * n"
proof (induction n arbitrary: bnd)
  case (Suc n)
  define count where "count = min 8 (bands - bnd)"
  have c: "count \<le> 8" "bnd + count \<le> bands" using Suc.prems(2) by (auto simp: count_def)
  have "length (get (bnd * 32) (count * 32) vs) = count * 32" using c Suc.prems(1) by simp
  moreover have "bands - bnd = (bands - (bnd + count)) + count" using c(2) by simp
  then have "32 * (bands - bnd) = 32 * (bands - (bnd + count)) + count * 32" by simp
  ultimately show ?case
    using Suc.IH [OF Suc.prems(1) c(2)] c
    by (simp add: Let_def split_beta PARAM_BANDS_PER_TLV_def PARAM_BAND_STRIDE_def flip: count_def)
qed simp

text \<open>One record of the map: parsed back, it yields its bands and the next record follows.\<close>

lemma read_map_record:
  assumes "bands * 32 \<le> length vs" "bands < 65536" "bnd < bands" "length bd + 12 < 65536"
    and bd: "bd = fst (map_tlvs vs bands n bnd) @ replicate pad 0"
  shows "read_map ((le16 0 @ le16 (of_nat (length bd + 12)) @ le32 4 @ le16 sub @ le16 aux @ le32 0 @ bd) @ rest) =
    get (bnd * 32) ((snd (map_tlvs vs bands n bnd) - bnd) * 32) vs @ read_map rest"
proof -
  have "le16 0 = [0, 0 :: byte]" by (simp add: le16_def)
  then have eq: "(le16 0 @ le16 (of_nat (length bd + 12)) @ le32 4 @ le16 sub @ le16 aux @ le32 0 @ bd) @ rest =
      header_bytes (16 + length bd) 4 sub aux 0 @ bd @ rest"
    by (simp add: header_bytes_def add.commute)
  have "concat (map (\<lambda>(at, count, v). v) (read_tlvs bd)) = get (bnd * 32) ((snd (map_tlvs vs bands n bnd) - bnd) * 32) vs"
    unfolding bd using read_map_tlvs [OF assms(1,2) less_imp_le [OF assms(3)]] .
  then show ?thesis
    unfolding eq using frame_decode_header [OF assms(4), of 4 sub aux 0 rest]
    by (subst read_map.simps) simp
qed

lemma read_map_nil [simp]: "read_map [] = []"
  by (subst read_map.simps) (simp add: frame_decode_def)

lemma read_map_tail:
  assumes "bands * 32 = length vs" "bands \<le> 1900" "rec_no \<noteq> 0" "bnd \<le> bands"
  shows "read_map (map_records sub vs bands rec_no bnd) = drop (bnd * 32) vs"
proof (cases "bnd < bands")
  case True
  define n where "n = (bands + 7) div 8"
  have n: "bands \<le> 8 * n" "8 * n \<le> bands + 7" using div_ceil_bounds [of 8 bands] by (simp_all add: n_def)
  have all: "snd (map_tlvs vs bands n bnd) = bands"
    using map_tlvs_bound [OF assms(4), of vs n] n by (simp add: min_def)
  have "length (fst (map_tlvs vs bands n bnd)) + 12 < 65536"
    using length_map_tlvs [of bands vs bnd n] assms n by linarith
  then show ?thesis
    using read_map_record [where vs = vs and bands = bands and bnd = bnd and n = n and pad = 0
        and bd = "fst (map_tlvs vs bands n bnd)" and rest = "[]" and sub = sub and aux = 0]
      assms True map_records.simps [of sub vs bands "rec_no + 1" bands]
    by (subst map_records.simps)
      (simp add: Let_def split_beta PARAM_BANDS_PER_TLV_def all get_def flip: n_def diff_mult_distrib)
qed (use assms in \<open>simp add: map_records.simps\<close>)

lemma read_map_records:
  assumes "bands * 32 = length vs" "bands \<le> 1900"
  shows "read_map (map_records sub vs bands 0 0) = vs"
proof (cases "bands = 0")
  case False
  define bd where "bd = fst (map_tlvs vs bands 15 0)"
  define pad where "pad = 3968 - length bd"
  have bd: "length bd \<le> 3960" using length_map_tlvs [of bands vs 0 15] assms by (simp add: bd_def)
  have b: "snd (map_tlvs vs bands 15 0) = min bands 120" using map_tlvs_bound [of 0 bands vs 15] by simp
  have rec: "map_records sub vs bands 0 0 =
      (le16 0 @ le16 (of_nat (length (bd @ replicate pad 0) + 12)) @ le32 4 @ le16 sub @ le16 8 @ le32 0 @ (bd @ replicate pad 0)) @
        map_records sub vs bands 1 (min bands 120)"
    using False bd b
    by (subst map_records.simps) (simp add: Let_def split_beta PARAM_TLVS_PER_RECORD_def pad_def flip: bd_def)
  have "read_map (map_records sub vs bands 0 0) = get 0 (min bands 120 * 32) vs @ drop (min bands 120 * 32) vs"
    unfolding rec
    using read_map_record [where vs = vs and bands = bands and bnd = 0 and n = 15 and pad = pad
        and bd = "bd @ replicate pad 0" and rest = "map_records sub vs bands 1 (min bands 120)" and sub = sub and aux = 8]
      read_map_tail [of bands vs 1 "min bands 120" sub] assms False bd b
    by (simp add: pad_def bd_def)
  then show ?thesis by (simp add: get_def)
qed (use assms in \<open>simp add: map_records.simps\<close>)

text \<open>The map after a frame: the strips it carries, over what was remembered.\<close>

definition map_cell :: "Geometry \<Rightarrow> nat \<times> nat \<times> nat \<Rightarrow> nat" where
  "map_cell g = (\<lambda>(x, y, len). y div strip_h g * 32 + x div strip_w g)"

definition in_map :: "Geometry \<Rightarrow> nat \<Rightarrow> nat \<Rightarrow> nat \<times> nat \<times> nat \<Rightarrow> bool" where
  "in_map g across bands = (\<lambda>(x, y, len). x div strip_w g < across \<and> y div strip_h g < bands)"

lemma map_step_cell:
  "map_step g across bands vs e = (if in_map g across bands e then vs[map_cell g e := strip_size_class (snd (snd e))] else vs)"
  by (cases e) (simp add: map_step_def in_map_def map_cell_def PARAM_BAND_STRIDE_def Let_def not_le [symmetric])

lemma map_cell_lt: "in_map g across bands e \<Longrightarrow> across \<le> 32 \<Longrightarrow> map_cell g e < bands * 32"
proof -
  assume "in_map g across bands e" "across \<le> 32"
  then have "snd (snd e) = snd (snd e)" "fst e div strip_w g < 32" "fst (snd e) div strip_h g + 1 \<le> bands"
    by (cases e; simp add: in_map_def)+
  then have "(fst (snd e) div strip_h g + 1) * 32 \<le> bands * 32" by (intro mult_right_mono) simp_all
  then show ?thesis using \<open>fst e div strip_w g < 32\<close> by (cases e) (simp add: map_cell_def)
qed

lemma map_fold:
  assumes "across \<le> 32" "length vs = bands * 32" "distinct (map (map_cell g) (filter (in_map g across bands) es))"
  shows "length (foldl (map_step g across bands) vs es) = bands * 32"
    "e \<in> set es \<Longrightarrow> in_map g across bands e \<Longrightarrow>
      foldl (map_step g across bands) vs es ! map_cell g e = strip_size_class (snd (snd e))"
    "i \<notin> map_cell g ` set (filter (in_map g across bands) es) \<Longrightarrow> foldl (map_step g across bands) vs es ! i = vs ! i"
proof -
  have "length (foldl (map_step g across bands) vs es) = bands * 32 \<and>
    (\<forall>e\<in>set es. in_map g across bands e \<longrightarrow>
      foldl (map_step g across bands) vs es ! map_cell g e = strip_size_class (snd (snd e))) \<and>
    (\<forall>i. i \<notin> map_cell g ` set (filter (in_map g across bands) es) \<longrightarrow> foldl (map_step g across bands) vs es ! i = vs ! i)"
    using assms(2,3)
  proof (induction es arbitrary: vs)
    case (Cons e es)
    have len: "length (map_step g across bands vs e) = bands * 32" using Cons.prems(1) by (simp add: map_step_cell)
    have dist: "distinct (map (map_cell g) (filter (in_map g across bands) es))"
      using Cons.prems(2) by (simp split: if_splits)
    note IH = Cons.IH [OF len dist]
    show ?case
    proof (cases "in_map g across bands e")
      case True
      then have "map_cell g e \<notin> map_cell g ` set (filter (in_map g across bands) es)" using Cons.prems(2) by simp
      then have "foldl (map_step g across bands) vs (e # es) ! map_cell g e = strip_size_class (snd (snd e))"
        using IH map_cell_lt [OF True assms(1)] Cons.prems(1) True by (simp add: map_step_cell [of g across bands vs e])
      then show ?thesis using IH True by (auto simp: map_step_cell [of g across bands vs e])
    next
      case False
      then show ?thesis using IH by (auto simp: map_step_cell [of g across bands vs e])
    qed
  qed simp
  then show "length (foldl (map_step g across bands) vs es) = bands * 32"
    "e \<in> set es \<Longrightarrow> in_map g across bands e \<Longrightarrow>
      foldl (map_step g across bands) vs es ! map_cell g e = strip_size_class (snd (snd e))"
    "i \<notin> map_cell g ` set (filter (in_map g across bands) es) \<Longrightarrow> foldl (map_step g across bands) vs es ! i = vs ! i"
    by blast+
qed

section \<open>Properties\<close>

text \<open>
  Each frame hands over to the next. On a Ridge dock the slot a frame's trailer announces is the slot the
  next frame's trailer closes, with the next frame number; on the DL7400 a frame's opener names the ring address
  its predecessor closed and the slot it closes itself; on the DL-3x00 the next slot a close names is the slot the
  next close fills. The one exception is the wrap of the 32-bit sequence number.
\<close>

lemma ring_handover:
  assumes "sq + 1 \<noteq> 0"
  shows "(let t = trailer_deref (frame_trailer g c sq); t' = trailer_deref (frame_trailer g c (sq + 1)) in
      t ! 51 = t' ! 19 \<and> t ! 55 = t' ! 23 \<and> t ! 83 = t' ! 19 \<and> t ! 87 = t' ! 23 \<and> t' ! 25 = t ! 25 + 1) \<and>
    (let t = trailer_deref (navarro_frame_trailer g c sq); t' = trailer_deref (navarro_frame_trailer g c (sq + 1));
         op = navarro_frame_opener g c (sq + 1) in
      op ! 19 = t' ! 19 \<and> rd16 22 op = rd16 22 t' \<and> rd16 26 op = rd16 22 t \<and> t' ! 25 = t ! 25 + 1) \<and>
    (let t = ella_frame_close g c sq; t' = ella_frame_close g c (sq + 1) in t ! 29 = t' ! 19 \<and> t ! 19 = t ! 37)"
proof -
  have "unat (sq + 1) = unat sq + 1" using unatSuc [of sq] assms by (simp add: add.commute)
  then have "ucast (sq + 1) = (ucast sq + 1 :: byte)"
    using of_nat_unat_conv [of "sq + 1"] of_nat_unat_conv [of sq] by (simp add: add.commute)
  then show ?thesis
    using ring_phase_step [OF assms]
    by (simp add: ridge_trailer_fields navarro_opener_fields navarro_trailer_fields ella_close_fields)
qed


text \<open>
  C19: Damage is never lost. Every pixel of the surface inside a damage rectangle lies in a selected strip; a
  selected strip is a strip of the surface whose macro-tile some rectangle overlaps, and every such strip is
  selected; and the selection keeps the raster order of the full frame, each strip once.
\<close>

theorem damage_covered:
  "(\<forall>(x0, y0, x1, y1)\<in>set clips. \<forall>x y. x0 \<le> x \<and> x < x1 \<and> y0 \<le> y \<and> y < y1 \<and> x < w \<and> y < h \<longrightarrow>
      (x div strip_w g * strip_w g, y div strip_h g * strip_h g) \<in> set (damage_strip_coords g w h clips)) \<and>
   (\<forall>sx sy. (sx, sy) \<in> set (damage_strip_coords g w h clips) \<longleftrightarrow>
      sx < w \<and> sy < h \<and> strip_w g dvd sx \<and> strip_h g dvd sy \<and> tile_hit g sx sy clips) \<and>
   sorted_wrt raster_less (damage_strip_coords g w h clips)"
proof (intro conjI)
  show "\<forall>(x0, y0, x1, y1)\<in>set clips. \<forall>x y. x0 \<le> x \<and> x < x1 \<and> y0 \<le> y \<and> y < y1 \<and> x < w \<and> y < h \<longrightarrow>
      (x div strip_w g * strip_w g, y div strip_h g * strip_h g) \<in> set (damage_strip_coords g w h clips)"
    using damage_selects by fastforce
  show "\<forall>sx sy. (sx, sy) \<in> set (damage_strip_coords g w h clips) \<longleftrightarrow>
      sx < w \<and> sy < h \<and> strip_w g dvd sx \<and> strip_h g dvd sy \<and> tile_hit g sx sy clips"
    by (auto simp: damage_filter all_strip_coords_iff)
  show "sorted_wrt raster_less (damage_strip_coords g w h clips)"
    unfolding damage_filter by (intro sorted_wrt_filter all_strip_coords_raster)
qed

theorem damage_covered_witness:
  "(0, 0) \<in> set (damage_strip_coords RIDGE_GEOMETRY 256 64 [(3, 5, 4, 6)])"
proof -
  have "(3 div 64 * 64, 5 div 16 * 16) \<in> set (damage_strip_coords RIDGE_GEOMETRY 256 64 [(3, 5, 4, 6)])"
    using damage_covered [of "[(3, 5, 4, 6)]" 256 64 RIDGE_GEOMETRY]
    by (force simp: RIDGE_GEOMETRY_def strip_w_def strip_h_def)
  then show ?thesis by simp
qed

text \<open>
  Every strip of every surface encodes exactly. For a dock at either depth, any aligned surface and any buffer
  that holds it, each strip the driver selects, by damage or for a whole frame, is read in bounds, encodes, and
  decodes to its quantised coefficients and its own coordinates.
\<close>

lemma surface_strips_exact:
  assumes "aligned (dock_geometry dock) w h" "w * h * 3 \<le> length rgb"
    "(sx, sy) \<in> set (strip_coords dock w h clips)"
  shows "\<exists>s. encode_strip dock w rgb sx sy = Ok s \<and>
    strip_decode (dock_geometry dock) s = Some (of_nat sx, of_nat sy,
      colour_strip_blocks (dock_geometry dock) sx sy (rgb_reader (dock_ten_bit dock) w rgb))"
  using strip_inside_readable [OF assms(1,2)] damage_subset assms(3) colour_strip_at_ok [OF rgb_source_ok]
  by (fastforce simp: encode_strip_def)

text \<open>
  C11: A full frame carries the whole surface. Encoding an aligned surface of at most 65536 pixels a side either
  fails with \<open>EOVERFLOW\<close>, or yields records in which each strip of the surface appears exactly once at its
  coordinates; it never panics and never misses a strip.
\<close>

theorem full_frame_carries_surface:
  assumes "aligned (dock_geometry dock) w h" "w * h * 3 \<le> length rgb" "w \<le> 65536" "h \<le> 65536"
  shows "case colour_frame_ep08_head dock w h rgb head of
      Inl e \<Rightarrow> e = EOVERFLOW
    | Inr frames \<Rightarrow> mset (map (\<lambda>(x, y, len). (x, y)) (framed_strip_extents frames)) =
        mset (all_strip_coords (dock_geometry dock) w h)"
proof -
  let ?g = "dock_geometry dock" and ?px = "rgb_reader (dock_ten_bit dock) w rgb"
  have "list_all (strip_readable ?g w rgb) (all_strip_coords ?g w h)"
    using strip_inside_readable [OF assms(1,2)] by (auto simp: list_all_iff)
  moreover obtain strips where strips:
    "traverse (\<lambda>(sx, sy). colour_strip ?g (colour_strip_blocks ?g sx sy ?px) (of_nat sx) (of_nat sy)) (all_strip_coords ?g w h) = Ok strips"
    using colour_strips_total [OF rgb_source_ok] by blast
  ultimately have fr: "colour_frame_ep08_head dock w h rgb head = frame_records_with_boundary ?g strips head None"
    using assms(1) by (simp add: colour_frame_ep08_head_def colour_frame_ep08_def colour_frame_ep08_variant_def)
  have "\<forall>(sx, sy)\<in>set (all_strip_coords ?g w h). sx < 65536 \<and> sy < 65536"
    using assms(3,4) by (auto simp: all_strip_coords_iff)
  from coloured_frame_coords [OF strips _ this] show ?thesis
    unfolding fr using framing_error by (auto split: sum.splits)
qed

theorem full_frame_carries_surface_witness:
  "case colour_frame_ep08_head \<lparr>dock_profile = PROFILE_RIDGE, dock_opening = False, dock_ten_bit = False\<rparr> 64 16
      (replicate 3072 7) 0 of
      Inl e \<Rightarrow> e = EOVERFLOW
    | Inr frames \<Rightarrow> mset (map (\<lambda>(x, y, len). (x, y)) (framed_strip_extents frames)) =
        mset (all_strip_coords (dock_geometry \<lparr>dock_profile = PROFILE_RIDGE, dock_opening = False, dock_ten_bit = False\<rparr>) 64 16)"
  by (rule full_frame_carries_surface)
    (simp_all add: aligned_def strip_w_def strip_h_def dock_geometry_def geometry_def
      PROFILE_RIDGE_def Geometry_new_def with_depth_def with_coding_def with_steady_sub_bit_def Let_def)



text \<open>
  A black frame can always be built. For every geometry and every aligned surface of at most 65536 pixels a side,
  both black carriers are built without error and carry each strip of the surface exactly once.
\<close>

lemma black_frame_total:
  assumes "aligned g w h" "w \<le> 65536" "h \<le> 65536"
  shows "\<exists>frames. black_frame_ep08_variant g w h connector ordinary = Ok frames \<and>
    mset (map (\<lambda>(x, y, len). (x, y)) (framed_strip_extents frames)) = mset (all_strip_coords g w h)"
proof -
  let ?f = "\<lambda>(sx, sy). colour_strip g (replicate STRIP_BLOCKS black_block) (of_nat sx) (of_nat sy)"
  obtain strips where strips: "traverse ?f (all_strip_coords g w h) = Ok strips"
    using traverse_total [of "all_strip_coords g w h" ?f] black_strip by fastforce
  then have "\<forall>s\<in>set strips. \<exists>x y. colour_strip g (replicate STRIP_BLOCKS black_block) x y = Ok s"
    unfolding traverse_Ok_iff list_all2_conv_all_nth all_set_conv_all_nth split_beta by metis
  then have "\<forall>s\<in>set strips. length s \<le> 4062" by (metis black_strip Inr_inject)
  then obtain frames where fr: "frame_records_with_boundary g strips connector ordinary = Ok frames"
    using framing_total by blast
  have "\<forall>(sx, sy)\<in>set (all_strip_coords g w h). sx < 65536 \<and> sy < 65536"
    using assms(2,3) by (auto simp: all_strip_coords_iff)
  with coloured_frame_coords [OF strips fr] fr strips show ?thesis
    using assms(1) by (auto simp: black_frame_ep08_variant_def)
qed

end
