(* ===== verification/Scanout.thy ===== *)
theory Scanout
  imports Frame_Assembly
begin

text \<open>
  What to send for a presented surface (\<open>chimera/src/scanout.rs\<close>): the content hash of each strip, the
  retransmit ledger, the damage rectangles, the body cache, and publication once a frame reached the dock.
  Against it stands the abstract dock: a ring of buffers, of which one presentation updates one.
\<close>

section \<open>State\<close>

datatype Plan = Keyframe | Damage "(nat \<times> nat \<times> nat \<times> nat) list" | Idle

definition MAX_RECTS :: nat where "MAX_RECTS = 128"

record Frame =
  fr_records :: "bytes list"
  fr_presentations :: nat

text \<open>The ledger's bytes are only set to \<open>damage_frames\<close> and counted down, so they are natural numbers.\<close>

record HeadScanout =
  hs_dock :: Dock
  w_pad :: nat
  h_pad :: nat
  hashes :: "u64 list"
  debt :: "nat list"
  keyframe_owed :: bool
  pending :: "u64 list"
  bodies :: "bytes option list"
  body_hashes :: "u64 list"

definition HeadScanout_new :: "Dock \<Rightarrow> HeadScanout" where
  "HeadScanout_new dock =
    \<lparr>hs_dock = dock, w_pad = 0, h_pad = 0, hashes = [], debt = [], keyframe_owed = True, pending = [],
     bodies = [], body_hashes = []\<rparr>"

definition owe_keyframe :: "HeadScanout \<Rightarrow> HeadScanout" where
  "owe_keyframe s = s\<lparr>keyframe_owed := True\<rparr>"

definition owes_retransmission :: "HeadScanout \<Rightarrow> bool" where
  "owes_retransmission s \<longleftrightarrow> keyframe_owed s \<or> list_ex (\<lambda>d. 0 < d) (debt s)"

definition strip_dims :: "Dock \<Rightarrow> nat \<times> nat" where
  "strip_dims dock = (strip_w (dock_geometry dock), strip_h (dock_geometry dock))"

definition dock_damage_frames :: "Dock \<Rightarrow> nat" where
  "dock_damage_frames dock = damage_frames (frame_delivery (protocol (dock_profile dock)))"

definition dock_keyframe_presentations :: "Dock \<Rightarrow> nat" where
  "dock_keyframe_presentations dock = keyframe_presentations (frame_delivery (protocol (dock_profile dock)))"

definition dock_delta_presentations :: "Dock \<Rightarrow> nat" where
  "dock_delta_presentations dock = delta_presentations (frame_delivery (protocol (dock_profile dock)))"

section \<open>Hashes\<close>

definition PRIME :: u64 where "PRIME = 0x9e3779b185ebca87"

definition from_le64 :: "bytes \<Rightarrow> u64" where
  "from_le64 bs = foldr (\<lambda>b w. push_bit 8 w OR ucast b) bs 0"

definition hash_line :: "bytes \<Rightarrow> u64 \<Rightarrow> u64" where
  "hash_line line h =
    (let n = length line div 8 * 8;
         h = foldl (\<lambda>h chunk. word_rotl 31 ((h XOR from_le64 chunk) * PRIME)) h (chunks 8 (take n line))
     in foldl (\<lambda>h b. (h XOR ucast b) * PRIME) h (drop n line))"

definition strip_line :: "bytes \<Rightarrow> nat \<Rightarrow> nat \<Rightarrow> nat \<Rightarrow> nat \<Rightarrow> nat \<Rightarrow> nat \<Rightarrow> bytes" where
  "strip_line rgb w sw sh ty tx dy = get ((ty * sh + dy) * (w * 3) + tx * (sw * 3)) (sw * 3) rgb"

definition strip_hash :: "bytes \<Rightarrow> nat \<Rightarrow> nat \<Rightarrow> nat \<Rightarrow> nat \<Rightarrow> nat \<Rightarrow> u64" where
  "strip_hash rgb w sw sh ty tx =
    foldl (\<lambda>h dy. hash_line (strip_line rgb w sw sh ty tx dy) h)
      (PRIME XOR word_rotl 17 (of_nat tx) XOR word_rotl 43 (of_nat ty)) [0..<sh]"

text \<open>A row slice past the buffer panics; the last row of the last strip is the furthest read.\<close>

definition strip_hashes :: "bytes \<Rightarrow> nat \<Rightarrow> nat \<Rightarrow> nat \<Rightarrow> nat \<Rightarrow> u64 list result" where
  "strip_hashes rgb w h sw sh =
    (let tiles_x = w div sw; tiles_y = h div sh in
     if list_all (\<lambda>ty. list_all (\<lambda>tx. list_all (\<lambda>dy.
          (ty * sh + dy) * (w * 3) + tx * (sw * 3) + sw * 3 \<le> length rgb) [0..<sh]) [0..<tiles_x]) [0..<tiles_y]
     then Ok (concat (map (\<lambda>ty. map (\<lambda>tx. strip_hash rgb w sw sh ty tx) [0..<tiles_x]) [0..<tiles_y]))
     else Err Panic)"

section \<open>Rectangles\<close>

type_synonym rect = "nat \<times> nat \<times> nat \<times> nat"

text \<open>The first match from the back is grown downwards.\<close>

fun grow_rev :: "nat \<Rightarrow> nat \<Rightarrow> nat \<Rightarrow> nat \<Rightarrow> rect list \<Rightarrow> rect list option" where
  "grow_rev x0 x1 y0 y1 [] = None"
| "grow_rev x0 x1 y0 y1 ((a, b, c, d) # rs) =
    (if a = x0 \<and> c = x1 \<and> d = y0 then Some ((a, b, c, y1) # rs)
     else map_option ((#) (a, b, c, d)) (grow_rev x0 x1 y0 y1 rs))"

definition add_rect :: "rect \<Rightarrow> rect list \<Rightarrow> rect list option" where
  "add_rect = (\<lambda>(x0, y0, x1, y1) rects.
    case grow_rev x0 x1 y0 y1 (rev rects) of
      Some rs \<Rightarrow> Some (rev rs)
    | None \<Rightarrow> if length rects = MAX_RECTS then None else Some (rects @ [(x0, y0, x1, y1)]))"

function run_end :: "nat list \<Rightarrow> nat \<Rightarrow> nat \<Rightarrow> nat" where
  "run_end row tiles_x tx = (if tx < tiles_x \<and> 0 < row ! tx then run_end row tiles_x (tx + 1) else tx)"
  by auto
termination
  by (relation "measure (\<lambda>(row, tiles_x, tx). tiles_x - tx)") auto

declare run_end.simps [simp del]

lemma run_end_ge: "tx \<le> run_end row tiles_x tx"
proof (induction row tiles_x tx rule: run_end.induct)
  case (1 row tiles_x tx)
  then show ?case by (subst run_end.simps) auto
qed

lemma run_end_gt: "tx < tiles_x \<Longrightarrow> 0 < row ! tx \<Longrightarrow> tx < run_end row tiles_x tx"
  using run_end_ge [of "tx + 1" row tiles_x] by (subst run_end.simps) simp

text \<open>One band: \<open>row\<close> is its part of the ledger.\<close>

function owed_row :: "nat list \<Rightarrow> nat \<Rightarrow> nat \<Rightarrow> nat \<Rightarrow> nat \<Rightarrow> nat \<Rightarrow> rect list \<Rightarrow> rect list option" where
  "owed_row row tiles_x sw sh ty tx rects =
    (if tx < tiles_x then
       if row ! tx = 0 then owed_row row tiles_x sw sh ty (tx + 1) rects
       else let e = run_end row tiles_x tx; y0 = ty * sh in
            case add_rect (tx * sw, y0, e * sw, y0 + sh) rects of
              None \<Rightarrow> None
            | Some rects \<Rightarrow> owed_row row tiles_x sw sh ty e rects
     else Some rects)"
  by auto
termination
proof (relation "measure (\<lambda>(row, tiles_x, sw, sh, ty, tx, rects). tiles_x - tx)", goal_cases)
  case (3 row tiles_x sw sh ty tx rects e)
  then show ?case using run_end_gt [of tx tiles_x row] by simp
qed auto

declare owed_row.simps [simp del]

fun owed_bands :: "nat list \<Rightarrow> nat \<Rightarrow> nat \<Rightarrow> nat \<Rightarrow> nat list \<Rightarrow> rect list \<Rightarrow> rect list option" where
  "owed_bands dbt tiles_x sw sh [] rects = Some rects"
| "owed_bands dbt tiles_x sw sh (ty # tys) rects =
    (case owed_row (drop (ty * tiles_x) dbt) tiles_x sw sh ty 0 rects of
       None \<Rightarrow> None | Some rects \<Rightarrow> owed_bands dbt tiles_x sw sh tys rects)"

definition owed_rects :: "nat list \<Rightarrow> nat \<Rightarrow> nat \<Rightarrow> nat \<Rightarrow> nat \<Rightarrow> rect list option" where
  "owed_rects dbt tiles_x tiles_y sw sh = owed_bands dbt tiles_x sw sh [0..<tiles_y] []"

section \<open>Operations\<close>

definition resize :: "nat \<Rightarrow> nat \<Rightarrow> HeadScanout \<Rightarrow> HeadScanout" where
  "resize w h s =
    (let (sw, sh) = strip_dims (hs_dock s); expected = w div sw * (h div sh) in
     if w_pad s \<noteq> w \<or> h_pad s \<noteq> h \<or> length (hashes s) \<noteq> expected then
       s\<lparr>w_pad := w, h_pad := h, hashes := replicate expected 0, debt := replicate expected 0,
         bodies := replicate expected None, body_hashes := replicate expected 0, keyframe_owed := True\<rparr>
     else s)"

definition charge :: "nat \<Rightarrow> u64 list \<Rightarrow> u64 list \<Rightarrow> nat list \<Rightarrow> nat list" where
  "charge d old new dbt = map (\<lambda>i. if old ! i \<noteq> new ! i then d else dbt ! i) [0..<length new]"

definition plan :: "nat \<Rightarrow> nat \<Rightarrow> bytes \<Rightarrow> HeadScanout \<Rightarrow> (HeadScanout \<times> Plan) result" where
  "plan w h rgb s =
    (let (sw, sh) = strip_dims (hs_dock s); tiles_x = w div sw; tiles_y = h div sh; s = resize w h s in
     bind (strip_hashes rgb w h sw sh) (\<lambda>p.
       let s = s\<lparr>pending := p\<rparr> in
       if keyframe_owed s then Ok (s, Keyframe)
       else let s = s\<lparr>debt := charge (dock_damage_frames (hs_dock s)) (hashes s) p (debt s)\<rparr> in
            Ok (s, case owed_rects (debt s) tiles_x tiles_y sw sh of
                     None \<Rightarrow> Keyframe
                   | Some rects \<Rightarrow> if rects = [] then Idle else Damage rects)))"

definition encode_one :: "bytes \<Rightarrow> HeadScanout \<Rightarrow> nat \<times> nat \<Rightarrow> (HeadScanout \<times> bytes) result" where
  "encode_one rgb s = (\<lambda>(sx, sy).
    let (sw, sh) = strip_dims (hs_dock s); index = sy div sh * (w_pad s div sw) + sx div sw; current = pending s ! index in
    if length (pending s) \<le> index then Err Panic
    else case bodies s ! index of
      Some b \<Rightarrow> if body_hashes s ! index = current then Ok (s, b)
        else bind (encode_strip (hs_dock s) (w_pad s) rgb sx sy) (\<lambda>b.
          Ok (s\<lparr>bodies := (bodies s)[index := Some b], body_hashes := (body_hashes s)[index := current]\<rparr>, b))
    | None \<Rightarrow> bind (encode_strip (hs_dock s) (w_pad s) rgb sx sy) (\<lambda>b.
          Ok (s\<lparr>bodies := (bodies s)[index := Some b], body_hashes := (body_hashes s)[index := current]\<rparr>, b)))"

fun encode_all :: "bytes \<Rightarrow> HeadScanout \<Rightarrow> (nat \<times> nat) list \<Rightarrow> (HeadScanout \<times> bytes list) result" where
  "encode_all rgb s [] = Ok (s, [])"
| "encode_all rgb s (c # cs) = bind (encode_one rgb s c) (\<lambda>(s, b). bind (encode_all rgb s cs) (\<lambda>(s, bs). Ok (s, b # bs)))"

definition plan_coords :: "HeadScanout \<Rightarrow> Plan \<Rightarrow> (nat \<times> nat) list" where
  "plan_coords s p =
    (case p of
       Idle \<Rightarrow> []
     | Damage clips \<Rightarrow> strip_coords (hs_dock s) (w_pad s) (h_pad s) (Some clips)
     | Keyframe \<Rightarrow> strip_coords (hs_dock s) (w_pad s) (h_pad s) None)"

definition plan_presentations :: "HeadScanout \<Rightarrow> Plan \<Rightarrow> nat" where
  "plan_presentations s p =
    (case p of Idle \<Rightarrow> 0 | Damage _ \<Rightarrow> dock_delta_presentations (hs_dock s) | Keyframe \<Rightarrow> dock_keyframe_presentations (hs_dock s))"

definition encode :: "Plan \<Rightarrow> bytes \<Rightarrow> byte \<Rightarrow> HeadScanout \<Rightarrow> (HeadScanout \<times> Frame option) result" where
  "encode p rgb head s =
    (if plan_coords s p = [] then Ok (s, None)
     else bind (encode_all rgb s (plan_coords s p)) (\<lambda>(s, strips).
       bind (dock_frame_records (hs_dock s) strips head) (\<lambda>records.
         Ok (s, Some \<lparr>fr_records = records, fr_presentations = plan_presentations s p\<rparr>))))"

definition presented :: "Plan \<Rightarrow> HeadScanout \<Rightarrow> HeadScanout" where
  "presented p s =
    (case p of
       Idle \<Rightarrow> s
     | Keyframe \<Rightarrow> s\<lparr>debt := map (\<lambda>_. 0) (debt s), keyframe_owed := False, hashes := pending s, pending := []\<rparr>
     | Damage _ \<Rightarrow> s\<lparr>debt := map (\<lambda>d. d - 1) (debt s), hashes := pending s, pending := []\<rparr>)"

section \<open>The rectangles are exactly the owing strips\<close>

text \<open>A rectangle of whole tiles, and the tiles a list of rectangles covers.\<close>

definition tile_rect :: "nat \<Rightarrow> nat \<Rightarrow> rect \<Rightarrow> bool" where
  "tile_rect sw sh = (\<lambda>(x0, y0, x1, y1). \<exists>a b c d. x0 = a * sw \<and> y0 = c * sh \<and> x1 = b * sw \<and> y1 = d * sh \<and> a < b \<and> c < d)"

definition covers :: "nat \<Rightarrow> nat \<Rightarrow> nat \<Rightarrow> nat \<Rightarrow> rect \<Rightarrow> bool" where
  "covers sw sh tx ty = (\<lambda>(x0, y0, x1, y1). x0 \<le> tx * sw \<and> tx * sw < x1 \<and> y0 \<le> ty * sh \<and> ty * sh < y1)"

definition rect_tiles :: "nat \<Rightarrow> nat \<Rightarrow> rect list \<Rightarrow> (nat \<times> nat) set" where
  "rect_tiles sw sh rects = {(tx, ty). \<exists>r\<in>set rects. covers sw sh tx ty r}"

lemma rect_tiles_append [simp]: "rect_tiles sw sh (rs @ rs') = rect_tiles sw sh rs \<union> rect_tiles sw sh rs'"
  by (auto simp: rect_tiles_def)

lemma rect_tiles_Cons: "rect_tiles sw sh (r # rs) = rect_tiles sw sh [r] \<union> rect_tiles sw sh rs"
  by (auto simp: rect_tiles_def)

lemma rect_tiles_rev [simp]: "rect_tiles sw sh (rev rs) = rect_tiles sw sh rs"
  by (simp add: rect_tiles_def)

lemma rect_tiles_run:
  assumes "0 < sw" "0 < sh"
  shows "rect_tiles sw sh [(a * sw, c * sh, b * sw, c * sh + sh)] = {(tx, ty). a \<le> tx \<and> tx < b \<and> ty = c}"
proof -
  have "c * sh \<le> ty * sh \<and> ty * sh < c * sh + sh \<longleftrightarrow> ty = c" for ty
  proof
    assume "c * sh \<le> ty * sh \<and> ty * sh < c * sh + sh"
    then have "c * sh \<le> ty * sh" "ty * sh < Suc c * sh" by simp_all
    then show "ty = c" using assms(2) by (simp only: mult_le_cancel2 mult_less_cancel2) simp
  qed (use assms(2) in simp)
  then show ?thesis using assms(1) by (auto simp: rect_tiles_def covers_def)
qed

lemma grow_rev_tiles:
  assumes "grow_rev x0 x1 y0 y1 rs = Some rs'" "list_all (tile_rect sw sh) rs" "y0 = c * sh" "y1 = Suc c * sh" "0 < sh"
  shows "list_all (tile_rect sw sh) rs' \<and> rect_tiles sw sh rs' = rect_tiles sw sh rs \<union> rect_tiles sw sh [(x0, y0, x1, y1)]"
  using assms(1,2)
proof (induction rs arbitrary: rs')
  case (Cons r rs)
  obtain a b c' d where r: "r = (a, b, c', d)" by (cases r)
  show ?case
  proof (cases "a = x0 \<and> c' = x1 \<and> d = y0")
    case True
    then have rs': "rs' = (x0, b, x1, y1) # rs" using Cons.prems(1) r by simp
    from Cons.prems(2) r True obtain a' b' k k' where t: "x0 = a' * sw" "b = k * sh" "x1 = b' * sw" "y0 = k' * sh" "a' < b'" "k < k'"
      by (auto simp: tile_rect_def)
    have "k < Suc c" using t(4,6) assms(3,5) by auto
    then have "tile_rect sw sh (x0, b, x1, y1)" 
      unfolding tile_rect_def prod.case t(1,2,3) assms(4) using t(5) by blast
    moreover have "b \<le> y0" "y0 \<le> y1" using t(2,4,6) assms(3,4) by (auto intro: mult_right_mono)
    then have "rect_tiles sw sh [(x0, b, x1, y1)] = rect_tiles sw sh [(x0, b, x1, y0)] \<union> rect_tiles sw sh [(x0, y0, x1, y1)]"
      by (auto simp: rect_tiles_def covers_def)
    ultimately show ?thesis
      using Cons.prems(2) True r unfolding rs' by (auto simp: rect_tiles_Cons [of sw sh _ rs])
  next
    case False
    then obtain rs'' where g: "grow_rev x0 x1 y0 y1 rs = Some rs''" "rs' = r # rs''" using Cons.prems(1) r by auto
    then show ?thesis
      using Cons.IH [OF g(1)] Cons.prems(2) by (auto simp: rect_tiles_Cons [of sw sh r rs] rect_tiles_Cons [of sw sh r rs''])
  qed
qed simp

lemma add_rect_tiles:
  assumes "add_rect (a * sw, c * sh, b * sw, c * sh + sh) rects = Some rects'" "list_all (tile_rect sw sh) rects" "a < b"
    "0 < sw" "0 < sh"
  shows "list_all (tile_rect sw sh) rects' \<and>
    rect_tiles sw sh rects' = rect_tiles sw sh rects \<union> {(tx, ty). a \<le> tx \<and> tx < b \<and> ty = c}"
proof (cases "grow_rev (a * sw) (b * sw) (c * sh) (c * sh + sh) (rev rects)")
  case None
  then have "rects' = rects @ [(a * sw, c * sh, b * sw, c * sh + sh)]"
    using assms(1) by (auto simp: add_rect_def split: if_splits)
  moreover have "tile_rect sw sh (a * sw, c * sh, b * sw, c * sh + sh)"
    unfolding tile_rect_def prod.case using assms(3)
    by (intro exI [of _ a] exI [of _ b] exI [of _ c] exI [of _ "Suc c"]) simp
  ultimately show ?thesis using assms(2) by (simp add: rect_tiles_run [OF assms(4,5)])
next
  case (Some rs)
  then have "rects' = rev rs" using assms(1) by (simp add: add_rect_def)
  moreover have "list_all (tile_rect sw sh) (rev rects)" using assms(2) by (simp add: list_all_iff)
  ultimately show ?thesis
    using grow_rev_tiles [OF Some, of sw sh c] rect_tiles_run [OF assms(4,5)] assms(5) by (auto simp: list_all_iff add.commute)
qed

lemma run_end_spec: "tx \<le> tiles_x \<Longrightarrow>
    run_end row tiles_x tx \<le> tiles_x \<and> (\<forall>x. tx \<le> x \<and> x < run_end row tiles_x tx \<longrightarrow> 0 < row ! x)"
proof (induction row tiles_x tx rule: run_end.induct)
  case (1 row tiles_x tx)
  show ?case
  proof (cases "tx < tiles_x \<and> 0 < row ! tx")
    case True
    then have "run_end row tiles_x tx = run_end row tiles_x (tx + 1)" by (subst run_end.simps) simp
    then show ?thesis using 1 True by (metis Suc_eq_plus1 Suc_leI le_neq_implies_less)
  next
    case False
    then have "run_end row tiles_x tx = tx" by (subst run_end.simps) auto
    then show ?thesis using "1.prems" by simp
  qed
qed

lemma owed_row_tiles:
  assumes "owed_row row tiles_x sw sh ty tx rects = Some rects'" "list_all (tile_rect sw sh) rects" "0 < sw" "0 < sh"
  shows "list_all (tile_rect sw sh) rects' \<and>
    rect_tiles sw sh rects' = rect_tiles sw sh rects \<union> {(x, y). tx \<le> x \<and> x < tiles_x \<and> 0 < row ! x \<and> y = ty}"
  using assms
proof (induction row tiles_x sw sh ty tx rects rule: owed_row.induct)
  case (1 row tiles_x sw sh ty tx rects)
  consider (past) "\<not> tx < tiles_x" | (skip) "tx < tiles_x" "row ! tx = 0" | (run) "tx < tiles_x" "row ! tx \<noteq> 0" by blast
  then show ?case
  proof cases
    case past
    then show ?thesis using "1.prems"(1,2) by (auto simp: owed_row.simps [of row tiles_x sw sh ty tx rects])
  next
    case skip
    then have "owed_row row tiles_x sw sh ty (tx + 1) rects = Some rects'"
      using "1.prems"(1) by (simp add: owed_row.simps [of row tiles_x sw sh ty tx rects])
    note ih = "1.IH"(1) [OF skip this "1.prems"(2,3,4)]
    have "tx + 1 \<le> x \<and> x < tiles_x \<and> 0 < row ! x \<and> y = ty \<longleftrightarrow> tx \<le> x \<and> x < tiles_x \<and> 0 < row ! x \<and> y = ty" for x y
      using skip(2) by (cases "x = tx") auto
    then show ?thesis using ih by (simp only:)
  next
    case run
    define e where "e = run_end row tiles_x tx"
    obtain rects1 where add: "add_rect (tx * sw, ty * sh, e * sw, ty * sh + sh) rects = Some rects1"
      and go: "owed_row row tiles_x sw sh ty e rects1 = Some rects'"
      using "1.prems"(1) run
      by (auto simp: owed_row.simps [of row tiles_x sw sh ty tx rects] Let_def e_def split: option.splits)
    have e: "tx < e" "e \<le> tiles_x" "\<forall>x. tx \<le> x \<and> x < e \<longrightarrow> 0 < row ! x"
      using run_end_gt [of tx tiles_x row] run_end_spec [of tx tiles_x row] run unfolding e_def by simp_all
    note a = add_rect_tiles [OF add "1.prems"(2) e(1) "1.prems"(3,4)]
    note ih = "1.IH"(2) [OF run e_def refl add go conjunct1 [OF a] "1.prems"(3,4)]
    have "{(x, y). tx \<le> x \<and> x < e \<and> y = ty} \<union> {(x, y). e \<le> x \<and> x < tiles_x \<and> 0 < row ! x \<and> y = ty} =
        {(x, y). tx \<le> x \<and> x < tiles_x \<and> 0 < row ! x \<and> y = ty}"
    proof (intro set_eqI)
      fix z :: "nat \<times> nat"
      obtain x y where z: "z = (x, y)" by (cases z)
      show "z \<in> {(x, y). tx \<le> x \<and> x < e \<and> y = ty} \<union> {(x, y). e \<le> x \<and> x < tiles_x \<and> 0 < row ! x \<and> y = ty} \<longleftrightarrow>
          z \<in> {(x, y). tx \<le> x \<and> x < tiles_x \<and> 0 < row ! x \<and> y = ty}"
        unfolding z using e(1,2) e(3) [rule_format, of x] by (cases "x < e") auto
    qed
    then show ?thesis using a ih by (simp only: Un_assoc)
  qed
qed


lemma owed_bands_tiles:
  assumes "owed_bands dbt tiles_x sw sh tys rects = Some rects'" "list_all (tile_rect sw sh) rects" "0 < sw" "0 < sh"
    "\<forall>ty\<in>set tys. ty * tiles_x + tiles_x \<le> length dbt"
  shows "list_all (tile_rect sw sh) rects' \<and> rect_tiles sw sh rects' = rect_tiles sw sh rects \<union>
    {(x, y). y \<in> set tys \<and> x < tiles_x \<and> 0 < dbt ! (y * tiles_x + x)}"
  using assms
proof (induction tys arbitrary: rects)
  case (Cons ty tys)
  obtain rects1 where row: "owed_row (drop (ty * tiles_x) dbt) tiles_x sw sh ty 0 rects = Some rects1"
    and go: "owed_bands dbt tiles_x sw sh tys rects1 = Some rects'"
    using Cons.prems(1) by (auto split: option.splits)
  note r = owed_row_tiles [OF row Cons.prems(2,3,4)]
  have "drop (ty * tiles_x) dbt ! x = dbt ! (ty * tiles_x + x)" if "x < tiles_x" for x
    using Cons.prems(5) that by simp
  then have "{(x, y). 0 \<le> x \<and> x < tiles_x \<and> 0 < drop (ty * tiles_x) dbt ! x \<and> y = ty} =
      {(x, y). y = ty \<and> x < tiles_x \<and> 0 < dbt ! (y * tiles_x + x)}" by auto
  with r Cons.IH [OF go] Cons.prems show ?case by auto
qed simp

lemma owed_rects_exact:
  assumes "owed_rects dbt tiles_x tiles_y sw sh = Some rects" "0 < sw" "0 < sh" "length dbt = tiles_x * tiles_y"
  shows "list_all (tile_rect sw sh) rects"
    "rect_tiles sw sh rects = {(x, y). y < tiles_y \<and> x < tiles_x \<and> 0 < dbt ! (y * tiles_x + x)}"
proof -
  have "\<forall>ty\<in>set [0..<tiles_y]. ty * tiles_x + tiles_x \<le> length dbt"
  proof
    fix ty assume "ty \<in> set [0..<tiles_y]"
    then have "Suc ty * tiles_x \<le> tiles_y * tiles_x" by (intro mult_right_mono) auto
    then show "ty * tiles_x + tiles_x \<le> length dbt" using assms(4) by (simp add: mult.commute add.commute)
  qed
  note b = owed_bands_tiles [OF assms(1) [unfolded owed_rects_def] _ assms(2,3) this]
  show "list_all (tile_rect sw sh) rects"
    "rect_tiles sw sh rects = {(x, y). y < tiles_y \<and> x < tiles_x \<and> 0 < dbt ! (y * tiles_x + x)}"
    using b by (simp_all add: rect_tiles_def)
qed

lemma tile_rect_covers:
  assumes "tile_rect sw sh r" "0 < sw" "0 < sh"
  shows "\<exists>tx ty. covers sw sh tx ty r"
proof -
  from assms(1) obtain a b c d where "r = (a * sw, c * sh, b * sw, d * sh)" "a < b" "c < d"
    by (cases r) (auto simp: tile_rect_def)
  then show ?thesis using assms(2,3) by (intro exI [of _ a] exI [of _ c]) (simp add: covers_def)
qed

lemma tile_index:
  assumes "i < tiles_x * tiles_y"
  shows "i div tiles_x < tiles_y" "i mod tiles_x < tiles_x" "i div tiles_x * tiles_x + i mod tiles_x = (i :: nat)"
proof -
  have "0 < tiles_x" using assms by (cases tiles_x) auto
  then show "i mod tiles_x < tiles_x" by simp
  show "i div tiles_x < tiles_y" using assms by (simp add: less_mult_imp_div_less mult.commute)
qed simp

lemma owed_rects_empty:
  assumes "owed_rects dbt tiles_x tiles_y sw sh = Some rects" "0 < sw" "0 < sh" "length dbt = tiles_x * tiles_y"
  shows "rects = [] \<longleftrightarrow> (\<forall>i<length dbt. dbt ! i = 0)"
proof
  assume "rects = []"
  then have none: "{(x, y). y < tiles_y \<and> x < tiles_x \<and> 0 < dbt ! (y * tiles_x + x)} = {}"
    using owed_rects_exact(2) [OF assms] by (auto simp: rect_tiles_def)
  show "\<forall>i<length dbt. dbt ! i = 0"
  proof (intro allI impI)
    fix i assume "i < length dbt"
    then show "dbt ! i = 0" using tile_index [of i tiles_x tiles_y] none assms(4) by fastforce
  qed
next
  assume zero: "\<forall>i<length dbt. dbt ! i = 0"
  have "rect_tiles sw sh rects = {}"
  proof -
    have "y * tiles_x + x < length dbt" if "y < tiles_y" "x < tiles_x" for x y
    proof -
      have "y * tiles_x + x < Suc y * tiles_x" using that(2) by simp
      also have "\<dots> \<le> tiles_y * tiles_x" using that(1) by (intro mult_right_mono) auto
      finally show ?thesis using assms(4) by (simp add: mult.commute)
    qed
    then show ?thesis unfolding owed_rects_exact(2) [OF assms] using zero by fastforce
  qed
  then show "rects = []"
    using owed_rects_exact(1) [OF assms] tile_rect_covers [OF _ assms(2,3), of "hd rects"]
    by (cases rects) (auto simp: rect_tiles_def)
qed

section \<open>The abstract dock\<close>

text \<open>
  The ring, most recently presented buffer first; a buffer holds the content hash of each strip. A
  presentation takes the oldest buffer, overwrites the strips it carries, and makes it the newest.
\<close>

type_synonym ring = "(nat \<Rightarrow> u64) list"

definition present_once :: "nat set \<Rightarrow> (nat \<Rightarrow> u64) \<Rightarrow> ring \<Rightarrow> ring" where
  "present_once S c ring = (\<lambda>i. if i \<in> S then c i else last ring i) # butlast ring"

definition present :: "nat \<Rightarrow> nat set \<Rightarrow> (nat \<Rightarrow> u64) \<Rightarrow> ring \<Rightarrow> ring" where
  "present n S c = present_once S c ^^ n"

definition tiles :: "HeadScanout \<Rightarrow> nat" where
  "tiles s = (case strip_dims (hs_dock s) of (sw, sh) \<Rightarrow> w_pad s div sw * (h_pad s div sh))"

definition sent :: "HeadScanout \<Rightarrow> Plan \<Rightarrow> nat set" where
  "sent s p = (case strip_dims (hs_dock s) of (sw, sh) \<Rightarrow>
    (\<lambda>(sx, sy). sy div sh * (w_pad s div sw) + sx div sw) ` set (plan_coords s p))"

text \<open>
  The steps of a head: a surface is planned and its frame reaches the dock; or it is planned and lost; the
  encoder fills its cache; a keyframe is demanded.
\<close>

inductive scan_step :: "HeadScanout \<times> ring \<Rightarrow> HeadScanout \<times> ring \<Rightarrow> bool" where
  shown: "plan w h rgb s = Ok (s', p) \<Longrightarrow>
    scan_step (s, ring) (presented p s', present (plan_presentations s' p) (sent s' p) ((!) (pending s')) ring)"
| lost: "plan w h rgb s = Ok (s', p) \<Longrightarrow> scan_step (s, ring) (s', ring)"
| encoded: "encode p rgb head s = Ok (s', f) \<Longrightarrow> scan_step (s, ring) (s', ring)"
| owed: "scan_step (s, ring) (owe_keyframe s, ring)"

inductive reachable :: "Dock \<Rightarrow> HeadScanout \<times> ring \<Rightarrow> bool" for dock where
  start: "length ring = unat (dock_buffers (dock_geometry dock)) \<Longrightarrow> reachable dock (HeadScanout_new dock, ring)"
| step: "reachable dock c \<Longrightarrow> scan_step c c' \<Longrightarrow> reachable dock c'"

lemma length_present_once [simp]: "ring \<noteq> [] \<Longrightarrow> length (present_once S c ring) = length ring"
  by (simp add: present_once_def)

lemma length_present [simp]: "ring \<noteq> [] \<Longrightarrow> length (present n S c ring) = length ring"
proof (induction n)
  case (Suc n)
  then have "present n S c ring \<noteq> []" by (metis length_0_conv)
  then show ?case using Suc by (simp add: present_def)
qed (simp add: present_def)

lemma present_Suc: "present (Suc n) S c ring = present_once S c (present n S c ring)"
  by (simp add: present_def)

lemma present_once_nth:
  assumes "j < length ring"
  shows "(present_once S c ring ! j) i = (if j = 0 then if i \<in> S then c i else last ring i else (ring ! (j - 1)) i)"
  using assms by (cases j) (auto simp: present_once_def nth_butlast)

lemma present_nth_sent:
  assumes "i \<in> S" "j < length ring"
  shows "(present n S c ring ! j) i = (if j < n then c i else (ring ! (j - n)) i)"
  using assms(2)
proof (induction n arbitrary: j)
  case (Suc n)
  have "ring \<noteq> []" using Suc.prems by auto
  then have "(present (Suc n) S c ring ! j) i = (if j = 0 then c i else (present n S c ring ! (j - 1)) i)"
    using Suc.prems assms(1) by (simp add: present_Suc present_once_nth)
  then show ?case using Suc.IH [of "j - 1"] Suc.prems by (cases j) auto
qed (simp add: present_def)

lemma present_keeps:
  assumes "\<forall>j<length ring. (ring ! j) i = v" "i \<in> S \<Longrightarrow> c i = v" "j < length ring"
  shows "(present n S c ring ! j) i = v"
  using assms(3)
proof (induction n arbitrary: j)
  case (Suc n)
  then have ne: "ring \<noteq> []" by auto
  then have "last (present n S c ring) i = v"
    using Suc.IH [of "length ring - 1"] by (metis diff_less last_conv_nth length_greater_0_conv length_present less_numeral_extra(1))
  then show ?case using Suc ne assms(2) by (simp add: present_Suc present_once_nth)
qed (use assms(1) in \<open>simp add: present_def\<close>)

section \<open>Invariant\<close>

lemma tiles_simps [simp]:
  "tiles (s\<lparr>debt := d\<rparr>) = tiles s" "tiles (s\<lparr>hashes := hs\<rparr>) = tiles s" "tiles (s\<lparr>pending := hs\<rparr>) = tiles s"
  "tiles (s\<lparr>keyframe_owed := k\<rparr>) = tiles s" "tiles (s\<lparr>bodies := b\<rparr>) = tiles s" "tiles (s\<lparr>body_hashes := hs\<rparr>) = tiles s"
  by (simp_all add: tiles_def)

lemma strip_dims_sizes: "strip_dims dock = (sw, sh) \<Longrightarrow> 0 < sw \<and> 0 < sh"
  by (auto simp: strip_dims_def)

lemma strip_hashes_length: "strip_hashes rgb w h sw sh = Ok p \<Longrightarrow> length p = w div sw * (h div sh)"
  by (auto simp: strip_hashes_def Let_def length_concat comp_def sum_list_triv split: if_splits)

text \<open>Every tile that owes a transmission is among the strips a plan sends.\<close>

lemma tile_sent:
  assumes d: "strip_dims (hs_dock s) = (sw, sh)" and i: "i < w_pad s div sw * (h_pad s div sh)"
    and sel: "(i mod (w_pad s div sw) * sw, i div (w_pad s div sw) * sh) \<in> set (plan_coords s p)"
  shows "i \<in> sent s p"
proof -
  have "0 < sw" "0 < sh" using strip_dims_sizes [OF d] by simp_all
  then have "(\<lambda>(sx, sy). sy div sh * (w_pad s div sw) + sx div sw)
      (i mod (w_pad s div sw) * sw, i div (w_pad s div sw) * sh) = i"
    using div_mult_mod_eq [of i "w_pad s div sw"] by (simp del: div_mult_mod_eq)
  then show ?thesis unfolding sent_def d prod.case by (intro image_eqI [OF _ sel]) simp
qed

lemma tile_pixel:
  assumes "0 < k" "t < n div k"
  shows "t * k < (n :: nat)"
proof -
  have "t * k < Suc t * k" using assms(1) by simp
  also have "\<dots> \<le> n div k * k" using assms(2) by (intro mult_right_mono) auto
  also have "\<dots> \<le> n" by simp
  finally show ?thesis .
qed

lemma keyframe_sends_all:
  assumes "i < tiles s"
  shows "i \<in> sent s Keyframe"
proof -
  obtain sw sh where d: "strip_dims (hs_dock s) = (sw, sh)" by (cases "strip_dims (hs_dock s)")
  have i: "i < w_pad s div sw * (h_pad s div sh)" using assms d by (simp add: tiles_def)
  note t = tile_index [OF i]
  have pos: "0 < sw" "0 < sh" using strip_dims_sizes [OF d] by simp_all
  have g: "sw = strip_w (dock_geometry (hs_dock s))" "sh = strip_h (dock_geometry (hs_dock s))"
    using d by (simp_all add: strip_dims_def)
  show ?thesis
    using tile_pixel [OF pos(1) t(2)] tile_pixel [OF pos(2) t(1)]
    by (intro tile_sent [OF d i]) (simp add: plan_coords_def strip_coords_def all_strip_coords_iff flip: g)
qed

lemma damage_sends_owed:
  assumes "strip_dims (hs_dock s) = (sw, sh)" "length dbt = tiles s"
    "owed_rects dbt (w_pad s div sw) (h_pad s div sh) sw sh = Some rects" "i < tiles s" "0 < dbt ! i"
  shows "i \<in> sent s (Damage rects)"
proof -
  have pos: "0 < sw" "0 < sh" using strip_dims_sizes [OF assms(1)] by simp_all
  have i: "i < w_pad s div sw * (h_pad s div sh)" using assms(1,4) by (simp add: tiles_def)
  note t = tile_index [OF i]
  have g: "sw = strip_w (dock_geometry (hs_dock s))" "sh = strip_h (dock_geometry (hs_dock s))"
    using assms(1) by (simp_all add: strip_dims_def)
  define tx ty where "tx = i mod (w_pad s div sw)" and "ty = i div (w_pad s div sw)"
  have "(tx, ty) \<in> rect_tiles sw sh rects"
    using owed_rects_exact(2) [OF assms(3) pos] assms(1,2,5) t by (simp add: tiles_def tx_def ty_def)
  then obtain x0 y0 x1 y1 where "(x0, y0, x1, y1) \<in> set rects" "covers sw sh tx ty (x0, y0, x1, y1)"
    by (auto simp: rect_tiles_def)
  then have "(tx * sw, ty * sh) \<in> set (damage_strip_coords (dock_geometry (hs_dock s)) (w_pad s) (h_pad s) rects)"
    using damage_selects [of x0 y0 x1 y1 rects "tx * sw" "ty * sh" "w_pad s" "h_pad s" "dock_geometry (hs_dock s)"]
      tile_pixel [OF pos(1) t(2)] tile_pixel [OF pos(2) t(1)] pos
    by (simp add: covers_def tx_def ty_def flip: g)
  then show ?thesis
    by (intro tile_sent [OF assms(1) i]) (simp add: plan_coords_def strip_coords_def tx_def ty_def)
qed

text \<open>
  The ledger's meaning: a strip that owes \<open>d\<close> more transmissions has been sent, with its published content, in
  the last \<open>damage_frames - d\<close> frames.
\<close>

definition scan_wf :: "HeadScanout \<Rightarrow> bool" where
  "scan_wf s \<longleftrightarrow> length (debt s) = tiles s \<and> length (bodies s) = tiles s \<and> length (body_hashes s) = tiles s \<and>
    (\<forall>d\<in>set (debt s). d \<le> dock_damage_frames (hs_dock s))"

definition ledger_ok :: "HeadScanout \<Rightarrow> ring \<Rightarrow> bool" where
  "ledger_ok s ring \<longleftrightarrow> (\<not> keyframe_owed s \<longrightarrow> length (hashes s) = tiles s \<longrightarrow>
    (\<forall>i<tiles s. \<forall>j<length ring.
      j < dock_delta_presentations (hs_dock s) * (dock_damage_frames (hs_dock s) - debt s ! i) \<longrightarrow> (ring ! j) i = hashes s ! i))"

lemma resize_cases:
  assumes "strip_dims (hs_dock s) = (sw, sh)"
  obtains (fresh) "resize w h s = s\<lparr>w_pad := w, h_pad := h, hashes := replicate (w div sw * (h div sh)) 0,
      debt := replicate (w div sw * (h div sh)) 0, bodies := replicate (w div sw * (h div sh)) None,
      body_hashes := replicate (w div sw * (h div sh)) 0, keyframe_owed := True\<rparr>"
  | (same) "resize w h s = s" "w_pad s = w" "h_pad s = h" "length (hashes s) = w div sw * (h div sh)"
  using assms unfolding resize_def by (simp add: Let_def) metis

lemma resize_ok:
  assumes "scan_wf s" "ledger_ok s ring"
  shows "hs_dock (resize w h s) = hs_dock s" "scan_wf (resize w h s)" "ledger_ok (resize w h s) ring"
    "w_pad (resize w h s) = w" "h_pad (resize w h s) = h" "length (hashes (resize w h s)) = tiles (resize w h s)"
proof -
  obtain sw sh where d: "strip_dims (hs_dock s) = (sw, sh)" by (cases "strip_dims (hs_dock s)")
  show "hs_dock (resize w h s) = hs_dock s" "scan_wf (resize w h s)" "ledger_ok (resize w h s) ring"
    "w_pad (resize w h s) = w" "h_pad (resize w h s) = h" "length (hashes (resize w h s)) = tiles (resize w h s)"
    using assms d by (cases rule: resize_cases [OF d, of w h]; simp add: scan_wf_def ledger_ok_def tiles_def)+
qed

lemma charge_length [simp]: "length (charge d old new dbt) = length new"
  by (simp add: charge_def)

lemma charge_nth: "i < length new \<Longrightarrow> charge d old new dbt ! i = (if old ! i \<noteq> new ! i then d else dbt ! i)"
  by (simp add: charge_def)

text \<open>What a plan does to the state, in one place.\<close>

lemma plan_cases:
  assumes "plan w h rgb s = Ok (s', p)" "strip_dims (hs_dock s) = (sw, sh)" "scan_wf s" "ledger_ok s ring"
  obtains (owed) hs where "strip_hashes rgb w h sw sh = Ok hs" "keyframe_owed (resize w h s)" "p = Keyframe"
      "s' = (resize w h s)\<lparr>pending := hs\<rparr>"
  | (delta) hs where "strip_hashes rgb w h sw sh = Ok hs" "\<not> keyframe_owed s" "w_pad s = w" "h_pad s = h"
      "length (hashes s) = length hs" "length hs = tiles s"
      "s' = s\<lparr>pending := hs, debt := charge (dock_damage_frames (hs_dock s)) (hashes s) hs (debt s)\<rparr>"
      "p = (case owed_rects (debt s') (w div sw) (h div sh) sw sh of None \<Rightarrow> Keyframe
        | Some rects \<Rightarrow> if rects = [] then Idle else Damage rects)"
proof -
  note r = resize_ok [OF assms(3,4), of w h]
  obtain hs where hs: "strip_hashes rgb w h sw sh = Ok hs"
    using assms(1,2) by (auto simp: plan_def Let_def bind_Ok_iff)
  show ?thesis
  proof (cases "keyframe_owed (resize w h s)")
    case True
    then show ?thesis using assms(1,2) hs by (intro owed [OF hs]) (simp_all add: plan_def Let_def)
  next
    case False
    then have "resize w h s = s \<and> w_pad s = w \<and> h_pad s = h \<and> length (hashes s) = w div sw * (h div sh)"
      by (cases rule: resize_cases [OF assms(2), of w h]) simp_all
    then show ?thesis
      using assms(1,2) hs False strip_hashes_length [OF hs]
      by (intro delta [OF hs]) (auto simp: plan_def Let_def tiles_def)
  qed
qed

lemma plan_total: "strip_dims (hs_dock s) = (sw, sh) \<Longrightarrow> strip_hashes rgb w h sw sh = Ok hs \<Longrightarrow> \<exists>s' p. plan w h rgb s = Ok (s', p)"
  by (cases "keyframe_owed (resize w h s)") (simp_all add: plan_def Let_def)

lemma plan_ok:
  assumes "plan w h rgb s = Ok (s', p)" "scan_wf s" "ledger_ok s ring"
  shows "hs_dock s' = hs_dock s" "scan_wf s'" "ledger_ok s' ring" "length (pending s') = tiles s'"
proof -
  obtain sw sh where d: "strip_dims (hs_dock s) = (sw, sh)" by (cases "strip_dims (hs_dock s)")
  note r = resize_ok [OF assms(2,3), of w h]
  have "hs_dock s' = hs_dock s \<and> scan_wf s' \<and> ledger_ok s' ring \<and> length (pending s') = tiles s'"
    using assms(1) d assms(2,3)
  proof (cases rule: plan_cases)
    case (owed hs)
    then show ?thesis
      using r d strip_hashes_length [OF owed(1)] by (simp add: scan_wf_def ledger_ok_def tiles_def)
  next
    case (delta hs)
    have t: "tiles s' = tiles s" unfolding delta(7) by (simp add: tiles_def)
    have "scan_wf s'"
      using assms(2) delta(6) unfolding delta(7)
      by (auto simp: scan_wf_def tiles_def all_set_conv_all_nth charge_nth)
    moreover have "ledger_ok s' ring"
      using assms(3) delta(2,5,6) unfolding ledger_ok_def t unfolding delta(7)
      by (auto simp: charge_nth split: if_splits)
    ultimately show ?thesis using t delta(6) unfolding delta(7) by simp
  qed
  then show "hs_dock s' = hs_dock s" "scan_wf s'" "ledger_ok s' ring" "length (pending s') = tiles s'" by simp_all
qed

text \<open>A dock whose delivery counts reach every buffer of its ring.\<close>

definition delivery_ok :: "Dock \<Rightarrow> nat \<Rightarrow> bool" where
  "delivery_ok dock buffers \<longleftrightarrow> 0 < buffers \<and> buffers \<le> dock_keyframe_presentations dock \<and>
    buffers \<le> dock_delta_presentations dock * dock_damage_frames dock"

lemma profile_delivery:
  assumes "profile_ok (dock_profile dock)"
  shows "delivery_ok dock (unat (dock_buffers (dock_geometry dock)))"
proof -
  have b: "dock_buffers (dock_geometry dock) = dock_buffers (geometry (dock_profile dock))"
    by (simp add: dock_geometry_def Let_def with_depth_def geometry_opening_def)
  have "dock_buffers (geometry (dock_profile dock)) \<noteq> 0"
    by (simp add: geometry_def Let_def with_steady_sub_bit_def with_coding_def Geometry_new_def max_def) auto
  then show ?thesis
    using assms unfolding delivery_ok_def b
    by (simp add: profile_ok_def Let_def dock_keyframe_presentations_def dock_delta_presentations_def
        dock_damage_frames_def unat_gt_0)
qed

lemma mult_step: "j < n * (d - (x - 1)) \<Longrightarrow> \<not> j < n \<Longrightarrow> 0 < x \<Longrightarrow> x \<le> d \<Longrightarrow> j - n < n * (d - x)" for j n d x :: nat
proof -
  assume a: "j < n * (d - (x - 1))" "\<not> j < n" "0 < x" "x \<le> d"
  then have "d - (x - 1) = Suc (d - x)" by simp
  from a(1) [unfolded this] have "j < n + n * (d - x)" by simp
  then show ?thesis using a(2) by linarith
qed

lemma shown_ok:
  assumes "plan w h rgb s = Ok (s', p)" "scan_wf s" "ledger_ok s ring" "delivery_ok (hs_dock s) (length ring)"
  shows "scan_wf (presented p s')"
    "ledger_ok (presented p s') (present (plan_presentations s' p) (sent s' p) ((!) (pending s')) ring)"
proof -
  note pl = plan_ok [OF assms(1-3)]
  have ne: "ring \<noteq> []" using assms(4) by (auto simp: delivery_ok_def)
  show "scan_wf (presented p s')"
    using pl(2) by (auto simp: presented_def scan_wf_def tiles_def split: Plan.splits)
  have keyframe: "ledger_ok (presented Keyframe s') (present (plan_presentations s' Keyframe) (sent s' Keyframe) ((!) (pending s')) ring)"
  proof -
    have "length ring \<le> plan_presentations s' Keyframe"
      using assms(4) pl(1) by (simp add: delivery_ok_def plan_presentations_def)
    then show ?thesis
      using keyframe_sends_all [of _ s'] ne
      by (auto simp: ledger_ok_def presented_def tiles_def present_nth_sent)
  qed
  obtain sw sh where d: "strip_dims (hs_dock s) = (sw, sh)" by (cases "strip_dims (hs_dock s)")
  show "ledger_ok (presented p s') (present (plan_presentations s' p) (sent s' p) ((!) (pending s')) ring)"
    using assms(1) d assms(2,3)
  proof (cases rule: plan_cases)
    case (owed hs)
    then show ?thesis using keyframe by simp
  next
    case (delta hs)
    let ?D = "dock_damage_frames (hs_dock s)" and ?P = "dock_delta_presentations (hs_dock s)"
    have t: "tiles s' = tiles s" "pending s' = hs" "hashes s' = hashes s" "w_pad s' = w" "h_pad s' = h" "hs_dock s' = hs_dock s"
      using delta(3,4) unfolding delta(7) by (simp_all add: tiles_def)
    have dbt: "debt s' ! i = (if hashes s ! i \<noteq> hs ! i then ?D else debt s ! i)" if "i < tiles s" for i
      using that delta(6) unfolding delta(7) by (simp add: charge_nth)
    show ?thesis
    proof (cases "owed_rects (debt s') (w div sw) (h div sh) sw sh")
      case None
      then show ?thesis using keyframe delta(8) by simp
    next
      case (Some rects)
      show ?thesis
      proof (cases "rects = []")
        case True
        then have "p = Idle" using delta(8) Some by simp
        then show ?thesis using pl(3) by (simp add: presented_def plan_presentations_def present_def)
      next
        case False
        then have p: "p = Damage rects" using delta(8) Some by simp
        have "((present ?P (sent s' p) ((!) hs) ring) ! j) i = hs ! i"
          if i: "i < tiles s" and j: "j < length ring" and paid: "j < ?P * (?D - (debt s' ! i - 1))" for i j
        proof (cases "0 < debt s' ! i")
          case True
          then have "i \<in> sent s' p"
            using damage_sends_owed [of s' sw sh "debt s'" rects i] d i Some pl(2) unfolding p
            by (simp add: t scan_wf_def)
          moreover have "(ring ! (j - ?P)) i = hs ! i" if "\<not> j < ?P"
          proof -
            have "debt s' ! i \<le> ?D" using pl(2) i t by (auto simp: scan_wf_def all_set_conv_all_nth)
            from mult_step [OF paid that True this] have "j - ?P < ?P * (?D - debt s' ! i)" .
            then show ?thesis
              using assms(3) delta(2,5,6) dbt [OF i] i j by (auto simp: ledger_ok_def split: if_splits)
          qed
          ultimately show ?thesis using j by (simp add: present_nth_sent)
        next
          case False
          have "0 < ?P * ?D" using assms(4) unfolding delivery_ok_def by linarith
          with False dbt [OF i] have "hashes s ! i = hs ! i" "debt s ! i = 0" by (auto split: if_splits)
          moreover from this have "\<forall>j<length ring. (ring ! j) i = hs ! i"
            using assms(3,4) delta(2,5,6) i by (auto simp: ledger_ok_def delivery_ok_def)
          ultimately show ?thesis using present_keeps [of ring i "hs ! i" "sent s' p" "(!) hs"] j by simp
        qed
        then show ?thesis
          using ne pl(2) by (auto simp: p ledger_ok_def presented_def plan_presentations_def t scan_wf_def)
      qed
    qed
  qed
qed

text \<open>Encoding changes nothing but the cache.\<close>

definition same_but_cache :: "HeadScanout \<Rightarrow> HeadScanout \<Rightarrow> bool" where
  "same_but_cache s s' \<longleftrightarrow> s' = s\<lparr>bodies := bodies s', body_hashes := body_hashes s'\<rparr> \<and>
    length (bodies s') = length (bodies s) \<and> length (body_hashes s') = length (body_hashes s)"

lemma same_but_cache_refl: "same_but_cache s s"
  by (simp add: same_but_cache_def)

lemma same_but_cache_trans: "same_but_cache s s' \<Longrightarrow> same_but_cache s' s'' \<Longrightarrow> same_but_cache s s''"
  unfolding same_but_cache_def by (cases s; cases s'; cases s'') simp

lemma encode_one_keeps: "encode_one rgb s c = Ok (s', b) \<Longrightarrow> same_but_cache s s'"
  by (cases c) (auto simp: encode_one_def Let_def bind_Ok_iff same_but_cache_def split: prod.splits option.splits if_splits)

lemma encode_all_keeps: "encode_all rgb s cs = Ok (s', bs) \<Longrightarrow> same_but_cache s s'"
proof (induction cs arbitrary: s bs)
  case (Cons c cs)
  then obtain s1 b1 bs1 where "encode_one rgb s c = Ok (s1, b1)" "encode_all rgb s1 cs = Ok (s', bs1)"
    by (auto simp: bind_Ok_iff)
  then show ?case using Cons.IH encode_one_keeps same_but_cache_trans by blast
qed (simp add: same_but_cache_refl)

lemma encode_keeps: "encode p rgb head s = Ok (s', f) \<Longrightarrow> same_but_cache s s'"
  by (auto simp: encode_def bind_Ok_iff same_but_cache_refl split: if_splits dest: encode_all_keeps)

lemma same_but_cache_ok:
  assumes "same_but_cache s s'" "scan_wf s" "ledger_ok s ring"
  shows "hs_dock s' = hs_dock s" "scan_wf s'" "ledger_ok s' ring" "tiles s' = tiles s"
proof -
  obtain b bh where "s' = s\<lparr>bodies := b, body_hashes := bh\<rparr>" "length b = length (bodies s)" "length bh = length (body_hashes s)"
    using assms(1) by (auto simp: same_but_cache_def)
  then show "hs_dock s' = hs_dock s" "scan_wf s'" "ledger_ok s' ring" "tiles s' = tiles s"
    using assms(2,3) by (simp_all add: scan_wf_def ledger_ok_def)
qed

definition scan_inv :: "Dock \<Rightarrow> HeadScanout \<times> ring \<Rightarrow> bool" where
  "scan_inv dock = (\<lambda>(s, ring). hs_dock s = dock \<and> scan_wf s \<and> ledger_ok s ring \<and>
    length ring = unat (dock_buffers (dock_geometry dock)))"

lemma presented_dock [simp]: "hs_dock (presented p s) = hs_dock s"
  by (simp add: presented_def split: Plan.splits)

lemma scan_inv_reachable:
  assumes "reachable dock c" "profile_ok (dock_profile dock)"
  shows "scan_inv dock c"
  using assms(1)
proof (induction rule: reachable.induct)
  case (start ring)
  then show ?case
    by (simp add: scan_inv_def HeadScanout_new_def scan_wf_def ledger_ok_def tiles_def split: prod.splits)
next
  case (step c c')
  obtain s ring where c: "c = (s, ring)" by (cases c)
  have inv: "hs_dock s = dock" "scan_wf s" "ledger_ok s ring" "length ring = unat (dock_buffers (dock_geometry dock))"
    using step.IH c by (simp_all add: scan_inv_def)
  have del: "delivery_ok (hs_dock s) (length ring)" using profile_delivery [OF assms(2)] inv by simp
  then have ne: "ring \<noteq> []" by (auto simp: delivery_ok_def)
  from step.hyps(2) show ?case unfolding c
  proof (cases rule: scan_step.cases)
    case (shown w h rgb s' p)
    then have "plan w h rgb s = Ok (s', p)" by simp
    then show ?thesis
      using shown_ok [OF _ inv(2,3) del] plan_ok(1) [OF _ inv(2,3)] inv ne shown by (simp add: scan_inv_def)
  next
    case (lost w h rgb s' p)
    then show ?thesis using plan_ok(1-3) [of w h rgb s s' p, OF _ inv(2,3)] inv by (simp add: scan_inv_def)
  next
    case (encoded p rgb head s' f)
    then show ?thesis
      using same_but_cache_ok(1-3) [OF encode_keeps [of p rgb head s s' f] inv(2,3)] inv by (simp add: scan_inv_def)
  next
    case owed
    then show ?thesis using inv by (simp add: scan_inv_def owe_keyframe_def scan_wf_def ledger_ok_def)
  qed
qed

section \<open>The body cache\<close>

text \<open>Every cached body was encoded from a surface whose strip had the recorded hash.\<close>

definition tile_coord :: "HeadScanout \<Rightarrow> nat \<Rightarrow> nat \<times> nat" where
  "tile_coord s i = (case strip_dims (hs_dock s) of (sw, sh) \<Rightarrow> (i mod (w_pad s div sw) * sw, i div (w_pad s div sw) * sh))"

definition surface_hashes :: "HeadScanout \<Rightarrow> bytes \<Rightarrow> u64 list result" where
  "surface_hashes s rgb = (case strip_dims (hs_dock s) of (sw, sh) \<Rightarrow> strip_hashes rgb (w_pad s) (h_pad s) sw sh)"

definition tile_body :: "HeadScanout \<Rightarrow> bytes \<Rightarrow> nat \<Rightarrow> bytes result" where
  "tile_body s rgb i = (case tile_coord s i of (sx, sy) \<Rightarrow> encode_strip (hs_dock s) (w_pad s) rgb sx sy)"

definition cache_ok :: "bytes set \<Rightarrow> HeadScanout \<Rightarrow> bool" where
  "cache_ok rgbs s \<longleftrightarrow> (\<forall>i<tiles s. \<forall>b. bodies s ! i = Some b \<longrightarrow>
    (\<exists>rgb\<in>rgbs. \<exists>hs. surface_hashes s rgb = Ok hs \<and> hs ! i = body_hashes s ! i \<and> tile_body s rgb i = Ok b))"

definition no_collision :: "HeadScanout \<Rightarrow> bytes set \<Rightarrow> bytes \<Rightarrow> bool" where
  "no_collision s rgbs rgb \<longleftrightarrow> (\<forall>rgb'\<in>rgbs. \<forall>hs hs' i. surface_hashes s rgb = Ok hs \<and> surface_hashes s rgb' = Ok hs' \<and>
    i < tiles s \<and> hs' ! i = hs ! i \<longrightarrow> tile_body s rgb' i = tile_body s rgb i)"

lemma plan_coord_tile:
  assumes "aligned (dock_geometry (hs_dock s)) (w_pad s) (h_pad s)" "(sx, sy) \<in> set (plan_coords s p)"
    "strip_dims (hs_dock s) = (sw, sh)"
  shows "sy div sh * (w_pad s div sw) + sx div sw < tiles s"
    "tile_coord s (sy div sh * (w_pad s div sw) + sx div sw) = (sx, sy)"
proof -
  have g: "sw = strip_w (dock_geometry (hs_dock s))" "sh = strip_h (dock_geometry (hs_dock s))"
    using assms(3) by (simp_all add: strip_dims_def)
  have "(sx, sy) \<in> set (all_strip_coords (dock_geometry (hs_dock s)) (w_pad s) (h_pad s))"
    using assms(2) damage_subset by (fastforce simp: plan_coords_def split: Plan.splits)
  then have c: "sx < w_pad s" "sy < h_pad s" "sw dvd sx" "sh dvd sy" by (simp_all add: all_strip_coords_iff g)
  have al: "sw dvd w_pad s" "sh dvd h_pad s" using assms(1) by (simp_all add: aligned_def g mod_eq_0_iff_dvd)
  then have x: "sx div sw < w_pad s div sw" and y: "sy div sh < h_pad s div sh"
    using c strip_dims_sizes [OF assms(3)] by (auto elim!: dvdE)
  have "sy div sh * (w_pad s div sw) + sx div sw < Suc (sy div sh) * (w_pad s div sw)" using x by simp
  also have "\<dots> \<le> h_pad s div sh * (w_pad s div sw)" using y by (intro mult_right_mono) auto
  finally show "sy div sh * (w_pad s div sw) + sx div sw < tiles s" using assms(3) by (simp add: tiles_def mult.commute)
  have "(sy div sh * (w_pad s div sw) + sx div sw) mod (w_pad s div sw) = sx div sw"
    "(sy div sh * (w_pad s div sw) + sx div sw) div (w_pad s div sw) = sy div sh" using x by simp_all
  then show "tile_coord s (sy div sh * (w_pad s div sw) + sx div sw) = (sx, sy)"
    using c(3,4) by (simp add: tile_coord_def assms(3))
qed

lemma same_but_cache_views:
  assumes "same_but_cache s s'"
  shows "tile_coord s' = tile_coord s" "surface_hashes s' = surface_hashes s" "tile_body s' = tile_body s"
    "plan_coords s' = plan_coords s" "tiles s' = tiles s" "pending s' = pending s" "hs_dock s' = hs_dock s" "w_pad s' = w_pad s" "h_pad s' = h_pad s"
    "debt s' = debt s"
proof -
  obtain b bh where "s' = s\<lparr>bodies := b, body_hashes := bh\<rparr>" using assms by (auto simp: same_but_cache_def)
  then show "tile_coord s' = tile_coord s" "surface_hashes s' = surface_hashes s" "tile_body s' = tile_body s"
    "plan_coords s' = plan_coords s" "tiles s' = tiles s" "pending s' = pending s" "hs_dock s' = hs_dock s" "w_pad s' = w_pad s" "h_pad s' = h_pad s"
    "debt s' = debt s"
    by (simp_all add: fun_eq_iff tile_coord_def surface_hashes_def tile_body_def plan_coords_def split: Plan.splits)
qed

lemma encode_one_fresh:
  assumes "encode_one rgb s (sx, sy) = Ok (s', b)" "strip_dims (hs_dock s) = (sw, sh)"
    and i: "i = sy div sh * (w_pad s div sw) + sx div sw" "i < tiles s" "tile_coord s i = (sx, sy)"
    and ok: "cache_ok rgbs s" "surface_hashes s rgb = Ok (pending s)" "no_collision s rgbs rgb" "scan_wf s"
  shows "encode_strip (hs_dock s) (w_pad s) rgb sx sy = Ok b \<and> cache_ok (insert rgb rgbs) s'"
proof (cases "\<exists>b'. bodies s ! i = Some b' \<and> body_hashes s ! i = pending s ! i")
  case True
  then have b: "bodies s ! i = Some b" "body_hashes s ! i = pending s ! i" "s' = s"
    using assms(1,2) i(1) by (auto simp: encode_one_def Let_def split: if_splits)
  obtain rgb0 hs0 where "rgb0 \<in> rgbs" "surface_hashes s rgb0 = Ok hs0" "hs0 ! i = body_hashes s ! i" "tile_body s rgb0 i = Ok b"
    using ok(1) i(2) b(1) unfolding cache_ok_def by blast
  then have "tile_body s rgb i = Ok b" using ok(2,3) i(2) b(2) unfolding no_collision_def by metis
  then show ?thesis using ok(1) b(3) i(3) by (auto simp: tile_body_def cache_ok_def)
next
  case False
  then have e: "encode_strip (hs_dock s) (w_pad s) rgb sx sy = Ok b"
    and s': "s' = s\<lparr>bodies := (bodies s)[i := Some b], body_hashes := (body_hashes s)[i := pending s ! i]\<rparr>"
    using assms(1,2) i(1)
    by (auto simp: encode_one_def Let_def bind_Ok_iff split: if_splits option.splits)
  have len: "i < length (bodies s)" "i < length (body_hashes s)" using ok(4) i(2) by (simp_all add: scan_wf_def)
  have v: "same_but_cache s s'" using encode_one_keeps [OF assms(1)] .
  have "tile_body s rgb i = Ok b" using e i(3) by (simp add: tile_body_def)
  then have "cache_ok (insert rgb rgbs) s'"
    using ok(1,2) len unfolding cache_ok_def same_but_cache_views [OF v] unfolding s'
    by (auto simp: nth_list_update split: if_splits)
  then show ?thesis using e by simp
qed

lemma no_collision_insert: "no_collision s rgbs rgb \<Longrightarrow> no_collision s (insert rgb rgbs) rgb"
  by (auto simp: no_collision_def)

lemma encode_all_fresh:
  assumes "encode_all rgb s cs = Ok (s', bs)" "set cs \<subseteq> set (plan_coords s p)"
    "aligned (dock_geometry (hs_dock s)) (w_pad s) (h_pad s)" "rgb \<in> rgbs"
    "cache_ok rgbs s" "surface_hashes s rgb = Ok (pending s)" "no_collision s rgbs rgb" "scan_wf s"
  shows "traverse (\<lambda>(sx, sy). encode_strip (hs_dock s) (w_pad s) rgb sx sy) cs = Ok bs \<and> cache_ok rgbs s'"
  using assms(1,2,3,5,6,7,8)
proof (induction cs arbitrary: s bs)
  case (Cons c cs)
  obtain sx sy where c: "c = (sx, sy)" by (cases c)
  obtain sw sh where d: "strip_dims (hs_dock s) = (sw, sh)" by (cases "strip_dims (hs_dock s)")
  obtain s1 b1 bs1 where one: "encode_one rgb s (sx, sy) = Ok (s1, b1)" and rest: "encode_all rgb s1 cs = Ok (s', bs1)"
    and bs: "bs = b1 # bs1"
    using Cons.prems(1) c by (auto simp: bind_Ok_iff)
  have "(sx, sy) \<in> set (plan_coords s p)" using Cons.prems(2) c by simp
  note f = encode_one_fresh [OF one d refl plan_coord_tile [OF Cons.prems(3) this d] Cons.prems(4-7)]
  have v: "same_but_cache s s1" using encode_one_keeps [OF one] .
  have "cache_ok rgbs s1" using f assms(4) by (simp add: insert_absorb)
  moreover have "scan_wf s1" "no_collision s1 rgbs rgb"
    using Cons.prems(6,7) same_but_cache_views [OF v] v by (auto simp: scan_wf_def no_collision_def same_but_cache_def)
  ultimately have "traverse (\<lambda>(sx, sy). encode_strip (hs_dock s1) (w_pad s1) rgb sx sy) cs = Ok bs1 \<and> cache_ok rgbs s'"
    using Cons.IH [OF rest] Cons.prems(2,3,5) same_but_cache_views [OF v] by simp
  then show ?case using f same_but_cache_views [OF v] by (simp add: c bs)
qed simp

section \<open>The retransmissions end\<close>

text \<open>Presenting the same surface again and again.\<close>

definition show_surface :: "nat \<Rightarrow> nat \<Rightarrow> bytes \<Rightarrow> HeadScanout \<Rightarrow> HeadScanout" where
  "show_surface w h rgb s = (case plan w h rgb s of Inr (s', p) \<Rightarrow> presented p s' | Inl _ \<Rightarrow> s)"

definition settled :: "nat \<Rightarrow> nat \<Rightarrow> u64 list \<Rightarrow> nat \<Rightarrow> HeadScanout \<Rightarrow> bool" where
  "settled w h hs m s \<longleftrightarrow> w_pad s = w \<and> h_pad s = h \<and> hashes s = hs \<and> \<not> keyframe_owed s \<and>
    length (debt s) = length hs \<and> (\<forall>d\<in>set (debt s). d \<le> m)"

lemma run_end_nil: "row ! tx = 0 \<Longrightarrow> run_end row tiles_x tx = tx"
  by (subst run_end.simps) simp

lemma owed_row_nil: "\<forall>x. tx \<le> x \<and> x < tiles_x \<longrightarrow> row ! x = 0 \<Longrightarrow> owed_row row tiles_x sw sh ty tx rects = Some rects"
proof (induction row tiles_x sw sh ty tx rects rule: owed_row.induct)
  case (1 row tiles_x sw sh ty tx rects)
  then show ?case by (subst owed_row.simps) simp
qed

lemma owed_rects_nil:
  assumes "\<forall>d\<in>set dbt. d = 0" "length dbt = tiles_x * tiles_y"
  shows "owed_rects dbt tiles_x tiles_y sw sh = Some []"
proof -
  have "owed_bands dbt tiles_x sw sh tys [] = Some []" if "\<forall>ty\<in>set tys. ty < tiles_y" for tys
    using that
  proof (induction tys)
    case (Cons ty tys)
    have "drop (ty * tiles_x) dbt ! x = 0" if "x < tiles_x" for x
    proof -
      have "Suc ty * tiles_x \<le> tiles_y * tiles_x" using Cons.prems by (intro mult_right_mono) auto
      then have "ty * tiles_x + x < length dbt" using that assms(2) by (simp add: mult.commute)
      then show ?thesis using assms(1) by simp
    qed
    then show ?case using Cons by (simp add: owed_row_nil)
  qed simp
  then show ?thesis by (simp add: owed_rects_def)
qed

lemma charge_same: "length dbt = length hs \<Longrightarrow> charge d hs hs dbt = dbt"
  by (auto simp: charge_def intro: nth_equalityI)

lemma plan_settled:
  assumes "settled w h hs m s" "strip_dims (hs_dock s) = (sw, sh)" "strip_hashes rgb w h sw sh = Ok hs"
  shows "plan w h rgb s = Ok (s\<lparr>pending := hs\<rparr>, case owed_rects (debt s) (w div sw) (h div sh) sw sh of
      None \<Rightarrow> Keyframe | Some rects \<Rightarrow> if rects = [] then Idle else Damage rects)"
proof -
  have "resize w h s = s"
    using assms strip_hashes_length [OF assms(3)] by (simp add: resize_def settled_def)
  moreover have "s\<lparr>pending := hs, debt := debt s\<rparr> = s\<lparr>pending := hs\<rparr>" by simp
  ultimately show ?thesis
    using assms(1,2,3) by (simp add: plan_def Let_def settled_def charge_same)
qed

lemma settle_step:
  assumes "settled w h hs m s" "strip_dims (hs_dock s) = (sw, sh)" "strip_hashes rgb w h sw sh = Ok hs"
  shows "settled w h hs (m - 1) (show_surface w h rgb s)"
proof -
  have "\<forall>d\<in>set (debt s). d = 0" if "owed_rects (debt s) (w div sw) (h div sh) sw sh = Some []"
    using owed_rects_empty [OF that] strip_dims_sizes [OF assms(2)] strip_hashes_length [OF assms(3)] assms(1)
    by (auto simp: settled_def in_set_conv_nth)
  then show ?thesis
    using assms(1) unfolding show_surface_def plan_settled [OF assms]
    by (auto simp: settled_def presented_def diff_le_mono split: option.splits)
qed

lemma settles:
  assumes "settled w h hs m s" "strip_dims (hs_dock s) = (sw, sh)" "strip_hashes rgb w h sw sh = Ok hs"
  shows "settled w h hs (m - k) ((show_surface w h rgb ^^ k) s) \<and> hs_dock ((show_surface w h rgb ^^ k) s) = hs_dock s"
proof (induction k)
  case (Suc k)
  have "hs_dock (show_surface w h rgb s) = hs_dock s" if "settled w h hs m s" "strip_dims (hs_dock s) = (sw, sh)" for m s
    unfolding show_surface_def plan_settled [OF that assms(3)] by simp
  then show ?case
    using Suc settle_step [of w h hs "m - k" "(show_surface w h rgb ^^ k) s" sw sh rgb] assms(2,3) by auto
qed (use assms in simp)

lemma first_show_settles:
  assumes "scan_wf s" "ledger_ok s ring" "strip_dims (hs_dock s) = (sw, sh)" "strip_hashes rgb w h sw sh = Ok hs"
    "profile_ok (dock_profile (hs_dock s))"
  shows "settled w h hs (dock_damage_frames (hs_dock s) - 1) (show_surface w h rgb s)"
    "hs_dock (show_surface w h rgb s) = hs_dock s"
proof -
  let ?D = "dock_damage_frames (hs_dock s)"
  note d = assms(3) and hs = assms(4)
  obtain s' p where pl: "plan w h rgb s = Ok (s', p)" using plan_total [OF d hs] by blast
  note r = resize_ok [OF assms(1,2), of w h] and ok = plan_ok [OF pl assms(1,2)]
  have "settled w h hs (?D - 1) (presented p s')"
    using pl d assms(1,2)
  proof (cases rule: plan_cases)
    case (owed hs')
    then show ?thesis
      using hs r strip_hashes_length [OF hs] ok(2,4)
      by (auto simp: settled_def presented_def scan_wf_def)
  next
    case (delta hs')
    have z: "\<forall>i<length hs. debt s' ! i = 0 \<and> hashes s ! i = hs ! i" if "p = Idle"
    proof -
      have "owed_rects (debt s') (w div sw) (h div sh) sw sh = Some []"
        using delta(8) that by (auto split: option.splits if_splits)
      from owed_rects_empty [OF this] have "\<forall>i<length hs. debt s' ! i = 0"
        using strip_dims_sizes [OF d] ok(2) strip_hashes_length [OF hs] delta hs by (auto simp: scan_wf_def)
      moreover have "0 < ?D" using profile_delivery [OF assms(5)] by (auto simp: delivery_ok_def intro: Nat.gr0I)
      ultimately show ?thesis using delta hs by (auto simp: charge_nth split: if_splits)
    qed
    have len: "length (debt s') = length hs" "length (hashes s) = length hs" "w_pad s' = w" "h_pad s' = h" "pending s' = hs"
        "\<not> keyframe_owed s'" "hashes s' = hashes s"
      using delta hs by simp_all
    have "\<forall>d\<in>set (debt s'). d \<le> ?D" using ok(1,2) by (simp add: scan_wf_def)
    then show ?thesis
      using len z by (cases p) (auto simp: settled_def presented_def all_set_conv_all_nth intro: nth_equalityI)
  qed
  then show "settled w h hs (?D - 1) (show_surface w h rgb s)" "hs_dock (show_surface w h rgb s) = hs_dock s"
    using ok(1) by (simp_all add: show_surface_def pl)
qed

section \<open>Properties\<close>



text \<open>
  C22: A still desktop goes quiet. From any reachable state, presenting one readable surface repeatedly, the planner
  sends nothing after at most \<open>damage_frames\<close> presentations.
\<close>

theorem retransmissions_end:
  assumes "reachable dock (s, ring)" "profile_ok (dock_profile dock)"
    "strip_hashes rgb w h (strip_w (dock_geometry dock)) (strip_h (dock_geometry dock)) = Ok hs"
    "dock_damage_frames dock \<le> n" "0 < n"
  shows "\<exists>s'. plan w h rgb ((show_surface w h rgb ^^ n) s) = Ok (s', Idle)"
proof -
  have inv: "hs_dock s = dock" "scan_wf s" "ledger_ok s ring"
    using scan_inv_reachable [OF assms(1,2)] by (simp_all add: scan_inv_def)
  define sw sh where "sw = strip_w (dock_geometry dock)" and "sh = strip_h (dock_geometry dock)"
  have d: "strip_dims (hs_dock s) = (sw, sh)" using inv(1) by (simp add: strip_dims_def sw_def sh_def)
  have hs: "strip_hashes rgb w h sw sh = Ok hs" using assms(3) by (simp add: sw_def sh_def)
  note first = first_show_settles [OF inv(2,3) d hs, unfolded inv(1), OF assms(2)]
  obtain m where n: "n = Suc m" using assms(5) by (cases n) auto
  have m: "dock_damage_frames dock - 1 - m = 0" using assms(4) n by simp
  have it: "(show_surface w h rgb ^^ n) s = (show_surface w h rgb ^^ m) (show_surface w h rgb s)"
    unfolding n by (simp add: funpow_swap1)
  have "strip_dims (hs_dock (show_surface w h rgb s)) = (sw, sh)" using first(2) d inv(1) by simp
  from settles [OF first(1) this hs, of m]
  have st: "settled w h hs 0 ((show_surface w h rgb ^^ n) s)" "strip_dims (hs_dock ((show_surface w h rgb ^^ n) s)) = (sw, sh)"
    using m first(2) d inv(1) by (simp_all add: it)
  then have "owed_rects (debt ((show_surface w h rgb ^^ n) s)) (w div sw) (h div sh) sw sh = Some []"
    using strip_hashes_length [OF hs] by (intro owed_rects_nil) (simp_all add: settled_def)
  then show ?thesis using plan_settled [OF st hs] by simp
qed

text \<open>A Ridge head that was shown one grey strip.\<close>

definition ridge_dock :: Dock where
  "ridge_dock = \<lparr>dock_profile = PROFILE_RIDGE, dock_opening = False, dock_ten_bit = False\<rparr>"

definition grey :: bytes where "grey = replicate 3072 7"

lemma ridge_facts:
  "profile_ok (dock_profile ridge_dock)" "strip_dims ridge_dock = (64, 16)" "unat (dock_buffers (dock_geometry ridge_dock)) = 2"
  "strip_w (dock_geometry ridge_dock) = 64" "strip_h (dock_geometry ridge_dock) = 16" "dock_damage_frames ridge_dock = 3"
  using profile_ok_ridge
  by (simp_all add: ridge_dock_def strip_dims_def strip_w_def strip_h_def dock_geometry_def geometry_def
      PROFILE_RIDGE_def Geometry_new_def with_depth_def with_coding_def with_steady_sub_bit_def Let_def dock_damage_frames_def)

lemma grey_hash: "strip_hashes grey 64 16 64 16 = Ok [strip_hash grey 64 64 16 0 0]"
  by (simp add: strip_hashes_def grey_def list_all_iff)

lemma grey_shown:
  fixes ring :: ring
  assumes "length ring = 2"
  defines "s \<equiv> show_surface 64 16 grey (HeadScanout_new ridge_dock)"
  shows "\<exists>ring'. reachable ridge_dock (s, ring')" "\<exists>s'. plan 64 16 grey s = Ok (s', Idle) \<and> pending s' = [strip_hash grey 64 64 16 0 0]"
proof -
  let ?s0 = "HeadScanout_new ridge_dock"
  have dims: "strip_dims (hs_dock ?s0) = (64, 16)" by (simp add: HeadScanout_new_def ridge_facts)
  obtain s1 where pl: "plan 64 16 grey ?s0 = Ok (s1, Keyframe)"
    and s1: "s1 = (resize 64 16 ?s0)\<lparr>pending := [strip_hash grey 64 64 16 0 0]\<rparr>"
    using dims by (simp add: plan_def Let_def grey_hash resize_def HeadScanout_new_def)
  have s: "s = presented Keyframe s1" by (simp add: s_def show_surface_def pl)
  have "reachable ridge_dock (?s0, ring)" using assms(1) by (intro start) (simp add: ridge_facts)
  from step [OF this shown [OF pl]] show "\<exists>ring'. reachable ridge_dock (s, ring')" unfolding s by blast
  have st: "settled 64 16 [strip_hash grey 64 64 16 0 0] 0 s" "strip_dims (hs_dock s) = (64, 16)"
    using dims by (simp_all add: s s1 settled_def presented_def resize_def HeadScanout_new_def)
  then have "owed_rects (debt s) (64 div 64) (16 div 16) 64 16 = Some []"
    by (intro owed_rects_nil) (simp_all add: settled_def)
  then show "\<exists>s'. plan 64 16 grey s = Ok (s', Idle) \<and> pending s' = [strip_hash grey 64 64 16 0 0]"
    using plan_settled [OF st grey_hash] by simp
qed


theorem retransmissions_end_witness:
  "\<exists>s'. plan 64 16 grey ((show_surface 64 16 grey ^^ 3) (HeadScanout_new ridge_dock)) = Ok (s', Idle)"
proof -
  have "reachable ridge_dock (HeadScanout_new ridge_dock, replicate 2 (\<lambda>_. 0))" by (intro start) (simp add: ridge_facts)
  from retransmissions_end [OF this ridge_facts(1), of grey 64 16 "[strip_hash grey 64 64 16 0 0]" 3]
  show ?thesis by (simp add: ridge_facts grey_hash)
qed

definition blank :: bytes where "blank = replicate 3072 0"

lemma black_blocks:
  assumes "\<forall>(x, y)\<in>set (strip_pixels g ox oy). px x y = (0, 0, 0)"
  shows "colour_strip_blocks g ox oy px = replicate STRIP_BLOCKS black_block"
proof -
  have block: "colour_block (replicate 64 0) (replicate 64 0) (replicate 64 0) = black_block"
    by code_simp
  have "(let (bx, b_y) = block_origin g k;
      samples = concat (map (\<lambda>r. map (\<lambda>c. let (rr, gg, bb) = px (ox + bx * DIM + c) (oy + b_y * DIM + r)
        in colour (uint rr) (uint gg) (uint bb)) [0..<DIM]) [0..<DIM])
    in colour_block (map (\<lambda>(yv, cbv, crv). crv) samples) (map (\<lambda>(yv, cbv, crv). cbv) samples)
      (map (\<lambda>(yv, cbv, crv). yv) samples)) = black_block" if "k < STRIP_BLOCKS" for k
  proof -
    obtain bx b_y where o: "block_origin g k = (bx, b_y)" by (cases "block_origin g k")
    have "px (ox + bx * DIM + c) (oy + b_y * DIM + r) = (0, 0, 0)" if "r < DIM" "c < DIM" for r c
      using assms that \<open>k < STRIP_BLOCKS\<close> o by (force simp: strip_pixels_def)
    then have "concat (map (\<lambda>r. map (\<lambda>c. let (rr, gg, bb) = px (ox + bx * DIM + c) (oy + b_y * DIM + r)
        in colour (uint rr) (uint gg) (uint bb)) [0..<DIM]) [0..<DIM]) = concat (map (\<lambda>r. map (\<lambda>c. (0, 0, 0)) [0..<DIM]) [0..<DIM])"
      by (intro arg_cong [of _ _ concat] map_cong refl) (auto simp: colour_def)
    also have "\<dots> = replicate 64 (0, 0, 0)" by (simp add: DIM_def map_replicate_const upt_rec numeral_eq_Suc)
    finally show ?thesis using block by (simp add: o)
  qed
  then show ?thesis
    by (auto simp: colour_strip_blocks_def map_replicate_const intro!: nth_equalityI)
qed

lemma blank_encodes: "\<exists>b. encode_strip ridge_dock 64 blank 0 0 = Ok b \<and> length b \<le> 4062"
proof -
  let ?g = "dock_geometry ridge_dock"
  have small: "x < 64 \<and> y < 16" if "(x, y) \<in> set (strip_pixels ?g 0 0)" for x y
    using strip_pixels_inside [OF dock_strip_shifts that] by (simp add: ridge_facts)
  then have "strip_readable ?g 64 blank (0, 0)" by (fastforce simp: strip_readable_def list_all_iff blank_def)
  moreover have "colour_strip_blocks ?g 0 0 (rgb_reader False 64 blank) = replicate STRIP_BLOCKS black_block"
    using small by (intro black_blocks) (fastforce simp: rgb_reader_def blank_def widen_def)
  ultimately show ?thesis
    using black_strip [of ?g 0 0] by (simp add: encode_strip_def colour_strip_at_def ridge_dock_def)
qed

lemma blank_coords: "all_strip_coords (dock_geometry ridge_dock) 64 16 = [(0, 0)]"
  by (simp add: all_strip_coords_def ridge_facts strip_starts.simps)


end
