(* ===== verification/Stream_Open.thy ===== *)
theory Stream_Open
  imports Frame_Assembly Control_Messages Display_Mode
begin

text \<open>
  How a connector's video stream is opened and reported on: the sealed records of
  \<open>chimera/src/kvino/kernel_tree/api.rs\<close> (\<open>video_arm_burst\<close>, \<open>stream_prefix\<close>, \<open>navarro_prologue\<close>,
  \<open>sealed_config\<close>, \<open>stream_config_message\<close>, \<open>stream_report\<close>) and the running block counter they share
  (\<open>take_blocks\<close>). A function that takes \<open>seal_seq: &mut u32\<close> returns the advanced counter with its
  result; the bytes \<open>rng::fill\<close> produces are arguments.

  The dock's side is an abstract receiver: it reads a stream of records, expects every sealed record
  at its own counter, opens it and advances by the blocks of its plaintext.
\<close>

section \<open>The mode header\<close>

text \<open>The closure \<open>pad\<close>; \<open>unit.max(1) as u16\<close> is the strip size, which is never a multiple of 65536.\<close>

definition pad_dim :: "u16 \<Rightarrow> nat \<Rightarrow> u16" where
  "pad_dim v u =
    (let u = unat (of_nat (max u 1) :: u16)
     in of_nat (min 65535 ((unat v + u - 1) div u * u)))"

definition stream_mode_header :: "Dock \<Rightarrow> u16 \<Rightarrow> u16 \<Rightarrow> bytes" where
  "stream_mode_header dock width height =
    (let geom = dock_geometry dock
     in mode_header (pad_dim width (strip_w geom)) (pad_dim height (strip_h geom))
          (layout_word (protocol (dock_profile dock))) (dock_ten_bit dock))"

section \<open>The block counter\<close>

definition take_blocks :: "u32 \<Rightarrow> nat \<Rightarrow> u32 \<times> u32" where
  "take_blocks seal_seq len = (seal_seq, seal_seq + of_nat ((len + 15) div 16))"

definition sealed_config ::
  "aes_fn \<Rightarrow> cmac_fn \<Rightarrow> Dock \<Rightarrow> byte \<Rightarrow> bytes \<Rightarrow> bytes \<Rightarrow> u32 \<Rightarrow> u16 \<Rightarrow> bytes \<Rightarrow> u16 \<Rightarrow> u16 \<Rightarrow> bytes \<times> u32" where
  "sealed_config aes cmac dock head key nonce seal_seq aux tail width height =
    (let config = build_config (code_tables (protocol (dock_profile dock)))
           (stream_mode_header dock width height) tail (dock_ten_bit dock);
         stream = stream_id (dock_geometry dock) head;
         (sq, seal_seq) = take_blocks seal_seq (length config)
     in (seal_video_arm aes cmac key nonce stream aux sq config, seal_seq))"

section \<open>The opening of a stream\<close>

text \<open>
  One iteration over \<open>VIDEO_ARM_BURST\<close>; \<open>rand i\<close> are the bytes drawn in iteration \<open>i\<close>, and
  \<open>token i\<close> those \<open>stream_open\<close> draws itself before they are overwritten.
\<close>

definition arm_step ::
  "aes_fn \<Rightarrow> cmac_fn \<Rightarrow> Dock \<Rightarrow> byte \<Rightarrow> bytes \<Rightarrow> bytes \<Rightarrow> bytes \<Rightarrow> (nat \<Rightarrow> bytes) \<Rightarrow> (nat \<Rightarrow> bytes) \<Rightarrow>
   bytes \<times> u32 \<Rightarrow> nat \<times> (u32 \<times> u16 \<times> u16 \<times> nat) \<Rightarrow> bytes \<times> u32" where
  "arm_step aes cmac dock head key nonce hdr token rand st entry =
    (case (st, entry) of ((output, seal_seq), (index, (wire_type, sub_base, aux, body_len))) \<Rightarrow>
     let sub = sub_base + ucast head in
     if index = 2 \<or> index = 3 then
       let content = stream_open (token index) (stream_marker_kind (protocol (dock_profile dock)));
           content = put 6 (rand index) content
       in (output @ seal_video_arm aes cmac key nonce sub aux seal_seq content, seal_seq + 1)
     else if index = 6 \<or> index = 7 then
       let frame = replicate 32 0;
           frame = put 2 (le16 0x001c) frame;
           frame = put 4 (le32 4) frame;
           frame = put 8 (le16 sub) frame;
           frame = put 10 (le16 aux) frame;
           frame = put 16 [0x0a, 0x00, 0x04, 0x00, 0, 0, 0, 0, 0, 0, 0, 0x10, 0, 0, 0, 0] frame
       in (output @ frame, seal_seq)
     else if index = 8 \<or> index = 9 then
       let content = build_config (code_tables (protocol (dock_profile dock))) hdr (rand index)
             (dock_ten_bit dock)
       in (output @ seal_video_arm aes cmac key nonce sub aux seal_seq content,
           seal_seq + of_nat (body_len div 16))
     else
       (output @ video_arm_plain_frame sub (video_arm_plaintext_body index (ucast head)), seal_seq))"

definition video_arm_burst ::
  "aes_fn \<Rightarrow> cmac_fn \<Rightarrow> Dock \<Rightarrow> byte \<Rightarrow> bytes \<Rightarrow> bytes \<Rightarrow> u16 \<Rightarrow> u16 \<Rightarrow> (nat \<Rightarrow> bytes) \<Rightarrow> (nat \<Rightarrow> bytes) \<Rightarrow> bytes" where
  "video_arm_burst aes cmac dock head key nonce width height token rand =
    (let geom = dock_geometry dock;
         hdr = mode_header (pad_dim width (strip_w geom)) (pad_dim height (strip_h geom))
           (layout_word (protocol (dock_profile dock))) (dock_ten_bit dock)
     in fst (foldl (arm_step aes cmac dock head key nonce hdr token rand) ([], 0)
          (enumerate 0 VIDEO_ARM_BURST)))"

definition navarro_ring_record :: "byte \<Rightarrow> u16 \<Rightarrow> bytes" where
  "navarro_ring_record head frame_sub =
    (let ring = replicate 32 0;
         ring = put 2 (le16 0x001c) ring;
         ring = put 4 (le32 4) ring;
         ring = put 8 (le16 frame_sub) ring;
         ring = put 10 (le16 0x0004) ring;
         ring = put 16 [0x0a, 0x00, 0x04] ring;
         ring = ring[19 := ucast frame_sub];
         ring = put 22 (le32 (navarro_pipe_ring head 0)) ring
     in put 26 (le32 (navarro_pipe_ring head 4)) ring)"

definition navarro_prologue ::
  "aes_fn \<Rightarrow> cmac_fn \<Rightarrow> Dock \<Rightarrow> byte \<Rightarrow> bytes \<Rightarrow> bytes \<Rightarrow> u32 \<Rightarrow> u16 \<Rightarrow> u16 \<Rightarrow> bytes \<Rightarrow> bytes \<times> u32" where
  "navarro_prologue aes cmac dock head key nonce seal_seq width height tail =
    (let geom = dock_geometry dock;
         stream = stream_id geom head;
         frame_sub = ucast (connector_selector geom head);
         out = stream_announce stream STREAM_ANNOUNCE_MARKER @
           stream_announce (stream OR 0x0010) STREAM_ANNOUNCE_MARKER;
         descriptor = navarro_pipe_descriptor head;
         (sq, seal_seq) = take_blocks seal_seq (length descriptor);
         out = out @ seal_video_arm aes cmac key nonce stream 0x0000 sq descriptor;
         out = out @ stream_announce frame_sub 0;
         out = out @ navarro_ring_record head frame_sub;
         (config, seal_seq) = sealed_config aes cmac dock head key nonce seal_seq 0x000e tail width height
     in (out @ config, seal_seq))"

definition stream_prefix ::
  "aes_fn \<Rightarrow> cmac_fn \<Rightarrow> Dock \<Rightarrow> byte \<Rightarrow> bytes \<Rightarrow> bytes \<Rightarrow> u32 \<Rightarrow> u16 \<Rightarrow> u16 \<Rightarrow> (nat \<Rightarrow> bytes) \<Rightarrow> (nat \<Rightarrow> bytes) \<Rightarrow>
   bytes \<Rightarrow> bytes \<times> u32" where
  "stream_prefix aes cmac dock head key nonce seal_seq width height token rand tail =
    (if arm_burst (protocol (dock_profile dock)) then
       (video_arm_burst aes cmac dock head key nonce width height token rand, seal_seq)
     else if video_on_ctrl_pipe (topology (dock_profile dock)) then ([], seal_seq)
     else navarro_prologue aes cmac dock head key nonce seal_seq width height tail)"

definition stream_config_message ::
  "aes_fn \<Rightarrow> cmac_fn \<Rightarrow> Dock \<Rightarrow> byte \<Rightarrow> bytes \<Rightarrow> bytes \<Rightarrow> u32 \<Rightarrow> u16 \<Rightarrow> u16 \<Rightarrow> bytes option \<times> u32" where
  "stream_config_message aes cmac dock head key nonce seal_seq width height =
    (if \<not> video_on_ctrl_pipe (topology (dock_profile dock)) then (None, seal_seq)
     else apfst Some (sealed_config aes cmac dock head key nonce seal_seq 0x0000 [] width height))"

section \<open>The report of a frame\<close>

text \<open>\<open>tail\<close> are the random bytes that end whichever report is built.\<close>

definition stream_report ::
  "aes_fn \<Rightarrow> cmac_fn \<Rightarrow> Dock \<Rightarrow> byte \<Rightarrow> bytes \<Rightarrow> bytes \<Rightarrow> u32 \<Rightarrow> u16 \<Rightarrow> u16 \<Rightarrow> bool \<Rightarrow> bytes \<Rightarrow>
   bytes option \<times> u32" where
  "stream_report aes cmac dock head key nonce seal_seq width height restate_mode tail =
    (if arm_burst (protocol (dock_profile dock)) then (None, seal_seq)
     else
       let hdr = stream_mode_header dock width height;
           stream = stream_id (dock_geometry dock) head;
           emit = (\<lambda>aux content. let (sq, seal_seq) = take_blocks seal_seq (length content)
             in (Some (seal_video_arm aes cmac key nonce stream aux sq content), seal_seq))
       in case (restate_mode, video_on_ctrl_pipe (topology (dock_profile dock))) of
            (True, True) \<Rightarrow> emit 0x0006 (stream_report_mode_only tail hdr)
          | (True, False) \<Rightarrow> emit 0x0002 (navarro_stream_report_mode tail hdr)
          | (False, True) \<Rightarrow> (None, seal_seq)
          | (False, False) \<Rightarrow> emit 0x000c (navarro_stream_report tail))"

section \<open>The receiver\<close>

text \<open>
  What the dock does with a connector's records: a type-4 record on one of the connector's sealed
  streams must be at the counter the dock has reached and must open there; other records pass.
\<close>

function receive :: "(u32 \<Rightarrow> bytes \<Rightarrow> bytes result) \<Rightarrow> u16 list \<Rightarrow> u32 \<Rightarrow> bytes \<Rightarrow> (bytes list \<times> u32) option" where
  "receive opener streams counter bs =
    (if bs = [] then Some ([], counter)
     else case frame_decode bs of
       None \<Rightarrow> None
     | Some f \<Rightarrow>
         let rest = drop (16 + length (body f)) bs in
         if msg_type f = 4 \<and> sub_id f \<in> set streams then
           (if seq f \<noteq> counter then None
            else case opener counter (body f) of
              Inl e \<Rightarrow> None
            | Inr pt \<Rightarrow> map_option (apfst (Cons pt))
                (receive opener streams (counter + of_nat ((length pt + 15) div 16)) rest))
         else receive opener streams counter rest)"
  by pat_completeness auto
termination by (relation "measure (\<lambda>(_, _, _, bs). length bs)") auto

declare receive.simps [simp del]

section \<open>A connector's history\<close>

text \<open>
  What a session sends for one connector, in order: the opening of a mode set (the prefix of the
  first frame, or the two control records of a dock that shares its pipe) and the reports of the
  frames. The random bytes of each are part of the operation.
\<close>

datatype stream_op =
    Opening u16 u16 bytes
  | Reporting u16 u16 bool bytes

definition emit ::
  "aes_fn \<Rightarrow> cmac_fn \<Rightarrow> Dock \<Rightarrow> byte \<Rightarrow> bytes \<Rightarrow> bytes \<Rightarrow> stream_op \<Rightarrow> u32 \<Rightarrow> bytes \<times> u32" where
  "emit aes cmac dock head key nonce operation sq =
    (case operation of
       Opening w h tail \<Rightarrow>
         let (prefix, sq) = stream_prefix aes cmac dock head key nonce sq w h (\<lambda>_. []) (\<lambda>_. []) tail;
             ring = (case stream_ring_record dock head of None \<Rightarrow> [] | Some r \<Rightarrow> r);
             (config, sq) = stream_config_message aes cmac dock head key nonce sq w h
         in (prefix @ ring @ (case config of None \<Rightarrow> [] | Some c \<Rightarrow> c), sq)
     | Reporting w h restate tail \<Rightarrow>
         let (report, sq) = stream_report aes cmac dock head key nonce sq w h restate tail
         in (case report of None \<Rightarrow> [] | Some r \<Rightarrow> r, sq))"

fun emit_all ::
  "aes_fn \<Rightarrow> cmac_fn \<Rightarrow> Dock \<Rightarrow> byte \<Rightarrow> bytes \<Rightarrow> bytes \<Rightarrow> stream_op list \<Rightarrow> u32 \<Rightarrow> bytes \<times> u32" where
  "emit_all aes cmac dock head key nonce [] sq = ([], sq)"
| "emit_all aes cmac dock head key nonce (a # as) sq =
    (let (bs, sq) = emit aes cmac dock head key nonce a sq;
         (cs, sq) = emit_all aes cmac dock head key nonce as sq
     in (bs @ cs, sq))"

text \<open>The plaintexts an operation delivers, and the lengths of the random bytes it draws.\<close>

definition delivers :: "Dock \<Rightarrow> byte \<Rightarrow> stream_op \<Rightarrow> bytes list" where
  "delivers dock head operation =
    (let shared = video_on_ctrl_pipe (topology (dock_profile dock));
         config = (\<lambda>w h. build_config (code_tables (protocol (dock_profile dock)))
           (stream_mode_header dock w h))
     in case operation of
       Opening w h tail \<Rightarrow>
         (if shared then [config w h [] (dock_ten_bit dock)]
          else [navarro_pipe_descriptor head, config w h tail (dock_ten_bit dock)])
     | Reporting w h restate tail \<Rightarrow>
         (if shared
          then (if restate then [stream_report_mode_only tail (stream_mode_header dock w h)] else [])
          else if restate then [navarro_stream_report_mode tail (stream_mode_header dock w h)]
          else [navarro_stream_report tail]))"

definition drawn :: "Dock \<Rightarrow> stream_op \<Rightarrow> bool" where
  "drawn dock operation =
    (case operation of
       Opening w h tail \<Rightarrow> length tail = 14
     | Reporting w h restate tail \<Rightarrow> length tail =
         (if \<not> restate then 12 else if video_on_ctrl_pipe (topology (dock_profile dock)) then 6 else 2))"

section \<open>Lemmas\<close>

text \<open>A reading with further plaintexts in front of it.\<close>

definition prepend :: "bytes list \<Rightarrow> (bytes list \<times> u32) option \<Rightarrow> (bytes list \<times> u32) option" where
  "prepend xs r = map_option (apfst (append xs)) r"

lemma prepend_simps [simp]:
  "prepend xs (Some (ys, c)) = Some (xs @ ys, c)" "prepend xs None = None"
  by (simp_all add: prepend_def)

lemma prepend_Nil [simp]: "prepend [] r = r"
  by (cases r) auto

lemma prepend_append [simp]: "prepend xs (prepend ys r) = prepend (xs @ ys) r"
  by (cases r) auto

lemma prepend_single: "prepend [x] r = map_option (apfst (Cons x)) r"
  by (cases r) auto

lemma receive_Nil [simp]: "receive opener ss c [] = Some ([], c)"
  by (simp add: receive.simps)

lemma receive_step:
  assumes "bs \<noteq> []" and "frame_decode bs = Some f" and "drop (16 + length (body f)) bs = rest"
  shows "receive opener ss c bs =
    (if msg_type f = 4 \<and> sub_id f \<in> set ss then
       (if seq f \<noteq> c then None
        else case opener c (body f) of Inl e \<Rightarrow> None
          | Inr pt \<Rightarrow> map_option (apfst (Cons pt))
              (receive opener ss (c + of_nat ((length pt + 15) div 16)) rest))
     else receive opener ss c rest)"
  using assms by (simp add: receive.simps [of opener ss c bs] Let_def)

lemma receive_frame:
  assumes "length bd + 12 < 65536"
  shows "receive opener ss c (header_bytes (16 + length bd) ty sub aux sq @ bd @ rest) =
    (if ty = 4 \<and> sub \<in> set ss then
       (if sq \<noteq> c then None
        else case opener c bd of Inl e \<Rightarrow> None
          | Inr pt \<Rightarrow> map_option (apfst (Cons pt))
              (receive opener ss (c + of_nat ((length pt + 15) div 16)) rest))
     else receive opener ss c rest)"
proof -
  have "header_bytes (16 + length bd) ty sub aux sq @ bd @ rest \<noteq> []"
    by (simp add: header_bytes_def)
  from receive_step [OF this frame_decode_header [OF assms], of rest opener ss c] show ?thesis
    by simp
qed

lemma receive_sealed:
  assumes "length pt + 28 < 65536" and "sub \<in> set ss"
  shows "receive (open_in aes cmac key nonce) ss c (seal_video_arm aes cmac key nonce sub aux c pt @ rest) =
    prepend [pt]
      (receive (open_in aes cmac key nonce) ss (c + of_nat ((length pt + 15) div 16)) rest)"
  using assms receive_frame [of "sealed_body aes cmac key c nonce pt" "open_in aes cmac key nonce" ss c 4 sub aux c rest]
    open_in_iff_sealed_body [of aes cmac key nonce c "sealed_body aes cmac key c nonce pt" pt]
  by (simp add: seal_video_arm_body prepend_single add.commute)

lemma receive_sealed_stale:
  assumes "length pt + 28 < 65536" and "sub \<in> set ss" and "sq \<noteq> c"
  shows "receive opener ss c (seal_video_arm aes cmac key nonce sub aux sq pt @ rest) = None"
  using assms receive_frame [of "sealed_body aes cmac key sq nonce pt" opener ss c 4 sub aux sq rest]
  by (simp add: seal_video_arm_body add.commute)

text \<open>A record that is not a sealed one of the connector is passed over.\<close>

lemma receive_skip:
  assumes "16 \<le> length r" and "unat (rd16 2 r) = length r - 4" and "rd32 4 r \<noteq> 4 \<or> rd16 8 r \<notin> set ss"
  shows "receive opener ss c (r @ rest) = receive opener ss c rest"
proof -
  have "\<exists>f. frame_decode (r @ rest) = Some f \<and> msg_type f = rd32 4 r \<and> sub_id f = rd16 8 r \<and>
      16 + length (body f) = length r"
    using assms(1,2) by (simp add: frame_decode_def Let_def)
  then obtain f where f: "frame_decode (r @ rest) = Some f" "msg_type f = rd32 4 r"
      "sub_id f = rd16 8 r" "16 + length (body f) = length r"
    by blast
  have "r @ rest \<noteq> []" using assms(1) by auto
  then show ?thesis
    using receive_step [OF _ f(1), of rest opener ss c] assms(3) f(2-4) by auto
qed

lemma announce_record [simp]:
  "length (stream_announce sub m) = 32" "unat (rd16 2 (stream_announce sub m)) = 28"
  "rd32 4 (stream_announce sub m) = 2"
  by (simp_all add: stream_announce_def video_arm_plain_frame_def Let_def record_header_bytes)

lemma ring_record [simp]:
  "length (navarro_ring_record head sub) = 32" "unat (rd16 2 (navarro_ring_record head sub)) = 28"
  "rd16 8 (navarro_ring_record head sub) = sub"
  by (simp_all add: navarro_ring_record_def Let_def)

lemma ella_record [simp]:
  "length (ella_stream_open g head) = 48" "unat (rd16 2 (ella_stream_open g head)) = 44"
  "rd16 8 (ella_stream_open g head) = ucast (connector_selector g head)"
  by (simp_all add: ella_stream_open_def ella_record_header_def record_header_bytes Let_def)

lemma length_build_config:
  "length (build_config tables hdr tail t) =
    length hdr + (case tables of Wide \<Rightarrow> 980 | Narrow \<Rightarrow> 194) + 84 + length tail"
  by (simp add: build_config_def foldl_push_u16 push_u16_def QUANT_TABLE_def length_concat
      length_wide_record length_narrow_record CODE_TABLES_def NARROW_CODE_TABLES_def upt_rec
      comp_def split: CodeTables.splits)

lemma length_stream_mode_header [simp]: "length (stream_mode_header dock w h) = 26"
  by (simp add: stream_mode_header_def Let_def)

lemma length_reports [simp]:
  "length hdr = 26 \<Longrightarrow> length tail = 6 \<Longrightarrow> length (stream_report_mode_only tail hdr) = 32"
  "length hdr = 26 \<Longrightarrow> length tail = 2 \<Longrightarrow> length (navarro_stream_report_mode tail hdr) = 112"
  "length tail = 12 \<Longrightarrow> length (navarro_stream_report tail) = 96"
  by (simp_all add: stream_report_mode_only_def navarro_stream_report_mode_def
      navarro_stream_report_def Let_def navarro_stream_report_body_words NAVARRO_STREAM_REPORT_def)

text \<open>One operation of a history is read in step.\<close>

lemma receive_emit:
  assumes "\<not> arm_burst (protocol (dock_profile dock))" and "drawn dock operation"
    and sub: "ucast (connector_selector (dock_geometry dock) head) \<noteq> stream_id (dock_geometry dock) head"
  defines "ss \<equiv> [stream_id (dock_geometry dock) head]"
  shows "receive (open_in aes cmac key nonce) ss sq
      (fst (emit aes cmac dock head key nonce operation sq) @ rest) =
    prepend (delivers dock head operation) (receive (open_in aes cmac key nonce) ss
      (snd (emit aes cmac dock head key nonce operation sq)) rest)"
proof (cases operation)
  case (Opening w h tail)
  have len: "length tail = 14" using assms(2) Opening by (simp add: drawn_def)
  show ?thesis
  proof (cases "video_on_ctrl_pipe (topology (dock_profile dock))")
    case True
    then show ?thesis
      using Opening assms(1) sub
      by (simp add: emit_def stream_prefix_def stream_ring_record_def stream_config_message_def
          sealed_config_def take_blocks_def delivers_def ss_def receive_skip receive_sealed
          length_build_config Let_def split: CodeTables.splits)
  next
    case False
    then show ?thesis
      using Opening assms(1) sub len
      by (simp add: emit_def stream_prefix_def stream_ring_record_def stream_config_message_def
          navarro_prologue_def sealed_config_def take_blocks_def delivers_def ss_def receive_skip
          receive_sealed length_build_config Let_def split: CodeTables.splits)
  qed
next
  case (Reporting w h restate tail)
  then show ?thesis
    using assms(1,2)
    by (cases restate; cases "video_on_ctrl_pipe (topology (dock_profile dock))")
      (simp_all add: emit_def stream_report_def take_blocks_def delivers_def drawn_def ss_def
        receive_sealed Let_def)
qed

lemma receive_emit_all:
  assumes "\<not> arm_burst (protocol (dock_profile dock))" and "list_all (drawn dock) ops"
    and "ucast (connector_selector (dock_geometry dock) head) \<noteq> stream_id (dock_geometry dock) head"
  shows "receive (open_in aes cmac key nonce) [stream_id (dock_geometry dock) head] sq
      (fst (emit_all aes cmac dock head key nonce ops sq)) =
    Some (concat (map (delivers dock head) ops), snd (emit_all aes cmac dock head key nonce ops sq))"
  using assms(2)
proof (induction ops arbitrary: sq)
  case (Cons operation ops)
  show ?case
    using Cons.prems receive_emit [OF assms(1) _ assms(3), of operation aes cmac key nonce sq]
      Cons.IH [of "snd (emit aes cmac dock head key nonce operation sq)"]
    by (simp add: split_beta Let_def)
qed simp

lemma plain_frame_record [simp]:
  assumes "length bd = 16"
  shows "length (video_arm_plain_frame sub bd) = 32" "unat (rd16 2 (video_arm_plain_frame sub bd)) = 28"
    "rd32 4 (video_arm_plain_frame sub bd) = 2"
  using assms by (simp_all add: video_arm_plain_frame_def record_header_bytes)

lemma length_video_arm_plaintext_body [simp]: "length (video_arm_plaintext_body i h) = 16"
  by (simp add: video_arm_plaintext_body_def Let_def)

lemma burst_subs:
  fixes h :: u16
  shows "h \<noteq> 8 + h" "h \<noteq> 0x18 + h" "0x10 + h \<noteq> 8 + h" "0x10 + h \<noteq> 0x18 + h"
proof -
  have ne: "a \<noteq> b \<Longrightarrow> a + h \<noteq> b + h" for a b by simp
  from ne [of 0 8] ne [of 0 "0x18"] ne [of "0x10" 8] ne [of "0x10" "0x18"]
  show "h \<noteq> 8 + h" "h \<noteq> 0x18 + h" "0x10 + h \<noteq> 8 + h" "0x10 + h \<noteq> 0x18 + h"
    by simp_all
qed

text \<open>The plaintexts of a burst: two stream markers, then the configuration twice.\<close>

definition burst_delivers :: "Dock \<Rightarrow> u16 \<Rightarrow> u16 \<Rightarrow> (nat \<Rightarrow> bytes) \<Rightarrow> bytes list" where
  "burst_delivers dock width height rand =
    (let q = protocol (dock_profile dock);
         marker = (\<lambda>i. [0x04, 0x00, 0x08, 0x04, stream_marker_kind q, 0x00] @ rand i);
         config = (\<lambda>i. build_config (code_tables q) (stream_mode_header dock width height) (rand i)
           (dock_ten_bit dock))
     in [marker 2, marker 3, config 8, config 9])"

definition burst_drawn :: "(nat \<Rightarrow> bytes) \<Rightarrow> (nat \<Rightarrow> bytes) \<Rightarrow> bool" where
  "burst_drawn token rand = (\<forall>i. length (token i) = 10 \<and> length (rand i) = (if i < 4 then 10 else 14))"

lemma enumerate_burst:
  "enumerate 0 VIDEO_ARM_BURST =
    [(0, 2, 0x0008, 0x0000, 16), (1, 2, 0x0018, 0x0000, 16), (2, 4, 0x0008, 0x000a, 16),
     (3, 4, 0x0018, 0x000a, 16), (4, 2, 0x0000, 0x0000, 16), (5, 2, 0x0010, 0x0000, 16),
     (6, 4, 0x0000, 0x0004, 16), (7, 4, 0x0010, 0x0004, 16), (8, 4, 0x0008, 0x000e, 1104),
     (9, 4, 0x0018, 0x000e, 1104)]"
  by (simp add: VIDEO_ARM_BURST_def eval_nat_numeral)

lemma stream_open_refilled:
  "length t = 10 \<Longrightarrow> length r = 10 \<Longrightarrow>
    put 6 r (stream_open t k) = [0x04, 0x00, 0x08, 0x04, k, 0x00] @ r"
  by (simp add: stream_open_def put_def)

lemma receive_burst:
  fixes head :: byte
  assumes "code_tables (protocol (dock_profile dock)) = Wide" and "burst_drawn token rand"
  defines "ss \<equiv> [8 + ucast head, 0x18 + ucast head]"
  shows "receive (open_in aes cmac key nonce) ss 0
      (video_arm_burst aes cmac dock head key nonce width height token rand @ rest) =
    prepend (burst_delivers dock width height rand)
      (receive (open_in aes cmac key nonce) ss 140 rest)"
proof -
  have lens: "length (token i) = 10" "length (rand i) = (if i < 4 then 10 else 14)" for i
    using assms(2) by (simp_all add: burst_drawn_def)
  have hdr: "mode_header (pad_dim width (strip_w (dock_geometry dock)))
      (pad_dim height (strip_h (dock_geometry dock))) (layout_word (protocol (dock_profile dock)))
      (dock_ten_bit dock) = stream_mode_header dock width height"
    by (simp add: stream_mode_header_def Let_def)
  show ?thesis
    by (simp add: video_arm_burst_def hdr enumerate_burst arm_step_def stream_open_refilled lens
        ss_def receive_skip receive_sealed burst_subs length_build_config assms(1) burst_delivers_def
        Let_def)
qed

lemma burst_delivers_nonempty: "\<exists>pts. burst_delivers dock w h rand =
    ([0x04, 0x00, 0x08, 0x04, stream_marker_kind (protocol (dock_profile dock)), 0x00] @ rand 2) # pts"
  by (simp add: burst_delivers_def Let_def)

text \<open>A second burst begins at a counter the stream has passed.\<close>

lemma receive_second_burst:
  fixes head :: byte
  assumes "code_tables (protocol (dock_profile dock)) = Wide"
    and "burst_drawn token rand" and "burst_drawn token' rand'"
  defines "ss \<equiv> [8 + ucast head, 0x18 + ucast head]"
  shows "receive (open_in aes cmac key nonce) ss 0
      (video_arm_burst aes cmac dock head key nonce width height token rand @
       video_arm_burst aes cmac dock head key nonce width' height' token' rand') = None"
proof -
  have lens: "length (token' i) = 10" "length (rand' i) = (if i < 4 then 10 else 14)" for i
    using assms(3) by (simp_all add: burst_drawn_def)
  have "receive (open_in aes cmac key nonce) ss 140
      (video_arm_burst aes cmac dock head key nonce width' height' token' rand') = None"
    by (simp add: video_arm_burst_def enumerate_burst arm_step_def stream_open_refilled lens
        ss_def receive_skip receive_sealed_stale Let_def)
  then show ?thesis
    using receive_burst [OF assms(1,2), of aes cmac key nonce head] by (simp add: ss_def)
qed

lemma stream_sub_distinct:
  assumes "dock_profile dock \<in> {PROFILE_ELLA, PROFILE_NAVARRO}"
    and "unat head < connectors (topology (dock_profile dock))"
  shows "ucast (connector_selector (dock_geometry dock) head) \<noteq> stream_id (dock_geometry dock) head"
proof -
  let ?g = "\<lambda>p. geometry p"
  have g: "connector_selector (dock_geometry dock) = connector_selector (geometry (dock_profile dock))"
    "stream_id (dock_geometry dock) = stream_id (geometry (dock_profile dock))"
    by (auto simp: dock_geometry_def with_depth_def geometry_opening_def connector_selector_def
        stream_id_def Let_def fun_eq_iff)
  have "connectors (topology (dock_profile dock)) \<le> 4"
    using assms(1) by (auto simp: PROFILE_ELLA_def PROFILE_NAVARRO_def)
  then have "unat head < 4" using assms(2) by simp
  then consider "unat head = 0" | "unat head = 1" | "unat head = 2" | "unat head = 3" by linarith
  then have "head \<in> {0, 1, 2, 3}"
    by cases (auto dest!: arg_cong [where f = "of_nat :: nat \<Rightarrow> byte"])
  moreover have "\<forall>head \<in> {0, 1}. ucast (connector_selector (?g PROFILE_ELLA) head) \<noteq> stream_id (?g PROFILE_ELLA) head"
    by code_simp
  moreover have "\<forall>head \<in> {0, 1, 2, 3}. ucast (connector_selector (?g PROFILE_NAVARRO) head) \<noteq> stream_id (?g PROFILE_NAVARRO) head"
    by code_simp
  ultimately show ?thesis
    using assms by (auto simp: g) (auto simp: PROFILE_ELLA_def)
qed

section \<open>Properties\<close>

text \<open>
  C13: The host's seal counter and the dock's stay in step. For every dock that is not opened by the
  cold burst, every connector, depth, cipher and MAC, and every sequence of stream openings (one per
  mode set) and frame reports, a receiver that accepts a sealed record only at its own running block
  counter reads the whole byte stream, obtains exactly the plaintexts of the operations in order, and
  ends at the host's counter. No block of keystream is therefore used twice before the 32-bit
  counter wraps.
\<close>

theorem stream_in_step:
  assumes "dock_profile dock \<in> {PROFILE_ELLA, PROFILE_NAVARRO}"
    and "unat head < connectors (topology (dock_profile dock))"
    and "list_all (drawn dock) ops"
  shows "receive (open_in aes cmac key nonce) [stream_id (dock_geometry dock) head] sq
      (fst (emit_all aes cmac dock head key nonce ops sq)) =
    Some (concat (map (delivers dock head) ops), snd (emit_all aes cmac dock head key nonce ops sq))"
proof (rule receive_emit_all)
  show "\<not> arm_burst (protocol (dock_profile dock))"
    using assms(1) by (auto simp: PROFILE_ELLA_def PROFILE_NAVARRO_def)
qed (use assms stream_sub_distinct in auto)

theorem stream_in_step_witness:
  "receive (open_in (\<lambda>k b. 5) (\<lambda>k m. 7) [1] [2])
      [stream_id (dock_geometry \<lparr>dock_profile = PROFILE_NAVARRO, dock_opening = False, dock_ten_bit = True\<rparr>) 2] 0
      (fst (emit_all (\<lambda>k b. 5) (\<lambda>k m. 7)
        \<lparr>dock_profile = PROFILE_NAVARRO, dock_opening = False, dock_ten_bit = True\<rparr> 2 [1] [2]
        [Opening 1920 1080 (replicate 14 9), Reporting 1920 1080 True [3, 4]] 0)) =
    Some (concat (map (delivers \<lparr>dock_profile = PROFILE_NAVARRO, dock_opening = False, dock_ten_bit = True\<rparr> 2)
        [Opening 1920 1080 (replicate 14 9), Reporting 1920 1080 True [3, 4]]),
      snd (emit_all (\<lambda>k b. 5) (\<lambda>k m. 7)
        \<lparr>dock_profile = PROFILE_NAVARRO, dock_opening = False, dock_ten_bit = True\<rparr> 2 [1] [2]
        [Opening 1920 1080 (replicate 14 9), Reporting 1920 1080 True [3, 4]] 0))"
  by (rule stream_in_step) (simp_all add: PROFILE_NAVARRO_def drawn_def)

text \<open>
  On a dock opened by the cold burst, one burst is read in step from block zero: its two markers
  and two configurations open at consecutive counters, 140 blocks in all. The burst of the next mode
  set restarts at block zero under the same key and nonce, so a receiver that counts on refuses it:
  the blocks of the two bursts coincide.
\<close>

lemma burst_in_step:
  fixes head :: byte
  assumes "code_tables (protocol (dock_profile dock)) = Wide"
    and "burst_drawn token rand" and "burst_drawn token' rand'"
  shows "receive (open_in aes cmac key nonce) [8 + ucast head, 0x18 + ucast head] 0
      (video_arm_burst aes cmac dock head key nonce width height token rand) =
      Some (burst_delivers dock width height rand, 140) \<and>
    receive (open_in aes cmac key nonce) [8 + ucast head, 0x18 + ucast head] 0
      (video_arm_burst aes cmac dock head key nonce width height token rand @
       video_arm_burst aes cmac dock head key nonce width' height' token' rand') = None"
  using receive_burst [OF assms(1,2), of aes cmac key nonce head width height "[]"]
    receive_second_burst [OF assms] by simp

lemma ridge_wide [simp]: "code_tables (protocol (dock_profile dock_ridge)) = Wide"
  by (simp add: dock_ridge_def PROFILE_RIDGE_def)

end
