(* ===== verification/Session_Auth.thy ===== *)
theory Session_Auth
  imports Hdcp "HOL-Library.Sublist"
begin

text \<open>
  Establishing a control session (\<open>chimera/src/session.rs\<close>): session initialisation and the HDCP 2.2
  authentication of the dock, over an explicit USB link.

  The link holds the outcome of every read and every write still to come, so a theorem for all links
  is a theorem for every behaviour of the dock and of the bus; when a script has run out, reads time
  out and writes succeed. The log records the operations that completed, in order. An action takes
  the link to a result and the link after it; \<open>?\<close> is \<open>andthen\<close>. Random bytes, AES, HMAC and the
  RSA-OAEP encryption of the master key are arguments. Waiting is not modelled: a timeout is an
  outcome of the read.
\<close>

section \<open>The link\<close>

datatype usb_error = UsbTimeout | UsbFailed

datatype usb_op =
    CtrlWrite bytes
  | VideoWrite nat "bytes list"
  | ClaimInterface byte
  | VendorIn byte u16 u16 nat
  | VendorOut byte u16 u16 bytes
  | StdIn byte u16 u16 nat
  | StdOutIface byte u16 u16 bytes
  | ClearVideoHalt nat

text \<open>
  \<open>entropy\<close> is what the random number generator will still produce, and the last two fields are the
  clock: \<open>timed\<close> gives, for each loop that runs until a deadline, one entry per iteration that starts
  before it (whether a status poll is due in it), and \<open>overran\<close> the outcomes of the lateness test of
  the activation bracket.
\<close>

record link =
  rx :: "(usb_error + bytes) list"
  outcomes :: "usb_error option list"
  wire :: "usb_op list"
  entropy :: bytes
  timed :: "bool list list"
  overran :: "bool list"

datatype session_error =
    Build vino_error
  | UsbWrite usb_error
  | UsbRead usb_error
  | InvalidCert byte nat
  | InvalidRrx byte
  | HVerification
  | LVerification
  | InvalidReceiverList byte
  | VVerification
  | NoHdcpMessage
  | NotAccepted
  | NotAcknowledged
  | HeadIncomplete byte
  | InvalidHead byte
  | ExceedsWireFormat
  | BracketOverrun
  | UnsupportedAddress u16
  | NoDdcReply
  | NoEdid byte

text \<open>Actions on a state; the state is the link here and the control session later.\<close>

type_synonym ('e, 's, 'a) fallible = "'s \<Rightarrow> ('e + 'a) \<times> 's"
type_synonym ('s, 'a) action_on = "(session_error, 's, 'a) fallible"
type_synonym 'a action = "(link, 'a) action_on"

definition ret :: "'a \<Rightarrow> ('e, 's, 'a) fallible" where
  "ret a l = (Inr a, l)"

definition fail :: "'e \<Rightarrow> ('e, 's, 'a) fallible" where
  "fail e l = (Inl e, l)"

definition andthen :: "('e, 's, 'a) fallible \<Rightarrow> ('a \<Rightarrow> ('e, 's, 'b) fallible) \<Rightarrow> ('e, 's, 'b) fallible" where
  "andthen m f l = (case m l of (Inl e, l) \<Rightarrow> (Inl e, l) | (Inr a, l) \<Rightarrow> f a l)"

text \<open>\<open>.map_err(build_error(\<dots>))?\<close>\<close>

definition built :: "'a result \<Rightarrow> ('s, 'a) action_on" where
  "built r l = (case r of Inl e \<Rightarrow> (Inl (Build e), l) | Inr a \<Rightarrow> (Inr a, l))"

text \<open>One USB operation: it completes and is logged, or it fails.\<close>

definition perform :: "usb_op \<Rightarrow> link \<Rightarrow> usb_error option \<times> link" where
  "perform x l =
    (case outcomes l of
       [] \<Rightarrow> (None, l\<lparr>wire := wire l @ [x]\<rparr>)
     | None # os \<Rightarrow> (None, l\<lparr>outcomes := os, wire := wire l @ [x]\<rparr>)
     | Some e # os \<Rightarrow> (Some e, l\<lparr>outcomes := os\<rparr>))"

definition recv_frame_raw_timeout :: "link \<Rightarrow> (usb_error + bytes) \<times> link" where
  "recv_frame_raw_timeout l =
    (case rx l of [] \<Rightarrow> (Inl UsbTimeout, l) | r # rs \<Rightarrow> (r, l\<lparr>rx := rs\<rparr>))"

text \<open>An operation whose failure ends the caller, and one whose result is ignored.\<close>

definition must :: "usb_op \<Rightarrow> unit action" where
  "must x l = (case perform x l of (None, l) \<Rightarrow> (Inr (), l) | (Some e, l) \<Rightarrow> (Inl (UsbWrite e), l))"

definition attempt :: "usb_op \<Rightarrow> unit action" where
  "attempt x l = (Inr (), snd (perform x l))"

text \<open>\<open>rng::fill\<close> of \<open>n\<close> bytes.\<close>

definition fill :: "nat \<Rightarrow> bytes action" where
  "fill n l = (Inr (take n (entropy l @ replicate n 0)), l\<lparr>entropy := drop n (entropy l)\<rparr>)"

section \<open>Sending\<close>

definition send_plain :: "bytes \<Rightarrow> unit action" where
  "send_plain frame = must (CtrlWrite frame)"

definition receive_optional :: "bytes option action" where
  "receive_optional l =
    (case recv_frame_raw_timeout l of
       (Inr reply, l) \<Rightarrow> (Inr (Some reply), l)
     | (Inl UsbTimeout, l) \<Rightarrow> (Inr None, l)
     | (Inl e, l) \<Rightarrow> (Inl (UsbRead e), l))"

fun send_plain_tries :: "nat \<Rightarrow> session_error option \<Rightarrow> bytes \<Rightarrow> unit action" where
  "send_plain_tries 0 last_error frame l =
    (Inl (case last_error of None \<Rightarrow> NotAccepted | Some e \<Rightarrow> e), l)"
| "send_plain_tries (Suc n) last_error frame l =
    (case send_plain frame l of
       (Inr u, l) \<Rightarrow> (Inr (), l)
     | (Inl e, l) \<Rightarrow> send_plain_tries n (Some e) frame (snd (receive_optional l)))"

definition send_plain_retry :: "bytes \<Rightarrow> unit action" where
  "send_plain_retry frame = send_plain_tries 40 None frame"

section \<open>Receiving\<close>

definition hdcp_payload :: "bytes \<Rightarrow> (byte \<times> bytes) option" where
  "hdcp_payload reply =
    (if length reply < 16 \<or> rd16 8 reply \<noteq> 0x25 then None
     else case parse_in (drop 16 reply) of
       None \<Rightarrow> None
     | Some (message_id, payload) \<Rightarrow> if message_id \<noteq> 0 then Some (message_id, payload) else None)"

fun receive_hdcp_tries :: "nat \<Rightarrow> (byte \<times> bytes) action" where
  "receive_hdcp_tries 0 l = (Inl NoHdcpMessage, l)"
| "receive_hdcp_tries (Suc n) l =
    (case recv_frame_raw_timeout l of
       (Inl UsbTimeout, l) \<Rightarrow> receive_hdcp_tries n l
     | (Inl e, l) \<Rightarrow> (Inl (UsbRead e), l)
     | (Inr reply, l) \<Rightarrow>
         (case hdcp_payload reply of Some m \<Rightarrow> (Inr m, l) | None \<Rightarrow> receive_hdcp_tries n l))"

definition receive_hdcp :: "(byte \<times> bytes) action" where
  "receive_hdcp = receive_hdcp_tries 24"

definition paces :: "u16 \<Rightarrow> bytes \<Rightarrow> bool" where
  "paces wanted_counter reply =
    (22 \<le> length reply \<and> rd16 8 reply = 0x25 \<and> rd16 16 reply = 0x14 \<and> rd16 20 reply = wanted_counter)"

fun pace_tries :: "nat \<Rightarrow> u16 \<Rightarrow> link \<Rightarrow> link" where
  "pace_tries 0 wanted l = l"
| "pace_tries (Suc n) wanted l =
    (case recv_frame_raw_timeout l of
       (Inl e, l) \<Rightarrow> l
     | (Inr reply, l) \<Rightarrow> if paces wanted reply then l else pace_tries n wanted l)"

definition pace_cap_ack :: "u16 \<Rightarrow> unit action" where
  "pace_cap_ack wanted_counter l = (Inr (), pace_tries 8 wanted_counter l)"

fun cap_tries :: "nat \<Rightarrow> bool \<Rightarrow> bool \<Rightarrow> nat \<Rightarrow> link \<Rightarrow> link" where
  "cap_tries 0 saw_end saw_ready quiet l = l"
| "cap_tries (Suc n) saw_end saw_ready quiet l =
    (case recv_frame_raw_timeout l of (r, l) \<Rightarrow>
     let quiet_step = (if saw_end \<or> saw_ready
       then (if quiet + 1 = 3 then l else cap_tries n saw_end saw_ready (quiet + 1) l)
       else cap_tries n saw_end saw_ready quiet l) in
     case r of
       Inl e \<Rightarrow> quiet_step
     | Inr reply \<Rightarrow>
         if length reply < 20 then quiet_step
         else
           let saw_end = (saw_end \<or> (rd16 16 reply = 0x0b \<and> rd16 18 reply = 0x84));
               saw_ready = (saw_ready \<or> (58 \<le> length reply \<and> reply ! 25 = REPEATERAUTH_STREAM_READY))
           in if saw_end \<and> saw_ready then l else cap_tries n saw_end saw_ready 0 l)"

definition wait_cap_complete :: "unit action" where
  "wait_cap_complete l = (Inr (), cap_tries 48 False False 0 l)"

definition is_control_ack :: "bytes \<Rightarrow> bool" where
  "is_control_ack reply = (10 \<le> length reply \<and> rd16 8 reply = 0x45)"

fun drain_tries :: "nat \<Rightarrow> nat \<Rightarrow> link \<Rightarrow> nat \<times> link" where
  "drain_tries 0 acknowledgements l = (acknowledgements, l)"
| "drain_tries (Suc n) acknowledgements l =
    (case receive_optional l of
       (Inr (Some reply), l) \<Rightarrow>
         drain_tries n (acknowledgements + (if is_control_ack reply then 1 else 0)) l
     | (_, l) \<Rightarrow> (acknowledgements, l))"

definition drain_acknowledgements :: "nat \<Rightarrow> nat action" where
  "drain_acknowledgements limit l = apfst Inr (drain_tries limit 0 l)"

section \<open>Opening the device\<close>

definition SET_INTERFACE :: byte where "SET_INTERFACE = 0x0b"
definition GET_DESCRIPTOR :: byte where "GET_DESCRIPTOR = 0x06"

definition device_open_preamble :: "unit action" where
  "device_open_preamble =
    andthen (must (ClaimInterface 1)) (\<lambda>_.
    andthen (attempt (VendorIn 0xfe 0 1 16)) (\<lambda>_.
    andthen (attempt (VendorIn 0xfc 0 1 3)) (\<lambda>_.
    andthen (attempt (StdOutIface SET_INTERFACE 0 1 [])) (\<lambda>_.
    andthen (must (VendorOut 0x24 3 0 [])) (\<lambda>_.
    must (VendorIn 0x22 1 0 28))))))"

definition session_init :: "unit action" where
  "session_init =
    andthen (attempt (StdIn GET_DESCRIPTOR 0x0200 0 40)) (\<lambda>_.
    andthen (attempt (StdIn GET_DESCRIPTOR 0x0200 0 618)) (\<lambda>_.
    andthen (send_plain init_0) (\<lambda>_.
    andthen (send_plain init_25) (\<lambda>_.
    andthen (attempt (StdIn GET_DESCRIPTOR 0x0300 0 255)) (\<lambda>_.
    andthen (attempt (StdIn GET_DESCRIPTOR 0x0303 0x0409 255)) (\<lambda>_.
    andthen (send_plain init_4_probe) (\<lambda>_ l.
      case recv_frame_raw_timeout l of
        (Inr reply, l) \<Rightarrow> (Inr (), l)
      | (Inl e, l) \<Rightarrow> (Inl (UsbRead e), l))))))))"

section \<open>Authentication\<close>

record rsa_key =
  modulus :: bytes
  exponent :: bytes

record SessionKeys =
  control_key :: bytes
  control_nonce :: bytes
  next_counter :: u16
  rsa :: rsa_key
  receiver_id_list :: bytes

text \<open>
  The random values of one authentication. \<open>oaep key km\<close> is \<open>oaep_encrypt_km\<close>, its seed included;
  \<open>rsa_public_key\<close> fails with it.
\<close>

record auth_draws =
  d_rtx :: bytes
  d_km :: bytes
  d_rn :: bytes
  d_session_key :: bytes
  d_nonce :: bytes

type_synonym oaep_fn = "rsa_key \<Rightarrow> bytes \<Rightarrow> bytes result"

text \<open>The branch \<open>if repeater\<close> of \<open>authenticate\<close>.\<close>

definition authenticate_repeater :: "hmac_fn \<Rightarrow> bytes \<Rightarrow> u32 \<Rightarrow> (bytes \<times> u32) action" where
  "authenticate_repeater hmac kd sequence =
    andthen receive_hdcp (\<lambda>(message_id, lst).
    if message_id \<noteq> REPEATERAUTH_SEND_RECEIVERID_LIST \<or> length lst < 16
    then fail (InvalidReceiverList message_id)
    else
      let split = length lst - 16;
          v = compute_v_full hmac kd (take split lst)
      in if take 16 v \<noteq> drop split lst then fail VVerification
      else
        andthen (send_plain (repeater_auth_send_ack sequence 0 (drop 16 v))) (\<lambda>_.
        andthen (pace_cap_ack (ucast sequence)) (\<lambda>_.
        let sequence = sequence + 1 in
        andthen (send_plain (repeater_auth_stream_manage sequence 0)) (\<lambda>_.
        andthen (pace_cap_ack (ucast sequence)) (\<lambda>_.
        let sequence = sequence + 1 in
        andthen wait_cap_complete (\<lambda>_.
        ret (take split lst, sequence)))))))"

definition authenticate :: "aes_fn \<Rightarrow> hmac_fn \<Rightarrow> oaep_fn \<Rightarrow> auth_draws \<Rightarrow> SessionKeys action" where
  "authenticate aes hmac oaep d =
    (let sequence = (1 :: u32) in
    andthen (send_plain (session_init_ack sequence 0)) (\<lambda>_.
    andthen (pace_cap_ack (ucast sequence)) (\<lambda>_.
    let sequence = sequence + 1; rtx = d_rtx d in
    andthen (send_plain (ake_init sequence 0 rtx [0, 0, 0])) (\<lambda>_.
    let sequence = sequence + 1 in
    andthen receive_hdcp (\<lambda>(message_id, certificate_message).
    if message_id \<noteq> AKE_SEND_CERT \<or> length certificate_message < 137
    then fail (InvalidCert message_id (length certificate_message))
    else
    let repeater = (certificate_message ! 0 \<noteq> 0);
        certificate = drop 1 certificate_message;
        key = \<lparr>modulus = get 5 128 certificate, exponent = get 133 3 certificate\<rparr> in
    andthen (send_plain (ake_transmitter_info sequence 0)) (\<lambda>_.
    let sequence = sequence + 1 in
    andthen receive_hdcp (\<lambda>_.
    let km = d_km d in
    andthen (built (oaep key km)) (\<lambda>encrypted_km.
    andthen (send_plain (ake_no_stored_km sequence 0 encrypted_km)) (\<lambda>_.
    let sequence = sequence + 1 in
    andthen receive_hdcp (\<lambda>(message_id, receiver_random).
    if message_id \<noteq> AKE_SEND_RRX \<or> length receiver_random < 8 then fail (InvalidRrx message_id)
    else
    let rrx = take 8 receiver_random;
        kd = derive_kd aes km rtx rrx in
    andthen receive_hdcp (\<lambda>(message_id, h_prime).
    if message_id \<noteq> AKE_SEND_H_PRIME \<or> length h_prime < 32 \<or>
       compute_h hmac kd rtx repeater \<noteq> take 32 h_prime then fail HVerification
    else
    andthen receive_hdcp (\<lambda>_.
    let rn = d_rn d in
    andthen (send_plain (lc_init sequence 0 rn)) (\<lambda>_.
    let sequence = sequence + 1 in
    andthen receive_hdcp (\<lambda>(message_id, l_prime).
    if message_id \<noteq> LC_SEND_L_PRIME \<or> length l_prime < 32 \<or>
       compute_l hmac kd rrx rn \<noteq> take 32 l_prime then fail LVerification
    else
    let raw_session_key = d_session_key d;
        delivered_nonce = d_nonce d;
        encrypted_session_key = compute_eks aes km rtx rrx rn raw_session_key in
    andthen (send_plain (ske_send_eks sequence 0 encrypted_session_key delivered_nonce)) (\<lambda>_.
    let sequence = sequence + 1 in
    andthen (if repeater then authenticate_repeater hmac kd sequence else ret ([], sequence))
      (\<lambda>(id_list, sequence).
    let nonce = delivered_nonce[7 := delivered_nonce ! 7 XOR 0x04] in
    ret \<lparr>control_key = cp_session_key raw_session_key, control_nonce = nonce,
         next_counter = ucast sequence, rsa = key, receiver_id_list = id_list\<rparr>))))))))))))))))"

section \<open>What an action reads and writes\<close>

lemma andthen_Inr_iff:
  "andthen m f l = (Inr b, l') \<longleftrightarrow> (\<exists>a l1. m l = (Inr a, l1) \<and> f a l1 = (Inr b, l'))"
  by (auto simp: andthen_def split: prod.splits sum.splits)

text \<open>Elimination rules that step through a successful action.\<close>

lemma andthen_InrE:
  assumes "andthen m f l = (Inr b, l')"
  obtains a l1 where "m l = (Inr a, l1)" and "f a l1 = (Inr b, l')"
  using assms by (auto simp: andthen_Inr_iff)

lemma andthen_pairE:
  assumes "andthen m (\<lambda>(i, p). f i p) l = (Inr b, l')"
  obtains i p l1 where "m l = (Inr (i, p), l1)" and "f i p l1 = (Inr b, l')"
  using assms by (auto simp: andthen_Inr_iff)

lemma guardE:
  assumes "(if c then fail e else m) l = (Inr b, l')"
  obtains "\<not> c" and "m l = (Inr b, l')"
  using assms by (auto simp: fail_def split: if_splits)

lemma built_InrE:
  assumes "built r l = (Inr a, l')"
  obtains "r = Ok a" and "l' = l"
  using assms by (auto simp: built_def split: sum.splits)

lemma ret_InrE:
  assumes "ret a l = (Inr b, l')"
  obtains "b = a" and "l' = l"
  using assms by (auto simp: ret_def)

lemmas actionE = andthen_pairE andthen_InrE guardE built_InrE ret_InrE

text \<open>\<open>moves l l' u w\<close>: the reads \<open>u\<close> were consumed and the operations \<open>w\<close> completed.\<close>

definition moves :: "link \<Rightarrow> link \<Rightarrow> (usb_error + bytes) list \<Rightarrow> usb_op list \<Rightarrow> bool" where
  "moves l l' u w \<longleftrightarrow> rx l = u @ rx l' \<and> wire l' = wire l @ w"

lemma moves_refl [simp]: "moves l l [] []"
  by (simp add: moves_def)

lemma moves_trans [trans]: "moves l l1 u w \<Longrightarrow> moves l1 l2 u' w' \<Longrightarrow> moves l l2 (u @ u') (w @ w')"
  by (simp add: moves_def)

lemma recv_moves:
  "recv_frame_raw_timeout l = (r, l') \<Longrightarrow> \<exists>u. moves l l' u [] \<and> (\<forall>reply. r = Inr reply \<longrightarrow> u = [Inr reply])"
  by (auto simp: recv_frame_raw_timeout_def moves_def split: list.splits)

lemma must_moves: "must x l = (Inr a, l') \<Longrightarrow> moves l l' [] [x]"
  by (auto simp: must_def perform_def moves_def split: list.splits option.splits)

lemma send_plain_moves: "send_plain f l = (Inr a, l') \<Longrightarrow> moves l l' [] [CtrlWrite f]"
  by (auto simp: send_plain_def dest: must_moves)

text \<open>The HDCP messages among the frames read.\<close>

definition heard :: "(usb_error + bytes) list \<Rightarrow> (byte \<times> bytes) list" where
  "heard u = List.map_filter (\<lambda>r. case r of Inl e \<Rightarrow> None | Inr reply \<Rightarrow> hdcp_payload reply) u"

lemma heard_append [simp]: "heard (u @ v) = heard u @ heard v"
  by (simp add: heard_def map_filter_def)

lemma heard_frame [simp]: "hdcp_payload reply = Some m \<Longrightarrow> heard [Inr reply] = [m]"
  by (simp add: heard_def map_filter_def)

lemma receive_hdcp_tries_moves:
  "receive_hdcp_tries n l = (Inr m, l') \<Longrightarrow> \<exists>u. moves l l' u [] \<and> subseq [m] (heard u)"
proof (induction n arbitrary: l)
  case (Suc n)
  obtain r l1 where r: "recv_frame_raw_timeout l = (r, l1)" by fastforce
  then obtain u where u: "moves l l1 u []" "\<And>reply. r = Inr reply \<Longrightarrow> u = [Inr reply]"
    using recv_moves by blast
  show ?case
  proof (cases "\<exists>reply. r = Inr reply \<and> hdcp_payload reply \<noteq> None")
    case True
    then show ?thesis using Suc.prems r u by auto
  next
    case False
    then have "receive_hdcp_tries n l1 = (Inr m, l')"
      using Suc.prems r by (cases m) (auto split: sum.splits usb_error.splits option.splits)
    then obtain v where "moves l1 l' v []" "subseq [m] (heard v)" using Suc.IH by blast
    then show ?thesis
      using moves_trans [OF u(1)] by (auto intro!: exI [of _ "u @ v"] list_emb_append2)
  qed
qed simp

lemma receive_hdcp_moves: "receive_hdcp l = (Inr m, l') \<Longrightarrow> \<exists>u. moves l l' u [] \<and> subseq [m] (heard u)"
  by (simp add: receive_hdcp_def receive_hdcp_tries_moves)

lemma pace_tries_moves: "\<exists>u. moves l (pace_tries n w l) u []"
proof (induction n arbitrary: l)
  case 0
  show ?case by (simp add: exI [of _ "[]"])
next
  case (Suc n)
  obtain r l1 where r: "recv_frame_raw_timeout l = (r, l1)" by fastforce
  then obtain u where "moves l l1 u []" using recv_moves by blast
  then show ?case
    using Suc.IH [of l1] r moves_trans by (fastforce split: sum.splits)
qed

lemma pace_moves: "pace_cap_ack w l = (Inr a, l') \<Longrightarrow> \<exists>u. moves l l' u []"
  using pace_tries_moves by (auto simp: pace_cap_ack_def)

lemma cap_tries_moves: "\<exists>u. moves l (cap_tries n e r q l) u []"
proof (induction n arbitrary: l e r q)
  case 0
  show ?case by (simp add: exI [of _ "[]"])
next
  case (Suc n)
  obtain x l1 where x: "recv_frame_raw_timeout l = (x, l1)" by fastforce
  then obtain u where u: "moves l l1 u []" using recv_moves by blast
  have more: "\<exists>u. moves l (cap_tries n e' r' q' l1) u []" for e' r' q'
    using Suc.IH [where l = l1] moves_trans [OF u] by fastforce
  show ?case
    using x u more by (auto simp: Let_def split: sum.splits)
qed

lemma cap_moves: "wait_cap_complete l = (Inr a, l') \<Longrightarrow> \<exists>u. moves l l' u []"
  using cap_tries_moves by (auto simp: wait_cap_complete_def)

text \<open>Sequences of subsequence claims are glued the way the reads are.\<close>

lemma heard_glue:
  "moves l l1 u w \<Longrightarrow> subseq xs (heard u) \<Longrightarrow> moves l1 l2 v w' \<Longrightarrow> subseq ys (heard v) \<Longrightarrow>
    moves l l2 (u @ v) (w @ w') \<and> subseq (xs @ ys) (heard (u @ v))"
  by (simp add: moves_trans list_emb_append_mono)

definition talks :: "link \<Rightarrow> link \<Rightarrow> (byte \<times> bytes) list \<Rightarrow> usb_op list \<Rightarrow> bool" where
  "talks l l' ms w \<longleftrightarrow> (\<exists>u. moves l l' u w \<and> subseq ms (heard u))"

lemma talks_trans: "talks l l1 ms w \<Longrightarrow> talks l1 l2 ms' w' \<Longrightarrow> talks l l2 (ms @ ms') (w @ w')"
  unfolding talks_def using heard_glue by blast

lemma talks_refl [simp]: "talks l l [] []"
  unfolding talks_def by (rule exI [of _ "[]"]) simp

lemma talks_receive: "receive_hdcp l = (Inr m, l') \<Longrightarrow> talks l l' [m] []"
  unfolding talks_def using receive_hdcp_moves by blast

lemma talks_skip: "receive_hdcp l = (Inr m, l') \<Longrightarrow> talks l l' [] []"
  unfolding talks_def using receive_hdcp_moves by fastforce

lemma talks_send: "send_plain f l = (Inr a, l') \<Longrightarrow> talks l l' [] [CtrlWrite f]"
  unfolding talks_def using send_plain_moves by fastforce

lemma talks_pace: "pace_cap_ack c l = (Inr a, l') \<Longrightarrow> talks l l' [] []"
  unfolding talks_def using pace_moves by fastforce

lemma talks_cap: "wait_cap_complete l = (Inr a, l') \<Longrightarrow> talks l l' [] []"
  unfolding talks_def using cap_moves by fastforce

lemmas action_simps = andthen_Inr_iff fail_def ret_def Let_def

lemma repeater_talks:
  assumes "authenticate_repeater hmac kd sq l = (Inr (ids, sq'), l')"
  shows "\<exists>lst. sq' = sq + 2 \<and> 16 \<le> length lst \<and> ids = take (length lst - 16) lst \<and>
    drop (length lst - 16) lst = take 16 (compute_v_full hmac kd ids) \<and>
    talks l l' [(REPEATERAUTH_SEND_RECEIVERID_LIST, lst)]
      (map CtrlWrite [repeater_auth_send_ack sq 0 (drop 16 (compute_v_full hmac kd ids)),
        repeater_auth_stream_manage (sq + 1) 0])"
proof -
  from assms obtain lst a1 a2 l1 l2 l3 l4 l5 where
    r: "receive_hdcp l = (Inr (REPEATERAUTH_SEND_RECEIVERID_LIST, lst), l1)" and
    ids: "ids = take (length lst - 16) lst" and len: "16 \<le> length lst" and
    v: "take 16 (compute_v_full hmac kd ids) = drop (length lst - 16) lst" and
    s1: "send_plain (repeater_auth_send_ack sq 0 (drop 16 (compute_v_full hmac kd ids))) l1 = (Inr a1, l2)" and
    p1: "pace_cap_ack (ucast sq) l2 = (Inr (), l3)" and
    s2: "send_plain (repeater_auth_stream_manage (sq + 1) 0) l3 = (Inr a2, l4)" and
    p2: "pace_cap_ack (ucast (sq + 1)) l4 = (Inr (), l5)" and
    c: "wait_cap_complete l5 = (Inr (), l')" and sq': "sq' = sq + 1 + 1"
    unfolding authenticate_repeater_def
    by (auto simp: action_simps split: if_splits prod.splits)
  note t = talks_trans [OF talks_receive [OF r] talks_trans [OF talks_send [OF s1] talks_trans
    [OF talks_pace [OF p1] talks_trans [OF talks_send [OF s2] talks_trans
    [OF talks_pace [OF p2] talks_cap [OF c]]]]]]
  show ?thesis using t ids len v sq' by auto
qed

text \<open>The facts a successful authentication establishes, for the messages of the dock it accepted.\<close>

definition verified ::
  "aes_fn \<Rightarrow> hmac_fn \<Rightarrow> auth_draws \<Rightarrow> bytes \<Rightarrow> bytes \<Rightarrow> bytes \<Rightarrow> bytes \<Rightarrow> bytes \<Rightarrow> bool" where
  "verified aes hmac d cert rr hp lp lst \<longleftrightarrow>
    (let kd = derive_kd aes (d_km d) (d_rtx d) (take 8 rr) in
     137 \<le> length cert \<and> 8 \<le> length rr \<and>
     take 32 hp = compute_h hmac kd (d_rtx d) (cert ! 0 \<noteq> 0) \<and>
     take 32 lp = compute_l hmac kd (take 8 rr) (d_rn d) \<and>
     (cert ! 0 \<noteq> 0 \<longrightarrow> 16 \<le> length lst \<and>
       drop (length lst - 16) lst = take 16 (compute_v_full hmac kd (take (length lst - 16) lst))))"

definition cert_key :: "bytes \<Rightarrow> rsa_key" where
  "cert_key cert = \<lparr>modulus = get 6 128 cert, exponent = get 134 3 cert\<rparr>"

text \<open>What the host has sent by then.\<close>

definition spoken :: "aes_fn \<Rightarrow> hmac_fn \<Rightarrow> auth_draws \<Rightarrow> bytes \<Rightarrow> bytes \<Rightarrow> bytes \<Rightarrow> bytes \<Rightarrow> bytes list" where
  "spoken aes hmac d cert ekm rr lst =
    (let rrx = take 8 rr; kd = derive_kd aes (d_km d) (d_rtx d) rrx;
         v = compute_v_full hmac kd (take (length lst - 16) lst)
     in [session_init_ack 1 0, ake_init 2 0 (d_rtx d) [0, 0, 0], ake_transmitter_info 3 0,
         ake_no_stored_km 4 0 ekm, lc_init 5 0 (d_rn d),
         ske_send_eks 6 0 (compute_eks aes (d_km d) (d_rtx d) rrx (d_rn d) (d_session_key d)) (d_nonce d)] @
        (if cert ! 0 \<noteq> 0 then [repeater_auth_send_ack 7 0 (drop 16 v), repeater_auth_stream_manage 8 0]
         else []))"

definition session_keys :: "auth_draws \<Rightarrow> bytes \<Rightarrow> bytes \<Rightarrow> SessionKeys" where
  "session_keys d cert lst =
    \<lparr>control_key = cp_session_key (d_session_key d),
     control_nonce = (d_nonce d)[7 := d_nonce d ! 7 XOR 0x04],
     next_counter = (if cert ! 0 \<noteq> 0 then 9 else 7),
     rsa = cert_key cert,
     receiver_id_list = (if cert ! 0 \<noteq> 0 then take (length lst - 16) lst else [])\<rparr>"

lemma authenticate_run:
  assumes "authenticate aes hmac oaep d l = (Inr keys, l')"
  shows "\<exists>cert rr hp lp lst ekm.
    oaep (cert_key cert) (d_km d) = Ok ekm \<and> verified aes hmac d cert rr hp lp lst \<and>
    keys = session_keys d cert lst \<and>
    talks l l' ([(AKE_SEND_CERT, cert), (AKE_SEND_RRX, rr), (AKE_SEND_H_PRIME, hp), (LC_SEND_L_PRIME, lp)] @
        (if cert ! 0 \<noteq> 0 then [(REPEATERAUTH_SEND_RECEIVERID_LIST, lst)] else []))
      (map CtrlWrite (spoken aes hmac d cert ekm rr lst))"
proof -
  have key: "\<lparr>modulus = get 5 128 (drop 1 cert), exponent = get 133 3 (drop 1 cert)\<rparr> = cert_key cert" for cert
    by (simp add: cert_key_def get_def)
  let ?kd = "\<lambda>rr. derive_kd aes (d_km d) (d_rtx d) (take 8 rr)"
  show ?thesis
    using assms unfolding authenticate_def Let_def key
  proof (elim actionE, goal_cases)
  case (1 a1 l1 a2 l2 a3 l3 i1 cert l4 a4 l5 m1 l6 ekm l6' a5 l7 i2 rr l8 i3 hp l9 m2 l10 a6 l11 i4 lp l12
      a7 l13 ids sq l14)
  from 1 have
    s1: "send_plain (session_init_ack 1 0) l = (Inr a1, l1)" and
    p1: "pace_cap_ack 1 l1 = (Inr a2, l2)" and
    s2: "send_plain (ake_init 2 0 (d_rtx d) [0, 0, 0]) l2 = (Inr a3, l3)" and
    r1: "receive_hdcp l3 = (Inr (AKE_SEND_CERT, cert), l4)" and cert: "137 \<le> length cert" and
    s3: "send_plain (ake_transmitter_info 3 0) l4 = (Inr a4, l5)" and
    r2: "receive_hdcp l5 = (Inr m1, l6)" and
    ekm: "oaep (cert_key cert) (d_km d) = Ok ekm" and
    s4: "send_plain (ake_no_stored_km 4 0 ekm) l6 = (Inr a5, l7)" and
    r3: "receive_hdcp l7 = (Inr (AKE_SEND_RRX, rr), l8)" and rr: "8 \<le> length rr" and
    r4: "receive_hdcp l8 = (Inr (AKE_SEND_H_PRIME, hp), l9)" and
    h: "compute_h hmac (?kd rr) (d_rtx d) (cert ! 0 \<noteq> 0) = take 32 hp" and
    r5: "receive_hdcp l9 = (Inr m2, l10)" and
    s5: "send_plain (lc_init 5 0 (d_rn d)) l10 = (Inr a6, l11)" and
    r6: "receive_hdcp l11 = (Inr (LC_SEND_L_PRIME, lp), l12)" and
    lp: "compute_l hmac (?kd rr) (take 8 rr) (d_rn d) = take 32 lp" and
    s6: "send_plain (ske_send_eks 6 0 (compute_eks aes (d_km d) (d_rtx d) (take 8 rr) (d_rn d)
      (d_session_key d)) (d_nonce d)) l12 = (Inr a7, l13)" and
    rep: "(if cert ! 0 \<noteq> 0 then authenticate_repeater hmac (?kd rr) 7 else ret ([], 7)) l13 = (Inr (ids, sq), l')" and
    keys: "keys = \<lparr>control_key = cp_session_key (d_session_key d),
     control_nonce = (d_nonce d)[7 := d_nonce d ! 7 XOR 0x04], next_counter = ucast sq,
     rsa = cert_key cert, receiver_id_list = ids\<rparr>"
    by (simp_all add: not_less cong: if_cong)
  obtain lst where lst: "ids = (if cert ! 0 \<noteq> 0 then take (length lst - 16) lst else [])"
      "sq = (if cert ! 0 \<noteq> 0 then 9 else 7)"
      "cert ! 0 \<noteq> 0 \<Longrightarrow> 16 \<le> length lst \<and>
        drop (length lst - 16) lst = take 16 (compute_v_full hmac (?kd rr) (take (length lst - 16) lst))"
    and t: "talks l13 l' (if cert ! 0 \<noteq> 0 then [(REPEATERAUTH_SEND_RECEIVERID_LIST, lst)] else [])
      (map CtrlWrite (if cert ! 0 \<noteq> 0
        then [repeater_auth_send_ack 7 0 (drop 16 (compute_v_full hmac (?kd rr) (take (length lst - 16) lst))),
          repeater_auth_stream_manage 8 0] else []))"
  proof (cases "cert ! 0 = 0")
    case True
    then show thesis
      using rep that [of "[]"] by (auto simp: ret_def)
  next
    case False
    then show thesis
      using rep repeater_talks [of hmac "?kd rr" 7 l13 ids sq l'] that by auto
  qed
  note c = talks_trans [OF talks_send [OF s1] talks_trans [OF talks_pace [OF p1] talks_trans
    [OF talks_send [OF s2] talks_trans [OF talks_receive [OF r1] talks_trans [OF talks_send [OF s3]
    talks_trans [OF talks_skip [OF r2] talks_trans [OF talks_send [OF s4] talks_trans
    [OF talks_receive [OF r3] talks_trans [OF talks_receive [OF r4] talks_trans [OF talks_skip [OF r5]
    talks_trans [OF talks_send [OF s5] talks_trans [OF talks_receive [OF r6] talks_trans
    [OF talks_send [OF s6] t]]]]]]]]]]]]]
  have "verified aes hmac d cert rr hp lp lst"
    using cert rr h lp lst(3) by (simp add: verified_def Let_def)
  moreover have "keys = session_keys d cert lst"
    using keys lst(1,2) by (simp add: session_keys_def)
  ultimately show ?thesis
    using ekm c by (intro exI conjI) (assumption | simp add: spoken_def Let_def split: if_splits)+
  qed
qed

section \<open>A receiver that answers\<close>

text \<open>
  A dock that answers every step, possibly after timeouts and frames that carry no HDCP message. One
  arrival is such a run of noise, short enough for the read loop, and the reply behind it.
\<close>

definition noise :: "usb_error + bytes \<Rightarrow> bool" where
  "noise r = (case r of Inl e \<Rightarrow> e = UsbTimeout | Inr reply \<Rightarrow> hdcp_payload reply = None)"

type_synonym arrival = "(usb_error + bytes) list \<times> bytes"

definition arrives :: "arrival list \<Rightarrow> (usb_error + bytes) list" where
  "arrives xs = concat (map (\<lambda>(quiet, reply). quiet @ [Inr reply]) xs)"

definition carries :: "arrival \<Rightarrow> byte \<times> bytes \<Rightarrow> bool" where
  "carries x m = (length (fst x) < 24 \<and> list_all noise (fst x) \<and> hdcp_payload (snd x) = Some m)"

lemma receive_hdcp_tries_noise:
  "rx l = quiet @ Inr reply # rest \<Longrightarrow> length quiet < n \<Longrightarrow> list_all noise quiet \<Longrightarrow>
    hdcp_payload reply = Some m \<Longrightarrow> receive_hdcp_tries n l = (Inr m, l\<lparr>rx := rest\<rparr>)"
proof (induction quiet arbitrary: l n)
  case Nil
  then show ?case by (cases n) (auto simp: recv_frame_raw_timeout_def)
next
  case (Cons x quiet)
  then obtain n' where n: "n = Suc n'" by (cases n) auto
  have "receive_hdcp_tries n' (l\<lparr>rx := quiet @ Inr reply # rest\<rparr>) = (Inr m, l\<lparr>rx := rest\<rparr>)"
    using Cons n by simp
  then show ?case
    using Cons.prems n by (auto simp: recv_frame_raw_timeout_def noise_def split: sum.splits)
qed

text \<open>The link after \<open>k\<close> of the arrivals were read and the frames \<open>w\<close> were sent.\<close>

definition at_step :: "link \<Rightarrow> arrival list \<Rightarrow> (usb_error + bytes) list \<Rightarrow> nat \<Rightarrow> bytes list \<Rightarrow> link" where
  "at_step l ms rest k w = l\<lparr>rx := arrives (drop k ms) @ rest, wire := wire l @ map CtrlWrite w\<rparr>"

lemma at_step_receive:
  assumes "list_all2 carries ms msgs" and "k < length msgs"
  shows "receive_hdcp (at_step l ms rest k w) = (Inr (msgs ! k), at_step l ms rest (Suc k) w)"
proof -
  have k: "k < length ms" "carries (ms ! k) (msgs ! k)"
    using assms by (auto simp: list_all2_conv_all_nth)
  then have "arrives (drop k ms) @ rest =
      fst (ms ! k) @ Inr (snd (ms ! k)) # arrives (drop (Suc k) ms) @ rest"
    by (simp add: arrives_def Cons_nth_drop_Suc [symmetric] split_beta)
  then show ?thesis
    using k(2) receive_hdcp_tries_noise [of "at_step l ms rest k w"]
    by (simp add: receive_hdcp_def at_step_def carries_def)
qed

lemma send_plain_open:
  "outcomes l = [] \<Longrightarrow> send_plain f l = (Inr (), l\<lparr>wire := wire l @ [CtrlWrite f]\<rparr>)"
  by (simp add: send_plain_def must_def perform_def)

lemma at_step_send:
  "outcomes l = [] \<Longrightarrow> send_plain f (at_step l ms rest k w) = (Inr (), at_step l ms rest k (w @ [f]))"
  by (simp add: send_plain_open at_step_def)

lemma outcomes_pace [simp]: "outcomes (pace_tries n c l) = outcomes l"
  by (induction n arbitrary: l) (auto simp: recv_frame_raw_timeout_def split: sum.splits list.splits)

lemma outcomes_at_step [simp]: "outcomes (at_step l ms rest k w) = outcomes l"
  by (simp add: at_step_def)

lemma repeater_answers:
  assumes "list_all2 carries ms msgs" and "outcomes l = []" and "k < length msgs"
    and "msgs ! k = (REPEATERAUTH_SEND_RECEIVERID_LIST, lst)" and "16 \<le> length lst"
    and "drop (length lst - 16) lst = take 16 (compute_v_full hmac kd (take (length lst - 16) lst))"
  shows "\<exists>l'. authenticate_repeater hmac kd sq (at_step l ms rest k w) =
    (Inr (take (length lst - 16) lst, sq + 2), l')"
  using assms
  by (simp add: authenticate_repeater_def andthen_def at_step_receive [OF assms(1)] send_plain_open
      pace_cap_ack_def wait_cap_complete_def ret_def Let_def)

lemma authenticate_answers:
  assumes ack: "paces 1 ack" and "outcomes l = []" and rx: "rx l = Inr ack # arrives ms @ rest"
    and ms: "list_all2 carries ms msgs"
    and msgs: "msgs = [(AKE_SEND_CERT, cert), m1, (AKE_SEND_RRX, rr), (AKE_SEND_H_PRIME, hp), m2,
        (LC_SEND_L_PRIME, lp)] @ (if cert ! 0 \<noteq> 0 then [(REPEATERAUTH_SEND_RECEIVERID_LIST, lst)] else [])"
    and ver: "verified aes hmac d cert rr hp lp lst" and "oaep (cert_key cert) (d_km d) = Ok ekm"
  shows "\<exists>w l'. authenticate aes hmac oaep d l = (Inr (session_keys d cert lst), l') \<and>
    (cert ! 0 = 0 \<longrightarrow> l' = at_step l ms rest 6 w)"
proof -
  let ?kd = "derive_kd aes (d_km d) (d_rtx d) (take 8 rr)"
  have len: "\<not> length hp < 32" "\<not> length lp < 32"
    using ver arg_cong [where f = length] length_compute
    by (auto simp: verified_def Let_def dest!: arg_cong [where f = length])
  have key: "\<lparr>modulus = get 5 128 (drop 1 c), exponent = get 133 3 (drop 1 c)\<rparr> = cert_key c" for c
    by (simp add: cert_key_def get_def)
  have p: "pace_cap_ack 1 (l\<lparr>wire := wire l @ [CtrlWrite f]\<rparr>) = (Inr (), at_step l ms rest 0 [f])" for f
    using ack rx by (simp add: pace_cap_ack_def at_step_def recv_frame_raw_timeout_def numeral_eq_Suc)
  let ?six = "Suc (Suc (Suc (Suc (Suc (Suc 0)))))"
  have "\<exists>l'. cert ! 0 \<noteq> 0 \<longrightarrow> authenticate_repeater hmac ?kd 7 (at_step l ms rest ?six w) =
      (Inr (take (length lst - 16) lst, 9), l')" for w
    using repeater_answers [OF ms assms(2), of ?six lst hmac ?kd 7 rest w] ver
    by (auto simp: msgs verified_def Let_def)
  then obtain l' where rep: "\<And>w. cert ! 0 \<noteq> 0 \<Longrightarrow>
      authenticate_repeater hmac ?kd 7 (at_step l ms rest ?six w) =
      (Inr (take (length lst - 16) lst, 9), l' w)"
    by metis
  have get: "receive_hdcp (at_step l ms rest k w) = (Inr (msgs ! k), at_step l ms rest (Suc k) w)"
    if "k < 6" for k w
    using at_step_receive [OF ms, of k] that by (simp add: msgs)
  have "\<exists>w l'. authenticate aes hmac oaep d l = (Inr (session_keys d cert lst), l') \<and>
      (cert ! 0 = 0 \<longrightarrow> l' = at_step l ms rest ?six w)"
    unfolding authenticate_def Let_def key
    using ver assms(2,7) len
    by (simp add: andthen_def send_plain_open [OF assms(2)] p at_step_send [OF assms(2)] get rep msgs verified_def Let_def built_def
      ret_def session_keys_def) blast
  moreover have "?six = 6" by simp
  ultimately show ?thesis by simp
qed

section \<open>Properties\<close>

text \<open>
  C3: No session without proof of the master key. For every behaviour of the dock and of the bus, if
  \<open>authenticate\<close> returns keys then the dock sent, in this order among whatever else it sent, a
  certificate, a receiver random, an \<open>H'\<close> and an \<open>L'\<close>, both equal to the values computed from the
  master key encrypted to that certificate, and, when the certificate declares a repeater, a receiver
  list whose \<open>V'\<close> verifies. The host has then sent exactly its six messages, or eight for a repeater,
  numbered from one, and the keys are those delivered in them.
\<close>

theorem authenticated_only_if_verified:
  assumes "authenticate aes hmac oaep d l = (Inr keys, l')"
  shows "\<exists>cert rr hp lp lst ekm used.
    oaep (cert_key cert) (d_km d) = Ok ekm \<and> verified aes hmac d cert rr hp lp lst \<and>
    keys = session_keys d cert lst \<and> rx l = used @ rx l' \<and>
    subseq ([(AKE_SEND_CERT, cert), (AKE_SEND_RRX, rr), (AKE_SEND_H_PRIME, hp), (LC_SEND_L_PRIME, lp)] @
        (if cert ! 0 \<noteq> 0 then [(REPEATERAUTH_SEND_RECEIVERID_LIST, lst)] else [])) (heard used) \<and>
    wire l' = wire l @ map CtrlWrite (spoken aes hmac d cert ekm rr lst)"
  using authenticate_run [OF assms] unfolding talks_def moves_def by metis

text \<open>
  C33: A receiver that proves itself is accepted. If the dock acknowledges the opening, then answers
  with a certificate, a receiver random, \<open>H'\<close>, \<open>L'\<close> and (for a repeater) a receiver list that verify,
  each after fewer than 24 timeouts and unrelated frames, with the information and pairing messages
  in their places, and the bus accepts the writes, then authentication returns the session keys.
\<close>

theorem honest_receiver_authenticated:
  assumes "paces 1 ack" and "outcomes l = []" and "rx l = Inr ack # arrives ms @ rest"
    and "list_all2 carries ms ([(AKE_SEND_CERT, cert), m1, (AKE_SEND_RRX, rr), (AKE_SEND_H_PRIME, hp), m2,
        (LC_SEND_L_PRIME, lp)] @ (if cert ! 0 \<noteq> 0 then [(REPEATERAUTH_SEND_RECEIVERID_LIST, lst)] else []))"
    and "verified aes hmac d cert rr hp lp lst" and "oaep (cert_key cert) (d_km d) = Ok ekm"
  shows "fst (authenticate aes hmac oaep d l) = Inr (session_keys d cert lst)"
  using authenticate_answers [OF assms(1-4) refl assms(5), where oaep = oaep] assms(6) by auto

text \<open>A repeater under the constant ciphers, used to exercise both properties.\<close>

definition example_reply :: "byte \<Rightarrow> bytes \<Rightarrow> bytes" where
  "example_reply mid payload = replicate 8 0 @ [0x25, 0] @ replicate 6 0 @ replicate 9 0 @ [mid] @ payload"

definition example_draws :: auth_draws where
  "example_draws = \<lparr>d_rtx = replicate 8 1, d_km = replicate 16 2, d_rn = replicate 8 3,
    d_session_key = replicate 16 4, d_nonce = replicate 8 5\<rparr>"

definition example_cert :: bytes where "example_cert = 1 # replicate 136 7"
definition example_list :: bytes where "example_list = [9, 9] @ take 16 (digest_bytes 0)"

definition example_arrivals :: "arrival list" where
  "example_arrivals =
    [([Inl UsbTimeout], example_reply AKE_SEND_CERT example_cert), ([], example_reply 0x14 []),
     ([Inr [1, 2, 3]], example_reply AKE_SEND_RRX (replicate 8 6)),
     ([], example_reply AKE_SEND_H_PRIME (digest_bytes 0)), ([], example_reply 0x08 []),
     ([], example_reply LC_SEND_L_PRIME (digest_bytes 0)),
     ([], example_reply REPEATERAUTH_SEND_RECEIVERID_LIST example_list)]"

definition example_ack :: bytes where
  "example_ack = replicate 8 0 @ [0x25, 0] @ replicate 6 0 @ [0x14, 0, 0, 0, 1, 0]"

definition example_link :: link where
  "example_link = \<lparr>rx = Inr example_ack # arrives example_arrivals @ [], outcomes = [], wire = [], entropy = [],
    timed = [], overran = []\<rparr>"

definition zero_mac :: hmac_fn where "zero_mac k m = 0"
definition zero_aes :: aes_fn where "zero_aes k b = 0"
definition plain_oaep :: oaep_fn where "plain_oaep key km = Ok (replicate 128 (hd km))"

lemma hdcp_payload_example: "mid \<noteq> 0 \<Longrightarrow> hdcp_payload (example_reply mid p) = Some (mid, p)"
  by (simp add: hdcp_payload_def example_reply_def parse_in_def rd16_def from_le16_def nth_append)

lemma example_premises:
  "paces 1 example_ack" "outcomes example_link = []"
  "rx example_link = Inr example_ack # arrives example_arrivals @ []"
  "list_all2 carries example_arrivals ([(AKE_SEND_CERT, example_cert), (0x14, []),
    (AKE_SEND_RRX, replicate 8 6), (AKE_SEND_H_PRIME, digest_bytes 0), (0x08, []),
    (LC_SEND_L_PRIME, digest_bytes 0)] @
    (if example_cert ! 0 \<noteq> 0 then [(REPEATERAUTH_SEND_RECEIVERID_LIST, example_list)] else []))"
  "verified zero_aes zero_mac example_draws example_cert (replicate 8 6) (digest_bytes 0) (digest_bytes 0)
    example_list"
  "plain_oaep (cert_key example_cert) (d_km example_draws) = Ok (replicate 128 2)"
proof -
  show "paces 1 example_ack"
    by (simp add: paces_def example_ack_def rd16_def from_le16_def nth_append)
  show "list_all2 carries example_arrivals ([(AKE_SEND_CERT, example_cert), (0x14, []),
    (AKE_SEND_RRX, replicate 8 6), (AKE_SEND_H_PRIME, digest_bytes 0), (0x08, []),
    (LC_SEND_L_PRIME, digest_bytes 0)] @
    (if example_cert ! 0 \<noteq> 0 then [(REPEATERAUTH_SEND_RECEIVERID_LIST, example_list)] else []))"
    by (simp add: example_arrivals_def example_cert_def carries_def hdcp_payload_example noise_def hdcp_ids)
      (simp add: hdcp_payload_def)
  show "verified zero_aes zero_mac example_draws example_cert (replicate 8 6) (digest_bytes 0)
      (digest_bytes 0) example_list"
    by (simp add: verified_def example_cert_def example_list_def compute_h_def compute_l_def
        compute_v_full_def zero_mac_def Let_def)
qed (simp_all add: example_link_def plain_oaep_def example_draws_def)

theorem honest_receiver_authenticated_witness:
  "fst (authenticate zero_aes zero_mac plain_oaep example_draws example_link) =
    Inr (session_keys example_draws example_cert example_list)"
  by (rule honest_receiver_authenticated [OF example_premises(1-5)]) (rule example_premises(6))

theorem authenticated_only_if_verified_witness:
  "\<exists>cert rr hp lp lst ekm used.
    plain_oaep (cert_key cert) (d_km example_draws) = Ok ekm \<and>
    verified zero_aes zero_mac example_draws cert rr hp lp lst \<and>
    session_keys example_draws example_cert example_list = session_keys example_draws cert lst \<and>
    rx example_link = used @ rx (snd (authenticate zero_aes zero_mac plain_oaep example_draws example_link)) \<and>
    subseq ([(AKE_SEND_CERT, cert), (AKE_SEND_RRX, rr), (AKE_SEND_H_PRIME, hp), (LC_SEND_L_PRIME, lp)] @
        (if cert ! 0 \<noteq> 0 then [(REPEATERAUTH_SEND_RECEIVERID_LIST, lst)] else [])) (heard used) \<and>
    wire (snd (authenticate zero_aes zero_mac plain_oaep example_draws example_link)) =
      wire example_link @ map CtrlWrite (spoken zero_aes zero_mac example_draws cert ekm rr lst)"
proof (rule authenticated_only_if_verified)
  have "fst (authenticate zero_aes zero_mac plain_oaep example_draws example_link) =
      Inr (session_keys example_draws example_cert example_list)"
    using authenticate_answers [OF example_premises(1-4) refl example_premises(5), where oaep = plain_oaep]
      example_premises(6) by auto
  then show "authenticate zero_aes zero_mac plain_oaep example_draws example_link =
      (Inr (session_keys example_draws example_cert example_list),
       snd (authenticate zero_aes zero_mac plain_oaep example_draws example_link))"
    by (simp add: prod_eq_iff)
qed

end
