(* ===== verification/Session_Setup.thy ===== *)
theory Session_Setup
  imports Session_Auth Stream_Open Inbound
begin

text \<open>
  Configuring an authenticated session (\<open>configure_control\<close> and \<open>configure_head\<close> of
  \<open>chimera/src/session.rs\<close>): the first encrypted message, the dock-wide records, the downstream
  authentication of each connector, the finalisation records and the start of the video engine. The
  two counters of the control channel, the AES block counter and the counter inside each message, are
  threaded with the number of acknowledgements seen.
\<close>

section \<open>Counters\<close>

record progress =
  p_wire_seq :: u32
  p_inner_counter :: u16
  p_acknowledgements :: nat

definition STREAM_OPEN :: bytes where
  "STREAM_OPEN =
    [0x00, 0x00, 0x1c, 0x00, 0x02, 0x00, 0x00, 0x00, 0x24, 0x00, 0x00, 0x00, 0x00, 0x00, 0x00, 0x00,
     0x04, 0x00, 0x06, 0x00, 0x00, 0x00, 0x00, 0x00, 0x00, 0x00, 0x00, 0x00, 0x00, 0x00, 0x00, 0x00,
     0x00, 0x00, 0x1c, 0x00, 0x02, 0x00, 0x00, 0x00, 0x45, 0x00, 0x00, 0x00, 0x00, 0x00, 0x00, 0x00,
     0x05, 0x00, 0x0e, 0x00, 0x00, 0x00, 0x00, 0x00, 0x00, 0x00, 0x00, 0x00, 0x00, 0x00, 0x00, 0x00]"

definition send_interactive ::
  "aes_fn \<Rightarrow> cmac_fn \<Rightarrow> SessionKeys \<Rightarrow> u16 \<Rightarrow> u32 \<Rightarrow> bytes \<Rightarrow> unit action" where
  "send_interactive aes cmac keys i wire_seq content =
    send_plain (seal_interactive aes cmac (control_key keys) (control_nonce keys) i wire_seq content)"

text \<open>The 32-byte records of the setup loops, and what each loop does with one.\<close>

definition setup_content :: "u16 \<Rightarrow> u16 \<Rightarrow> u16 \<Rightarrow> bytes" where
  "setup_content i sub counter =
    put 4 (le16 counter) (put 2 (le16 sub) (put 0 (le16 i) (replicate 32 0)))"

definition send_setup ::
  "aes_fn \<Rightarrow> cmac_fn \<Rightarrow> SessionKeys \<Rightarrow> u16 \<Rightarrow> bytes \<Rightarrow> progress \<Rightarrow> progress action" where
  "send_setup aes cmac keys i content p =
    andthen (send_interactive aes cmac keys i (p_wire_seq p) content) (\<lambda>_.
    andthen (drain_acknowledgements 2) (\<lambda>acks.
    ret (p\<lparr>p_acknowledgements := p_acknowledgements p + acks, p_inner_counter := p_inner_counter p + 1,
          p_wire_seq := p_wire_seq p + 2\<rparr>)))"

definition first_message :: "aes_fn \<Rightarrow> cmac_fn \<Rightarrow> SessionKeys \<Rightarrow> u16 \<Rightarrow> bytes \<Rightarrow> bytes" where
  "first_message aes cmac keys counter random =
    (let content = replicate 32 0;
         content = put 0 (le16 0x0014) content;
         content = put 4 (le16 counter) content;
         content = put 22 random content;
         body_len = length content + 16;
         hdr = replicate 16 0;
         hdr = put 2 (le16 (of_nat (16 + body_len - 4))) hdr;
         hdr = put 4 (le32 4) hdr;
         hdr = put 8 (le16 0x24) hdr;
         hdr = put 10 (le16 (aux_for_id 0x14 body_len)) hdr
     in seal_livemac aes cmac (control_key keys) (control_nonce keys) hdr content)"

definition dock_wide_records :: "Dock \<Rightarrow> (u16 \<times> u16 \<times> bytes) list" where
  "dock_wide_records dock =
    (if dock_wide_init (protocol (dock_profile dock)) then
       [(0x0014, 0x0030, []), (0x0015, 0x000b, [0x01])] @
       map (\<lambda>connector. (0x0016, 0x002a, [of_nat connector, 0x01]))
         [0..<connectors (topology (dock_profile dock))]
     else [])"

fun send_dock_wide ::
  "aes_fn \<Rightarrow> cmac_fn \<Rightarrow> SessionKeys \<Rightarrow> (u16 \<times> u16 \<times> bytes) list \<Rightarrow> progress \<Rightarrow> progress action" where
  "send_dock_wide aes cmac keys [] p = ret p"
| "send_dock_wide aes cmac keys ((i, sub, lead) # records) p =
    andthen (fill 10) (\<lambda>random.
    andthen (send_setup aes cmac keys i
      (put 22 lead (put 22 random (setup_content i sub (p_inner_counter p)))) p) (\<lambda>p.
    send_dock_wide aes cmac keys records p))"

definition commit_video_engine :: "unit action" where
  "commit_video_engine =
    andthen (must (ClearVideoHalt 0)) (\<lambda>_.
    andthen (must (ClearVideoHalt 1)) (\<lambda>_.
    andthen (must (VendorOut 0x24 0 0 [])) (\<lambda>_.
    must (VendorIn 0x22 1 0 28))))"

section \<open>One connector\<close>

definition EP84_DRAIN_READS :: nat where "EP84_DRAIN_READS = 16"

definition perhead_expected_push :: "nat \<Rightarrow> byte option" where
  "perhead_expected_push index =
    (if index = 0 then Some AKE_SEND_CERT
     else if index = 1 then Some 0x14
     else if index = 2 then Some AKE_SEND_RRX
     else if index = 3 then Some LC_SEND_L_PRIME
     else if index = 4 then Some REPEATERAUTH_SEND_RECEIVERID_LIST
     else if index = 5 then Some RECEIVER_AUTH_STATUS
     else None)"

record head_draws =
  h_rtx :: bytes
  h_km :: bytes
  h_rn :: bytes
  h_video_key :: bytes
  h_nonce :: bytes

record head_auth =
  a_rrx :: "bytes option"
  a_eks :: "bytes option"
  a_v :: "bytes option"

text \<open>
  The plaintext of step \<open>index\<close>. \<open>ok_or\<close> on a value not derived yet is the error \<open>HeadIncomplete\<close>;
  the fallbacks of the last two fields are past the guard that sets them.
\<close>

definition head_content ::
  "Dock \<Rightarrow> byte \<Rightarrow> head_draws \<Rightarrow> bytes \<Rightarrow> head_auth \<Rightarrow> nat \<Rightarrow> u16 \<times> u16 \<times> nat \<Rightarrow> u16 \<Rightarrow> bytes action" where
  "head_content dock head d encrypted_km a index step counter =
    (case step of (i, sub, content_len) \<Rightarrow>
     let onehot = per_connector_onehot (protocol (dock_profile dock)) in
     if i = 0x0026 then
       andthen (fill 8) (\<lambda>random.
       ret (stream_manage_restatement random counter head (stream_id (dock_geometry dock) head) onehot))
     else
       let content = replicate content_len 0;
           content = put 0 (le16 i) content;
           content = put 2 (le16 sub) content;
           content = put 4 (le16 counter) content in
       if index \<le> 5 then
         let content = connector_marker content head onehot;
             content = content[27 := [0x02, 0x13, 0x04, 0x09, 0x0b, 0x0f] ! index] in
         if index = 0 then
           andthen (fill 12) (\<lambda>random. ret (put 36 random (put 28 (h_rtx d) content)))
         else if index = 1 then
           andthen (fill 15) (\<lambda>random. ret (put 33 random (put 28 [0, 6, 2, 0, 2] content)))
         else if index = 2 then
           andthen (fill 4) (\<lambda>random. ret (put 156 random (put 28 encrypted_km content)))
         else if index = 3 then
           andthen (fill 12) (\<lambda>random. ret (put 36 random (put 28 (h_rn d) content)))
         else if index = 4 then
           (case a_eks a of
              None \<Rightarrow> fail (HeadIncomplete head)
            | Some eks \<Rightarrow> andthen (fill 12) (\<lambda>random.
                ret (put 52 random (put 44 (h_nonce d) (put 28 eks content)))))
         else
           (case a_v a of
              None \<Rightarrow> fail (HeadIncomplete head)
            | Some v \<Rightarrow> andthen (fill 4) (\<lambda>random. ret (put 44 random (put 28 v content))))
       else if index = 7 then
         andthen (fill (content_len - 22)) (\<lambda>random. ret (put 22 random content))
       else if index = 8 then
         andthen (fill (content_len - 27)) (\<lambda>random.
         ret (put 27 random (content[22 := head, 24 := strm2_marker (protocol (dock_profile dock)),
           25 := head * 4, 26 := 0x04])))
       else ret content)"

text \<open>
  The replies to one step: at most sixteen reads. \<open>waits\<close> are the outcomes of the deadline test at
  the reads that time out, true when there is still time.
\<close>

fun drain_pushes ::
  "aes_fn \<Rightarrow> cmac_fn \<Rightarrow> SessionKeys \<Rightarrow> byte option \<Rightarrow> nat \<Rightarrow> bool list \<Rightarrow> bytes option \<Rightarrow> nat \<Rightarrow>
   (bytes option \<times> nat) action" where
  "drain_pushes aes cmac keys expected 0 waits rrx acks l = (Inr (rrx, acks), l)"
| "drain_pushes aes cmac keys expected (Suc n) waits rrx acks l =
    (case receive_optional l of
       (Inl e, l) \<Rightarrow> (Inl e, l)
     | (Inr None, l) \<Rightarrow>
         if expected = None \<or> waits = [] \<or> \<not> hd waits then (Inr (rrx, acks), l)
         else drain_pushes aes cmac keys expected n (tl waits) rrx acks l
     | (Inr (Some reply), l) \<Rightarrow>
         (case perhead_push aes cmac (control_key keys) (control_nonce keys) reply of
            Some (msg_id, payload) \<Rightarrow>
              let rrx = (if msg_id = AKE_SEND_RRX \<and> 8 \<le> length payload \<and> rrx = None
                         then Some (take 8 payload) else rrx)
              in if expected = Some msg_id then (Inr (rrx, acks), l)
                 else drain_pushes aes cmac keys expected n waits rrx acks l
          | None \<Rightarrow>
              drain_pushes aes cmac keys expected n waits rrx
                (acks + (if is_control_ack reply then 1 else 0)) l))"

fun drain_rrx ::
  "aes_fn \<Rightarrow> cmac_fn \<Rightarrow> SessionKeys \<Rightarrow> nat \<Rightarrow> bytes option \<Rightarrow> bytes option action" where
  "drain_rrx aes cmac keys 0 rrx l = (Inr rrx, l)"
| "drain_rrx aes cmac keys (Suc n) rrx l =
    (case receive_optional l of
       (Inl e, l) \<Rightarrow> (Inl e, l)
     | (Inr None, l) \<Rightarrow> (Inr rrx, l)
     | (Inr (Some reply), l) \<Rightarrow>
         drain_rrx aes cmac keys n
           (case rrx of Some r \<Rightarrow> Some r
            | None \<Rightarrow> perhead_rrx aes cmac (control_key keys) (control_nonce keys) reply) l)"

definition next_timed :: "bool list action" where
  "next_timed l = (case timed l of [] \<Rightarrow> (Inr [], l) | t # ts \<Rightarrow> (Inr t, l\<lparr>timed := ts\<rparr>))"

text \<open>The values derived before step three, once the dock's random is known.\<close>

definition derive_head :: "aes_fn \<Rightarrow> hmac_fn \<Rightarrow> SessionKeys \<Rightarrow> head_draws \<Rightarrow> bytes \<Rightarrow> head_auth \<Rightarrow> head_auth" where
  "derive_head aes hmac keys d rrx a =
    (let kd = derive_kd aes (h_km d) (h_rtx d) rrx;
         v = compute_v_full hmac kd (receiver_id_list keys)
     in a\<lparr>a_eks := Some (compute_eks aes (h_km d) (h_rtx d) rrx (h_rn d) (h_video_key d)),
          a_v := Some (drop 16 v)\<rparr>)"

text \<open>Leaving the loop early with \<open>Ok(false)\<close> is the result without authentication.\<close>

fun head_steps ::
  "aes_fn \<Rightarrow> cmac_fn \<Rightarrow> hmac_fn \<Rightarrow> Dock \<Rightarrow> SessionKeys \<Rightarrow> byte \<Rightarrow> head_draws \<Rightarrow> bytes \<Rightarrow>
   nat \<Rightarrow> (u16 \<times> u16 \<times> nat) list \<Rightarrow> head_auth \<Rightarrow> progress \<Rightarrow> (bool \<times> progress) action" where
  "head_steps aes cmac hmac dock keys head d ekm index [] a p =
    (if a_eks a = None \<or> a_v a = None then fail (HeadIncomplete head) else ret (True, p))"
| "head_steps aes cmac hmac dock keys head d ekm index (step # steps) a p =
    (if 3 \<le> index \<and> a_eks a = None \<and> a_rrx a = None then ret (False, p)
     else
       let a = (if 3 \<le> index \<and> a_eks a = None then derive_head aes hmac keys d (the (a_rrx a)) a else a) in
       andthen (head_content dock head d ekm a index step (p_inner_counter p)) (\<lambda>content.
       andthen (send_interactive aes cmac keys (fst step) (p_wire_seq p) content) (\<lambda>_.
       let expected = (if per_connector_onehot (protocol (dock_profile dock))
         then perhead_expected_push index else None) in
       andthen next_timed (\<lambda>waits.
       andthen (drain_pushes aes cmac keys expected EP84_DRAIN_READS waits (a_rrx a) (p_acknowledgements p))
         (\<lambda>(rrx, acks).
       andthen (if index = 2 then drain_rrx aes cmac keys EP84_DRAIN_READS rrx else ret rrx) (\<lambda>rrx.
       head_steps aes cmac hmac dock keys head d ekm (index + 1) steps (a\<lparr>a_rrx := rrx\<rparr>)
         (p\<lparr>p_acknowledgements := acks, p_inner_counter := p_inner_counter p + 1,
            p_wire_seq := p_wire_seq p + of_nat ((length content + 15) div 16)\<rparr>)))))))"

definition draw_head :: "head_draws action" where
  "draw_head =
    andthen (fill 8) (\<lambda>rtx. andthen (fill 16) (\<lambda>km. andthen (fill 8) (\<lambda>rn.
    andthen (fill 16) (\<lambda>key. andthen (fill 8) (\<lambda>nonce.
    ret \<lparr>h_rtx = rtx, h_km = km, h_rn = rn, h_video_key = key, h_nonce = nonce\<rparr>)))))"

definition video_content_nonce :: "Dock \<Rightarrow> bytes \<Rightarrow> byte \<Rightarrow> bytes" where
  "video_content_nonce dock riv head = stream_content_nonce riv (stream_id (dock_geometry dock) head)"

definition configure_head ::
  "aes_fn \<Rightarrow> cmac_fn \<Rightarrow> hmac_fn \<Rightarrow> oaep_fn \<Rightarrow> Dock \<Rightarrow> SessionKeys \<Rightarrow> byte \<Rightarrow> progress \<Rightarrow>
   (bool \<times> bytes \<times> progress) action" where
  "configure_head aes cmac hmac oaep dock keys head p =
    andthen draw_head (\<lambda>d.
    andthen (built (oaep (rsa keys) (h_km d))) (\<lambda>ekm.
    let video_key = cp_session_key (h_video_key d) @ video_content_nonce dock (h_nonce d) head in
    andthen (head_steps aes cmac hmac dock keys head d ekm 0 CP_SETUP_PER_HEAD
      \<lparr>a_rrx = None, a_eks = None, a_v = None\<rparr> p) (\<lambda>(authenticated, p).
    ret (authenticated, video_key, p))))"

section \<open>The whole configuration\<close>

fun configure_heads ::
  "aes_fn \<Rightarrow> cmac_fn \<Rightarrow> hmac_fn \<Rightarrow> oaep_fn \<Rightarrow> Dock \<Rightarrow> SessionKeys \<Rightarrow> nat list \<Rightarrow> bytes list \<Rightarrow> bool list \<Rightarrow>
   progress \<Rightarrow> (bytes list \<times> bool list \<times> progress) action" where
  "configure_heads aes cmac hmac oaep dock keys [] video_keys authenticated p =
    ret (video_keys, authenticated, p)"
| "configure_heads aes cmac hmac oaep dock keys (head # heads) video_keys authenticated p =
    andthen (configure_head aes cmac hmac oaep dock keys (of_nat head) p) (\<lambda>(ok, video_key, p).
    configure_heads aes cmac hmac oaep dock keys heads (video_keys[head := video_key])
      (authenticated[head := ok]) p)"

definition finalize_records :: "Dock \<Rightarrow> bool list \<Rightarrow> (u16 \<times> u16 \<times> byte) list" where
  "finalize_records dock authenticated =
    concat (map (\<lambda>head. map (\<lambda>(i, sub). (i, sub, of_nat head)) CP_SETUP_FINALIZE_STEPS)
      (filter (\<lambda>head. authenticated ! head) [0..<connectors (topology (dock_profile dock))]))"

fun send_finalize ::
  "aes_fn \<Rightarrow> cmac_fn \<Rightarrow> SessionKeys \<Rightarrow> (u16 \<times> u16 \<times> byte) list \<Rightarrow> progress \<Rightarrow> progress action" where
  "send_finalize aes cmac keys [] p = ret p"
| "send_finalize aes cmac keys ((i, sub, selector) # records) p =
    (let content = (setup_content i sub (p_inner_counter p))[22 := selector] in
    andthen (if sub = 0x004c
      then andthen (fill 8) (\<lambda>random. ret (put 24 random (content[23 := 1])))
      else andthen (fill 9) (\<lambda>random. ret (put 23 random content))) (\<lambda>content.
    andthen (send_setup aes cmac keys i content p) (\<lambda>p.
    send_finalize aes cmac keys records p)))"

definition commits_early :: "Dock \<Rightarrow> bool" where
  "commits_early dock = (video_commit_point (protocol (dock_profile dock)) = BeforeConnectorRecords)"

definition configure_control ::
  "aes_fn \<Rightarrow> cmac_fn \<Rightarrow> hmac_fn \<Rightarrow> oaep_fn \<Rightarrow> Dock \<Rightarrow> SessionKeys \<Rightarrow> (bytes list \<times> progress) action" where
  "configure_control aes cmac hmac oaep dock keys =
    andthen (send_plain STREAM_OPEN) (\<lambda>_.
    andthen (fill 10) (\<lambda>random.
    andthen (send_plain_retry (first_message aes cmac keys (next_counter keys) random)) (\<lambda>_.
    andthen (drain_acknowledgements 8) (\<lambda>acks.
    let p = \<lparr>p_wire_seq = 2, p_inner_counter = next_counter keys + 1, p_acknowledgements = acks\<rparr> in
    andthen (send_dock_wide aes cmac keys (dock_wide_records dock) p) (\<lambda>p.
    andthen (if commits_early dock then commit_video_engine else ret ()) (\<lambda>_.
    andthen (configure_heads aes cmac hmac oaep dock keys [0..<connectors (topology (dock_profile dock))]
      (replicate MAX_CONNECTORS (replicate 24 0)) (replicate MAX_CONNECTORS False) p)
      (\<lambda>(video_keys, authenticated, p).
    andthen (send_finalize aes cmac keys (finalize_records dock authenticated) p) (\<lambda>p.
    andthen (if commits_early dock then ret ()
      else andthen (must (VendorOut 0x24 0 0 [])) (\<lambda>_. must (VendorIn 0x22 1 0 28))) (\<lambda>_.
    andthen (drain_acknowledgements 16) (\<lambda>acks.
    let p = p\<lparr>p_acknowledgements := p_acknowledgements p + acks\<rparr> in
    andthen (if commits_early dock then ret () else commit_video_engine) (\<lambda>_.
    ret (video_keys, p))))))))))))"

section \<open>The control channel as the dock reads it\<close>

lemma frame_decode_append: "frame_decode xs = Some f \<Longrightarrow> frame_decode (xs @ ys) = Some f"
  using frame_decode_SomeD [of xs f]
  by (auto simp: frame_decode_def Let_def get_def split: if_splits)

lemma receive_append:
  "receive opener ss c xs = Some (pts, c') \<Longrightarrow> receive opener ss c (xs @ ys) = prepend pts (receive opener ss c' ys)"
proof (induction opener ss c xs arbitrary: pts rule: receive.induct)
  case (1 opener ss c xs)
  show ?case
  proof (cases "xs = []")
    case False
    then obtain f where f: "frame_decode xs = Some f"
      using "1.prems" by (auto simp: receive.simps [of opener ss c xs] split: option.splits)
    let ?rest = "drop (16 + length (body f)) xs"
    have rest: "drop (16 + length (body f)) (xs @ ys) = ?rest @ ys"
      using frame_decode_SomeD(1) [OF f] by simp
    note step = receive_step [OF False f refl, of opener ss c]
    note step' = receive_step [of "xs @ ys", OF _ frame_decode_append [OF f] rest, of opener ss c]
    show ?thesis
    proof (cases "msg_type f = 4 \<and> sub_id f \<in> set ss")
      case True
      with "1.prems" step obtain pt qs where pt: "seq f = c" "opener c (body f) = Inr pt"
          "receive opener ss (c + of_nat ((length pt + 15) div 16)) ?rest = Some (qs, c')" "pts = pt # qs"
        by (auto split: if_splits sum.splits)
      then show ?thesis
        using "1.IH"(1) [OF False f refl True _ pt(2) pt(3)] step' True False
        by (simp add: prepend_single [symmetric])
    next
      case False'': False
      then show ?thesis
        using "1.IH"(2) [OF False f refl False''] "1.prems" step step' False by auto
    qed
  qed (use "1.prems" in simp)
qed

definition ctrl_bytes :: "usb_op list \<Rightarrow> bytes" where
  "ctrl_bytes w = concat (map (\<lambda>x. case x of CtrlWrite f \<Rightarrow> f | _ \<Rightarrow> []) w)"

lemma ctrl_bytes_simps [simp]:
  "ctrl_bytes [] = []" "ctrl_bytes (v @ w) = ctrl_bytes v @ ctrl_bytes w" "ctrl_bytes [CtrlWrite f] = f"
  by (simp_all add: ctrl_bytes_def)

text \<open>
  Between two links, the dock reads everything written at its own block counter, and the counters
  inside the messages are consecutive.
\<close>

definition counted ::
  "aes_fn \<Rightarrow> cmac_fn \<Rightarrow> SessionKeys \<Rightarrow> u32 \<Rightarrow> u16 \<Rightarrow> link \<Rightarrow> u32 \<Rightarrow> u16 \<Rightarrow> link \<Rightarrow> bool" where
  "counted aes cmac keys ws ic l ws' ic' l' \<longleftrightarrow>
    (\<exists>w pts. wire l' = wire l @ w \<and>
      receive (open_in aes cmac (control_key keys) (control_nonce keys)) [0x24] ws (ctrl_bytes w) = Some (pts, ws') \<and>
      map (rd16 4) pts = map (\<lambda>k. ic + of_nat k) [0..<length pts] \<and> ic' = ic + of_nat (length pts))"

lemma counted_quiet: "wire l' = wire l \<Longrightarrow> counted aes cmac keys ws ic l ws ic l'"
  unfolding counted_def by (intro exI [of _ "[]"]) simp

lemma counted_trans [trans]:
  assumes "counted aes cmac keys ws ic l ws1 ic1 l1" and "counted aes cmac keys ws1 ic1 l1 ws2 ic2 l2"
  shows "counted aes cmac keys ws ic l ws2 ic2 l2"
proof -
  from assms obtain w pts w' pts' where
    w: "wire l1 = wire l @ w" "wire l2 = wire l1 @ w'" and
    r: "receive (open_in aes cmac (control_key keys) (control_nonce keys)) [0x24] ws (ctrl_bytes w) = Some (pts, ws1)"
      "receive (open_in aes cmac (control_key keys) (control_nonce keys)) [0x24] ws1 (ctrl_bytes w') = Some (pts', ws2)" and
    c: "map (rd16 4) pts = map (\<lambda>k. ic + of_nat k) [0..<length pts]" "ic1 = ic + of_nat (length pts)"
      "map (rd16 4) pts' = map (\<lambda>k. ic1 + of_nat k) [0..<length pts']" "ic2 = ic1 + of_nat (length pts')"
    unfolding counted_def by blast
  have "map (\<lambda>k. ic1 + of_nat k) [0..<length pts'] =
      map (\<lambda>k. ic + of_nat k) [length pts..<length pts + length pts']"
    by (rule nth_equalityI) (simp_all add: c(2) add.assoc)
  then have "map (rd16 4) (pts @ pts') = map (\<lambda>k. ic + of_nat k) [0..<length (pts @ pts')]"
    using c(1,3) by (simp add: upt_add_eq_append [of 0])
  then show ?thesis
    unfolding counted_def
    using w c(2,4) receive_append [OF r(1), of "ctrl_bytes w'"] r(2)
    by (intro exI [of _ "w @ w'"] exI [of _ "pts @ pts'"]) simp
qed

lemma must_wire: "must x l = (Inr a, l') \<Longrightarrow> wire l' = wire l @ [x]"
  using must_moves by (auto simp: moves_def)

lemma counted_must:
  "must x l = (Inr a, l') \<Longrightarrow> (\<And>f. x \<noteq> CtrlWrite f) \<Longrightarrow> counted aes cmac keys ws ic l ws ic l'"
  unfolding counted_def
  by (intro exI [of _ "[x]"] exI [of _ "[]"]) (auto simp: must_wire ctrl_bytes_def split: usb_op.splits)

lemma receive_interactive:
  assumes "length content + 28 < 65536"
  shows "receive (open_in aes cmac key nonce) [0x24] ws (seal_interactive aes cmac key nonce i ws content) =
    Some ([content], ws + of_nat ((length content + 15) div 16))"
  using receive_sealed [of content "0x24" "[0x24]" aes cmac key nonce ws
      "aux_for_id i (length content + 16)" "[]"] assms
  by (simp add: seal_interactive_body seal_video_arm_body)

lemma counted_send:
  assumes "send_interactive aes cmac keys i ws content l = (Inr a, l')"
    and "length content + 28 < 65536" and "rd16 4 content = ic"
  shows "counted aes cmac keys ws ic l (ws + of_nat ((length content + 15) div 16)) (ic + 1) l'"
proof -
  note receive_interactive [OF assms(2), of aes cmac "control_key keys" "control_nonce keys" ws i]
  then show ?thesis
    using must_wire [OF assms(1) [unfolded send_interactive_def send_plain_def]] assms(3)
    unfolding counted_def
    by (intro exI [of _ "[CtrlWrite (seal_interactive aes cmac (control_key keys) (control_nonce keys) i ws content)]"]
        exI [of _ "[content]"]) simp
qed

text \<open>Reads, draws and the clock leave the wire as it is.\<close>

lemma wire_recv [simp]: "wire (snd (recv_frame_raw_timeout l)) = wire l"
  by (simp add: recv_frame_raw_timeout_def split: list.splits)

lemma wire_receive_optional [simp]: "wire (snd (receive_optional l)) = wire l"
  by (auto simp: receive_optional_def recv_frame_raw_timeout_def split: list.splits sum.splits usb_error.splits)

lemma receive_optional_wire: "receive_optional l = (r, l') \<Longrightarrow> wire l' = wire l"
  using wire_receive_optional [of l] by simp

lemma wire_drain_tries [simp]: "wire (snd (drain_tries n acks l)) = wire l"
  by (induction n arbitrary: acks l) (auto dest: receive_optional_wire split: prod.splits sum.splits option.splits)

lemma drain_wire: "drain_acknowledgements n l = (Inr a, l') \<Longrightarrow> wire l' = wire l"
  using wire_drain_tries [of n 0 l] by (cases "drain_tries n 0 l") (simp add: drain_acknowledgements_def)

lemma fill_ok: "fill n l = (Inr a, l') \<Longrightarrow> wire l' = wire l \<and> length a = n"
  by (auto simp: fill_def)

lemma next_timed_wire: "next_timed l = (Inr a, l') \<Longrightarrow> wire l' = wire l"
  by (auto simp: next_timed_def split: list.splits)

lemma drain_pushes_wire:
  "drain_pushes aes cmac keys expected n waits rrx acks l = (Inr r, l') \<Longrightarrow> wire l' = wire l"
  by (induction n arbitrary: waits rrx acks l)
    (auto simp: Let_def dest!: receive_optional_wire split: prod.splits sum.splits option.splits if_splits)

lemma drain_rrx_wire: "drain_rrx aes cmac keys n rrx l = (Inr r, l') \<Longrightarrow> wire l' = wire l"
  by (induction n arbitrary: rrx l)
    (auto dest!: receive_optional_wire split: prod.splits sum.splits option.splits)

lemma send_plain_tries_wire: "send_plain_tries n e f l = (Inr a, l') \<Longrightarrow> wire l' = wire l @ [CtrlWrite f]"
proof (induction n arbitrary: e l)
  case (Suc n)
  obtain r l1 where r: "send_plain f l = (r, l1)" by fastforce
  show ?case
  proof (cases r)
    case (Inl err)
    then have "wire l1 = wire l"
      using r by (auto simp: send_plain_def must_def perform_def split: list.splits option.splits)
    then show ?thesis using Suc Inl r by fastforce
  next
    case (Inr u)
    then show ?thesis using Suc.prems r must_wire [of "CtrlWrite f" l] by (simp add: send_plain_def)
  qed
qed simp

lemmas wires = drain_wire fill_ok next_timed_wire drain_pushes_wire drain_rrx_wire

lemma commit_counted:
  "commit_video_engine l = (Inr a, l') \<Longrightarrow> counted aes cmac keys ws ic l ws ic l'"
  unfolding commit_video_engine_def
  by (elim actionE) (blast intro: counted_trans counted_must)

lemma send_setup_counted:
  assumes "send_setup aes cmac keys i content p l = (Inr p', l')"
    and "length content = 32" and "rd16 4 content = p_inner_counter p"
  shows "counted aes cmac keys (p_wire_seq p) (p_inner_counter p) l (p_wire_seq p') (p_inner_counter p') l'"
  using assms(1) unfolding send_setup_def
proof (elim actionE, goal_cases)
  case (1 a l1 acks l2)
  then show ?case
    using counted_trans [OF counted_send [OF 1(1), of "p_inner_counter p"] counted_quiet] drain_wire [OF 1(2)] assms(2,3)
    by simp
qed

lemma setup_content_ok [simp]: "length (setup_content i sub c) = 32" "rd16 4 (setup_content i sub c) = c"
  by (simp_all add: setup_content_def)

abbreviation stepped :: "aes_fn \<Rightarrow> cmac_fn \<Rightarrow> SessionKeys \<Rightarrow> progress \<Rightarrow> link \<Rightarrow> progress \<Rightarrow> link \<Rightarrow> bool" where
  "stepped aes cmac keys p l p' l' \<equiv>
    counted aes cmac keys (p_wire_seq p) (p_inner_counter p) l (p_wire_seq p') (p_inner_counter p') l'"

lemma send_dock_wide_counted:
  assumes "send_dock_wide aes cmac keys records p l = (Inr p', l')"
    and "list_all (\<lambda>(i, sub, lead). length lead \<le> 10) records"
  shows "stepped aes cmac keys p l p' l'"
  using assms
proof (induction records arbitrary: p l)
  case Nil
  then show ?case by (auto simp: ret_def intro: counted_quiet)
next
  case (Cons r records)
  obtain i sub lead where r: "r = (i, sub, lead)" by (cases r)
  from Cons.prems(1) show ?case
    unfolding r send_dock_wide.simps
  proof (elim actionE, goal_cases)
    case (1 random l1 q l2)
    have len: "length random = 10" "wire l1 = wire l" using fill_ok [OF 1(1)] by auto
    have "stepped aes cmac keys p l1 q l2"
      using send_setup_counted [OF 1(2)] len Cons.prems(2) by (simp add: r)
    moreover have "stepped aes cmac keys q l2 p' l'"
      using Cons.IH [OF 1(3)] Cons.prems(2) by simp
    ultimately show ?case
      using counted_trans [OF counted_quiet [OF len(2)]] counted_trans by blast
  qed
qed

lemma dock_wide_leads: "list_all (\<lambda>(i, sub, lead). length lead \<le> 10) (dock_wide_records dock)"
  by (auto simp: dock_wide_records_def list_all_iff)

lemma send_finalize_counted:
  "send_finalize aes cmac keys records p l = (Inr p', l') \<Longrightarrow> stepped aes cmac keys p l p' l'"
proof (induction records arbitrary: p l)
  case Nil
  then show ?case by (auto simp: ret_def intro: counted_quiet)
next
  case (Cons r records)
  obtain i sub sel where r: "r = (i, sub, sel)" by (cases r)
  let ?c = "(setup_content i sub (p_inner_counter p))[22 := sel]"
  from Cons.prems show ?case
    unfolding r send_finalize.simps Let_def
  proof (elim andthen_InrE, goal_cases)
    case (1 content l1 q l2)
    have "wire l1 = wire l \<and> length content = 32 \<and> rd16 4 content = p_inner_counter p"
      using 1(1) by (auto elim!: actionE dest!: fill_ok split: if_splits)
    then show ?case
      using counted_trans [OF counted_quiet counted_trans
          [OF send_setup_counted [OF 1(2)] Cons.IH [OF 1(3)]]] by auto
  qed
qed

definition head_step_ok :: "head_draws \<Rightarrow> bytes \<Rightarrow> head_auth \<Rightarrow> bool" where
  "head_step_ok d ekm a \<longleftrightarrow> length (h_rtx d) = 8 \<and> length (h_km d) = 16 \<and> length (h_rn d) = 8 \<and>
    length (h_video_key d) = 16 \<and> length (h_nonce d) = 8 \<and> length ekm = 128 \<and>
    (\<forall>r. a_rrx a = Some r \<longrightarrow> length r = 8) \<and> (\<forall>e. a_eks a = Some e \<longrightarrow> length e = 16) \<and>
    (\<forall>v. a_v a = Some v \<longrightarrow> length v = 16)"

lemma connector_marker_ok [simp]:
  "length (connector_marker c h onehot) = length c"
  "rd16 4 (connector_marker c h onehot) = rd16 4 c"
  by (simp_all add: connector_marker_def SELECTOR_def)

lemma restatement_ok:
  "length random = 8 \<Longrightarrow> length (stream_manage_restatement random counter head sid onehot) = 48"
  "length random = 8 \<Longrightarrow> rd16 4 (stream_manage_restatement random counter head sid onehot) = counter"
  by (simp_all add: stream_manage_restatement_def message_end_def PAYLOAD_def HDCP_ID_def Let_def)

lemma head_content_ok:
  assumes "head_content dock head d ekm a index step counter l = (Inr c, l')"
    and "index < 9" and "step = CP_SETUP_PER_HEAD ! index" and "head_step_ok d ekm a"
  shows "wire l' = wire l \<and> length c + 28 < 65536 \<and> rd16 4 c = counter"
proof -
  have "index \<in> {0, 1, 2, 3, 4, 5, 6, 7, 8}" using assms(2) by auto
  then show ?thesis
    using assms(1,3,4)
    by (auto simp: head_content_def CP_SETUP_PER_HEAD_def head_step_ok_def fail_def restatement_ok Let_def
        elim!: actionE dest!: fill_ok split: option.splits)
qed

definition rrx_ok :: "bytes option \<Rightarrow> bool" where
  "rrx_ok rrx \<longleftrightarrow> (\<forall>r. rrx = Some r \<longrightarrow> length r = 8)"

lemma drain_pushes_rrx:
  "drain_pushes aes cmac keys expected n waits rrx acks l = (Inr (rrx', acks'), l') \<Longrightarrow> rrx_ok rrx \<Longrightarrow> rrx_ok rrx'"
proof (induction n arbitrary: waits rrx acks l)
  case (Suc n)
  obtain r l1 where r: "receive_optional l = (r, l1)" by fastforce
  have new: "8 \<le> length q \<Longrightarrow> rrx_ok (Some (take 8 q))" for q :: bytes
    by (simp add: rrx_ok_def)
  show ?case
    using Suc.prems r Suc.IH new
    by (auto simp: Let_def split: sum.splits option.splits if_splits)
qed simp

lemma drain_rrx_ok: "drain_rrx aes cmac keys n rrx l = (Inr rrx', l') \<Longrightarrow> rrx_ok rrx \<Longrightarrow> rrx_ok rrx'"
proof (induction n arbitrary: rrx l)
  case (Suc n)
  obtain r l1 where r: "receive_optional l = (r, l1)" by fastforce
  have new: "rrx_ok (case rrx of Some r \<Rightarrow> Some r
      | None \<Rightarrow> perhead_rrx aes cmac (control_key keys) (control_nonce keys) reply)" for reply
    using Suc.prems(2) by (auto simp: rrx_ok_def perhead_rrx_def split: option.splits prod.splits if_splits)
  show ?case
    using Suc.prems r Suc.IH new by (auto split: sum.splits option.splits)
qed simp

lemma derive_head_ok:
  "head_step_ok d ekm a \<Longrightarrow> length rrx = 8 \<Longrightarrow> head_step_ok d ekm (derive_head aes hmac keys d rrx a)"
  by (auto simp: head_step_ok_def derive_head_def compute_eks_mask Let_def)

lemma head_steps_counted:
  assumes "head_steps aes cmac hmac dock keys head d ekm index steps a p l = (Inr (ok, p'), l')"
    and "head_step_ok d ekm a" and "steps = drop index CP_SETUP_PER_HEAD"
  shows "stepped aes cmac keys p l p' l'"
  using assms
proof (induction steps arbitrary: index a p l)
  case Nil
  then show ?case by (auto simp: ret_def fail_def intro: counted_quiet split: if_splits)
next
  case (Cons step steps)
  have index: "index < 9" "step = CP_SETUP_PER_HEAD ! index" "steps = drop (index + 1) CP_SETUP_PER_HEAD"
  proof -
    show i: "index < 9"
      using Cons.prems(3) by (cases "index < 9") (simp_all add: CP_SETUP_PER_HEAD_def)
    then have "drop index CP_SETUP_PER_HEAD = CP_SETUP_PER_HEAD ! index # drop (Suc index) CP_SETUP_PER_HEAD"
      by (subst Cons_nth_drop_Suc) (simp_all add: CP_SETUP_PER_HEAD_def)
    then show "step = CP_SETUP_PER_HEAD ! index" "steps = drop (index + 1) CP_SETUP_PER_HEAD"
      using Cons.prems(3) by simp_all
  qed
  show ?case
  proof (cases "3 \<le> index \<and> a_eks a = None \<and> a_rrx a = None")
    case True
    then show ?thesis using Cons.prems(1) by (auto simp: ret_def intro: counted_quiet)
  next
    case False
    define b where "b = (if 3 \<le> index \<and> a_eks a = None then derive_head aes hmac keys d (the (a_rrx a)) a else a)"
    have b: "head_step_ok d ekm b"
      using Cons.prems(2) False by (auto simp: b_def intro!: derive_head_ok) (auto simp: head_step_ok_def)
    have go: "andthen (head_content dock head d ekm b index step (p_inner_counter p)) (\<lambda>content.
       andthen (send_interactive aes cmac keys (fst step) (p_wire_seq p) content) (\<lambda>_.
       andthen next_timed (\<lambda>waits.
       andthen (drain_pushes aes cmac keys (if per_connector_onehot (protocol (dock_profile dock))
         then perhead_expected_push index else None) EP84_DRAIN_READS waits (a_rrx b) (p_acknowledgements p))
         (\<lambda>(rrx, acks).
       andthen (if index = 2 then drain_rrx aes cmac keys EP84_DRAIN_READS rrx else ret rrx) (\<lambda>rrx.
       head_steps aes cmac hmac dock keys head d ekm (index + 1) steps (b\<lparr>a_rrx := rrx\<rparr>)
         (p\<lparr>p_acknowledgements := acks, p_inner_counter := p_inner_counter p + 1,
            p_wire_seq := p_wire_seq p + of_nat ((length content + 15) div 16)\<rparr>)))))) l = (Inr (ok, p'), l')"
      using Cons.prems(1) False by (simp add: b_def [symmetric] Let_def)
    show ?thesis
      using go
    proof (elim andthen_pairE andthen_InrE, goal_cases)
      case (1 content l1 u l2 waits l3 rrx acks l4 rrx' l5)
      note c = head_content_ok [OF 1(1) index(1,2) b]
      have "rrx_ok (a_rrx b)" using b by (simp add: head_step_ok_def rrx_ok_def)
      then have "rrx_ok rrx'"
        using drain_pushes_rrx [OF 1(4)] drain_rrx_ok 1(5) by (auto simp: ret_def split: if_splits)
      then have b': "head_step_ok d ekm (b\<lparr>a_rrx := rrx'\<rparr>)"
        using b by (simp add: head_step_ok_def rrx_ok_def)
      have w: "wire l5 = wire l2"
        using next_timed_wire [OF 1(3)] drain_pushes_wire [OF 1(4)] drain_rrx_wire 1(5)
        by (auto simp: ret_def split: if_splits)
      have "counted aes cmac keys (p_wire_seq p) (p_inner_counter p) l
          (p_wire_seq p + of_nat ((length content + 15) div 16)) (p_inner_counter p + 1) l5"
        using counted_trans [OF counted_quiet counted_trans [OF counted_send [OF 1(2)] counted_quiet [OF w]]] c
        by auto
      then show ?case
        using counted_trans [OF _ Cons.IH [OF 1(6) b' index(3)]] by simp
    qed
  qed
qed

definition oaep_sized :: "oaep_fn \<Rightarrow> bool" where
  "oaep_sized oaep \<longleftrightarrow> (\<forall>key km e. oaep key km = Ok e \<longrightarrow> length e = 128)"

lemma draw_head_ok:
  assumes "draw_head l = (Inr d, l')" and "length ekm = 128"
  shows "wire l' = wire l \<and> head_step_ok d ekm \<lparr>a_rrx = None, a_eks = None, a_v = None\<rparr>"
  using assms unfolding draw_head_def
  by (auto simp: head_step_ok_def elim!: actionE dest!: fill_ok)

lemma configure_head_counted:
  assumes "configure_head aes cmac hmac oaep dock keys head p l = (Inr (ok, vk, p'), l')" and "oaep_sized oaep"
  shows "stepped aes cmac keys p l p' l'"
  using assms(1) unfolding configure_head_def Let_def
proof (elim actionE, goal_cases)
  case (1 d l1 ekm l2 ok' q l3)
  have d: "wire l1 = wire l" "head_step_ok d ekm \<lparr>a_rrx = None, a_eks = None, a_v = None\<rparr>"
    using draw_head_ok [OF 1(1)] assms(2) 1 by (auto simp: oaep_sized_def)
  then show ?case
    using 1 counted_trans [OF counted_quiet head_steps_counted [of aes cmac hmac dock keys head d ekm 0]] by auto
qed

lemma configure_heads_counted:
  assumes "configure_heads aes cmac hmac oaep dock keys heads vks auths p l = (Inr (vks', auths', p'), l')"
    and "oaep_sized oaep"
  shows "stepped aes cmac keys p l p' l'"
  using assms(1)
proof (induction heads arbitrary: vks auths p l)
  case Nil
  then show ?case by (auto simp: ret_def intro: counted_quiet)
next
  case (Cons head heads)
  obtain ok vk q l1 where
    h: "configure_head aes cmac hmac oaep dock keys (of_nat head) p l = (Inr (ok, vk, q), l1)" and
    t: "configure_heads aes cmac hmac oaep dock keys heads (vks[head := vk]) (auths[head := ok]) q l1 =
      (Inr (vks', auths', p'), l')"
    using Cons.prems by (auto simp: andthen_Inr_iff)
  show ?case
    using counted_trans [OF configure_head_counted [OF h assms(2)] Cons.IH [OF t]] .
qed

text \<open>The first message is an interactive message at block zero; the stream opening is not sealed.\<close>

lemma zero_seq_header:
  "put 12 (le32 0) (put 10 (le16 aux) (put 8 (le16 sub) (put 4 (le32 ty) (put 2 (le16 n) (replicate 16 0))))) =
    put 10 (le16 aux) (put 8 (le16 sub) (put 4 (le32 ty) (put 2 (le16 n) (replicate 16 0))))"
proof -
  have zero: "le32 0 = replicate 4 0" by (simp add: le32_def numeral_eq_Suc)
  show ?thesis by (rule nth_equalityI) (simp_all add: nth_put zero)
qed

lemma first_message_sealed:
  assumes "length random = 10"
  shows "first_message aes cmac keys counter random =
    seal_interactive aes cmac (control_key keys) (control_nonce keys) 0x14 0
      (put 22 random (put 4 (le16 counter) (put 0 (le16 0x0014) (replicate 32 0))))"
  using assms zero_seq_header [of "aux_for_id 0x14 48" "0x24" 4 "60"]
  by (simp add: first_message_def seal_interactive_def Let_def)

lemma stream_open_skipped: "receive opener [0x24] c (STREAM_OPEN @ rest) = receive opener [0x24] c rest"
proof -
  have split: "STREAM_OPEN @ rest = take 32 STREAM_OPEN @ drop 32 STREAM_OPEN @ rest" by simp
  have "receive opener [0x24] c (take 32 STREAM_OPEN @ drop 32 STREAM_OPEN @ rest) =
      receive opener [0x24] c (drop 32 STREAM_OPEN @ rest)"
    by (rule receive_skip) (simp_all add: STREAM_OPEN_def rd16_def rd32_def from_le16_def from_le32_def)
  also have "\<dots> = receive opener [0x24] c rest"
    by (rule receive_skip) (simp_all add: STREAM_OPEN_def rd16_def rd32_def from_le16_def from_le32_def)
  finally show ?thesis by (simp only: split)
qed

lemma opening_counted:
  assumes "send_plain STREAM_OPEN l = (Inr a, l1)" and "length random = 10" and "wire l2 = wire l1"
    and "send_plain_retry (first_message aes cmac keys counter random) l2 = (Inr b, l3)"
  shows "counted aes cmac keys 0 counter l 2 (counter + 1) l3"
proof -
  let ?c = "put 22 random (put 4 (le16 counter) (put 0 (le16 0x0014) (replicate 32 0)))"
  let ?f = "first_message aes cmac keys counter random"
  have c: "length ?c = 32" "rd16 4 ?c = counter" using assms(2) by simp_all
  have "wire l3 = wire l @ [CtrlWrite STREAM_OPEN, CtrlWrite ?f]"
    using must_wire [OF assms(1) [unfolded send_plain_def]] assms(3)
      send_plain_tries_wire [OF assms(4) [unfolded send_plain_retry_def]] by simp
  moreover have "receive (open_in aes cmac (control_key keys) (control_nonce keys)) [0x24] 0 (STREAM_OPEN @ ?f @ []) =
      Some ([?c], 2)"
    using receive_sealed [of ?c "0x24" "[0x24]" aes cmac "control_key keys" "control_nonce keys" 0
        "aux_for_id 0x14 48" "[]"] c
    by (simp add: stream_open_skipped first_message_sealed [OF assms(2)] seal_interactive_body
        seal_video_arm_body)
  ultimately show ?thesis
    unfolding counted_def
    by (intro exI [of _ "[CtrlWrite STREAM_OPEN, CtrlWrite ?f]"] exI [of _ "[?c]"])
      (simp add: ctrl_bytes_def c)
qed

lemma configure_control_counted:
  assumes "configure_control aes cmac hmac oaep dock keys l = (Inr (video_keys, p), l')"
    and "oaep_sized oaep"
  shows "counted aes cmac keys 0 (next_counter keys) l (p_wire_seq p) (p_inner_counter p) l'"
  using assms(1) unfolding configure_control_def Let_def
proof (elim andthen_InrE, goal_cases)
  case (1 a1 l1 random l2 a2 l3 acks l4 q1 l5 a3 l6 r l7)
  obtain vks auths q where r: "r = (vks, auths, q)" by (cases r)
  have "counted aes cmac keys 0 (next_counter keys) l 2 (next_counter keys + 1) l4"
    using counted_trans [OF opening_counted [OF 1(1) _ _ 1(3)] counted_quiet] fill_ok [OF 1(2)]
      drain_wire [OF 1(4)] by simp
  also have "counted aes cmac keys 2 (next_counter keys + 1) l4 (p_wire_seq q1) (p_inner_counter q1) l5"
    using send_dock_wide_counted [OF 1(5) dock_wide_leads] by simp
  also have "counted aes cmac keys (p_wire_seq q1) (p_inner_counter q1) l5 (p_wire_seq q1) (p_inner_counter q1) l6"
    using 1(6) commit_counted by (auto simp: ret_def intro: counted_quiet split: if_splits)
  also have "counted aes cmac keys (p_wire_seq q1) (p_inner_counter q1) l6 (p_wire_seq q) (p_inner_counter q) l7"
    using configure_heads_counted [OF 1(7) [unfolded r] assms(2)] .
  finally have heads: "counted aes cmac keys 0 (next_counter keys) l (p_wire_seq q) (p_inner_counter q) l7" .
  show ?case
    using 1(8) unfolding r case_prod_conv
  proof (elim andthen_InrE ret_InrE, goal_cases)
    case (1 q2 l8 a4 l9 acks2 l10 a5 l11)
    note heads
    also have "counted aes cmac keys (p_wire_seq q) (p_inner_counter q) l7 (p_wire_seq q2) (p_inner_counter q2) l8"
      using send_finalize_counted [OF 1(1)] .
    also have "counted aes cmac keys (p_wire_seq q2) (p_inner_counter q2) l8 (p_wire_seq q2) (p_inner_counter q2) l9"
      using 1(2)
      by (auto simp: ret_def elim!: actionE intro: counted_quiet counted_trans counted_must split: if_splits)
    also have "counted aes cmac keys (p_wire_seq q2) (p_inner_counter q2) l9 (p_wire_seq q2) (p_inner_counter q2) l10"
      using drain_wire [OF 1(3)] by (rule counted_quiet)
    also have "counted aes cmac keys (p_wire_seq q2) (p_inner_counter q2) l10 (p_wire_seq q2) (p_inner_counter q2) l11"
      using 1(4) commit_counted by (auto simp: ret_def intro: counted_quiet split: if_splits)
    finally show ?case using 1(5-6) by simp
  qed
qed

section \<open>Properties\<close>

text \<open>
  The control channel is in step when the session is configured. Whatever the dock answers, if
  \<open>configure_control\<close> succeeds then a receiver that starts at block zero and accepts a sealed control
  record only at its own counter reads everything the host wrote: every message opens, the counters
  inside the messages run consecutively from the one authentication ended with, and the host's two
  counters are where the receiver's are. This covers the dock-wide records, every connector's nine
  steps, including a connector abandoned for want of a sink, and the finalisation records.
\<close>

lemma control_configured_in_step:
  assumes "configure_control aes cmac hmac oaep dock keys l = (Inr (video_keys, p), l')"
    and "oaep_sized oaep"
  shows "counted aes cmac keys 0 (next_counter keys) l (p_wire_seq p) (p_inner_counter p) l'"
  using assms by (rule configure_control_counted)

text \<open>A silent dock: every socket is empty, and the session is still configured.\<close>

definition silent_link :: link where
  "silent_link = \<lparr>rx = [], outcomes = [], wire = [], entropy = [], timed = [], overran = []\<rparr>"

definition example_keys :: SessionKeys where
  "example_keys = session_keys example_draws example_cert example_list"

lemma silent_reads:
  "rx l = [] \<Longrightarrow> receive_optional l = (Inr None, l)"
  by (simp add: receive_optional_def recv_frame_raw_timeout_def)

lemma silent_drain: "rx l = [] \<Longrightarrow> drain_acknowledgements n l = (Inr 0, l)"
  by (cases n) (simp_all add: drain_acknowledgements_def silent_reads)

lemma acks_drain:
  "rx l = map Inr acks \<Longrightarrow> list_all is_control_ack acks \<Longrightarrow> length acks < n \<Longrightarrow>
    drain_acknowledgements n l = (Inr (length acks), l\<lparr>rx := []\<rparr>)"
proof -
  have "rx l = map Inr acks \<Longrightarrow> list_all is_control_ack acks \<Longrightarrow> length acks < n \<Longrightarrow>
      drain_tries n k l = (k + length acks, l\<lparr>rx := []\<rparr>)" for k
  proof (induction acks arbitrary: n k l)
    case Nil
    then show ?case by (cases n) (simp_all add: silent_reads)
  next
    case (Cons a acks)
    then show ?case
      by (cases n) (simp_all add: receive_optional_def recv_frame_raw_timeout_def)
  qed
  then show "rx l = map Inr acks \<Longrightarrow> list_all is_control_ack acks \<Longrightarrow> length acks < n \<Longrightarrow> ?thesis"
    by (simp add: drain_acknowledgements_def)
qed

lemma silent_pushes: "rx l = [] \<Longrightarrow> drain_pushes aes cmac keys None n waits rrx acks l = (Inr (rrx, acks), l)"
  by (cases n) (simp_all add: silent_reads)

lemma silent_rrx: "rx l = [] \<Longrightarrow> drain_rrx aes cmac keys n rrx l = (Inr rrx, l)"
  by (cases n) (simp_all add: silent_reads)

lemma silent_retry: "outcomes l = [] \<Longrightarrow> send_plain_retry f l = (Inr (), l\<lparr>wire := wire l @ [CtrlWrite f]\<rparr>)"
  by (simp add: send_plain_retry_def numeral_eq_Suc send_plain_open)

lemma silent_must: "outcomes l = [] \<Longrightarrow> must x l = (Inr (), l\<lparr>wire := wire l @ [x]\<rparr>)"
  by (simp add: must_def perform_def)

lemma silent_head:
  assumes "rx l = []" and "outcomes l = []" and "timed l = []" and "dock_profile dock = PROFILE_RIDGE"
  shows "\<exists>vk p' l'. configure_head zero_aes zero_aes zero_mac plain_oaep dock keys head p l = (Inr (False, vk, p'), l') \<and>
    p_acknowledgements p' = p_acknowledgements p \<and> rx l' = [] \<and> outcomes l' = [] \<and> timed l' = []"
  using assms
  by (simp add: configure_head_def draw_head_def andthen_def fill_def ret_def built_def plain_oaep_def
      CP_SETUP_PER_HEAD_def head_content_def send_interactive_def send_plain_open next_timed_def silent_pushes
      silent_rrx PROFILE_RIDGE_def Let_def)

lemma silent_heads:
  assumes "rx l = []" and "outcomes l = []" and "timed l = []" and "dock_profile dock = PROFILE_RIDGE"
  shows "\<exists>vks' p' l'. configure_heads zero_aes zero_aes zero_mac plain_oaep dock keys [0, 1] vks
      (replicate MAX_CONNECTORS False) p l = (Inr (vks', replicate MAX_CONNECTORS False, p'), l') \<and>
    p_acknowledgements p' = p_acknowledgements p \<and> rx l' = [] \<and> outcomes l' = []"
proof -
  obtain vk p1 l1 where 1: "configure_head zero_aes zero_aes zero_mac plain_oaep dock keys 0 p l = (Inr (False, vk, p1), l1)"
      "rx l1 = []" "outcomes l1 = []" "timed l1 = []" "p_acknowledgements p1 = p_acknowledgements p"
    using silent_head [OF assms] by blast
  obtain vk' p2 l2 where 2: "configure_head zero_aes zero_aes zero_mac plain_oaep dock keys 1 p1 l1 = (Inr (False, vk', p2), l2)"
      "rx l2 = []" "outcomes l2 = []" "p_acknowledgements p2 = p_acknowledgements p1"
    using silent_head [OF 1(2-4) assms(4)] by blast
  show ?thesis
    using 1 2 by (simp add: andthen_def ret_def MAX_CONNECTORS_def list_update_id numeral_eq_Suc)
qed

lemma silent_configured:
  assumes "rx l = map Inr acks" and "list_all is_control_ack acks" and "length acks < 8"
    and "outcomes l = []" and "timed l = []" and "entropy l = []" and "dock_profile dock = PROFILE_RIDGE"
  shows "\<exists>vks p l'. configure_control zero_aes zero_aes zero_mac plain_oaep dock keys l = (Inr (vks, p), l') \<and>
    p_acknowledgements p = length acks"
proof -
  have ridge: "dock_wide_records dock = []" "\<not> commits_early dock"
    "connectors (topology (dock_profile dock)) = 2"
    "finalize_records dock (replicate MAX_CONNECTORS False) = []"
    using assms(7) by (simp_all add: dock_wide_records_def commits_early_def finalize_records_def 
        PROFILE_RIDGE_def MAX_CONNECTORS_def numeral_eq_Suc)
  have two: "[0..<2] = [0, 1 :: nat]" by (simp add: upt_rec)
  define l0 where "l0 = l\<lparr>entropy := [], wire := wire l @ [CtrlWrite STREAM_OPEN,
    CtrlWrite (first_message zero_aes zero_aes keys (next_counter keys) (replicate 10 0))], rx := []\<rparr>"
  have l0: "rx l0 = []" "outcomes l0 = []" "timed l0 = []"
    using assms by (simp_all add: l0_def)
  obtain vks p l' where h: "configure_heads zero_aes zero_aes zero_mac plain_oaep dock keys [0, 1]
      (replicate MAX_CONNECTORS (replicate 24 0)) (replicate MAX_CONNECTORS False)
      \<lparr>p_wire_seq = 2, p_inner_counter = next_counter keys + 1, p_acknowledgements = length acks\<rparr> l0 =
      (Inr (vks, replicate MAX_CONNECTORS False, p), l')" "rx l' = []" "outcomes l' = []" "p_acknowledgements p = length acks"
    using silent_heads [OF l0 assms(7)] by fastforce
  have "configure_control zero_aes zero_aes zero_mac plain_oaep dock keys l =
    andthen (ret ()) (\<lambda>_. andthen (\<lambda>_. (Inr (vks, replicate MAX_CONNECTORS False, p), l')) (\<lambda>(video_keys, authenticated, p).
      andthen (send_finalize zero_aes zero_aes keys (finalize_records dock authenticated) p) (\<lambda>p.
      andthen (andthen (must (VendorOut 0x24 0 0 [])) (\<lambda>_. must (VendorIn 0x22 1 0 28))) (\<lambda>_.
      andthen (drain_acknowledgements 16) (\<lambda>acks.
      andthen commit_video_engine (\<lambda>_.
      ret (video_keys, p\<lparr>p_acknowledgements := p_acknowledgements p + acks\<rparr>))))))) l0"
    using h(1)
    by (simp add: configure_control_def andthen_def fill_def ret_def silent_retry send_plain_open acks_drain [OF _ assms(2,3)] assms(1,4,6) ridge two
        Let_def l0_def)
  then show ?thesis
    using h(2-4)
    by (simp add: andthen_def ret_def ridge silent_must silent_drain commit_video_engine_def Let_def)
qed

end
