(* ===== verification/Session_Control.thy ===== *)
theory Session_Control
  imports Session_Setup Scanout Edid
begin

text \<open>
  The operations of an engaged session (\<open>ControlSession\<close> of \<open>chimera/src/session.rs\<close>): control messages
  and their counters, presence probes, mode setting, presentation, cursor and DDC/CI. An operation is
  an action on the session, whose link carries the dock's behaviour, the clock and the random bytes;
  pacing waits have no effect on the state and are left out.
\<close>

section \<open>State\<close>

record CursorShot =
  shot_width :: u16
  shot_height :: u16
  shot_bgra :: bytes
  shot_x :: u16
  shot_y :: u16
  shot_visible :: bool

record ControlSession =
  cs_link :: link
  cs_profile :: Dock
  cs_keys :: SessionKeys
  wire_seq :: u32
  inner_counter :: u16
  video_keys :: "bytes list"
  mode_restate_owed :: "bool list"
  programmed_mode :: "(u16 \<times> u16) list"
  mode_active :: "bool list"
  video_seal_seq :: "u32 list"
  frame_seq :: "u32 list"
  scanout :: "HeadScanout list"
  cursor_shot :: "CursorShot option list"

type_synonym 'a op = "(ControlSession, 'a) action_on"

definition on_link :: "'a action \<Rightarrow> 'a op" where
  "on_link m s = (case m (cs_link s) of (r, l) \<Rightarrow> (r, s\<lparr>cs_link := l\<rparr>))"

definition gets :: "(ControlSession \<Rightarrow> 'a) \<Rightarrow> 'a op" where
  "gets f s = (Inr (f s), s)"

definition modifies :: "(ControlSession \<Rightarrow> ControlSession) \<Rightarrow> unit op" where
  "modifies f s = (Inr (), f s)"

definition draw :: "nat \<Rightarrow> bytes op" where
  "draw n = on_link (fill n)"

section \<open>Control messages\<close>

definition send_control :: "aes_fn \<Rightarrow> cmac_fn \<Rightarrow> u16 \<Rightarrow> bytes \<Rightarrow> bytes option op" where
  "send_control aes cmac i content =
    andthen (gets (\<lambda>s. seal_interactive aes cmac (control_key (cs_keys s)) (control_nonce (cs_keys s)) i
      (wire_seq s) content)) (\<lambda>frame.
    andthen (on_link (must (CtrlWrite frame))) (\<lambda>_.
    andthen (modifies (\<lambda>s. s\<lparr>wire_seq := wire_seq s + of_nat ((length content + 15) div 16),
      inner_counter := inner_counter s + 1\<rparr>)) (\<lambda>_.
    on_link receive_optional)))"

text \<open>\<open>turns\<close> has one entry per read that starts before the deadline.\<close>

fun echo_loop :: "aes_fn \<Rightarrow> cmac_fn \<Rightarrow> u16 \<Rightarrow> bool list \<Rightarrow> bytes option \<Rightarrow> bytes option op" where
  "echo_loop aes cmac request_counter turns reply s =
    (if (case reply of None \<Rightarrow> False
         | Some frame \<Rightarrow>
             (case decode_in_lenient aes cmac (control_key (cs_keys s)) (control_nonce (cs_keys s)) frame of
                None \<Rightarrow> False
              | Some (i, sub, echoed) \<Rightarrow> echoed = request_counter))
     then (Inr reply, s)
     else case turns of
       [] \<Rightarrow> (Inr None, s)
     | _ # turns \<Rightarrow> andthen (on_link receive_optional) (echo_loop aes cmac request_counter turns) s)"

definition send_control_echoing ::
  "aes_fn \<Rightarrow> cmac_fn \<Rightarrow> u16 \<Rightarrow> bytes \<Rightarrow> u16 \<Rightarrow> bytes option op" where
  "send_control_echoing aes cmac i content request_counter =
    andthen (send_control aes cmac i content) (\<lambda>reply.
    andthen (on_link next_timed) (\<lambda>turns.
    echo_loop aes cmac request_counter turns reply))"

definition send_marker :: "aes_fn \<Rightarrow> cmac_fn \<Rightarrow> byte \<Rightarrow> u16 \<Rightarrow> byte \<Rightarrow> unit op" where
  "send_marker aes cmac head sub state =
    andthen (draw 8) (\<lambda>token.
    andthen (gets inner_counter) (\<lambda>counter.
    andthen (send_control aes cmac 0x16 (stream_marker token counter head sub state)) (\<lambda>_. ret ())))"

definition poll_status :: "aes_fn \<Rightarrow> cmac_fn \<Rightarrow> unit op" where
  "poll_status aes cmac =
    andthen (draw 10) (\<lambda>tail.
    andthen (gets inner_counter) (\<lambda>counter.
    andthen (send_control aes cmac 0x14 (device_query_req tail counter 0x000c)) (\<lambda>_. ret ())))"

definition session_heartbeat :: "aes_fn \<Rightarrow> cmac_fn \<Rightarrow> unit op" where
  "session_heartbeat aes cmac =
    andthen (gets inner_counter) (\<lambda>counter.
    andthen (send_control aes cmac 0x16 (heartbeat counter)) (\<lambda>_. ret ()))"

definition keepalive_poll :: "aes_fn \<Rightarrow> cmac_fn \<Rightarrow> unit op" where
  "keepalive_poll = poll_status"

definition probe_head_present :: "aes_fn \<Rightarrow> cmac_fn \<Rightarrow> byte \<Rightarrow> bool option op" where
  "probe_head_present aes cmac head =
    andthen (gets inner_counter) (\<lambda>request_counter.
    andthen (draw 9) (\<lambda>tail.
    andthen (send_control_echoing aes cmac 0x15 (get_edid_req_sub tail request_counter 0x20 head) request_counter)
      (\<lambda>reply. gets (\<lambda>s.
        case reply of
          None \<Rightarrow> None
        | Some reply \<Rightarrow>
            (case probe_reply_status aes cmac (control_key (cs_keys s)) (control_nonce (cs_keys s)) reply of
               None \<Rightarrow> None
             | Some (i, status, flag) \<Rightarrow> Some (status AND 0x00001000 \<noteq> 0))))))"

section \<open>Video\<close>

definition video_key :: "nat \<Rightarrow> ControlSession \<Rightarrow> (bytes \<times> bytes) option" where
  "video_key head s =
    (if head < length (video_keys s) then Some (take 16 (video_keys s ! head), drop 16 (video_keys s ! head))
     else None)"

definition session_connectors :: "ControlSession \<Rightarrow> nat" where
  "session_connectors s = connectors (topology (dock_profile (cs_profile s)))"

definition owes_repaint :: "byte \<Rightarrow> ControlSession \<Rightarrow> bool" where
  "owes_repaint head s =
    (unat head < length (scanout s) \<and> owes_retransmission (scanout s ! unat head))"

definition padded :: "Dock \<Rightarrow> nat \<Rightarrow> nat \<Rightarrow> nat \<times> nat" where
  "padded dock width height =
    (let (sw, sh) = strip_dims dock
     in ((width + sw - 1) div sw * sw, (height + sh - 1) div sh * sh))"

definition send_plain_video :: "bytes \<Rightarrow> unit op" where
  "send_plain_video record = on_link (must (CtrlWrite record))"

text \<open>A write that times out is offered once more.\<close>

definition submit_video :: "byte \<Rightarrow> bytes list \<Rightarrow> unit op" where
  "submit_video head frames s =
    (case perform (VideoWrite (unat head) frames) (cs_link s) of
       (None, l) \<Rightarrow> (Inr (), s\<lparr>cs_link := l\<rparr>)
     | (Some UsbTimeout, l) \<Rightarrow> on_link (must (VideoWrite (unat head) frames)) (s\<lparr>cs_link := l\<rparr>)
     | (Some e, l) \<Rightarrow> (Inl (UsbWrite e), s\<lparr>cs_link := l\<rparr>))"

definition TRANSFER_SIZE :: nat where "TRANSFER_SIZE = 65536"

definition prefix_frame :: "Dock \<Rightarrow> bytes \<Rightarrow> bytes \<Rightarrow> bytes list \<Rightarrow> byte \<Rightarrow> u32 \<Rightarrow> bytes list" where
  "prefix_frame dock lead report frames head sq =
    (let opener = (case frame_opener dock head sq of None \<Rightarrow> [] | Some r \<Rightarrow> r);
         trailer = dock_frame_trailer dock head sq
     in chunks TRANSFER_SIZE (lead @ opener @ report @ concat frames @ trailer))"

text \<open>The random bytes \<open>stream_report\<close> draws, none when it returns nothing.\<close>

definition report_draws :: "Dock \<Rightarrow> bool \<Rightarrow> nat" where
  "report_draws dock restate =
    (if arm_burst (protocol (dock_profile dock)) then 0
     else if video_on_ctrl_pipe (topology (dock_profile dock)) then (if restate then 6 else 0)
     else if restate then 2 else 12)"

definition frame_report :: "aes_fn \<Rightarrow> cmac_fn \<Rightarrow> byte \<Rightarrow> u16 \<times> u16 \<Rightarrow> bytes op" where
  "frame_report aes cmac head mode =
    andthen (gets (\<lambda>s. s)) (\<lambda>s.
    case video_key (unat head) s of
      None \<Rightarrow> ret []
    | Some (key, nonce) \<Rightarrow>
        let i = unat head; dock = cs_profile s; restate = mode_restate_owed s ! i in
        if restate \<and> video_on_ctrl_pipe (topology (dock_profile dock)) \<and> frame_seq s ! i < 2 then ret []
        else
          andthen (draw (report_draws dock restate)) (\<lambda>tail.
          let (report, sq) = stream_report aes cmac dock head key nonce (video_seal_seq s ! i)
                (fst mode) (snd mode) restate tail in
          andthen (modifies (\<lambda>s. s\<lparr>video_seal_seq := (video_seal_seq s)[i := sq]\<rparr>)) (\<lambda>_.
          andthen (if restate \<and> report \<noteq> None
            then modifies (\<lambda>s. s\<lparr>mode_restate_owed := (mode_restate_owed s)[i := False]\<rparr>) else ret ()) (\<lambda>_.
          ret (case report of None \<Rightarrow> [] | Some r \<Rightarrow> r)))))"

definition send_stream_prologue :: "aes_fn \<Rightarrow> cmac_fn \<Rightarrow> byte \<Rightarrow> bytes \<Rightarrow> bytes \<Rightarrow> u16 \<Rightarrow> u16 \<Rightarrow> unit op" where
  "send_stream_prologue aes cmac head key nonce width height =
    andthen (gets (\<lambda>s. s)) (\<lambda>s.
    case stream_ring_record (cs_profile s) head of
      None \<Rightarrow> ret ()
    | Some ring \<Rightarrow>
        andthen (send_plain_video ring) (\<lambda>_.
        let i = unat head;
            (config, sq) = stream_config_message aes cmac (cs_profile s) head key nonce
              (video_seal_seq s ! i) width height in
        andthen (modifies (\<lambda>s. s\<lparr>video_seal_seq := (video_seal_seq s)[i := sq]\<rparr>)) (\<lambda>_.
        case config of None \<Rightarrow> ret () | Some c \<Rightarrow> send_plain_video c)))"

section \<open>Cursor\<close>

definition u16_of :: "nat \<Rightarrow> u16 op" where
  "u16_of n = (if n < 65536 then ret (of_nat n) else fail ExceedsWireFormat)"

definition keep_shot :: "byte \<Rightarrow> u16 \<Rightarrow> u16 \<Rightarrow> bytes \<Rightarrow> ControlSession \<Rightarrow> ControlSession" where
  "keep_shot head width height bgra s =
    (let i = unat head in
     if length (cursor_shot s) \<le> i then s
     else let (x, y, visible) = (case cursor_shot s ! i of None \<Rightarrow> (0, 0, True)
                | Some c \<Rightarrow> (shot_x c, shot_y c, shot_visible c))
          in s\<lparr>cursor_shot := (cursor_shot s)[i := Some \<lparr>shot_width = width, shot_height = height,
               shot_bgra = bgra, shot_x = x, shot_y = y, shot_visible = visible\<rparr>]\<rparr>)"

definition change_shot :: "byte \<Rightarrow> (CursorShot \<Rightarrow> CursorShot) \<Rightarrow> ControlSession \<Rightarrow> ControlSession" where
  "change_shot head f s =
    (let i = unat head in
     if length (cursor_shot s) \<le> i then s
     else s\<lparr>cursor_shot := (cursor_shot s)[i := map_option f (cursor_shot s ! i)]\<rparr>)"

definition set_cursor :: "aes_fn \<Rightarrow> cmac_fn \<Rightarrow> byte \<Rightarrow> nat \<Rightarrow> nat \<Rightarrow> bytes \<Rightarrow> unit op" where
  "set_cursor aes cmac head width height bgra =
    andthen (u16_of width) (\<lambda>width.
    andthen (u16_of height) (\<lambda>height.
    andthen (gets inner_counter) (\<lambda>counter.
    andthen (built (cursor_create counter head width height)) (\<lambda>create.
    andthen (send_control aes cmac 0x1b create) (\<lambda>_.
    andthen (gets inner_counter) (\<lambda>counter.
    andthen (built (cursor_image counter head width height bgra)) (\<lambda>image.
    andthen (send_control aes cmac 0x1c image) (\<lambda>_.
    modifies (keep_shot head width height bgra)))))))))"

text \<open>The position is clamped to the wire format, so the conversions cannot fail.\<close>

definition move_cursor :: "aes_fn \<Rightarrow> cmac_fn \<Rightarrow> byte \<Rightarrow> int \<Rightarrow> int \<Rightarrow> unit op" where
  "move_cursor aes cmac head x y =
    (let x = of_int (max 0 (min x 65535)); y = of_int (max 0 (min y 65535)) in
    andthen (gets inner_counter) (\<lambda>counter.
    andthen (built (cursor_move counter head x y True)) (\<lambda>message.
    andthen (send_control aes cmac 0x1a message) (\<lambda>_.
    modifies (change_shot head (\<lambda>c. c\<lparr>shot_x := x, shot_y := y, shot_visible := True\<rparr>))))))"

definition hide_cursor :: "aes_fn \<Rightarrow> cmac_fn \<Rightarrow> byte \<Rightarrow> unit op" where
  "hide_cursor aes cmac head =
    andthen (gets inner_counter) (\<lambda>counter.
    andthen (built (cursor_move counter head 0 0 False)) (\<lambda>message.
    andthen (send_control aes cmac 0x1a message) (\<lambda>_.
    modifies (change_shot head (\<lambda>c. c\<lparr>shot_visible := False\<rparr>)))))"

definition rearm_cursor :: "aes_fn \<Rightarrow> cmac_fn \<Rightarrow> byte \<Rightarrow> unit op" where
  "rearm_cursor aes cmac head =
    andthen (gets (\<lambda>s. if unat head < length (cursor_shot s) then cursor_shot s ! unat head else None)) (\<lambda>shot.
    case shot of
      None \<Rightarrow> ret ()
    | Some c \<Rightarrow>
        andthen (set_cursor aes cmac head (unat (shot_width c)) (unat (shot_height c)) (shot_bgra c)) (\<lambda>_.
        if shot_visible c then move_cursor aes cmac head (uint (shot_x c)) (uint (shot_y c))
        else hide_cursor aes cmac head))"

section \<open>Mode setting\<close>

text \<open>
  The random bytes of \<open>stream_prefix\<close>: those of the burst's iterations in order, the tail of the
  Navarro prologue, or none.
\<close>

definition draw_prefix :: "Dock \<Rightarrow> ((nat \<Rightarrow> bytes) \<times> (nat \<Rightarrow> bytes) \<times> bytes) op" where
  "draw_prefix dock =
    (if arm_burst (protocol (dock_profile dock)) then
       andthen (draw 10) (\<lambda>t2. andthen (draw 10) (\<lambda>r2. andthen (draw 10) (\<lambda>t3. andthen (draw 10) (\<lambda>r3.
       andthen (draw 14) (\<lambda>r8. andthen (draw 14) (\<lambda>r9.
       ret ((\<lambda>_. [])(2 := t2, 3 := t3), (\<lambda>_. [])(2 := r2, 3 := r3, 8 := r8, 9 := r9), [])))))))
     else if video_on_ctrl_pipe (topology (dock_profile dock)) then ret (\<lambda>_. [], \<lambda>_. [], [])
     else andthen (draw 14) (\<lambda>tail. ret (\<lambda>_. [], \<lambda>_. [], tail)))"

definition post_mode_sink_state :: "Dock \<Rightarrow> nat \<Rightarrow> byte" where
  "post_mode_sink_state dock index = post_mode_sink_states (protocol (dock_profile dock)) ! min index 1"

definition dock_carrier_frames :: "Dock \<Rightarrow> nat option" where
  "dock_carrier_frames dock =
    (let frames = carrier_frames (protocol (dock_profile dock))
     in if frames \<noteq> -1 then Some (unat frames) else None)"

text \<open>
  The carrier loop: one entry of \<open>due\<close> per frame, whether a status poll follows it.
\<close>

fun carrier_loop ::
  "aes_fn \<Rightarrow> cmac_fn \<Rightarrow> Dock \<Rightarrow> byte \<Rightarrow> u16 \<times> u16 \<Rightarrow> bytes list \<Rightarrow> bool list \<Rightarrow> u32 \<Rightarrow> u32 op" where
  "carrier_loop aes cmac dock head mode prompt [] sq = ret sq"
| "carrier_loop aes cmac dock head mode prompt (poll # due) sq =
    (let sq = sq + 1 in
    andthen (frame_report aes cmac head mode) (\<lambda>report.
    andthen (submit_video head (prefix_frame dock [] report prompt head sq)) (\<lambda>_.
    andthen (modifies (\<lambda>s. s\<lparr>frame_seq := (frame_seq s)[unat head := sq]\<rparr>)) (\<lambda>_.
    andthen (if poll then poll_status aes cmac else ret ()) (\<lambda>_.
    carrier_loop aes cmac dock head mode prompt due sq)))))"

definition carrier_due :: "Dock \<Rightarrow> bool list \<Rightarrow> bool list" where
  "carrier_due dock due =
    (case dock_carrier_frames dock of None \<Rightarrow> due | Some n \<Rightarrow> take n (due @ replicate n False))"

definition next_overran :: "bool action" where
  "next_overran l = (case overran l of [] \<Rightarrow> (Inr False, l) | t # ts \<Rightarrow> (Inr t, l\<lparr>overran := ts\<rparr>))"

text \<open>The bracket the timing is programmed inside, up to the first video.\<close>

definition mode_bracket ::
  "aes_fn \<Rightarrow> cmac_fn \<Rightarrow> Dock \<Rightarrow> byte \<Rightarrow> bytes \<Rightarrow> bytes \<Rightarrow> u16 \<Rightarrow> u16 \<Rightarrow> bytes \<Rightarrow> unit op" where
  "mode_bracket aes cmac dock head key nonce width height mode =
    andthen (send_marker aes cmac head 0x2f 1) (\<lambda>_.
    andthen (case pre_mode_sink_state (protocol (dock_profile dock)) of
        None \<Rightarrow> ret () | Some state \<Rightarrow> send_marker aes cmac head 0x2e state) (\<lambda>_.
    andthen (poll_status aes cmac) (\<lambda>_.
    andthen (if clear_mode_before_set (protocol (dock_profile dock)) then
        andthen (draw 6) (\<lambda>tail.
        andthen (gets inner_counter) (\<lambda>counter.
        andthen (send_control aes cmac 0x48 (clear_mode counter head tail)) (\<lambda>_. ret ())))
      else ret ()) (\<lambda>_.
    andthen (send_control aes cmac 0x48 mode) (\<lambda>_.
    andthen (poll_status aes cmac) (\<lambda>_.
    andthen (send_marker aes cmac head 0x2f 1) (\<lambda>_.
    andthen (send_marker aes cmac head 0x2e (post_mode_sink_state dock 0)) (\<lambda>_.
    andthen (send_marker aes cmac head 0x2f 1) (\<lambda>_.
    andthen (send_marker aes cmac head 0x2e (post_mode_sink_state dock 1)) (\<lambda>_.
    andthen (send_stream_prologue aes cmac head key nonce width height) (\<lambda>_.
    andthen (send_marker aes cmac head 0x2f 1) (\<lambda>_.
    andthen (poll_status aes cmac) (\<lambda>_.
    andthen (send_marker aes cmac head 0x2e 0) (\<lambda>_.
    andthen (poll_status aes cmac) (\<lambda>_.
    andthen (poll_status aes cmac) (\<lambda>_.
    poll_status aes cmac))))))))))))))))"

definition send_commit :: "aes_fn \<Rightarrow> cmac_fn \<Rightarrow> byte \<Rightarrow> unit op" where
  "send_commit aes cmac head =
    andthen (draw 8) (\<lambda>token.
    andthen (gets inner_counter) (\<lambda>counter.
    andthen (send_control aes cmac 0x16 (stream_commit token counter head)) (\<lambda>_. ret ())))"

text \<open>The messages after the first video: two commits, and the closing markers of a dock with its own pipes.\<close>

definition mode_closing :: "aes_fn \<Rightarrow> cmac_fn \<Rightarrow> Dock \<Rightarrow> byte \<Rightarrow> unit op" where
  "mode_closing aes cmac dock head =
    andthen (send_commit aes cmac head) (\<lambda>_.
    andthen (send_commit aes cmac head) (\<lambda>_.
    if video_on_ctrl_pipe (topology (dock_profile dock)) then ret ()
    else andthen (send_marker aes cmac head 0x2f 0) (\<lambda>_. send_marker aes cmac head 0x2e 0)))"

definition program_mode :: "aes_fn \<Rightarrow> cmac_fn \<Rightarrow> byte \<Rightarrow> nat \<Rightarrow> nat \<Rightarrow> nat \<Rightarrow> bool op" where
  "program_mode aes cmac head width height refresh_hz =
    andthen (u16_of width) (\<lambda>width16.
    andthen (u16_of height) (\<lambda>height16.
    andthen (u16_of refresh_hz) (\<lambda>refresh16.
    andthen (gets (\<lambda>s. s)) (\<lambda>s.
    case video_key (unat head) s of
      None \<Rightarrow> fail (InvalidHead head)
    | Some (key, nonce) \<Rightarrow>
    let i = unat head; dock = cs_profile s; opening = dock\<lparr>dock_opening := True\<rparr>;
        (padded_width, padded_height) = padded dock width height in
    andthen (built (dock_black_frame_ep08 opening padded_width padded_height head)) (\<lambda>prompt.
    andthen (draw_prefix dock) (\<lambda>(token, rand, tail).
    let (lead, sq) = stream_prefix aes cmac dock head key nonce (video_seal_seq s ! i) width16 height16
          token rand tail in
    andthen (modifies (\<lambda>s. s\<lparr>video_seal_seq := (video_seal_seq s)[i := sq]\<rparr>)) (\<lambda>_.
    andthen (draw 6) (\<lambda>mode_tail.
    andthen (gets inner_counter) (\<lambda>counter.
    andthen (built (set_mode_profile dock counter head width16 height16 refresh16 mode_tail)) (\<lambda>mode.
    andthen (mode_bracket aes cmac dock head key nonce width16 height16 mode) (\<lambda>_.
    andthen (on_link next_overran) (\<lambda>late.
    if late then fail BracketOverrun
    else
    andthen (modifies (\<lambda>s. s\<lparr>programmed_mode := (programmed_mode s)[i := (width16, height16)],
      mode_restate_owed := (mode_restate_owed s)[i := True], frame_seq := (frame_seq s)[i := 0]\<rparr>)) (\<lambda>_.
    andthen (submit_video head (prefix_frame opening lead [] prompt head 0)) (\<lambda>_.
    andthen (mode_closing aes cmac dock head) (\<lambda>_.
    andthen (on_link next_timed) (\<lambda>due.
    andthen (carrier_loop aes cmac opening head (width16, height16) prompt (carrier_due dock due) 0)
      (\<lambda>carrier_seq.
    andthen (modifies (\<lambda>s. s\<lparr>frame_seq := (frame_seq s)[i := carrier_seq + 1],
      mode_active := (mode_active s)[i := True], scanout := (scanout s)[i := owe_keyframe (scanout s ! i)]\<rparr>)) (\<lambda>_.
    andthen (rearm_cursor aes cmac head) (\<lambda>_.
    ret True)))))))))))))))))))"

definition activate_mode :: "aes_fn \<Rightarrow> cmac_fn \<Rightarrow> byte \<Rightarrow> nat \<Rightarrow> nat \<Rightarrow> nat \<Rightarrow> bool op" where
  "activate_mode aes cmac head width height refresh_hz =
    andthen (gets (\<lambda>s. dock_wide_modeset (protocol (dock_profile (cs_profile s))) \<and>
      list_ex (\<lambda>(other, active). active \<and> other \<noteq> unat head) (enumerate 0 (mode_active s)))) (\<lambda>declined.
    if declined then ret False else program_mode aes cmac head width height refresh_hz)"

text \<open>The black frames of a blank, one entry of \<open>due\<close> per frame presented before the deadline.\<close>

fun blank_loop :: "aes_fn \<Rightarrow> cmac_fn \<Rightarrow> byte \<Rightarrow> bytes list \<Rightarrow> bool list \<Rightarrow> unit op" where
  "blank_loop aes cmac head black [] = ret ()"
| "blank_loop aes cmac head black (poll # due) =
    andthen (submit_video head black) (\<lambda>_.
    andthen (if poll then poll_status aes cmac else ret ()) (\<lambda>_.
    blank_loop aes cmac head black due))"

definition blank_holds_bracket :: "Dock \<Rightarrow> bool" where
  "blank_holds_bracket dock = (blank_bracket (protocol (dock_profile dock)) = MarkersHeld)"

definition deactivate_mode :: "aes_fn \<Rightarrow> cmac_fn \<Rightarrow> byte \<Rightarrow> nat \<Rightarrow> nat \<Rightarrow> unit op" where
  "deactivate_mode aes cmac head width height =
    andthen (modifies (\<lambda>s. let i = unat head in
      s\<lparr>scanout := (scanout s)[i := owe_keyframe (scanout s ! i)], mode_active := (mode_active s)[i := False]\<rparr>)) (\<lambda>_.
    andthen (gets cs_profile) (\<lambda>dock.
    let sink_down = sink_down_state (protocol (dock_profile dock)) in
    if blank_holds_bracket dock then
      andthen (send_marker aes cmac head 0x2f 1) (\<lambda>_. send_marker aes cmac head 0x2e sink_down)
    else
      let (padded_width, padded_height) = padded dock width height in
      andthen (built (dock_black_frame_ep08 dock padded_width padded_height head)) (\<lambda>black.
      andthen (on_link next_timed) (\<lambda>due.
      andthen (blank_loop aes cmac head black due) (\<lambda>_.
      andthen (send_marker aes cmac head 0x2f 0) (\<lambda>_.
      andthen (send_marker aes cmac head 0x2e 0) (\<lambda>_.
      andthen (send_marker aes cmac head 0x2f 1) (\<lambda>_.
      andthen (send_marker aes cmac head 0x2e sink_down) (\<lambda>_.
      andthen (poll_status aes cmac) (\<lambda>_.
      send_marker aes cmac head 0x2f 0))))))))))"

fun deactivate_all :: "aes_fn \<Rightarrow> cmac_fn \<Rightarrow> nat list \<Rightarrow> unit op" where
  "deactivate_all aes cmac [] = ret ()"
| "deactivate_all aes cmac (head # heads) =
    andthen (gets (\<lambda>s. (mode_active s ! head, programmed_mode s ! head))) (\<lambda>(active, width, height).
    andthen (if active then deactivate_mode aes cmac (of_nat head) (unat width) (unat height) else ret ()) (\<lambda>_.
    deactivate_all aes cmac heads))"

fun program_all :: "aes_fn \<Rightarrow> cmac_fn \<Rightarrow> (byte \<times> nat \<times> nat \<times> nat) list \<Rightarrow> unit op" where
  "program_all aes cmac [] = ret ()"
| "program_all aes cmac ((head, width, height, refresh_hz) # requests) =
    andthen (program_mode aes cmac head width height refresh_hz) (\<lambda>_.
    program_all aes cmac requests)"

definition activate_modes :: "aes_fn \<Rightarrow> cmac_fn \<Rightarrow> (byte \<times> nat \<times> nat \<times> nat) list \<Rightarrow> unit op" where
  "activate_modes aes cmac requests =
    andthen (deactivate_all aes cmac [0..<MAX_CONNECTORS]) (\<lambda>_. program_all aes cmac requests)"

section \<open>Presentation\<close>

text \<open>
  The planner and the encoder change the head's scanout state; when the encoder fails, what it had
  added to its cache by then is not kept, which only costs an encoding later.
\<close>

fun present_times ::
  "aes_fn \<Rightarrow> cmac_fn \<Rightarrow> byte \<Rightarrow> u16 \<times> u16 \<Rightarrow> bytes list \<Rightarrow> u32 \<Rightarrow> nat list \<Rightarrow> unit op" where
  "present_times aes cmac head mode records sq [] = ret ()"
| "present_times aes cmac head mode records sq (r # rs) =
    andthen (frame_report aes cmac head mode) (\<lambda>report.
    andthen (gets cs_profile) (\<lambda>dock.
    andthen (submit_video head (prefix_frame dock [] report records head (sq + of_nat r))) (\<lambda>_.
    present_times aes cmac head mode records sq rs)))"

definition present_rgb :: "aes_fn \<Rightarrow> cmac_fn \<Rightarrow> byte \<Rightarrow> nat \<Rightarrow> nat \<Rightarrow> bytes \<Rightarrow> unit op" where
  "present_rgb aes cmac head width height rgb =
    andthen (gets (\<lambda>s. s)) (\<lambda>s.
    let i = unat head in
    if session_connectors s \<le> i then fail (InvalidHead head)
    else
    andthen (built (plan width height rgb (scanout s ! i))) (\<lambda>(head_state, p).
    andthen (modifies (\<lambda>s. s\<lparr>scanout := (scanout s)[i := head_state]\<rparr>)) (\<lambda>_.
    andthen (built (encode p rgb head head_state)) (\<lambda>(head_state, frame).
    andthen (modifies (\<lambda>s. s\<lparr>scanout := (scanout s)[i := head_state]\<rparr>)) (\<lambda>_.
    case frame of
      None \<Rightarrow> poll_status aes cmac
    | Some f \<Rightarrow>
        andthen (gets (\<lambda>s. (frame_seq s ! i, programmed_mode s ! i))) (\<lambda>(sq, mode).
        andthen (present_times aes cmac head mode (fr_records f) sq [0..<fr_presentations f]) (\<lambda>_.
        andthen (modifies (\<lambda>s. s\<lparr>frame_seq := (frame_seq s)[i := sq + of_nat (fr_presentations f)],
          scanout := (scanout s)[i := presented p (scanout s ! i)]\<rparr>)) (\<lambda>_.
        poll_status aes cmac)))))))) "

section \<open>DDC/CI\<close>

definition I2C_ADDR :: u16 where "I2C_ADDR = 0x37"

definition ddcci :: "aes_fn \<Rightarrow> cmac_fn \<Rightarrow> byte \<Rightarrow> u16 \<Rightarrow> u16 \<Rightarrow> bytes \<Rightarrow> bytes op" where
  "ddcci aes cmac head address flags payload =
    (if address \<noteq> I2C_ADDR then fail (UnsupportedAddress address)
     else if flags AND 0x0001 = 0 then
       andthen (draw 8) (\<lambda>token.
       andthen (gets inner_counter) (\<lambda>counter.
       andthen (built (ddcci_forward token counter head payload)) (\<lambda>message.
       andthen (send_control aes cmac 0x36 message) (\<lambda>_. ret []))))
     else
       andthen (draw 9) (\<lambda>token.
       andthen (gets inner_counter) (\<lambda>counter.
       andthen (send_control aes cmac 0x15 (ddcci_read_request token counter head)) (\<lambda>reply.
       case reply of
         None \<Rightarrow> fail NoDdcReply
       | Some reply \<Rightarrow>
           andthen (gets cs_keys) (\<lambda>keys.
           andthen (built (ddcci_parse_reply aes cmac (control_key keys) (control_nonce keys) reply)) (\<lambda>answer.
           case answer of None \<Rightarrow> fail NoDdcReply | Some a \<Rightarrow> ret a))))))"

section \<open>Engaging\<close>

definition engaged :: "link \<Rightarrow> Dock \<Rightarrow> SessionKeys \<Rightarrow> bytes list \<Rightarrow> progress \<Rightarrow> ControlSession" where
  "engaged l dock keys vks p =
    \<lparr>cs_link = l, cs_profile = dock, cs_keys = keys, wire_seq = p_wire_seq p, inner_counter = p_inner_counter p,
     video_keys = vks, mode_restate_owed = replicate MAX_CONNECTORS False,
     programmed_mode = replicate MAX_CONNECTORS (0, 0), mode_active = replicate MAX_CONNECTORS False,
     video_seal_seq = replicate MAX_CONNECTORS 0, frame_seq = replicate MAX_CONNECTORS 0,
     scanout = replicate MAX_CONNECTORS (HeadScanout_new dock), cursor_shot = replicate MAX_CONNECTORS None\<rparr>"

definition engage ::
  "aes_fn \<Rightarrow> cmac_fn \<Rightarrow> hmac_fn \<Rightarrow> oaep_fn \<Rightarrow> auth_draws \<Rightarrow> Dock \<Rightarrow> link \<Rightarrow> session_error + ControlSession" where
  "engage aes cmac hmac oaep d placed l =
    (let dock = (if hdr_capable (capabilities (dock_profile placed)) then placed\<lparr>dock_ten_bit := True\<rparr> else placed);
         run = andthen device_open_preamble (\<lambda>_.
           andthen session_init (\<lambda>_.
           andthen (authenticate aes hmac oaep d) (\<lambda>keys.
           andthen (configure_control aes cmac hmac oaep dock keys) (\<lambda>(vks, p).
           if p_acknowledgements p = 0 then fail NotAcknowledged else ret (keys, vks, p)))))
     in case run l of
          (Inl e, l) \<Rightarrow> Inl e
        | (Inr (keys, vks, p), l) \<Rightarrow> Inr (engaged l dock keys vks p))"

end
