(* ===== verification/Edid_Fetch.thy ===== *)
theory Edid_Fetch
  imports Session_Control
begin

text \<open>
  The EDID transaction of an engaged session (\<open>chimera/src/edid_fetch.rs\<close>): the early fetch, the two
  engage messages, the bounded readiness poll, the final fetches and the closing query, on the session's
  own counters. The two loops with a deadline run once per entry of the link's clock script; the pauses
  between the messages have no effect on the state. \<open>FetchError::Transport\<close> is \<open>UsbWrite\<close> or \<open>UsbRead\<close>,
  \<open>FetchError::NoEdid\<close> is \<open>NoEdid\<close>.
\<close>

section \<open>Messages\<close>

definition EARLY_ROUNDS :: nat where "EARLY_ROUNDS = 1"
definition POLL_ITERS :: nat where "POLL_ITERS = 250"
definition POLL_PROBE_EVERY :: nat where "POLL_PROBE_EVERY = 8"
definition FINAL_FETCH_ROUNDS :: nat where "FINAL_FETCH_ROUNDS = 24"

text \<open>\<open>send\<close> advances the block counter behind the write, and \<open>send_message\<close> the inner counter.\<close>

definition fetch_send :: "aes_fn \<Rightarrow> cmac_fn \<Rightarrow> u16 \<Rightarrow> bytes \<Rightarrow> unit op" where
  "fetch_send aes cmac i content =
    andthen (gets (\<lambda>s. seal_interactive aes cmac (control_key (cs_keys s)) (control_nonce (cs_keys s)) i
      (wire_seq s) content)) (\<lambda>frame.
    andthen (on_link (must (CtrlWrite frame))) (\<lambda>_.
    modifies (\<lambda>s. s\<lparr>wire_seq := wire_seq s + of_nat ((length content + 15) div 16)\<rparr>)))"

definition send_message :: "aes_fn \<Rightarrow> cmac_fn \<Rightarrow> u16 \<Rightarrow> nat \<Rightarrow> (bytes \<Rightarrow> u16 \<Rightarrow> bytes result) \<Rightarrow> unit op" where
  "send_message aes cmac i n build =
    andthen (draw n) (\<lambda>tail.
    andthen (gets inner_counter) (\<lambda>counter.
    andthen (built (build tail counter)) (\<lambda>content.
    andthen (fetch_send aes cmac i content) (\<lambda>_.
    modifies (\<lambda>s. s\<lparr>inner_counter := inner_counter s + 1\<rparr>)))))"

text \<open>The messages of the transaction, with their ids and the length of their random tails.\<close>

datatype edid_message = Probe | Kick | GetEdid | Engage | StatusPoll | PostEdid

definition request_id :: "edid_message \<Rightarrow> u16" where
  "request_id r = (case r of Probe \<Rightarrow> 0x15 | Kick \<Rightarrow> 0x16 | GetEdid \<Rightarrow> 0x15 | Engage \<Rightarrow> 0x16 | StatusPoll \<Rightarrow> 0x14 | PostEdid \<Rightarrow> 0x15)"

definition request_draws :: "edid_message \<Rightarrow> nat" where
  "request_draws r = (case r of Probe \<Rightarrow> 9 | Kick \<Rightarrow> 8 | GetEdid \<Rightarrow> 9 | Engage \<Rightarrow> 8 | StatusPoll \<Rightarrow> 10 | PostEdid \<Rightarrow> 9)"

definition edid_request :: "edid_message \<Rightarrow> byte \<Rightarrow> bytes \<Rightarrow> u16 \<Rightarrow> bytes result" where
  "edid_request r head tail counter =
    (case r of
       Probe \<Rightarrow> Ok (get_edid_req_sub tail counter 0x20 head)
     | Kick \<Rightarrow> Ok (edid_readiness_kick tail counter head)
     | GetEdid \<Rightarrow> Ok (get_edid_req tail counter head)
     | Engage \<Rightarrow> Ok (edid_engage_req tail counter head)
     | StatusPoll \<Rightarrow> Ok (device_query_req tail counter 0x000c)
     | PostEdid \<Rightarrow> post_edid_query tail counter head)"

text \<open>What the transaction knows so far.\<close>

record fetch =
  f_edid :: "bytes option"
  f_ready :: bool

definition drain_once :: "aes_fn \<Rightarrow> cmac_fn \<Rightarrow> bytes option \<Rightarrow> (bytes option \<times> bool) op" where
  "drain_once aes cmac edid =
    andthen (on_link receive_optional) (\<lambda>reply.
    case reply of
      None \<Rightarrow> ret (edid, False)
    | Some reply \<Rightarrow> gets (\<lambda>s.
        let ks = control_key (cs_keys s); riv = control_nonce (cs_keys s) in
        (case edid of
           Some e \<Rightarrow> Some e
         | None \<Rightarrow> parse_edid_from_reply aes cmac ks riv reply,
         edid_poll_ready aes cmac ks riv reply = Some True)))"

text \<open>\<open>ready |= drain_once(\<dots>)?\<close>, and a message followed by it.\<close>

definition drained :: "aes_fn \<Rightarrow> cmac_fn \<Rightarrow> fetch \<Rightarrow> fetch op" where
  "drained aes cmac f =
    andthen (drain_once aes cmac (f_edid f)) (\<lambda>(edid, ready).
    ret (f\<lparr>f_edid := edid, f_ready := f_ready f \<or> ready\<rparr>))"

definition ask :: "aes_fn \<Rightarrow> cmac_fn \<Rightarrow> edid_message \<Rightarrow> byte \<Rightarrow> fetch \<Rightarrow> fetch op" where
  "ask aes cmac r head f =
    andthen (send_message aes cmac (request_id r) (request_draws r) (edid_request r head)) (\<lambda>_.
    drained aes cmac f)"

section \<open>The transaction\<close>

text \<open>The macro \<open>settled!\<close>: drop what came before readiness, then ask whether an EDID is left.\<close>

definition settle :: "bool \<Rightarrow> fetch \<Rightarrow> fetch" where
  "settle gate f = (if gate \<and> \<not> f_ready f \<and> f_edid f \<noteq> None then f\<lparr>f_edid := None\<rparr> else f)"

fun ask_times :: "nat \<Rightarrow> aes_fn \<Rightarrow> cmac_fn \<Rightarrow> edid_message \<Rightarrow> byte \<Rightarrow> fetch \<Rightarrow> fetch op" where
  "ask_times 0 aes cmac r head f = ret f"
| "ask_times (Suc n) aes cmac r head f =
    andthen (ask aes cmac r head f) (ask_times n aes cmac r head)"

fun async_wait :: "aes_fn \<Rightarrow> cmac_fn \<Rightarrow> bool list \<Rightarrow> fetch \<Rightarrow> fetch op" where
  "async_wait aes cmac [] f = ret f"
| "async_wait aes cmac (t # ticks) f =
    (if f_edid f \<noteq> None then ret f
     else andthen (drained aes cmac f) (async_wait aes cmac ticks))"

fun early_rounds :: "nat \<Rightarrow> aes_fn \<Rightarrow> cmac_fn \<Rightarrow> bool \<Rightarrow> byte \<Rightarrow> fetch \<Rightarrow> fetch op" where
  "early_rounds 0 aes cmac gate head f = ret f"
| "early_rounds (Suc n) aes cmac gate head f =
    (let f = settle gate f in
    if f_edid f \<noteq> None then ret f
    else
    andthen (ask_times 2 aes cmac Probe head f) (\<lambda>f.
    andthen (ask aes cmac Kick head f) (\<lambda>f.
    andthen (ask aes cmac GetEdid head f) (\<lambda>f.
    let f = settle gate f in
    if f_edid f \<noteq> None then ret f
    else
    andthen (on_link next_timed) (\<lambda>ticks.
    andthen (async_wait aes cmac ticks f) (\<lambda>f.
    early_rounds n aes cmac gate head f))))))"

fun poll_ready :: "nat \<Rightarrow> nat \<Rightarrow> aes_fn \<Rightarrow> cmac_fn \<Rightarrow> byte \<Rightarrow> bool list \<Rightarrow> fetch \<Rightarrow> fetch op" where
  "poll_ready 0 i aes cmac head ticks f = ret f"
| "poll_ready (Suc n) i aes cmac head ticks f =
    (if f_edid f \<noteq> None \<or> f_ready f \<or> ticks = [] then ret f
     else
     andthen (ask aes cmac StatusPoll head f) (\<lambda>f.
     andthen (if i mod POLL_PROBE_EVERY = POLL_PROBE_EVERY - 1 then ask aes cmac Probe head f else ret f) (\<lambda>f.
     poll_ready n (i + 1) aes cmac head (tl ticks) f)))"

fun final_fetch :: "nat \<Rightarrow> aes_fn \<Rightarrow> cmac_fn \<Rightarrow> byte \<Rightarrow> fetch \<Rightarrow> fetch op" where
  "final_fetch 0 aes cmac head f = ret f"
| "final_fetch (Suc n) aes cmac head f =
    (if f_edid f \<noteq> None then ret f
     else
     andthen (send_message aes cmac (request_id GetEdid) (request_draws GetEdid) (edid_request GetEdid head)) (\<lambda>_.
     andthen (drain_once aes cmac (f_edid f)) (\<lambda>(edid, _).
     final_fetch n aes cmac head (f\<lparr>f_edid := edid\<rparr>))))"

definition fetch_edid :: "aes_fn \<Rightarrow> cmac_fn \<Rightarrow> byte \<Rightarrow> bytes op" where
  "fetch_edid aes cmac head =
    andthen (gets (\<lambda>s. edid_ready_reported (quirks (dock_profile (cs_profile s))))) (\<lambda>gate.
    andthen (early_rounds EARLY_ROUNDS aes cmac gate head \<lparr>f_edid = None, f_ready = False\<rparr>) (\<lambda>f.
    andthen (ask_times 2 aes cmac Engage head f) (\<lambda>f.
    let f = settle gate f in
    andthen (if f_edid f \<noteq> None then ret f
      else
      andthen (on_link next_timed) (\<lambda>ticks.
      andthen (poll_ready POLL_ITERS 0 aes cmac head ticks f) (\<lambda>f.
      final_fetch FINAL_FETCH_ROUNDS aes cmac head f))) (\<lambda>f.
    andthen (ask aes cmac PostEdid head f) (\<lambda>f.
    case f_edid (settle gate f) of None \<Rightarrow> fail (NoEdid head) | Some e \<Rightarrow> ret e)))))"

section \<open>Lemmas\<close>

lemma edid_request_length: "edid_request r head tail c = Ok m \<Longrightarrow> length tail = request_draws r \<Longrightarrow> length m = 32"
  by (cases r) (auto simp: edid_request_def request_draws_def get_edid_req_sub_def get_edid_req_def
      edid_readiness_kick_def edid_readiness_state_def edid_engage_req_def edid_sink_state_def device_query_req_def
      random_tail_msg_def post_edid_query_def split: if_splits)

text \<open>The session's own send is this one, with the inner counter and one read behind it.\<close>

lemma send_control_alt:
  "send_control aes cmac mid content =
    andthen (fetch_send aes cmac mid content) (\<lambda>_.
    andthen (modifies (\<lambda>s. s\<lparr>inner_counter := inner_counter s + 1\<rparr>)) (\<lambda>_.
    on_link receive_optional))"
  by (rule ext) (simp add: send_control_def fetch_send_def andthen_def gets_def modifies_def on_link_def
      split: prod.splits sum.splits)

text \<open>What an action establishes when it succeeds.\<close>

definition yields :: "('s \<Rightarrow> bool) \<Rightarrow> ('s, 'a) action_on \<Rightarrow> ('a \<Rightarrow> 's \<Rightarrow> bool) \<Rightarrow> bool" where
  "yields P m Q \<longleftrightarrow> (\<forall>s a s'. P s \<longrightarrow> m s = (Inr a, s') \<longrightarrow> Q a s')"

lemma yields_andthen: "yields P m Q \<Longrightarrow> (\<And>a. yields (Q a) (f a) R) \<Longrightarrow> yields P (andthen m f) R"
  by (fastforce simp: yields_def andthen_Inr_iff)

lemma yields_ret: "(\<And>s. P s \<Longrightarrow> Q a s) \<Longrightarrow> yields P (ret a) Q"
  by (simp add: yields_def ret_def)

lemma yields_case: "(\<And>a b. x = (a, b) \<Longrightarrow> yields P (f a b) Q) \<Longrightarrow> yields P (case x of (a, b) \<Rightarrow> f a b) Q"
  by (cases x) simp

lemma yields_if: "yields P m Q \<Longrightarrow> yields P n Q \<Longrightarrow> yields P (if b then m else n) Q"
  by simp

text \<open>
  Every fact the transaction holds is vouched for by a reply it has read since \<open>r0\<close>: the EDID was
  parsed from one, and readiness was reported by one.
\<close>

definition vouched ::
  "aes_fn \<Rightarrow> cmac_fn \<Rightarrow> SessionKeys \<Rightarrow> (usb_error + bytes) list \<Rightarrow> fetch \<Rightarrow> ControlSession \<Rightarrow> bool" where
  "vouched aes cmac keys r0 f s \<longleftrightarrow> cs_keys s = keys \<and> (\<exists>used. r0 = used @ rx (cs_link s) \<and>
    (\<forall>e. f_edid f = Some e \<longrightarrow> (\<exists>reply. Inr reply \<in> set used \<and>
      parse_edid_from_reply aes cmac (control_key keys) (control_nonce keys) reply = Some e)) \<and>
    (f_ready f \<longrightarrow> (\<exists>reply. Inr reply \<in> set used \<and>
      edid_poll_ready aes cmac (control_key keys) (control_nonce keys) reply = Some True)))"

lemma must_rx: "must x l = (r, l') \<Longrightarrow> rx l' = rx l"
  by (auto simp: must_def perform_def split: list.splits option.splits)

lemma message_rx:
  "cs_keys (snd (send_message aes cmac i n build s)) = cs_keys s \<and>
   rx (cs_link (snd (send_message aes cmac i n build s))) = rx (cs_link s)"
  by (simp add: send_message_def fetch_send_def andthen_def draw_def on_link_def gets_def modifies_def
      built_def fill_def split: prod.splits sum.splits) (auto dest!: must_rx)

lemma vouched_message: "yields (vouched aes cmac keys r0 f) (send_message aes cmac i n build) (\<lambda>_. vouched aes cmac keys r0 f)"
  unfolding yields_def vouched_def by (metis message_rx snd_conv)

lemma receive_optional_rx:
  "receive_optional l = (Inr r, l') \<Longrightarrow>
    (case r of Some reply \<Rightarrow> rx l = Inr reply # rx l' | None \<Rightarrow> \<exists>used. rx l = used @ rx l')"
  by (auto simp: receive_optional_def recv_frame_raw_timeout_def split: list.splits sum.splits usb_error.splits)

lemma vouched_more:
  assumes "vouched aes cmac keys r0 f s" and "rx (cs_link s) = used @ rx (cs_link s')" and "cs_keys s' = cs_keys s"
    and "\<And>e. f_edid f' = Some e \<Longrightarrow> f_edid f = Some e \<or> (\<exists>reply. Inr reply \<in> set used \<and>
      parse_edid_from_reply aes cmac (control_key keys) (control_nonce keys) reply = Some e)"
    and "f_ready f' \<Longrightarrow> f_ready f \<or> (\<exists>reply. Inr reply \<in> set used \<and>
      edid_poll_ready aes cmac (control_key keys) (control_nonce keys) reply = Some True)"
  shows "vouched aes cmac keys r0 f' s'"
proof -
  obtain u where u: "r0 = u @ used @ rx (cs_link s')"
      "\<And>e. f_edid f = Some e \<Longrightarrow> \<exists>reply. Inr reply \<in> set u \<and>
        parse_edid_from_reply aes cmac (control_key keys) (control_nonce keys) reply = Some e"
      "f_ready f \<Longrightarrow> \<exists>reply. Inr reply \<in> set u \<and>
        edid_poll_ready aes cmac (control_key keys) (control_nonce keys) reply = Some True"
    using assms(1,2) by (auto simp: vouched_def)
  show ?thesis
    using assms(1,3-5) u by (fastforce simp: vouched_def intro!: exI [of _ "u @ used"])
qed

lemma vouched_drain_once:
  "yields (vouched aes cmac keys r0 f) (drain_once aes cmac (f_edid f))
    (\<lambda>(edid, ready) s. vouched aes cmac keys r0 (f\<lparr>f_edid := edid, f_ready := f_ready f \<or> ready\<rparr>) s)"
  unfolding yields_def
proof (intro allI impI)
  fix s a s'
  assume s: "vouched aes cmac keys r0 f s" and "drain_once aes cmac (f_edid f) s = (Inr a, s')"
  then obtain reply s1 where r1: "on_link receive_optional s = (Inr reply, s1)" and
    r2: "(case reply of None \<Rightarrow> ret (f_edid f, False) | Some reply \<Rightarrow> gets (\<lambda>s.
        let ks = control_key (cs_keys s); riv = control_nonce (cs_keys s) in
        (case f_edid f of Some e \<Rightarrow> Some e | None \<Rightarrow> parse_edid_from_reply aes cmac ks riv reply,
         edid_poll_ready aes cmac ks riv reply = Some True))) s1 = (Inr a, s')"
    unfolding drain_once_def by (elim andthen_InrE) blast
  obtain l where l: "receive_optional (cs_link s) = (Inr reply, l)" "s1 = s\<lparr>cs_link := l\<rparr>"
    using r1 by (auto simp: on_link_def split: prod.splits)
  have r: "receive_optional (cs_link s) = (Inr reply, l)" "s' = s\<lparr>cs_link := l\<rparr>"
      "a = (case reply of None \<Rightarrow> (f_edid f, False) | Some reply \<Rightarrow>
        (case f_edid f of Some e \<Rightarrow> Some e
         | None \<Rightarrow> parse_edid_from_reply aes cmac (control_key (cs_keys s)) (control_nonce (cs_keys s)) reply,
         edid_poll_ready aes cmac (control_key (cs_keys s)) (control_nonce (cs_keys s)) reply = Some True))"
    using l(1) r2 [unfolded l(2)] by (auto simp: ret_def gets_def Let_def split: option.splits)
  have keys: "cs_keys s = keys" using s by (simp add: vouched_def)
  obtain used where used: "rx (cs_link s) = used @ rx l" "\<And>x. reply = Some x \<Longrightarrow> used = [Inr x]"
    using receive_optional_rx [OF r(1)] by (cases reply) auto
  have rx': "rx (cs_link s) = used @ rx (cs_link s')" "cs_keys s' = cs_keys s" using used(1) r(2) by simp_all
  have "vouched aes cmac keys r0 (f\<lparr>f_edid := fst a, f_ready := f_ready f \<or> snd a\<rparr>) s'"
  proof (rule vouched_more [OF s rx'])
    show "f_edid f = Some e \<or> (\<exists>reply. Inr reply \<in> set used \<and>
        parse_edid_from_reply aes cmac (control_key keys) (control_nonce keys) reply = Some e)"
      if "f_edid (f\<lparr>f_edid := fst a, f_ready := f_ready f \<or> snd a\<rparr>) = Some e" for e
      using that r(3) used(2) keys by (cases reply; cases "f_edid f") simp_all
    show "f_ready f \<or> (\<exists>reply. Inr reply \<in> set used \<and>
        edid_poll_ready aes cmac (control_key keys) (control_nonce keys) reply = Some True)"
      if "f_ready (f\<lparr>f_edid := fst a, f_ready := f_ready f \<or> snd a\<rparr>)"
      using that r(3) used(2) keys by (cases reply) auto
  qed
  then show "(\<lambda>(edid, ready) s. vouched aes cmac keys r0 (f\<lparr>f_edid := edid, f_ready := f_ready f \<or> ready\<rparr>) s) a s'"
    by (simp add: split_beta)
qed

lemma vouched_drained: "yields (vouched aes cmac keys r0 f) (drained aes cmac f) (vouched aes cmac keys r0)"
  unfolding drained_def by (rule yields_andthen [OF vouched_drain_once]) (auto intro!: yields_case yields_ret)

lemma vouched_ask: "yields (vouched aes cmac keys r0 f) (ask aes cmac r head f) (vouched aes cmac keys r0)"
  unfolding ask_def by (rule yields_andthen [OF vouched_message vouched_drained])

lemma vouched_ask_times:
  "yields (vouched aes cmac keys r0 f) (ask_times n aes cmac r head f) (vouched aes cmac keys r0)"
  by (induction n arbitrary: f) (auto intro: yields_ret yields_andthen [OF vouched_ask])

lemma vouched_timed: "yields (vouched aes cmac keys r0 f) (on_link next_timed) (\<lambda>_. vouched aes cmac keys r0 f)"
  by (auto simp: yields_def on_link_def next_timed_def vouched_def split: list.splits)

lemma vouched_settle: "vouched aes cmac keys r0 f s \<Longrightarrow> vouched aes cmac keys r0 (settle gate f) s"
  by (auto simp: vouched_def settle_def)

lemma vouched_async_wait:
  "yields (vouched aes cmac keys r0 f) (async_wait aes cmac ticks f) (vouched aes cmac keys r0)"
  by (induction ticks arbitrary: f) (auto intro: yields_ret yields_andthen [OF vouched_drained])

lemma yields_pre: "yields P m Q \<Longrightarrow> (\<And>s. P' s \<Longrightarrow> P s) \<Longrightarrow> yields P' m Q"
  by (auto simp: yields_def)

lemma vouched_early:
  "yields (vouched aes cmac keys r0 f) (early_rounds n aes cmac gate head f) (vouched aes cmac keys r0)"
proof (induction n arbitrary: f)
  case (Suc n)
  have wait: "yields (vouched aes cmac keys r0 f)
      (andthen (on_link next_timed) (\<lambda>ticks. andthen (async_wait aes cmac ticks f) (early_rounds n aes cmac gate head)))
      (vouched aes cmac keys r0)" for f
    by (intro yields_andthen [OF vouched_timed] yields_andthen [OF vouched_async_wait] Suc)
  show ?case
    unfolding early_rounds.simps Let_def
    by (rule yields_pre [of "vouched aes cmac keys r0 (settle gate f)"])
      (auto intro!: yields_ret yields_andthen [OF vouched_ask_times] yields_andthen [OF vouched_ask] vouched_settle
        yields_pre [OF wait])
qed (simp add: yields_ret)

lemma vouched_poll: "yields (vouched aes cmac keys r0 f) (poll_ready n i aes cmac head ticks f) (vouched aes cmac keys r0)"
  by (induction n arbitrary: i ticks f)
    (auto intro!: yields_ret yields_andthen [OF vouched_ask] yields_andthen [where Q = "vouched aes cmac keys r0"] vouched_ask)

lemma vouched_final: "yields (vouched aes cmac keys r0 f) (final_fetch n aes cmac head f) (vouched aes cmac keys r0)"
proof (induction n arbitrary: f)
  case (Suc n)
  have "vouched aes cmac keys r0 (f\<lparr>f_edid := edid, f_ready := f_ready f \<or> ready\<rparr>) s \<Longrightarrow>
      vouched aes cmac keys r0 (f\<lparr>f_edid := edid\<rparr>) s" for edid ready s
    by (auto simp: vouched_def)
  then have "yields (vouched aes cmac keys r0 f) (andthen (drain_once aes cmac (f_edid f))
      (\<lambda>(edid, _). final_fetch n aes cmac head (f\<lparr>f_edid := edid\<rparr>))) (vouched aes cmac keys r0)"
    by (intro yields_andthen [OF vouched_drain_once] yields_case yields_pre [OF Suc]) auto
  then show ?case
    unfolding final_fetch.simps by (intro yields_if yields_ret yields_andthen [OF vouched_message])
qed (simp add: yields_ret)

lemma fetch_vouched:
  assumes "fetch_edid aes cmac head s = (Inr e, s')"
  shows "\<exists>f. vouched aes cmac (cs_keys s) (rx (cs_link s)) f s' \<and> f_edid f = Some e \<and>
    (edid_ready_reported (quirks (dock_profile (cs_profile s))) \<longrightarrow> f_ready f)"
proof -
  let ?v = "vouched aes cmac (cs_keys s) (rx (cs_link s))"
  let ?gate = "edid_ready_reported (quirks (dock_profile (cs_profile s)))"
  have poll: "yields (?v f) (andthen (on_link next_timed) (\<lambda>ticks.
      andthen (poll_ready POLL_ITERS 0 aes cmac head ticks f) (\<lambda>f. final_fetch FINAL_FETCH_ROUNDS aes cmac head f))) ?v" for f
    by (intro yields_andthen [OF vouched_timed] yields_andthen [OF vouched_poll] vouched_final)
  have rest: "yields (?v f) (andthen (if f_edid f \<noteq> None then ret f else andthen (on_link next_timed) (\<lambda>ticks.
      andthen (poll_ready POLL_ITERS 0 aes cmac head ticks f) (\<lambda>f. final_fetch FINAL_FETCH_ROUNDS aes cmac head f))) (\<lambda>f.
    andthen (ask aes cmac PostEdid head f) (\<lambda>f.
    case f_edid (settle ?gate f) of None \<Rightarrow> fail (NoEdid head) | Some e \<Rightarrow> ret e)))
    (\<lambda>e s'. \<exists>f. ?v f s' \<and> f_edid f = Some e \<and> (?gate \<longrightarrow> f_ready f))" for f
    by (rule yields_andthen [where Q = ?v], simp add: poll yields_ret, rule yields_andthen [OF vouched_ask])
      (auto simp: yields_def fail_def ret_def settle_def split: option.splits if_splits)
  have whole: "yields (?v \<lparr>f_edid = None, f_ready = False\<rparr>)
    (andthen (early_rounds EARLY_ROUNDS aes cmac ?gate head \<lparr>f_edid = None, f_ready = False\<rparr>) (\<lambda>f.
    andthen (ask_times 2 aes cmac Engage head f) (\<lambda>f.
    let f = settle ?gate f in
    andthen (if f_edid f \<noteq> None then ret f else andthen (on_link next_timed) (\<lambda>ticks.
      andthen (poll_ready POLL_ITERS 0 aes cmac head ticks f) (\<lambda>f. final_fetch FINAL_FETCH_ROUNDS aes cmac head f))) (\<lambda>f.
    andthen (ask aes cmac PostEdid head f) (\<lambda>f.
    case f_edid (settle ?gate f) of None \<Rightarrow> fail (NoEdid head) | Some e \<Rightarrow> ret e)))))
    (\<lambda>e s'. \<exists>f. ?v f s' \<and> f_edid f = Some e \<and> (?gate \<longrightarrow> f_ready f))"
    unfolding Let_def
    by (intro yields_andthen [OF vouched_early] yields_andthen [OF vouched_ask_times] yields_pre [OF rest] vouched_settle)
  have "?v \<lparr>f_edid = None, f_ready = False\<rparr> s" by (simp add: vouched_def)
  then show ?thesis
    using whole assms unfolding yields_def fetch_edid_def by (simp add: andthen_def gets_def)
qed

section \<open>What the transaction spends\<close>

text \<open>At most \<open>n\<close> messages of two blocks each, counted by both counters.\<close>

definition spends :: "nat \<Rightarrow> 'a op \<Rightarrow> bool" where
  "spends n m \<longleftrightarrow> (\<forall>s. \<exists>ws. length ws \<le> n \<and>
    wire (cs_link (snd (m s))) = wire (cs_link s) @ map CtrlWrite ws \<and>
    wire_seq (snd (m s)) = wire_seq s + 2 * of_nat (length ws) \<and>
    inner_counter (snd (m s)) = inner_counter s + of_nat (length ws))"

lemma spends_still: "(\<And>s. wire (cs_link (snd (m s))) = wire (cs_link s) \<and> wire_seq (snd (m s)) = wire_seq s \<and>
    inner_counter (snd (m s)) = inner_counter s) \<Longrightarrow> spends n m"
  unfolding spends_def by (auto intro!: exI [of _ "[]"])

lemma spends_ret: "spends n (ret a)" "spends n (fail e)" "spends n (gets g)"
  by (rule spends_still, simp add: ret_def fail_def gets_def)+

lemma spends_if: "spends n m \<Longrightarrow> spends n k \<Longrightarrow> spends n (if b then m else k)"
  by simp

lemma spends_mono: "spends n m \<Longrightarrow> n \<le> k \<Longrightarrow> spends k m"
  unfolding spends_def by (meson le_trans)

lemma spends_andthen:
  assumes "spends a m" and "\<And>x. spends b (f x)"
  shows "spends (a + b) (andthen m f)"
  unfolding spends_def
proof
  fix s
  obtain r s1 where m: "m s = (r, s1)" by fastforce
  obtain ws where ws: "length ws \<le> a" "wire (cs_link s1) = wire (cs_link s) @ map CtrlWrite ws"
      "wire_seq s1 = wire_seq s + 2 * of_nat (length ws)" "inner_counter s1 = inner_counter s + of_nat (length ws)"
    using assms(1) m unfolding spends_def by (metis snd_conv)
  show "\<exists>ws. length ws \<le> a + b \<and> wire (cs_link (snd (andthen m f s))) = wire (cs_link s) @ map CtrlWrite ws \<and>
      wire_seq (snd (andthen m f s)) = wire_seq s + 2 * of_nat (length ws) \<and>
      inner_counter (snd (andthen m f s)) = inner_counter s + of_nat (length ws)"
  proof (cases r)
    case (Inl e)
    then show ?thesis using m ws by (auto simp: andthen_def intro!: exI [of _ ws])
  next
    case (Inr x)
    obtain vs where "length vs \<le> b" "wire (cs_link (snd (f x s1))) = wire (cs_link s1) @ map CtrlWrite vs"
        "wire_seq (snd (f x s1)) = wire_seq s1 + 2 * of_nat (length vs)"
        "inner_counter (snd (f x s1)) = inner_counter s1 + of_nat (length vs)"
      using assms(2) [of x] unfolding spends_def by meson
    then show ?thesis
      using Inr m ws by (intro exI [of _ "ws @ vs"]) (simp add: andthen_def algebra_simps)
  qed
qed

lemma spends_message:
  assumes "\<And>tail c m. length tail = n \<Longrightarrow> build tail c = Ok m \<Longrightarrow> length m = 32"
  shows "spends 1 (send_message aes cmac i n build)"
  unfolding spends_def
proof
  fix s :: ControlSession
  define l where "l = snd (fill n (cs_link s))"
  define t where "t = take n (entropy (cs_link s) @ replicate n 0)"
  have l: "wire l = wire (cs_link s)" and t: "length t = n" by (simp_all add: l_def t_def fill_def)
  have m: "send_message aes cmac i n build s =
      andthen (built (build t (inner_counter s))) (\<lambda>content. andthen (fetch_send aes cmac i content)
        (\<lambda>_. modifies (\<lambda>s. s\<lparr>inner_counter := inner_counter s + 1\<rparr>))) (s\<lparr>cs_link := l\<rparr>)"
    by (simp add: send_message_def andthen_def draw_def on_link_def fill_def gets_def l_def t_def)
  show "\<exists>ws. length ws \<le> 1 \<and>
      wire (cs_link (snd (send_message aes cmac i n build s))) = wire (cs_link s) @ map CtrlWrite ws \<and>
      wire_seq (snd (send_message aes cmac i n build s)) = wire_seq s + 2 * of_nat (length ws) \<and>
      inner_counter (snd (send_message aes cmac i n build s)) = inner_counter s + of_nat (length ws)"
  proof (cases "build t (inner_counter s)")
    case (Inl e)
    then show ?thesis using l by (intro exI [of _ "[]"]) (simp add: m andthen_def built_def)
  next
    case (Inr content)
    then have "length content = 32" using assms t by blast
    let ?f = "seal_interactive aes cmac (control_key (cs_keys s)) (control_nonce (cs_keys s)) i (wire_seq s) content"
    show ?thesis
      using l Inr \<open>length content = 32\<close>
      by (cases "perform (CtrlWrite ?f) l")
        (auto simp: m andthen_def built_def fetch_send_def gets_def modifies_def on_link_def must_def perform_def
          intro: exI [of _ "[?f]"] exI [of _ "[]"] split: list.splits option.splits)
  qed
qed

lemma spends_drain_once: "spends 0 (drain_once aes cmac edid)"
  by (rule spends_still)
    (auto simp: drain_once_def andthen_def on_link_def gets_def ret_def dest!: receive_optional_wire
      split: prod.splits sum.splits option.splits)

lemma spends_drained: "spends 0 (drained aes cmac f)"
  using spends_andthen [OF spends_drain_once, of 0 "\<lambda>(edid, ready). ret (f\<lparr>f_edid := edid, f_ready := f_ready f \<or> ready\<rparr>)"]
  by (auto simp: drained_def spends_ret)

lemma spends_timed: "spends 0 (on_link next_timed)"
  by (rule spends_still) (auto simp: on_link_def next_timed_def split: list.splits)

lemma spends_ask: "spends 1 (ask aes cmac r head f)"
proof -
  have "spends 1 (send_message aes cmac (request_id r) (request_draws r) (edid_request r head))"
    by (rule spends_message) (rule edid_request_length)
  from spends_andthen [OF this, of 0 "\<lambda>_. drained aes cmac f"] show ?thesis
    by (simp add: ask_def spends_drained)
qed

lemma spends_ask_times: "spends n (ask_times n aes cmac r head f)"
proof (induction n arbitrary: f)
  case (Suc n)
  show ?case using spends_andthen [OF spends_ask Suc] by simp
qed (simp add: spends_ret)

lemma spends_async_wait: "spends 0 (async_wait aes cmac ticks f)"
proof (induction ticks arbitrary: f)
  case (Cons t ticks)
  show ?case using spends_andthen [OF spends_drained Cons] by (simp add: spends_ret)
qed (simp add: spends_ret)

lemma spends_early: "spends (4 * n) (early_rounds n aes cmac gate head f)"
proof (induction n arbitrary: f)
  case (Suc n)
  have wait: "spends (4 * n) (andthen (on_link next_timed) (\<lambda>ticks.
      andthen (async_wait aes cmac ticks f) (\<lambda>f. early_rounds n aes cmac gate head f)))" for f
    using spends_andthen [OF spends_timed spends_andthen [OF spends_async_wait Suc]] by simp
  have last: "spends (4 * n) (if b then ret (settle gate f) else andthen (on_link next_timed) (\<lambda>ticks.
      andthen (async_wait aes cmac ticks (settle gate f)) (\<lambda>f. early_rounds n aes cmac gate head f)))" for b f
    using wait by (simp add: spends_ret)
  have "spends (2 + (1 + (1 + 4 * n))) (andthen (ask_times 2 aes cmac Probe head f) (\<lambda>f.
      andthen (ask aes cmac Kick head f) (\<lambda>f. andthen (ask aes cmac GetEdid head f) (\<lambda>f.
      if f_edid (settle gate f) \<noteq> None then ret (settle gate f) else andthen (on_link next_timed) (\<lambda>ticks.
      andthen (async_wait aes cmac ticks (settle gate f)) (\<lambda>f. early_rounds n aes cmac gate head f))))))" for f
    by (intro spends_andthen spends_ask_times spends_ask last)
  from this [of "settle gate f"] show ?case
    unfolding early_rounds.simps Let_def
    by (intro spends_if spends_ret) (rule spends_mono, assumption, simp)
qed (simp add: spends_ret)

lemma spends_poll:
  "spends (n + length (filter (\<lambda>j. j mod POLL_PROBE_EVERY = POLL_PROBE_EVERY - 1) [i..<i + n]))
    (poll_ready n i aes cmac head ticks f)"
proof (induction n arbitrary: i ticks f)
  case (Suc n)
  let ?p = "\<lambda>j. j mod POLL_PROBE_EVERY = POLL_PROBE_EVERY - 1"
  have "[i..<i + Suc n] = i # [i + 1..<(i + 1) + n]" by (simp add: upt_conv_Cons)
  then have count: "length (filter ?p [i..<i + Suc n]) =
      (if ?p i then 1 else 0) + length (filter ?p [i + 1..<(i + 1) + n])" by simp
  have probe: "spends (if ?p i then 1 else 0) (if ?p i then ask aes cmac Probe head f else ret f)" for f
    using spends_ask [of aes cmac Probe head f] by (simp add: spends_ret)
  have "spends (1 + ((if ?p i then 1 else 0) + (n + length (filter ?p [i + 1..<(i + 1) + n]))))
      (andthen (ask aes cmac StatusPoll head f) (\<lambda>f.
       andthen (if ?p i then ask aes cmac Probe head f else ret f) (\<lambda>f.
       poll_ready n (i + 1) aes cmac head (tl ticks) f)))"
    by (intro spends_andthen spends_ask probe Suc)
  then show ?case
    unfolding count poll_ready.simps by (intro spends_if spends_ret) (rule spends_mono, assumption, simp)
qed (simp add: spends_ret)

lemma spends_final: "spends n (final_fetch n aes cmac head f)"
proof (induction n arbitrary: f)
  case (Suc n)
  have "spends (1 + (0 + n)) (andthen (send_message aes cmac (request_id GetEdid) (request_draws GetEdid)
      (edid_request GetEdid head)) (\<lambda>_. andthen (drain_once aes cmac (f_edid f)) (\<lambda>(edid, _).
      final_fetch n aes cmac head (f\<lparr>f_edid := edid\<rparr>))))"
    using Suc edid_request_length by (intro spends_andthen spends_message spends_drain_once) (auto split: prod.split)
  then show ?case
    unfolding final_fetch.simps by (intro spends_if spends_ret) simp
qed (simp add: spends_ret)

lemma poll_count: "length (filter (\<lambda>j. j mod POLL_PROBE_EVERY = POLL_PROBE_EVERY - 1) [0..<0 + POLL_ITERS]) = 31"
  by code_simp

section \<open>Properties\<close>

text \<open>
  C31: The transaction ends, and its cost is bounded, whatever the dock answers and however long the
  clock lets the polls run: it sends at most 312 messages, and when it returns, with an EDID or with any
  error, each message that reached the bus has advanced the session's block counter by its two blocks
  and the inner counter by one.
\<close>

theorem fetch_edid_bounded:
  "\<exists>ws. length ws \<le> 312 \<and>
    wire (cs_link (snd (fetch_edid aes cmac head s))) = wire (cs_link s) @ map CtrlWrite ws \<and>
    wire_seq (snd (fetch_edid aes cmac head s)) = wire_seq s + 2 * of_nat (length ws) \<and>
    inner_counter (snd (fetch_edid aes cmac head s)) = inner_counter s + of_nat (length ws)"
proof -
  have poll: "spends 305 (if f_edid f \<noteq> None then ret f else andthen (on_link next_timed) (\<lambda>ticks.
      andthen (poll_ready POLL_ITERS 0 aes cmac head ticks f) (\<lambda>f. final_fetch FINAL_FETCH_ROUNDS aes cmac head f)))" for f
    using spends_andthen [OF spends_timed spends_andthen [OF spends_poll [of POLL_ITERS 0] spends_final [of FINAL_FETCH_ROUNDS]]]
    by (simp only: poll_count) (simp add: spends_ret POLL_ITERS_def FINAL_FETCH_ROUNDS_def)
  have "spends (0 + (4 * EARLY_ROUNDS + (2 + (305 + (1 + 0))))) (fetch_edid aes cmac head)"
    unfolding fetch_edid_def Let_def
    by (intro spends_andthen spends_ret(3) spends_early spends_ask_times poll spends_ask)
      (auto simp: spends_ret split: option.split)
  then show ?thesis
    unfolding spends_def EARLY_ROUNDS_def by simp
qed

text \<open>
  C15: What the transaction returns was read in it. An EDID that \<open>fetch_edid\<close> returns is well formed, is
  not the bridge's own, and was parsed from an authenticated reply received during the transaction; on a
  dock that reports readiness, some reply received during the transaction reported it.
\<close>

theorem fetched_edid_genuine:
  assumes "fetch_edid aes cmac head s = (Inr e, s')"
  shows "edid_wf e \<and> (\<exists>used. rx (cs_link s) = used @ rx (cs_link s') \<and>
    (\<exists>reply. Inr reply \<in> set used \<and>
      parse_edid_from_reply aes cmac (control_key (cs_keys s)) (control_nonce (cs_keys s)) reply = Some e) \<and>
    (edid_ready_reported (quirks (dock_profile (cs_profile s))) \<longrightarrow>
      (\<exists>reply. Inr reply \<in> set used \<and>
        edid_poll_ready aes cmac (control_key (cs_keys s)) (control_nonce (cs_keys s)) reply = Some True)))"
proof -
  obtain f where f: "vouched aes cmac (cs_keys s) (rx (cs_link s)) f s'" "f_edid f = Some e"
      "edid_ready_reported (quirks (dock_profile (cs_profile s))) \<Longrightarrow> f_ready f"
    using fetch_vouched [OF assms] by blast
  from f(1) obtain used where u: "rx (cs_link s) = used @ rx (cs_link s')" and
    edid: "\<And>e. f_edid f = Some e \<Longrightarrow> \<exists>reply. Inr reply \<in> set used \<and>
        parse_edid_from_reply aes cmac (control_key (cs_keys s)) (control_nonce (cs_keys s)) reply = Some e" and
    ready: "f_ready f \<Longrightarrow> \<exists>reply. Inr reply \<in> set used \<and>
        edid_poll_ready aes cmac (control_key (cs_keys s)) (control_nonce (cs_keys s)) reply = Some True"
    unfolding vouched_def by auto
  have "edid_wf e" using edid [OF f(2)] parsed_edid_wf by blast
  then show ?thesis using u edid [OF f(2)] ready f(3) by auto
qed

text \<open>A dock under constant ciphers that sends one reply with an EDID and one that reports readiness.\<close>

abbreviation const_aes :: aes_fn where "const_aes \<equiv> \<lambda>k b. 3"
abbreviation const_cmac :: cmac_fn where "const_cmac \<equiv> \<lambda>k m. 9"

definition fetch_keys :: SessionKeys where
  "fetch_keys = \<lparr>control_key = [1], control_nonce = [1, 2, 3, 4, 5, 6, 7, 8], next_counter = 0,
    rsa = \<lparr>modulus = [], exponent = []\<rparr>, receiver_id_list = []\<rparr>"

definition const_reply :: "bytes \<Rightarrow> bytes" where
  "const_reply pt = dock_reply const_aes const_cmac [1] [1, 2, 3, 4, 5, 6, 7, 8] 5 pt"

definition ready_text :: bytes where
  "ready_text = [0x44, 0, 0x20, 0] @ replicate 22 0 @ [0x80]"

definition fetch_session :: "(usb_error + bytes) list \<Rightarrow> ControlSession" where
  "fetch_session replies = engaged \<lparr>rx = replies, outcomes = [], wire = [], entropy = [], timed = [], overran = []\<rparr>
    dock_ridge fetch_keys [] \<lparr>p_wire_seq = 0, p_inner_counter = 0, p_acknowledgements = 1\<rparr>"

lemma const_opened:
  "first_open (\<lambda>r. open_in const_aes const_cmac [1] r 5) acc (inbound_reply_rivs [1, 2, 3, 4, 5, 6, 7, 8])
    (sealed_body const_aes const_cmac [1] 5 [1, 2, 3, 4, 5, 6, 7, 8] pt) = acc pt"
proof (cases "acc pt")
  case None
  show ?thesis
  proof (rule ccontr)
    assume "\<not> ?thesis"
    with None obtain x where "first_open (\<lambda>r. open_in const_aes const_cmac [1] r 5) acc
        (inbound_reply_rivs [1, 2, 3, 4, 5, 6, 7, 8])
        (sealed_body const_aes const_cmac [1] 5 [1, 2, 3, 4, 5, 6, 7, 8] pt) = Some x" by auto
    from cp_channel.first_open_sound [OF this] None show False
      by (auto dest!: sealed_body_const_cipher)
  qed
next
  case (Some x)
  then show ?thesis
    by (intro first_open_unique [THEN trans])
      (auto simp: set_inbound_reply_rivs dest: sealed_body_const_cipher)
qed

lemma const_parsed:
  "parse_edid_from_reply const_aes const_cmac [1] [1, 2, 3, 4, 5, 6, 7, 8] (const_reply pt) =
    edid_from_inner pt"
  "edid_poll_ready const_aes const_cmac [1] [1, 2, 3, 4, 5, 6, 7, 8] (const_reply pt) = ready_field pt"
  by (simp_all add: parse_edid_from_reply_def edid_poll_ready_def const_reply_def const_opened)

lemma ready_parsed: "edid_from_inner ready_text = None" "ready_field ready_text = Some True"
  by (simp add: ready_text_def edid_from_inner_def) code_simp

lemma edid_parsed: "edid_from_inner (edid_reply 2 example_edid []) = Some example_edid"
  by (rule edid_from_inner_reply [OF example_edid_wf])

text \<open>A session whose bus accepts every write and whose dock will send \<open>rs\<close>.\<close>

definition awaits :: "SessionKeys \<Rightarrow> (usb_error + bytes) list \<Rightarrow> ControlSession \<Rightarrow> bool" where
  "awaits keys rs s \<longleftrightarrow> cs_keys s = keys \<and> outcomes (cs_link s) = [] \<and> rx (cs_link s) = rs"

lemma message_awaits:
  assumes "awaits keys rs s" and "head < 8"
  shows "\<exists>s'. send_message aes cmac (request_id r) (request_draws r) (edid_request r head) s = (Inr (), s') \<and> awaits keys rs s'"
proof -
  obtain m where "edid_request r head (take (request_draws r) (entropy (cs_link s) @ replicate (request_draws r) 0))
      (inner_counter s) = Ok m"
    using assms(2) by (cases r) (auto simp: edid_request_def post_edid_query_def not_le [symmetric])
  then show ?thesis
    using assms(1)
    by (simp add: awaits_def send_message_def fetch_send_def andthen_def draw_def on_link_def fill_def gets_def
        modifies_def built_def silent_must)
qed

lemma drain_awaits:
  "awaits keys (Inr reply # rs) s \<Longrightarrow> \<exists>s'. drained aes cmac f s = (Inr (f\<lparr>
      f_edid := case f_edid f of Some e \<Rightarrow> Some e
        | None \<Rightarrow> parse_edid_from_reply aes cmac (control_key keys) (control_nonce keys) reply,
      f_ready := f_ready f \<or> edid_poll_ready aes cmac (control_key keys) (control_nonce keys) reply = Some True\<rparr>), s') \<and>
    awaits keys rs s'"
  "awaits keys [] s \<Longrightarrow> \<exists>s'. drained aes cmac f s = (Inr f, s') \<and> awaits keys [] s'"
  by (auto simp: awaits_def drained_def drain_once_def andthen_def on_link_def receive_optional_def
      recv_frame_raw_timeout_def gets_def ret_def Let_def cong: option.case_cong)

lemma ask_reply:
  assumes "awaits keys (Inr reply # rs) s" and "head < 8"
  obtains s' where "ask aes cmac r head f s = (Inr (f\<lparr>
      f_edid := case f_edid f of Some e \<Rightarrow> Some e
        | None \<Rightarrow> parse_edid_from_reply aes cmac (control_key keys) (control_nonce keys) reply,
      f_ready := f_ready f \<or> edid_poll_ready aes cmac (control_key keys) (control_nonce keys) reply = Some True\<rparr>), s')"
    "awaits keys rs s'"
proof -
  obtain s1 where "send_message aes cmac (request_id r) (request_draws r) (edid_request r head) s = (Inr (), s1)"
      "awaits keys (Inr reply # rs) s1"
    using message_awaits [OF assms] by blast
  with drain_awaits(1) [of keys reply rs s1 aes cmac f] that show thesis by (auto simp: ask_def andthen_def)
qed

lemma ask_silent:
  assumes "awaits keys [] s" and "head < 8"
  obtains s' where "ask aes cmac r head f s = (Inr f, s')" "awaits keys [] s'"
proof -
  obtain s1 where "send_message aes cmac (request_id r) (request_draws r) (edid_request r head) s = (Inr (), s1)"
      "awaits keys [] s1"
    using message_awaits [OF assms] by blast
  with drain_awaits(2) [of keys s1 aes cmac f] that show thesis by (auto simp: ask_def andthen_def)
qed

text \<open>Two replies to the two probes, one with an EDID and one with readiness, in either order.\<close>

lemma fetch_two_replies:
  assumes "awaits keys [Inr x, Inr y] s" and "edid_ready_reported (quirks (dock_profile (cs_profile s)))"
    and "(case parse_edid_from_reply aes cmac (control_key keys) (control_nonce keys) x of
       Some e \<Rightarrow> Some e | None \<Rightarrow> parse_edid_from_reply aes cmac (control_key keys) (control_nonce keys) y) = Some e"
    and "edid_poll_ready aes cmac (control_key keys) (control_nonce keys) x = Some True \<or>
      edid_poll_ready aes cmac (control_key keys) (control_nonce keys) y = Some True"
  shows "fst (fetch_edid aes cmac 0 s) = Inr e"
proof -
  let ?start = "\<lparr>f_edid = None, f_ready = False\<rparr>" and ?fin = "\<lparr>f_edid = Some e, f_ready = True\<rparr>"
  let ?mid = "\<lparr>f_edid = parse_edid_from_reply aes cmac (control_key keys) (control_nonce keys) x,
    f_ready = (edid_poll_ready aes cmac (control_key keys) (control_nonce keys) x = Some True)\<rparr>"
  obtain s1 where 1: "ask aes cmac Probe 0 ?start s = (Inr ?mid, s1)" "awaits keys [Inr y] s1"
    by (rule ask_reply [OF assms(1), of 0 aes cmac Probe ?start]) simp_all
  obtain s2 where 2: "ask aes cmac Probe 0 ?mid s1 = (Inr ?fin, s2)" "awaits keys [] s2"
    by (rule ask_reply [OF 1(2), of 0 aes cmac Probe ?mid]) (use assms(3,4) in simp_all)
  obtain s3 where 3: "ask aes cmac Kick 0 ?fin s2 = (Inr ?fin, s3)" "awaits keys [] s3"
    by (rule ask_silent [OF 2(2), of 0]) simp_all
  obtain s4 where 4: "ask aes cmac GetEdid 0 ?fin s3 = (Inr ?fin, s4)" "awaits keys [] s4"
    by (rule ask_silent [OF 3(2), of 0]) simp_all
  obtain s5 where 5: "ask aes cmac Engage 0 ?fin s4 = (Inr ?fin, s5)" "awaits keys [] s5"
    by (rule ask_silent [OF 4(2), of 0]) simp_all
  obtain s6 where 6: "ask aes cmac Engage 0 ?fin s5 = (Inr ?fin, s6)" "awaits keys [] s6"
    by (rule ask_silent [OF 5(2), of 0]) simp_all
  obtain s7 where 7: "ask aes cmac PostEdid 0 ?fin s6 = (Inr ?fin, s7)"
    by (rule ask_silent [OF 6(2), of 0]) simp_all
  have twice: "ask_times 2 aes cmac r head f = andthen (ask aes cmac r head f) (\<lambda>f.
      andthen (ask aes cmac r head f) ret)" for r head f
  proof -
    have "ask_times 0 aes cmac r head = ret" by (rule ext) simp
    then have "ask_times (Suc 0) aes cmac r head = (\<lambda>f. andthen (ask aes cmac r head f) ret)" by (intro ext) simp
    then show ?thesis by (simp add: numeral_eq_Suc)
  qed
  show ?thesis
    by (simp add: fetch_edid_def EARLY_ROUNDS_def twice andthen_def gets_def ret_def settle_def assms(2) Let_def
        1(1) 2(1) 3(1) 4(1) 5(1) 6(1) 7)
qed

lemma example_awaits: "awaits fetch_keys rs (fetch_session rs)"
  "edid_ready_reported (quirks (dock_profile (cs_profile (fetch_session rs))))"
  by (simp_all add: awaits_def fetch_session_def engaged_def dock_ridge_def PROFILE_RIDGE_def)

theorem fetched_edid_genuine_witness:
  "edid_wf example_edid \<and> (\<exists>used. [Inr (const_reply ready_text), Inr (const_reply (edid_reply 2 example_edid []))] =
      used @ rx (cs_link (snd (fetch_edid const_aes const_cmac 0
        (fetch_session [Inr (const_reply ready_text), Inr (const_reply (edid_reply 2 example_edid []))])))) \<and>
    (\<exists>reply. Inr reply \<in> set used \<and>
      parse_edid_from_reply const_aes const_cmac [1] [1, 2, 3, 4, 5, 6, 7, 8] reply = Some example_edid) \<and>
    (\<exists>reply. Inr reply \<in> set used \<and> edid_poll_ready const_aes const_cmac [1] [1, 2, 3, 4, 5, 6, 7, 8] reply = Some True))"
proof -
  let ?s = "fetch_session [Inr (const_reply ready_text), Inr (const_reply (edid_reply 2 example_edid []))]"
  have "fst (fetch_edid const_aes const_cmac 0 ?s) = Inr example_edid"
    by (rule fetch_two_replies [OF example_awaits])
      (simp_all add: fetch_keys_def const_parsed ready_parsed edid_parsed)
  then have "fetch_edid const_aes const_cmac 0 ?s = (Inr example_edid, snd (fetch_edid const_aes const_cmac 0 ?s))"
    by (simp add: prod_eq_iff)
  from fetched_edid_genuine [OF this] show ?thesis
    by (simp add: fetch_session_def engaged_def fetch_keys_def dock_ridge_def PROFILE_RIDGE_def)
qed

text \<open>
  The gate looks at readiness only between the steps, not at the order of the replies: an EDID offered
  before the dock reports readiness is kept when the report arrives before the next check.
\<close>

lemma early_edid_kept:
  "fst (fetch_edid const_aes const_cmac 0
    (fetch_session [Inr (const_reply (edid_reply 2 example_edid [])), Inr (const_reply ready_text)])) = Inr example_edid"
  by (rule fetch_two_replies [OF example_awaits])
    (simp_all add: fetch_keys_def const_parsed ready_parsed edid_parsed)

end
