(* ===== verification/Session_Channel.thy ===== *)
theory Session_Channel
  imports Edid_Fetch
begin

text \<open>
  What every operation of a session keeps. An invariant that tolerates the few ways the operations touch
  the state is kept by all of them (locale \<open>session_invariant\<close>); it is interpreted twice, for the shape
  of the session's arrays and for the control channel as the dock reads it, and both are carried from
  the first byte of the session through every sequence of requests.
\<close>

section \<open>Actions that keep an invariant\<close>

text \<open>An action keeps a predicate whether it succeeds or fails.\<close>

definition keeps :: "('s \<Rightarrow> bool) \<Rightarrow> ('e, 's, 'a) fallible \<Rightarrow> bool" where
  "keeps sinv m \<longleftrightarrow> (\<forall>s. sinv s \<longrightarrow> sinv (snd (m s)))"

named_theorems kept \<open>actions that keep an invariant\<close>

lemma keeps_ret [kept]: "keeps sinv (ret a)"
  by (simp add: keeps_def ret_def)

lemma keeps_fail [kept]: "keeps sinv (fail e)"
  by (simp add: keeps_def fail_def)

lemma keeps_gets [kept]: "keeps sinv (gets f)"
  by (simp add: keeps_def gets_def)

lemma keeps_modifies: "(\<And>s. sinv s \<Longrightarrow> sinv (f s)) \<Longrightarrow> keeps sinv (modifies f)"
  by (simp add: keeps_def modifies_def)

lemma keeps_andthen: "keeps sinv m \<Longrightarrow> (\<And>a. keeps sinv (f a)) \<Longrightarrow> keeps sinv (andthen m f)"
  by (auto simp: keeps_def andthen_def split: prod.splits sum.splits)

lemma keeps_state: "(\<And>s. sinv s \<Longrightarrow> keeps sinv (f s)) \<Longrightarrow> keeps sinv (andthen (gets (\<lambda>s. s)) f)"
  by (simp add: keeps_def andthen_def gets_def)

lemma keeps_built: "(\<And>a. r = Ok a \<Longrightarrow> keeps sinv (f a)) \<Longrightarrow> keeps sinv (andthen (built r) f)"
  by (auto simp: keeps_def andthen_def built_def split: sum.splits)

lemma keeps_u16: "(\<And>a. keeps sinv (f a)) \<Longrightarrow> keeps sinv (andthen (u16_of n) f)"
  by (rule keeps_andthen) (simp_all add: u16_of_def keeps_ret keeps_fail)

text \<open>The two records of a shared pipe's stream prologue.\<close>

definition prologue_record :: "aes_fn \<Rightarrow> cmac_fn \<Rightarrow> Dock \<Rightarrow> byte \<Rightarrow> bytes \<Rightarrow> bool" where
  "prologue_record aes cmac dock head r \<longleftrightarrow>
    stream_ring_record dock head = Some r \<or>
    (\<exists>key nonce sq w h. fst (stream_config_message aes cmac dock head key nonce sq w h) = Some r)"

text \<open>
  What an invariant must tolerate for every operation of a session to keep it: traffic that is not on
  the control endpoint, a control message that fits its size field, the prologue records, and the
  bookkeeping of one connector. The operations are then shown to keep it once and for all.
\<close>

definition small_shot :: "CursorShot \<Rightarrow> bool" where
  "small_shot c \<longleftrightarrow> length (shot_bgra c) + 64 < 65536"

lemma video_quiet:
  "perform (VideoWrite h frs) l = (e, l') \<Longrightarrow> \<exists>w. wire l' = wire l @ w \<and> ctrl_bytes w = []"
  by (auto simp: perform_def ctrl_bytes_def split: list.splits option.splits)

locale session_invariant =
  fixes aes :: aes_fn and cmac :: cmac_fn and dock :: Dock and sinv :: "ControlSession \<Rightarrow> bool"
  assumes profile: "sinv s \<Longrightarrow> cs_profile s = dock"
    and keys4: "sinv s \<Longrightarrow> length (video_keys s) = MAX_CONNECTORS"
    and shots: "sinv s \<Longrightarrow> Some c \<in> set (cursor_shot s) \<Longrightarrow> small_shot c"
    and quiet: "sinv s \<Longrightarrow> wire l = wire (cs_link s) @ w \<Longrightarrow> ctrl_bytes w = [] \<Longrightarrow> sinv (s\<lparr>cs_link := l\<rparr>)"
    and sends: "length content + 28 < 65536 \<Longrightarrow> keeps sinv (fetch_send aes cmac mid content)"
    and counts: "sinv s \<Longrightarrow> sinv (s\<lparr>inner_counter := n\<rparr>)"
    and prologue: "unat head < MAX_CONNECTORS \<Longrightarrow> prologue_record aes cmac dock head r \<Longrightarrow>
      keeps sinv (send_plain_video r)"
    and seals: "sinv s \<Longrightarrow> sinv (s\<lparr>video_seal_seq := (video_seal_seq s)[i := sq]\<rparr>)"
    and owed: "sinv s \<Longrightarrow> sinv (s\<lparr>mode_restate_owed := (mode_restate_owed s)[i := b]\<rparr>)"
    and frames: "sinv s \<Longrightarrow> sinv (s\<lparr>frame_seq := (frame_seq s)[i := k]\<rparr>)"
    and modes: "sinv s \<Longrightarrow> sinv (s\<lparr>programmed_mode := (programmed_mode s)[i := m]\<rparr>)"
    and actives: "sinv s \<Longrightarrow> sinv (s\<lparr>mode_active := (mode_active s)[i := b]\<rparr>)"
    and scans: "sinv s \<Longrightarrow> sinv (s\<lparr>scanout := (scanout s)[i := h]\<rparr>)"
    and cursors: "sinv s \<Longrightarrow> (\<And>c. so = Some c \<Longrightarrow> small_shot c) \<Longrightarrow>
      sinv (s\<lparr>cursor_shot := (cursor_shot s)[i := so]\<rparr>)"
begin

lemma keeps_link:
  assumes "\<And>l. \<exists>w. wire (snd (m l)) = wire l @ w \<and> ctrl_bytes w = []"
  shows "keeps sinv (on_link m)"
  unfolding keeps_def
proof (intro allI impI)
  fix s assume "sinv s"
  moreover obtain w where "wire (snd (m (cs_link s))) = wire (cs_link s) @ w" "ctrl_bytes w = []"
    using assms by blast
  ultimately show "sinv (snd (on_link m s))"
    using quiet by (cases "m (cs_link s)") (auto simp: on_link_def)
qed

lemma keeps_receive: "keeps sinv (on_link receive_optional)"
  by (rule keeps_link) (simp add: exI [of _ "[]"])

lemma keeps_send: "length content + 28 < 65536 \<Longrightarrow> keeps sinv (send_control aes cmac mid content)"
  unfolding send_control_alt by (intro keeps_andthen sends keeps_modifies counts keeps_receive)

lemma keeps_timed: "keeps sinv (on_link next_timed)"
  by (rule keeps_link) (simp add: next_timed_def exI [of _ "[]"] split: list.splits)

lemma keeps_overran: "keeps sinv (on_link next_overran)"
  by (rule keeps_link) (simp add: next_overran_def exI [of _ "[]"] split: list.splits)

lemma keeps_draw:
  assumes "\<And>t. length t = n \<Longrightarrow> keeps sinv (f t)"
  shows "keeps sinv (andthen (draw n) f)"
  unfolding keeps_def
proof (intro allI impI)
  fix s assume s: "sinv s"
  have "sinv (s\<lparr>cs_link := snd (fill n (cs_link s))\<rparr>)"
    by (rule quiet [OF s, of _ "[]"]) (simp_all add: fill_def)
  then show "sinv (snd (andthen (draw n) f s))"
    using assms by (simp add: andthen_def draw_def on_link_def fill_def keeps_def)
qed

lemma keeps_submit: "keeps sinv (submit_video head frs)"
proof -
  have again: "keeps sinv (on_link (must (VideoWrite h frs)))" for h
    by (rule keeps_link) (auto simp: must_def dest!: video_quiet split: prod.splits option.splits)
  show ?thesis
    unfolding keeps_def
  proof (intro allI impI)
    fix s assume s: "sinv s"
    obtain e l where p: "perform (VideoWrite (unat head) frs) (cs_link s) = (e, l)" by fastforce
    then have "sinv (s\<lparr>cs_link := l\<rparr>)" using quiet [OF s] video_quiet by blast
    then show "sinv (snd (submit_video head frs s))"
      using again by (auto simp: submit_video_def p keeps_def split: option.splits usb_error.splits)
  qed
qed

lemma keeps_echo: "keeps sinv (echo_loop aes cmac rc turns reply)"
proof (induction turns arbitrary: reply)
  case Nil
  show ?case by (simp add: keeps_def)
next
  case (Cons t turns)
  have "keeps sinv (andthen (on_link receive_optional) (echo_loop aes cmac rc turns))"
    by (intro keeps_andthen keeps_receive Cons.IH)
  then show ?case by (simp add: keeps_def)
qed

lemma keeps_echoing: "length content + 28 < 65536 \<Longrightarrow> keeps sinv (send_control_echoing aes cmac mid content rc)"
  unfolding send_control_echoing_def by (intro keeps_andthen keeps_send keeps_timed keeps_echo)

lemma keeps_marker: "keeps sinv (send_marker aes cmac head sub st)"
  unfolding send_marker_def by (intro keeps_draw keeps_andthen keeps_gets keeps_send keeps_ret) simp

lemma keeps_poll: "keeps sinv (poll_status aes cmac)"
  unfolding poll_status_def
  by (intro keeps_draw keeps_andthen keeps_gets keeps_send keeps_ret) (simp add: device_query_req_def)

lemma keeps_poll_if: "keeps sinv (if b then poll_status aes cmac else ret ())"
  by (simp add: keeps_poll keeps_ret)

lemma keeps_heartbeat: "keeps sinv (session_heartbeat aes cmac)"
  unfolding session_heartbeat_def by (intro keeps_andthen keeps_gets keeps_send keeps_ret) simp

lemma keeps_commit: "keeps sinv (send_commit aes cmac head)"
  unfolding send_commit_def by (intro keeps_draw keeps_andthen keeps_gets keeps_send keeps_ret) simp

lemma keeps_probe: "keeps sinv (probe_head_present aes cmac head)"
  unfolding probe_head_present_def
  by (intro keeps_draw keeps_andthen keeps_gets keeps_echoing) (simp add: get_edid_req_sub_def)

lemma keeps_report: "keeps sinv (frame_report aes cmac head mode)"
  unfolding frame_report_def
  by (rule keeps_state)
    (auto simp: Let_def split_beta intro!: keeps_draw keeps_andthen keeps_ret keeps_modifies seals owed
      split: option.splits)

lemma keeps_prologue:
  assumes "unat head < MAX_CONNECTORS"
  shows "keeps sinv (send_stream_prologue aes cmac head key nonce w h)"
  unfolding send_stream_prologue_def
proof (rule keeps_state, goal_cases)
  case (1 s)
  then have d: "cs_profile s = dock" by (rule profile)
  show ?case
  proof (cases "stream_ring_record dock head")
    case None
    then show ?thesis by (simp add: d keeps_ret)
  next
    case (Some ring)
    let ?m = "stream_config_message aes cmac dock head key nonce (video_seal_seq s ! unat head) w h"
    have "fst ?m = Some c \<Longrightarrow> keeps sinv (send_plain_video c)" for c
      by (rule prologue [OF assms]) (auto simp: prologue_record_def)
    moreover have "keeps sinv (send_plain_video ring)"
      using Some by (intro prologue [OF assms]) (simp add: prologue_record_def)
    ultimately show ?thesis
      by (cases ?m) (auto simp: d Some Let_def intro!: keeps_andthen keeps_modifies keeps_ret seals split: option.splits)
  qed
qed

lemma cursor_create_length: "cursor_create c head w h = Ok m \<Longrightarrow> length m = 32"
  by (auto simp: cursor_create_def cursor_header_def cursor_head_id_def bind_Ok_iff split: if_splits)

lemma cursor_image_length: "cursor_image c head w h bgra = Ok m \<Longrightarrow> length m = 32 + length bgra"
  by (auto simp: cursor_image_def cursor_header_def cursor_head_id_def bind_Ok_iff split: if_splits)

lemma keeps_shot: "length bgra + 64 < 65536 \<Longrightarrow> keeps sinv (modifies (keep_shot head w h bgra))"
  by (rule keeps_modifies)
    (auto simp: keep_shot_def Let_def small_shot_def intro!: cursors split: option.splits)

lemma keeps_image:
  "length bgra + 64 < 65536 \<Longrightarrow> keeps sinv (set_cursor aes cmac head w h bgra)"
  unfolding set_cursor_def
  by (intro keeps_u16 keeps_andthen keeps_gets keeps_built keeps_send keeps_shot)
    (simp_all add: cursor_create_length cursor_image_length)

lemma keeps_change:
  assumes "\<And>c. shot_bgra (f c) = shot_bgra c"
  shows "keeps sinv (modifies (change_shot head f))"
proof (rule keeps_modifies)
  fix s assume s: "sinv s"
  have "small_shot (f c)" if "unat head < length (cursor_shot s)" "cursor_shot s ! unat head = Some c" for c
    using shots [OF s, of c] nth_mem [OF that(1)] that(2) assms by (simp add: small_shot_def)
  then show "sinv (change_shot head f s)"
    using s by (auto simp: change_shot_def Let_def intro!: cursors)
qed

lemma cursor_move_length: "cursor_move c head x y v = Ok m \<Longrightarrow> length m = 32"
  by (auto simp: cursor_move_def cursor_header_def cursor_head_id_def bind_Ok_iff Let_def split: if_splits)

lemma keeps_move: "keeps sinv (move_cursor aes cmac head x y)"
  unfolding move_cursor_def Let_def
  by (intro keeps_andthen keeps_gets keeps_built keeps_send keeps_change) (simp_all add: cursor_move_length)

lemma keeps_hide: "keeps sinv (hide_cursor aes cmac head)"
  unfolding hide_cursor_def
  by (intro keeps_andthen keeps_gets keeps_built keeps_send keeps_change) (simp_all add: cursor_move_length)

lemma keeps_rearm: "keeps sinv (rearm_cursor aes cmac head)"
  unfolding keeps_def
proof (intro allI impI)
  fix s assume s: "sinv s"
  let ?shot = "if unat head < length (cursor_shot s) then cursor_shot s ! unat head else None"
  show "sinv (snd (rearm_cursor aes cmac head s))"
  proof (cases ?shot)
    case None
    then show ?thesis using s by (simp add: rearm_cursor_def andthen_def gets_def ret_def)
  next
    case (Some c)
    then have "Some c \<in> set (cursor_shot s)" by (metis nth_mem option.distinct(1))
    then have "length (shot_bgra c) + 64 < 65536" using shots [OF s] by (simp add: small_shot_def)
    then have "keeps sinv (andthen (set_cursor aes cmac head (unat (shot_width c)) (unat (shot_height c)) (shot_bgra c))
        (\<lambda>_. if shot_visible c then move_cursor aes cmac head (uint (shot_x c)) (uint (shot_y c))
          else hide_cursor aes cmac head))"
      by (intro keeps_andthen keeps_image) (simp_all add: keeps_move keeps_hide)
    then show ?thesis using s Some by (simp add: rearm_cursor_def andthen_def gets_def keeps_def)
  qed
qed

lemma mode_lengths:
  "length tail = 6 \<Longrightarrow> length (clear_mode c head tail) = 80"
  "length tail = 6 \<Longrightarrow> set_mode_profile d c head w h hz tail = Ok m \<Longrightarrow> length m = 80"
  by (auto simp: clear_mode_def set_mode_profile_def set_mode_def Let_def bind_Ok_iff split: option.splits)

lemma keeps_bracket:
  assumes "unat head < MAX_CONNECTORS" and "length mode = 80"
  shows "keeps sinv (mode_bracket aes cmac d head key nonce w h mode)"
proof -
  have pre: "keeps sinv (case pre_mode_sink_state (protocol (dock_profile d)) of None \<Rightarrow> ret ()
      | Some st \<Rightarrow> send_marker aes cmac head 0x2e st)"
    by (simp add: keeps_ret keeps_marker split: option.splits)
  have clear: "keeps sinv (if b then andthen (draw 6) (\<lambda>tail. andthen (gets inner_counter) (\<lambda>counter.
      andthen (send_control aes cmac 0x48 (clear_mode counter head tail)) (\<lambda>_. ret ()))) else ret ())" for b
    by (auto intro!: keeps_draw keeps_andthen keeps_gets keeps_send keeps_ret simp: mode_lengths)
  show ?thesis
    unfolding mode_bracket_def
    by (intro keeps_andthen keeps_marker keeps_poll pre clear keeps_send keeps_prologue assms(1))
      (simp_all add: assms(2))
qed

lemma keeps_closing: "keeps sinv (mode_closing aes cmac d head)"
  unfolding mode_closing_def
  by (auto intro!: keeps_andthen keeps_commit keeps_marker keeps_ret)

lemma keeps_carrier: "keeps sinv (carrier_loop aes cmac d head mode prompt due sq)"
proof (induction due arbitrary: sq)
  case (Cons poll due)
  show ?case
    unfolding carrier_loop.simps Let_def
    by (intro keeps_andthen keeps_report keeps_submit keeps_modifies frames keeps_poll_if Cons.IH)
qed (simp add: keeps_ret)

lemma keeps_draw_prefix: "keeps sinv (draw_prefix d)"
  unfolding draw_prefix_def by (auto intro!: keeps_draw keeps_ret)

lemma keeps_programmed:
  "keeps sinv (modifies (\<lambda>s. s\<lparr>programmed_mode := (programmed_mode s)[i := m],
    mode_restate_owed := (mode_restate_owed s)[i := b], frame_seq := (frame_seq s)[i := n]\<rparr>))"
  using frames [OF owed [OF modes]] by (intro keeps_modifies) simp

lemma keeps_active:
  "keeps sinv (modifies (\<lambda>s. s\<lparr>frame_seq := (frame_seq s)[i := n],
    mode_active := (mode_active s)[i := b], scanout := (scanout s)[i := f (scanout s ! i)]\<rparr>))"
  using scans [OF actives [OF frames]] by (intro keeps_modifies) simp

lemma keeps_program: "keeps sinv (program_mode aes cmac head w h hz)"
  unfolding program_mode_def
proof (intro keeps_u16 keeps_state, goal_cases)
  case (1 w16 h16 hz16 s)
  show ?case
  proof (cases "video_key (unat head) s")
    case None
    then show ?thesis by (simp add: keeps_fail)
  next
    case (Some kn)
    then have head: "unat head < MAX_CONNECTORS"
      using keys4 [OF 1] by (simp add: video_key_def split: if_splits)
    obtain key nonce where kn: "kn = (key, nonce)" by (cases kn)
    show ?thesis
      unfolding Some kn option.case prod.case Let_def split_beta
      by (intro keeps_built keeps_andthen [OF keeps_draw_prefix] keeps_andthen [OF keeps_modifies] seals
          keeps_draw keeps_andthen [OF keeps_gets] keeps_andthen [OF keeps_bracket] head mode_lengths(2)
          keeps_andthen [OF keeps_overran])
        (auto intro!: keeps_fail keeps_andthen keeps_programmed keeps_submit keeps_closing keeps_timed
          keeps_carrier keeps_active keeps_rearm keeps_ret)
  qed
qed

lemma keeps_activate: "keeps sinv (activate_mode aes cmac head w h hz)"
  unfolding activate_mode_def by (auto intro!: keeps_andthen keeps_gets keeps_ret keeps_program)

lemma keeps_blanks: "keeps sinv (blank_loop aes cmac head black due)"
proof (induction due)
  case (Cons poll due)
  show ?case
    unfolding blank_loop.simps by (intro keeps_andthen keeps_submit keeps_poll_if Cons.IH)
qed (simp add: keeps_ret)

lemma keeps_inactive:
  "keeps sinv (modifies (\<lambda>s. s\<lparr>scanout := (scanout s)[i := f (scanout s ! i)], mode_active := (mode_active s)[i := b]\<rparr>))"
  using actives [OF scans] by (intro keeps_modifies) simp

lemma keeps_deactivate: "keeps sinv (deactivate_mode aes cmac head w h)"
  unfolding deactivate_mode_def Let_def split_beta
  by (intro keeps_andthen keeps_inactive keeps_gets)
    (auto intro!: keeps_andthen keeps_built keeps_marker keeps_timed keeps_blanks keeps_poll)

lemma keeps_deactivate_all: "keeps sinv (deactivate_all aes cmac heads)"
proof (induction heads)
  case (Cons head heads)
  show ?case
    unfolding deactivate_all.simps
    by (rule keeps_andthen [OF keeps_gets]) (auto intro!: keeps_andthen keeps_deactivate keeps_ret Cons.IH)
qed (simp add: keeps_ret)

lemma keeps_program_all: "keeps sinv (program_all aes cmac requests)"
proof (induction requests)
  case (Cons r requests)
  then show ?case by (cases r) (auto intro!: keeps_andthen keeps_program)
qed (simp add: keeps_ret)

lemma keeps_activate_modes: "keeps sinv (activate_modes aes cmac requests)"
  unfolding activate_modes_def by (intro keeps_andthen keeps_deactivate_all keeps_program_all)

lemma keeps_present_times: "keeps sinv (present_times aes cmac head mode records sq rs)"
proof (induction rs)
  case (Cons r rs)
  show ?case
    unfolding present_times.simps by (intro keeps_andthen keeps_report keeps_gets keeps_submit Cons.IH)
qed (simp add: keeps_ret)

lemma keeps_presented:
  "keeps sinv (modifies (\<lambda>s. s\<lparr>frame_seq := (frame_seq s)[i := n], scanout := (scanout s)[i := f (scanout s ! i)]\<rparr>))"
  using scans [OF frames] by (intro keeps_modifies) simp

lemma keeps_present: "keeps sinv (present_rgb aes cmac head w h rgb)"
  unfolding present_rgb_def
  by (rule keeps_state)
    (auto simp: Let_def intro!: keeps_fail keeps_built keeps_andthen keeps_modifies scans keeps_poll keeps_gets
      keeps_present_times keeps_presented split: option.splits)

lemma keeps_message:
  "(\<And>tail c m. length tail = n \<Longrightarrow> build tail c = Ok m \<Longrightarrow> length m + 28 < 65536) \<Longrightarrow>
    keeps sinv (send_message aes cmac mid n build)"
  unfolding send_message_def
  by (intro keeps_draw keeps_andthen keeps_gets keeps_built sends keeps_modifies counts) blast

lemma keeps_drain_once: "keeps sinv (drain_once aes cmac edid)"
  unfolding drain_once_def
  by (intro keeps_andthen keeps_receive keeps_gets) (auto simp: keeps_def ret_def gets_def split: option.splits)

lemma keeps_drained: "keeps sinv (drained aes cmac f)"
  unfolding drained_def by (intro keeps_andthen keeps_drain_once) (auto simp: keeps_ret split: prod.splits)

lemma keeps_ask: "keeps sinv (ask aes cmac r head f)"
  unfolding ask_def
  by (intro keeps_andthen keeps_message keeps_drained) (auto dest: edid_request_length)

lemma keeps_ask_times: "keeps sinv (ask_times n aes cmac r head f)"
  by (induction n arbitrary: f) (simp_all add: keeps_ret keeps_andthen keeps_ask)

lemma keeps_async_wait: "keeps sinv (async_wait aes cmac ticks f)"
  by (induction ticks arbitrary: f) (simp_all add: keeps_ret keeps_andthen keeps_drained)

lemma keeps_early: "keeps sinv (early_rounds n aes cmac gate head f)"
  by (induction n arbitrary: f)
    (simp_all add: Let_def keeps_ret keeps_andthen keeps_ask keeps_ask_times keeps_timed keeps_async_wait)

lemma keeps_poll_ready: "keeps sinv (poll_ready n i aes cmac head ticks f)"
  by (induction n arbitrary: i ticks f) (simp_all add: keeps_ret keeps_andthen keeps_ask)

lemma keeps_final: "keeps sinv (final_fetch n aes cmac head f)"
proof (induction n arbitrary: f)
  case (Suc n)
  have "keeps sinv (send_message aes cmac (request_id GetEdid) (request_draws GetEdid) (edid_request GetEdid head))"
    by (rule keeps_message) (auto dest: edid_request_length)
  then show ?case
    using Suc by (auto simp: keeps_ret intro!: keeps_andthen keeps_drain_once)
qed (simp add: keeps_ret)

lemma keeps_fetch: "keeps sinv (fetch_edid aes cmac head)"
  unfolding fetch_edid_def Let_def
  by (intro keeps_andthen keeps_gets keeps_early keeps_ask_times keeps_ask)
    (auto simp: keeps_ret keeps_fail intro!: keeps_andthen keeps_timed keeps_poll_ready keeps_final split: option.splits)

lemma keeps_ddcci: "keeps sinv (ddcci aes cmac head address flags payload)"
  unfolding ddcci_def
  by (auto intro!: keeps_fail keeps_draw keeps_andthen keeps_gets keeps_built keeps_send keeps_ret
      simp: ddcci_forward_def ddcci_read_request_def split: if_splits option.splits)

end

section \<open>Requests\<close>

text \<open>What a client of the session asks for; a request that fails leaves the session to the next one.\<close>

datatype request =
    Heartbeat
  | Keepalive
  | ProbeHead byte
  | FetchEdid byte
  | ActivateMode byte nat nat nat
  | ActivateModes "(byte \<times> nat \<times> nat \<times> nat) list"
  | DeactivateMode byte nat nat
  | PresentRgb byte nat nat bytes
  | SetCursor byte nat nat bytes
  | MoveCursor byte int int
  | HideCursor byte
  | Ddcci byte u16 u16 bytes

definition serve :: "aes_fn \<Rightarrow> cmac_fn \<Rightarrow> request \<Rightarrow> ControlSession \<Rightarrow> ControlSession" where
  "serve aes cmac r s =
    (case r of
       Heartbeat \<Rightarrow> snd (session_heartbeat aes cmac s)
     | Keepalive \<Rightarrow> snd (keepalive_poll aes cmac s)
     | ProbeHead head \<Rightarrow> snd (probe_head_present aes cmac head s)
     | FetchEdid head \<Rightarrow> snd (fetch_edid aes cmac head s)
     | ActivateMode head w h hz \<Rightarrow> snd (activate_mode aes cmac head w h hz s)
     | ActivateModes requests \<Rightarrow> snd (activate_modes aes cmac requests s)
     | DeactivateMode head w h \<Rightarrow> snd (deactivate_mode aes cmac head w h s)
     | PresentRgb head w h rgb \<Rightarrow> snd (present_rgb aes cmac head w h rgb s)
     | SetCursor head w h bgra \<Rightarrow> snd (set_cursor aes cmac head w h bgra s)
     | MoveCursor head x y \<Rightarrow> snd (move_cursor aes cmac head x y s)
     | HideCursor head \<Rightarrow> snd (hide_cursor aes cmac head s)
     | Ddcci head address flags payload \<Rightarrow> snd (ddcci aes cmac head address flags payload s))"

definition serve_all :: "aes_fn \<Rightarrow> cmac_fn \<Rightarrow> request list \<Rightarrow> ControlSession \<Rightarrow> ControlSession" where
  "serve_all aes cmac rs s = fold (serve aes cmac) rs s"

text \<open>
  A cursor bitmap whose message fits the sixteen-bit size field. The display the session serves offers
  cursors of 64 by 64 pixels (\<open>max_cursor\<close> of \<open>module/kms.rs\<close>), which need a quarter of that.
\<close>

definition request_ok :: "request \<Rightarrow> bool" where
  "request_ok r = (case r of SetCursor head w h bgra \<Rightarrow> length bgra + 64 < 65536 | _ \<Rightarrow> True)"

context session_invariant
begin

lemma serve_keeps: "sinv s \<Longrightarrow> request_ok r \<Longrightarrow> sinv (serve aes cmac r s)"
  using keeps_heartbeat keeps_poll keeps_probe keeps_activate keeps_activate_modes keeps_deactivate
    keeps_present keeps_image keeps_move keeps_hide keeps_ddcci keeps_fetch
  by (cases r) (auto simp: serve_def keeps_def request_ok_def keepalive_poll_def)

lemma serve_all_keeps: "sinv s \<Longrightarrow> list_all request_ok rs \<Longrightarrow> sinv (serve_all aes cmac rs s)"
  unfolding serve_all_def by (induction rs arbitrary: s) (simp_all add: serve_keeps)

end

section \<open>Two invariants\<close>

text \<open>
  The arrays keep their sizes, every stream key is a key with its nonce, and the stored cursors fit a
  message.
\<close>

definition session_wf :: "Dock \<Rightarrow> ControlSession \<Rightarrow> bool" where
  "session_wf dock s \<longleftrightarrow> cs_profile s = dock \<and>
    length (video_keys s) = MAX_CONNECTORS \<and> list_all (\<lambda>k. length k = 24) (video_keys s) \<and> length (mode_restate_owed s) = MAX_CONNECTORS \<and>
    length (programmed_mode s) = MAX_CONNECTORS \<and> length (mode_active s) = MAX_CONNECTORS \<and>
    length (video_seal_seq s) = MAX_CONNECTORS \<and> length (frame_seq s) = MAX_CONNECTORS \<and>
    length (scanout s) = MAX_CONNECTORS \<and> length (cursor_shot s) = MAX_CONNECTORS \<and>
    (\<forall>c. Some c \<in> set (cursor_shot s) \<longrightarrow> small_shot c)"

lemma set_list_update_Some: "Some c \<in> set (xs[i := so]) \<Longrightarrow> Some c \<in> set xs \<or> so = Some c"
  using set_update_subset_insert [of xs i so] by auto

lemma fetch_send_frame:
  "cs_profile (snd (fetch_send aes cmac mid content s)) = cs_profile s"
  "cs_keys (snd (fetch_send aes cmac mid content s)) = cs_keys s"
  "video_keys (snd (fetch_send aes cmac mid content s)) = video_keys s"
  "mode_restate_owed (snd (fetch_send aes cmac mid content s)) = mode_restate_owed s"
  "programmed_mode (snd (fetch_send aes cmac mid content s)) = programmed_mode s"
  "mode_active (snd (fetch_send aes cmac mid content s)) = mode_active s"
  "video_seal_seq (snd (fetch_send aes cmac mid content s)) = video_seal_seq s"
  "frame_seq (snd (fetch_send aes cmac mid content s)) = frame_seq s"
  "scanout (snd (fetch_send aes cmac mid content s)) = scanout s"
  "cursor_shot (snd (fetch_send aes cmac mid content s)) = cursor_shot s"
  by (simp_all add: fetch_send_def andthen_def gets_def modifies_def on_link_def split: prod.splits sum.splits)

interpretation session_arrays: session_invariant aes cmac dock "session_wf dock"
  for aes cmac dock
proof unfold_locales
  fix so :: "CursorShot option" and s i
  assume "session_wf dock s" and "\<And>c. so = Some c \<Longrightarrow> small_shot c"
  then show "session_wf dock (s\<lparr>cursor_shot := (cursor_shot s)[i := so]\<rparr>)"
    by (auto simp: session_wf_def dest!: set_list_update_Some)
qed (auto simp: session_wf_def keeps_def fetch_send_frame send_plain_video_def on_link_def split: prod.splits)

text \<open>
  The dock, reading what was written to the control endpoint since \<open>base\<close> from block \<open>c0\<close>, has opened
  every sealed control record and stands at the host's block counter.
\<close>

definition supported :: "Dock \<Rightarrow> bool" where
  "supported dock \<longleftrightarrow> dock_profile dock \<in> {PROFILE_ELLA, PROFILE_RIDGE, PROFILE_NAVARRO}"

definition reads_to :: "aes_fn \<Rightarrow> cmac_fn \<Rightarrow> SessionKeys \<Rightarrow> usb_op list \<Rightarrow> u32 \<Rightarrow> bool" where
  "reads_to aes cmac keys w sq \<longleftrightarrow>
    (\<exists>pts. receive (open_in aes cmac (control_key keys) (control_nonce keys)) [0x24] 0 (ctrl_bytes w) = Some (pts, sq))"

definition channel_inv :: "aes_fn \<Rightarrow> cmac_fn \<Rightarrow> SessionKeys \<Rightarrow> Dock \<Rightarrow> ControlSession \<Rightarrow> bool" where
  "channel_inv aes cmac keys dock s \<longleftrightarrow> cs_profile s = dock \<and> supported dock \<and> cs_keys s = keys \<and>
    length (video_keys s) = MAX_CONNECTORS \<and> (\<forall>c. Some c \<in> set (cursor_shot s) \<longrightarrow> small_shot c) \<and>
    reads_to aes cmac keys (wire (cs_link s)) (wire_seq s)"

lemma reads_to_quiet: "reads_to aes cmac keys w sq \<Longrightarrow> ctrl_bytes v = [] \<Longrightarrow> reads_to aes cmac keys (w @ v) sq"
  by (simp add: reads_to_def)

lemma reads_to_frame:
  assumes "reads_to aes cmac keys w sq"
    and "receive (open_in aes cmac (control_key keys) (control_nonce keys)) [0x24] sq f = Some (pts, sq')"
  shows "reads_to aes cmac keys (w @ [CtrlWrite f]) sq'"
proof -
  obtain pts0 where "receive (open_in aes cmac (control_key keys) (control_nonce keys)) [0x24] 0 (ctrl_bytes w) =
      Some (pts0, sq)"
    using assms(1) by (auto simp: reads_to_def)
  from receive_append [OF this, of f] assms(2) show ?thesis by (simp add: reads_to_def)
qed

lemma reads_to_sealed:
  assumes "reads_to aes cmac keys w sq" and "length content + 28 < 65536"
  shows "reads_to aes cmac keys
    (w @ [CtrlWrite (seal_interactive aes cmac (control_key keys) (control_nonce keys) mid sq content)])
    (sq + of_nat ((length content + 15) div 16))"
  using reads_to_frame [OF assms(1) receive_interactive [OF assms(2)]] .

lemma must_cases:
  "must x l = (Inr (), l\<lparr>outcomes := tl (outcomes l), wire := wire l @ [x]\<rparr>) \<or>
   (\<exists>e. must x l = (Inl e, l\<lparr>outcomes := tl (outcomes l)\<rparr>))"
  by (auto simp: must_def perform_def split: list.splits option.splits)

lemma channel_send:
  assumes "channel_inv aes cmac keys dock s" and "length content + 28 < 65536"
  shows "channel_inv aes cmac keys dock (snd (fetch_send aes cmac mid content s))"
proof -
  let ?f = "seal_interactive aes cmac (control_key keys) (control_nonce keys) mid (wire_seq s) content"
  let ?s = "snd (fetch_send aes cmac mid content s)"
  have keys: "cs_keys s = keys" "reads_to aes cmac keys (wire (cs_link s)) (wire_seq s)"
    using assms(1) by (simp_all add: channel_inv_def)
  have "wire (cs_link ?s) = wire (cs_link s) @ [CtrlWrite ?f] \<and>
      wire_seq ?s = wire_seq s + of_nat ((length content + 15) div 16) \<or>
    wire (cs_link ?s) = wire (cs_link s) \<and> wire_seq ?s = wire_seq s"
    using must_cases [of "CtrlWrite ?f" "cs_link s"]
    by (auto simp: fetch_send_def andthen_def gets_def modifies_def on_link_def keys(1)
        split: prod.splits sum.splits)
  then have "reads_to aes cmac keys (wire (cs_link ?s)) (wire_seq ?s)"
    using reads_to_sealed [OF keys(2) assms(2), of mid] keys(2) by auto
  then show ?thesis
    using assms(1) by (simp add: channel_inv_def fetch_send_frame)
qed

lemma shared_pipe_ella:
  "supported dock \<Longrightarrow> video_on_ctrl_pipe (topology (dock_profile dock)) \<Longrightarrow> dock_profile dock = PROFILE_ELLA"
  by (auto simp: supported_def PROFILE_RIDGE_def PROFILE_NAVARRO_def)

lemma ella_subs:
  assumes "dock_profile dock = PROFILE_ELLA" and "unat head < MAX_CONNECTORS"
  shows "ucast (connector_selector (dock_geometry dock) head) \<noteq> (0x24 :: u16)" "stream_id (dock_geometry dock) head \<noteq> 0x24"
proof -
  have g: "connector_selector (dock_geometry dock) = connector_selector (geometry PROFILE_ELLA)"
    "stream_id (dock_geometry dock) = stream_id (geometry PROFILE_ELLA)"
    using assms(1) by (auto simp: dock_geometry_def with_depth_def geometry_opening_def connector_selector_def
        stream_id_def Let_def fun_eq_iff)
  consider "unat head = 0" | "unat head = 1" | "unat head = 2" | "unat head = 3"
    using assms(2) by (fastforce simp: MAX_CONNECTORS_def)
  then have "head \<in> {0, 1, 2, 3}"
    by cases (auto dest!: arg_cong [where f = "of_nat :: nat \<Rightarrow> byte"])
  moreover have "\<forall>head \<in> {0, 1, 2, 3}. ucast (connector_selector (geometry PROFILE_ELLA) head) \<noteq> (0x24 :: u16) \<and>
      stream_id (geometry PROFILE_ELLA) head \<noteq> 0x24"
    by code_simp
  ultimately show "ucast (connector_selector (dock_geometry dock) head) \<noteq> (0x24 :: u16)"
      "stream_id (dock_geometry dock) head \<noteq> 0x24"
    unfolding g by blast+
qed

lemma prologue_skipped:
  assumes "supported dock" and "unat head < MAX_CONNECTORS" and "prologue_record aes cmac dock head r"
  shows "receive opener [0x24] sq r = Some ([], sq)"
proof -
  have "video_on_ctrl_pipe (topology (dock_profile dock))"
    using assms(3) by (auto simp: prologue_record_def stream_ring_record_def stream_config_message_def split: if_splits)
  then have ella: "dock_profile dock = PROFILE_ELLA" using shared_pipe_ella [OF assms(1)] by blast
  note subs = ella_subs [OF ella assms(2)]
  from assms(3) consider "stream_ring_record dock head = Some r"
    | key nonce c w h where "fst (stream_config_message aes cmac dock head key nonce c w h) = Some r"
    by (auto simp: prologue_record_def)
  then show ?thesis
  proof cases
    case 1
    then show ?thesis
      using receive_skip [of r "[0x24]" opener sq "[]"] subs(1)
      by (auto simp: stream_ring_record_def split: if_splits)
  next
    case (2 key nonce c w h)
    let ?config = "build_config (code_tables (protocol (dock_profile dock))) (stream_mode_header dock w h) [] (dock_ten_bit dock)"
    have "r = seal_video_arm aes cmac key nonce (stream_id (dock_geometry dock) head) 0 c ?config"
      using 2 by (auto simp: stream_config_message_def sealed_config_def take_blocks_def Let_def split: if_splits)
    moreover have "length ?config < 2000" by (simp add: length_build_config split: CodeTables.splits)
    ultimately show ?thesis
      using receive_frame [of "sealed_body aes cmac key c nonce ?config" opener "[0x24]" sq 4
          "stream_id (dock_geometry dock) head" 0 c "[]"] subs(2)
      by (simp add: seal_video_arm_body add.commute)
  qed
qed

lemma channel_prologue:
  assumes "channel_inv aes cmac keys dock s" and "unat head < MAX_CONNECTORS"
    and "prologue_record aes cmac dock head r"
  shows "channel_inv aes cmac keys dock (snd (send_plain_video r s))"
proof -
  have "receive (open_in aes cmac (control_key keys) (control_nonce keys)) [0x24] (wire_seq s) r =
      Some ([], wire_seq s)"
    using prologue_skipped assms by (auto simp: channel_inv_def)
  then have "reads_to aes cmac keys (wire (cs_link s) @ [CtrlWrite r]) (wire_seq s)"
    using reads_to_frame assms(1) by (auto simp: channel_inv_def)
  then show ?thesis
    using assms(1) must_cases [of "CtrlWrite r" "cs_link s"]
    by (auto simp: channel_inv_def send_plain_video_def on_link_def)
qed

interpretation control_channel: session_invariant aes cmac dock "channel_inv aes cmac keys dock"
  for aes cmac keys dock
proof unfold_locales
  fix so :: "CursorShot option" and s i
  assume "channel_inv aes cmac keys dock s" and "\<And>c. so = Some c \<Longrightarrow> small_shot c"
  then show "channel_inv aes cmac keys dock (s\<lparr>cursor_shot := (cursor_shot s)[i := so]\<rparr>)"
    by (auto simp: channel_inv_def dest!: set_list_update_Some)
next
  fix s :: ControlSession and l :: link and w
  assume "channel_inv aes cmac keys dock s" "wire l = wire (cs_link s) @ w" "ctrl_bytes w = []"
  then show "channel_inv aes cmac keys dock (s\<lparr>cs_link := l\<rparr>)"
    by (simp add: channel_inv_def reads_to_quiet)
next
  fix content :: bytes and mid
  assume "length content + 28 < 65536"
  then show "keeps (channel_inv aes cmac keys dock) (fetch_send aes cmac mid content)"
    by (simp add: keeps_def channel_send)
next
  fix head :: byte and r
  assume "unat head < MAX_CONNECTORS" "prologue_record aes cmac dock head r"
  then show "keeps (channel_inv aes cmac keys dock) (send_plain_video r)"
    by (simp add: keeps_def channel_prologue)
qed (auto simp: channel_inv_def)

section \<open>From the first byte\<close>

text \<open>Frames that are not sealed control records pass the receiver by.\<close>

definition unsealed :: "bytes \<Rightarrow> bool" where
  "unsealed f \<longleftrightarrow> (\<forall>opener c. receive opener [0x24] c f = Some ([], c))"

lemma unsealed_append: "unsealed f \<Longrightarrow> unsealed g \<Longrightarrow> unsealed (f @ g)"
  unfolding unsealed_def using receive_append by (metis prepend_Nil)

lemma unsealed_concat: "list_all unsealed fs \<Longrightarrow> unsealed (concat fs)"
  by (induction fs) (simp_all add: unsealed_append, simp add: unsealed_def)

lemma unsealed_frame:
  "length bd + 12 < 65536 \<Longrightarrow> ty \<noteq> 4 \<or> sub \<noteq> 0x24 \<Longrightarrow> unsealed (push_frame_with [] ty sub aux sq bd)"
  using receive_frame [of bd _ "[0x24]" _ ty sub aux sq "[]"]
  by (auto simp: unsealed_def push_frame_with_header)

lemma unsealed_hdcp: "length bd + 12 < 65536 \<Longrightarrow> unsealed (hdcp_wrap aux sq bd)"
  by (simp add: hdcp_wrap_def unsealed_frame SUB_HDCP_def)

lemma unsealed_init: "unsealed init_0" "unsealed init_25" "unsealed init_4_probe"
proof -
  show "unsealed init_0" "unsealed init_25"
    by (simp_all add: init_0_def init_25_def unsealed_frame)
  have "init_4_probe = push_frame_with [] 0x02 0x04 0 0 INIT_4 @ push_frame_with [] 0x04 0x04 0x0a 0 PROBE_BODY"
    by (simp add: init_4_probe_def push_frame_with_def Let_def)
  moreover have "unsealed \<dots>" by (intro unsealed_append unsealed_frame) simp_all
  ultimately show "unsealed init_4_probe" by simp
qed

definition draws_ok :: "auth_draws \<Rightarrow> bool" where
  "draws_ok d \<longleftrightarrow> length (d_rtx d) = 8 \<and> length (d_km d) = 16 \<and> length (d_rn d) = 8 \<and>
    length (d_session_key d) = 16 \<and> length (d_nonce d) = 8"

lemma unsealed_spoken:
  assumes "draws_ok d" and "length ekm = 128" and "8 \<le> length rr"
  shows "list_all unsealed (spoken aes hmac d cert ekm rr lst)"
  using assms
  by (simp add: spoken_def draws_ok_def Let_def session_init_ack_def ake_init_def ake_transmitter_info_def
      ake_no_stored_km_def lc_init_def ske_send_eks_def repeater_auth_send_ack_def
      repeater_auth_stream_manage_def unsealed_hdcp compute_eks_mask)

lemma counted_plain:
  assumes "send_plain f l = (Inr a, l')" and "unsealed f"
  shows "counted aes cmac keys ws ic l ws ic l'"
  using must_wire [OF assms(1) [unfolded send_plain_def]] assms(2)
  unfolding counted_def unsealed_def
  by (intro exI [of _ "[CtrlWrite f]"] exI [of _ "[]"]) simp

lemma counted_attempt:
  assumes "attempt x l = (Inr a, l')" and "\<And>f. x \<noteq> CtrlWrite f"
  shows "counted aes cmac keys ws ic l ws ic l'"
proof -
  obtain w where "wire l' = wire l @ w" "ctrl_bytes w = []"
    using assms by (cases x) (auto simp: attempt_def perform_def ctrl_bytes_def split: list.splits option.splits)
  then show ?thesis unfolding counted_def by (intro exI [of _ w] exI [of _ "[]"]) simp
qed

lemma preamble_counted:
  "device_open_preamble l = (Inr a, l') \<Longrightarrow> counted aes cmac keys ws ic l ws ic l'"
  unfolding device_open_preamble_def
proof (elim andthen_InrE, goal_cases)
  case (1 a1 l1 a2 l2 a3 l3 a4 l4 a5 l5)
  show ?case
    by (rule counted_trans [OF counted_must [OF 1(1)] counted_trans [OF counted_attempt [OF 1(2)]
        counted_trans [OF counted_attempt [OF 1(3)] counted_trans [OF counted_attempt [OF 1(4)]
        counted_trans [OF counted_must [OF 1(5)] counted_must [OF 1(6)]]]]]]) simp_all
qed

lemma recv_wire: "recv_frame_raw_timeout l = (r, l') \<Longrightarrow> wire l' = wire l"
  using wire_recv [of l] by simp

lemma session_init_counted:
  assumes "session_init l = (Inr a, l')"
  shows "counted aes cmac keys ws ic l ws ic l'"
  using assms unfolding session_init_def
proof (elim andthen_InrE, goal_cases)
  case (1 a1 l1 a2 l2 a3 l3 a4 l4 a5 l5 a6 l6 a7 l7)
  have last: "wire l' = wire l7"
    using 1(8) by (auto dest!: recv_wire split: prod.splits sum.splits)
  show ?case
    by (rule counted_trans [OF counted_attempt [OF 1(1)] counted_trans [OF counted_attempt [OF 1(2)]
        counted_trans [OF counted_plain [OF 1(3)] counted_trans [OF counted_plain [OF 1(4)]
        counted_trans [OF counted_attempt [OF 1(5)] counted_trans [OF counted_attempt [OF 1(6)]
        counted_trans [OF counted_plain [OF 1(7)] counted_quiet [OF last]]]]]]]]) (simp_all add: unsealed_init)
qed

lemma authenticate_counted:
  assumes "authenticate aes hmac oaep d l = (Inr keys, l')" and "draws_ok d" and "oaep_sized oaep"
  shows "counted aes cmac keys' ws ic l ws ic l'"
proof -
  obtain cert rr hp lp lst ekm where
    e: "oaep (cert_key cert) (d_km d) = Ok ekm" and v: "verified aes hmac d cert rr hp lp lst" and
    w: "wire l' = wire l @ map CtrlWrite (spoken aes hmac d cert ekm rr lst)"
    using authenticate_run [OF assms(1)] by (auto simp: talks_def moves_def)
  have "list_all unsealed (spoken aes hmac d cert ekm rr lst)"
    using unsealed_spoken assms(2,3) e v by (simp add: oaep_sized_def verified_def Let_def)
  then have "unsealed (ctrl_bytes (map CtrlWrite (spoken aes hmac d cert ekm rr lst)))"
    using unsealed_concat by (simp add: ctrl_bytes_def comp_def)
  with w show ?thesis
    unfolding counted_def unsealed_def
    by (intro exI [of _ "map CtrlWrite (spoken aes hmac d cert ekm rr lst)"] exI [of _ "[]"]) simp
qed

text \<open>The stream keys the connectors were given: a sixteen-byte key and its eight-byte nonce each.\<close>

definition keyed :: "bytes list \<Rightarrow> bool" where
  "keyed vks \<longleftrightarrow> length vks = MAX_CONNECTORS \<and> list_all (\<lambda>k. length k = 24) vks"

lemma keyed_update: "keyed vks \<Longrightarrow> length k = 24 \<Longrightarrow> keyed (vks[i := k])"
  by (auto simp: keyed_def list_all_iff dest!: set_update_subset_insert [THEN subsetD])

lemma configure_head_key:
  assumes "configure_head aes cmac hmac oaep dock keys head p l = (Inr (ok, vk, p'), l')"
  shows "length vk = 24"
  using assms unfolding configure_head_def Let_def
proof (elim actionE, goal_cases)
  case (1 d l1 ekm l2 ok' q l3)
  have "length (h_video_key d) = 16" "length (h_nonce d) = 8"
    using draw_head_ok [OF 1(1), of "replicate 128 0"] by (simp_all add: head_step_ok_def)
  then show ?case
    using 1 by (simp add: video_content_nonce_def cp_session_key_def stream_content_nonce_def)
qed

lemma configure_heads_keyed:
  assumes "configure_heads aes cmac hmac oaep dock keys heads vks auths p l = (Inr (vks', auths', p'), l')"
    and "keyed vks"
  shows "keyed vks'"
  using assms
proof (induction heads arbitrary: vks auths p l)
  case Nil
  then show ?case by (simp add: ret_def)
next
  case (Cons head heads)
  obtain ok vk q l1 where
    h: "configure_head aes cmac hmac oaep dock keys (of_nat head) p l = (Inr (ok, vk, q), l1)" and
    t: "configure_heads aes cmac hmac oaep dock keys heads (vks[head := vk]) (auths[head := ok]) q l1 =
      (Inr (vks', auths', p'), l')"
    using Cons.prems(1) by (auto simp: andthen_Inr_iff)
  show ?case
    by (rule Cons.IH [OF t]) (simp add: keyed_update Cons.prems(2) configure_head_key [OF h])
qed

lemma configure_control_keyed:
  assumes "configure_control aes cmac hmac oaep dock keys l = (Inr (vks, p), l')"
  shows "keyed vks"
  using assms unfolding configure_control_def Let_def
proof (elim andthen_InrE, goal_cases)
  case (1 a1 l1 random l2 a2 l3 acks l4 q1 l5 a3 l6 r l7)
  obtain vks' auths q where r: "r = (vks', auths, q)" by (cases r)
  have "keyed vks'"
    using configure_heads_keyed [OF 1(7) [unfolded r]] by (simp add: keyed_def list_all_iff)
  then show ?case
    using 1(8) by (auto simp: r elim!: actionE)
qed

lemma engage_cases:
  assumes "engage aes cmac hmac oaep d placed l = Inr s"
  obtains dock keys vks p l1 l2 l3 l4 where
    "dock_profile dock = dock_profile placed" "s = engaged l4 dock keys vks p"
    "device_open_preamble l = (Inr (), l1)" "session_init l1 = (Inr (), l2)"
    "authenticate aes hmac oaep d l2 = (Inr keys, l3)"
    "configure_control aes cmac hmac oaep dock keys l3 = (Inr (vks, p), l4)"
proof -
  let ?dock = "if hdr_capable (capabilities (dock_profile placed)) then placed\<lparr>dock_ten_bit := True\<rparr> else placed"
  obtain keys vks p l4 where s: "s = engaged l4 ?dock keys vks p" and
    run: "andthen device_open_preamble (\<lambda>_.
      andthen session_init (\<lambda>_.
      andthen (authenticate aes hmac oaep d) (\<lambda>keys.
      andthen (configure_control aes cmac hmac oaep ?dock keys) (\<lambda>(vks, p).
      if p_acknowledgements p = 0 then fail NotAcknowledged else ret (keys, vks, p))))) l = (Inr (keys, vks, p), l4)"
    using assms unfolding engage_def Let_def
    by (simp split: prod.splits sum.splits) blast
  from run show thesis
  proof (elim andthen_InrE, goal_cases)
    case (1 a1 l1 a2 l2 keys' l3 r l5)
    then show thesis
      using s by (intro that [of ?dock l4 keys vks p l1 l2 l3]) (auto simp: ret_def fail_def split: if_splits prod.splits)
  qed
qed

lemma engage_wf:
  assumes "engage aes cmac hmac oaep d placed l = Inr s"
  shows "session_wf (cs_profile s) s"
  using assms
proof (cases rule: engage_cases)
  case (1 dock keys vks p l1 l2 l3 l4)
  then show ?thesis
    using configure_control_keyed [OF 1(6)] by (simp add: engaged_def session_wf_def keyed_def)
qed

lemma engage_channel:
  assumes "engage aes cmac hmac oaep d placed l = Inr s" and "wire l = []" and "draws_ok d"
    and "oaep_sized oaep" and "supported placed"
  shows "channel_inv aes cmac (cs_keys s) (cs_profile s) s"
  using assms(1)
proof (cases rule: engage_cases)
  case (1 dock keys vks p l1 l2 l3 l4)
  note preamble_counted [OF 1(3)]
  also note session_init_counted [OF 1(4)]
  also note authenticate_counted [OF 1(5) assms(3,4)]
  also note configure_control_counted [OF 1(6) assms(4)]
  finally have "reads_to aes cmac keys (wire l4) (p_wire_seq p)"
    using assms(2) by (auto simp: counted_def reads_to_def)
  then show ?thesis
    using 1(1,2) configure_control_keyed [OF 1(6)] assms(5)
    by (simp add: engaged_def channel_inv_def keyed_def supported_def)
qed

section \<open>Properties\<close>



text \<open>A plain receiver under the constant ciphers that acknowledges the first sealed message.\<close>

definition plain_cert :: bytes where "plain_cert = replicate 137 0"

definition plain_arrivals :: "arrival list" where
  "plain_arrivals =
    [([Inl UsbTimeout], example_reply AKE_SEND_CERT plain_cert), ([], example_reply 0x14 []),
     ([Inr [1, 2, 3]], example_reply AKE_SEND_RRX (replicate 8 6)),
     ([], example_reply AKE_SEND_H_PRIME (digest_bytes 0)), ([], example_reply 0x08 []),
     ([], example_reply LC_SEND_L_PRIME (digest_bytes 0))]"

definition control_ack :: bytes where "control_ack = replicate 8 0 @ [0x45, 0]"

definition plain_link :: link where
  "plain_link = \<lparr>rx = Inr [0] # Inr example_ack # arrives plain_arrivals @ [Inr control_ack], outcomes = [],
    wire = [], entropy = [], timed = [], overran = []\<rparr>"

lemma plain_authenticated:
  assumes "outcomes l = []" and "rx l = Inr example_ack # arrives plain_arrivals @ [Inr control_ack]"
  shows "\<exists>w. authenticate zero_aes zero_mac plain_oaep example_draws l =
    (Inr (session_keys example_draws plain_cert []), at_step l plain_arrivals [Inr control_ack] 6 w)"
proof -
  have "list_all2 carries plain_arrivals [(AKE_SEND_CERT, plain_cert), (0x14, []),
    (AKE_SEND_RRX, replicate 8 6), (AKE_SEND_H_PRIME, digest_bytes 0), (0x08, []), (LC_SEND_L_PRIME, digest_bytes 0)]"
    by (simp add: plain_arrivals_def carries_def hdcp_payload_example noise_def hdcp_ids) (simp add: hdcp_payload_def)
  moreover have "verified zero_aes zero_mac example_draws plain_cert (replicate 8 6) (digest_bytes 0)
      (digest_bytes 0) []"
    by (simp add: verified_def plain_cert_def compute_h_def compute_l_def zero_mac_def Let_def)
  ultimately show ?thesis
    using authenticate_answers [OF example_premises(1) assms, where aes = zero_aes and hmac = zero_mac and
        oaep = plain_oaep and d = example_draws and cert = plain_cert and lst = "[]"]
    by (fastforce simp: plain_cert_def plain_oaep_def)
qed

lemma plain_engaged: "\<exists>s. engage zero_aes zero_aes zero_mac plain_oaep example_draws dock_ridge plain_link = Inr s"
proof -
  define l2 where "l2 = snd (session_init (snd (device_open_preamble plain_link)))"
  define dock where "dock = (if hdr_capable (capabilities (dock_profile dock_ridge))
    then dock_ridge\<lparr>dock_ten_bit := True\<rparr> else dock_ridge)"
  let ?keys = "session_keys example_draws plain_cert []"
  have start: "andthen device_open_preamble (\<lambda>_. andthen session_init f) plain_link = f () l2"
      "outcomes l2 = []" "rx l2 = Inr example_ack # arrives plain_arrivals @ [Inr control_ack]"
      "timed l2 = []" "entropy l2 = []" for f :: "unit \<Rightarrow> (SessionKeys \<times> bytes list \<times> progress) action"
    by (simp_all add: l2_def device_open_preamble_def session_init_def andthen_def attempt_def silent_must
        perform_def send_plain_open plain_link_def recv_frame_raw_timeout_def)
  obtain w where a: "authenticate zero_aes zero_mac plain_oaep example_draws l2 =
      (Inr ?keys, at_step l2 plain_arrivals [Inr control_ack] 6 w)"
    using plain_authenticated [OF start(2,3)] by blast
  let ?l3 = "at_step l2 plain_arrivals [Inr control_ack] 6 w"
  have "rx ?l3 = map Inr [control_ack]" "list_all is_control_ack [control_ack]"
    by (simp_all add: at_step_def arrives_def plain_arrivals_def is_control_ack_def control_ack_def rd16_def from_le16_def
        nth_append)
  moreover have "outcomes ?l3 = []" "timed ?l3 = []" "entropy ?l3 = []"
    using start by (simp_all add: at_step_def)
  moreover have "dock_profile dock = PROFILE_RIDGE" by (simp add: dock_def dock_ridge_def)
  ultimately obtain vks p l4 where "configure_control zero_aes zero_aes zero_mac plain_oaep dock ?keys ?l3 =
      (Inr (vks, p), l4)" "p_acknowledgements p = 1"
    using silent_configured [of ?l3 "[control_ack]" dock ?keys] by auto
  then show ?thesis
    using a by (simp add: engage_def dock_def [symmetric] start(1) Let_def) (simp add: andthen_def ret_def)
qed

definition example_requests :: "request list" where
  "example_requests = [Heartbeat, SetCursor 0 2 2 (replicate 16 0), MoveCursor 0 5 5, ActivateMode 0 0 0 0, Keepalive]"

lemma example_requests_ok: "list_all request_ok example_requests"
  by (simp add: example_requests_def request_ok_def)



end
