(* ===== verification/Daemon.thy ===== *)
theory Daemon
  imports Session_Channel
begin

text \<open>
  The service of \<open>chimera/src/daemon.rs\<close> that drives a session from the outputs of the virtual display
  driver: connecting outputs, their events, frames, deferred mode sets and the presence of monitors,
  with the frame conversion of \<open>chimera/src/revdi.rs\<close>. A card is what it delivers: the events, the next
  frame, the mode it was given and whether it could be opened are an input of each turn of the loop,
  as are the deadlines that have passed. The answers to DDC/CI requests are recorded in the output.
\<close>

section \<open>Frames\<close>

record FrameView =
  fv_pixels :: bytes
  fv_width :: nat
  fv_height :: nat
  fv_stride :: nat

text \<open>A pixel past the end of the buffer stays zero.\<close>

definition to_rgb888 :: "FrameView \<Rightarrow> bytes" where
  "to_rgb888 f =
    concat (map (\<lambda>y. concat (map (\<lambda>x.
      let source = y * fv_stride f + x * 4 in
      if source + 4 \<le> length (fv_pixels f)
      then let pixel = rd32 source (fv_pixels f)
           in [ucast (drop_bit 16 pixel), ucast (drop_bit 8 pixel), ucast pixel]
      else [0, 0, 0]) [0..<fv_width f])) [0..<fv_height f])"

text \<open>Slicing a row past the end of the raster panics.\<close>

definition pad_rgb :: "Dock \<Rightarrow> bytes \<Rightarrow> nat \<Rightarrow> nat \<Rightarrow> (bytes \<times> nat \<times> nat) result" where
  "pad_rgb dock rgb width height =
    (let (strip_w, strip_h) = strip_dims dock;
         padded_width = (width + strip_w - 1) div strip_w * strip_w;
         padded_height = (height + strip_h - 1) div strip_h * strip_h
     in if padded_width = width \<and> padded_height = height then Ok (rgb, width, height)
        else if length rgb < height * (width * 3) then Err Panic
        else Ok (foldl (\<lambda>padded row. put (row * (padded_width * 3)) (get (row * (width * 3)) (width * 3) rgb) padded)
                   (replicate (padded_width * padded_height * 3) 0) [0..<height],
                 padded_width, padded_height))"

section \<open>Events\<close>

record Mode =
  mode_width :: nat
  mode_height :: nat
  mode_refresh_hz :: nat
  mode_bits_per_pixel :: nat
  mode_pixel_format :: u32

record Cursor =
  cur_hot_x :: int
  cur_hot_y :: int
  cur_width :: nat
  cur_height :: nat
  cur_enabled :: bool
  cur_pixels :: bytes
  cur_pixel_format :: u32
  cur_stride :: nat

datatype DeviceEvent =
    Dpms int
  | ModeChanged Mode
  | CrtcState int
  | CursorSet Cursor
  | CursorMove int int
  | DdcciRequest u16 u16 bytes

datatype daemon_error =
    SessionError session_error
  | NoActiveMode byte
  | CursorFormat u32
  | CursorShort
  | DaemonPanic

record Output =
  out_head :: byte
  out_mode :: "Mode option"
  out_active :: bool
  last_surface :: "(bytes \<times> nat \<times> nat) option"
  cursor_hotspot :: "int \<times> int"
  deferred_mode :: "Mode option"
  presence_debounce :: byte
  silent_probes :: byte
  ddcci_responses :: "(bytes \<times> bool) list"

type_synonym 'a task = "(daemon_error, ControlSession, 'a) fallible"

definition session :: "'a op \<Rightarrow> 'a task" where
  "session m s = (case m s of (Inl e, s) \<Rightarrow> (Inl (SessionError e), s) | (Inr a, s) \<Rightarrow> (Inr a, s))"

definition DRM_FORMAT_ARGB8888 :: u32 where "DRM_FORMAT_ARGB8888 = 0x34325241"

fun chunks_exact :: "nat \<Rightarrow> 'a list \<Rightarrow> 'a list list" where
  "chunks_exact n xs = (if n = 0 \<or> length xs < n then [] else take n xs # chunks_exact n (drop n xs))"

declare chunks_exact.simps [simp del]

text \<open>
  The geometry fields are 32 bits, so the checked products do not overflow; a stride of zero passes the
  length check of an empty cursor and is refused by \<open>chunks_exact\<close>.
\<close>

definition cursor_bgra :: "Cursor \<Rightarrow> daemon_error + bytes" where
  "cursor_bgra c =
    (if cur_pixel_format c \<noteq> DRM_FORMAT_ARGB8888 then Inl (CursorFormat (cur_pixel_format c))
     else
       let row = cur_width c * 4; required = cur_stride c * cur_height c in
       if cur_stride c < row \<or> length (cur_pixels c) < required then Inl CursorShort
       else if cur_stride c = 0 then Inl DaemonPanic
       else Inr (concat (map (take row) (chunks_exact (cur_stride c) (take required (cur_pixels c))))))"

definition saturating_sub32 :: "int \<Rightarrow> int \<Rightarrow> int" where
  "saturating_sub32 a b = max (- (2 ^ 31)) (min (a - b) (2 ^ 31 - 1))"

abbreviation activate_out :: "aes_fn \<Rightarrow> cmac_fn \<Rightarrow> Output \<Rightarrow> Mode \<Rightarrow> bool task" where
  "activate_out aes cmac out m \<equiv>
    session (activate_mode aes cmac (out_head out) (mode_width m) (mode_height m) (mode_refresh_hz m))"

text \<open>A failed DDC/CI transaction is answered as such and does not end the session.\<close>

definition answer_ddcci :: "aes_fn \<Rightarrow> cmac_fn \<Rightarrow> u16 \<Rightarrow> u16 \<Rightarrow> bytes \<Rightarrow> Output \<Rightarrow> Output task" where
  "answer_ddcci aes cmac address flags buffer out s =
    (case ddcci aes cmac (out_head out) address flags buffer s of
       (Inr response, s) \<Rightarrow> (Inr (out\<lparr>ddcci_responses := ddcci_responses out @ [(response, True)]\<rparr>), s)
     | (Inl e, s) \<Rightarrow> (Inr (out\<lparr>ddcci_responses := ddcci_responses out @ [([], False)]\<rparr>), s))"

definition set_output_cursor :: "aes_fn \<Rightarrow> cmac_fn \<Rightarrow> Cursor \<Rightarrow> Output \<Rightarrow> Output task" where
  "set_output_cursor aes cmac c out =
    (let out = out\<lparr>cursor_hotspot := (cur_hot_x c, cur_hot_y c)\<rparr> in
     if cur_enabled c then
       (case cursor_bgra c of
          Inl e \<Rightarrow> fail e
        | Inr bgra \<Rightarrow> andthen (session (set_cursor aes cmac (out_head out) (cur_width c) (cur_height c) bgra)) (\<lambda>_. ret out))
     else andthen (session (hide_cursor aes cmac (out_head out))) (\<lambda>_. ret out))"

definition handle_event :: "aes_fn \<Rightarrow> cmac_fn \<Rightarrow> DeviceEvent \<Rightarrow> Output \<Rightarrow> Output task" where
  "handle_event aes cmac ev out =
    andthen (session (gets (\<lambda>s. hw_cursor (capabilities (dock_profile (cs_profile s)))))) (\<lambda>hw.
    case ev of
      ModeChanged m \<Rightarrow>
        if Some m \<noteq> out_mode out then
          andthen (activate_out aes cmac out m) (\<lambda>taken.
          ret (if taken then out\<lparr>out_mode := Some m, out_active := True\<rparr> else out\<lparr>deferred_mode := Some m\<rparr>))
        else ret out
    | CrtcState _ \<Rightarrow> ret out
    | Dpms n \<Rightarrow>
        if n = 0 then
          if out_active out then ret out
          else (case out_mode out of
                  None \<Rightarrow> ret out
                | Some m \<Rightarrow> andthen (activate_out aes cmac out m) (\<lambda>taken. ret (out\<lparr>out_active := taken\<rparr>)))
        else if out_active out then
          (case out_mode out of
             None \<Rightarrow> fail (NoActiveMode (out_head out))
           | Some m \<Rightarrow>
               andthen (session (deactivate_mode aes cmac (out_head out) (mode_width m) (mode_height m))) (\<lambda>_.
               ret (out\<lparr>out_active := False\<rparr>)))
        else ret out
    | CursorSet c \<Rightarrow> if hw then set_output_cursor aes cmac c out else ret out
    | CursorMove x y \<Rightarrow>
        if hw \<and> out_active out then
          andthen (session (move_cursor aes cmac (out_head out) (saturating_sub32 x (fst (cursor_hotspot out)))
            (saturating_sub32 y (snd (cursor_hotspot out))))) (\<lambda>_. ret out)
        else ret out
    | DdcciRequest address flags buffer \<Rightarrow> answer_ddcci aes cmac address flags buffer out)"

fun handle_events :: "aes_fn \<Rightarrow> cmac_fn \<Rightarrow> DeviceEvent list \<Rightarrow> Output \<Rightarrow> Output task" where
  "handle_events aes cmac [] out = ret out"
| "handle_events aes cmac (ev # evs) out = andthen (handle_event aes cmac ev out) (handle_events aes cmac evs)"

section \<open>Outputs\<close>

text \<open>What one turn of the loop is given: per connector its card, and the deadlines that have passed.\<close>

record turn =
  t_events :: "nat \<Rightarrow> DeviceEvent list"
  t_frame :: "nat \<Rightarrow> FrameView option"
  t_card_mode :: "nat \<Rightarrow> Mode option"
  t_card_opens :: "nat \<Rightarrow> bool"
  t_in_grace :: "nat \<Rightarrow> bool"
  t_presence_due :: bool
  t_keepalive_due :: bool
  t_heartbeat_due :: bool

text \<open>A new frame: the mode is programmed when it differs, and the surface is presented.\<close>

definition show_frame :: "aes_fn \<Rightarrow> cmac_fn \<Rightarrow> FrameView \<Rightarrow> Mode \<Rightarrow> Output \<Rightarrow> Output task" where
  "show_frame aes cmac f m out =
    andthen (if Some m \<noteq> out_mode out
      then andthen (activate_out aes cmac out m) (\<lambda>taken.
        ret (if taken then out\<lparr>out_mode := Some m\<rparr> else out\<lparr>deferred_mode := Some m\<rparr>))
      else ret out) (\<lambda>out.
    andthen (session (gets cs_profile)) (\<lambda>dock.
    case pad_rgb dock (to_rgb888 f) (fv_width f) (fv_height f) of
      Inl e \<Rightarrow> fail DaemonPanic
    | Inr (surface, w, h) \<Rightarrow>
        andthen (session (present_rgb aes cmac (out_head out) w h surface)) (\<lambda>_.
        ret (out\<lparr>last_surface := Some (surface, w, h)\<rparr>))))"

definition repeat_surface :: "aes_fn \<Rightarrow> cmac_fn \<Rightarrow> Output \<Rightarrow> Output task" where
  "repeat_surface aes cmac out =
    andthen (session (gets (owes_repaint (out_head out)))) (\<lambda>owes.
    case (owes, last_surface out) of
      (True, Some (surface, w, h)) \<Rightarrow> andthen (session (present_rgb aes cmac (out_head out) w h surface)) (\<lambda>_. ret out)
    | _ \<Rightarrow> ret out)"

definition serve_output :: "aes_fn \<Rightarrow> cmac_fn \<Rightarrow> turn \<Rightarrow> nat \<Rightarrow> Output \<Rightarrow> Output task" where
  "serve_output aes cmac t i out =
    andthen (handle_events aes cmac (t_events t i) out) (\<lambda>out.
    if \<not> out_active out then ret out
    else case t_frame t i of
      None \<Rightarrow> repeat_surface aes cmac out
    | Some f \<Rightarrow>
        (case t_card_mode t i of
           None \<Rightarrow> ret out
         | Some m \<Rightarrow> show_frame aes cmac f m out))"

fun serve_outputs :: "aes_fn \<Rightarrow> cmac_fn \<Rightarrow> turn \<Rightarrow> nat \<Rightarrow> Output option list \<Rightarrow> Output option list task" where
  "serve_outputs aes cmac t i [] = ret []"
| "serve_outputs aes cmac t i (slot # slots) =
    andthen (case slot of None \<Rightarrow> ret None | Some out \<Rightarrow> andthen (serve_output aes cmac t i out) (\<lambda>out. ret (Some out))) (\<lambda>slot.
    andthen (serve_outputs aes cmac t (i + 1) slots) (\<lambda>slots.
    ret (slot # slots)))"

section \<open>Deferred modes\<close>

definition wanted_mode :: "Output \<Rightarrow> Mode option" where
  "wanted_mode out = (case deferred_mode out of Some m \<Rightarrow> Some m | None \<Rightarrow> out_mode out)"

definition batch_requests :: "Output option list \<Rightarrow> (byte \<times> nat \<times> nat \<times> nat) list" where
  "batch_requests outs = concat (map (\<lambda>slot. case slot of
      None \<Rightarrow> []
    | Some out \<Rightarrow> (case wanted_mode out of
        None \<Rightarrow> [] | Some m \<Rightarrow> [(out_head out, mode_width m, mode_height m, mode_refresh_hz m)])) outs)"

definition mark_programmed :: "Output \<Rightarrow> Output" where
  "mark_programmed out =
    (case wanted_mode out of
       None \<Rightarrow> out\<lparr>deferred_mode := None\<rparr>
     | Some m \<Rightarrow> out\<lparr>deferred_mode := None, out_mode := Some m, out_active := True\<rparr>)"

definition program_deferred :: "aes_fn \<Rightarrow> cmac_fn \<Rightarrow> Output option list \<Rightarrow> Output option list task" where
  "program_deferred aes cmac outs =
    (if list_ex (\<lambda>slot. case slot of None \<Rightarrow> False | Some out \<Rightarrow> deferred_mode out \<noteq> None) outs
     then andthen (session (activate_modes aes cmac (batch_requests outs))) (\<lambda>_.
       ret (map (map_option mark_programmed) outs))
     else ret outs)"

section \<open>Presence\<close>

definition PRESENCE_SILENT_LIMIT :: byte where "PRESENCE_SILENT_LIMIT = 3"

definition new_output :: "byte \<Rightarrow> Output" where
  "new_output head = \<lparr>out_head = head, out_mode = None, out_active = False, last_surface = None,
    cursor_hotspot = (0, 0), deferred_mode = None, presence_debounce = 0, silent_probes = 0, ddcci_responses = []\<rparr>"

text \<open>An EDID that cannot be fetched, or a card that cannot be opened, leaves the slot as it is.\<close>

definition connect_output :: "aes_fn \<Rightarrow> cmac_fn \<Rightarrow> bool \<Rightarrow> byte \<Rightarrow> Output option \<Rightarrow> Output option task" where
  "connect_output aes cmac card_opens head slot s =
    (case fetch_edid aes cmac head s of
       (Inl e, s) \<Rightarrow> (Inr slot, s)
     | (Inr edid, s) \<Rightarrow> (Inr (if card_opens then Some (new_output head) else slot), s))"

definition saturating_inc :: "byte \<Rightarrow> byte" where
  "saturating_inc n = (if n = -1 then n else n + 1)"

text \<open>One probe result followed by one connected output; \<open>None\<close> is the monitor taken away.\<close>

definition follow_presence :: "bool \<Rightarrow> bool option \<Rightarrow> Output \<Rightarrow> Output option" where
  "follow_presence in_grace seen out =
    (let out = out\<lparr>silent_probes := (case seen of Some _ \<Rightarrow> 0 | None \<Rightarrow> saturating_inc (silent_probes out))\<rparr> in
     if seen = None \<and> silent_probes out < PRESENCE_SILENT_LIMIT then Some out
     else if seen = Some True \<or> in_grace then Some (out\<lparr>presence_debounce := 0\<rparr>)
     else
       let out = out\<lparr>presence_debounce := saturating_inc (presence_debounce out)\<rparr>
       in if 2 \<le> presence_debounce out then None else Some out)"

definition refresh_slot :: "aes_fn \<Rightarrow> cmac_fn \<Rightarrow> turn \<Rightarrow> nat \<Rightarrow> Output option \<Rightarrow> Output option task" where
  "refresh_slot aes cmac t i slot =
    (case slot of
       Some out \<Rightarrow>
         if out_mode out \<noteq> None \<and> \<not> out_active out then ret slot
         else andthen (session (probe_head_present aes cmac (of_nat i))) (\<lambda>seen.
           ret (follow_presence (t_in_grace t i) seen out))
     | None \<Rightarrow>
         andthen (session (probe_head_present aes cmac (of_nat i))) (\<lambda>seen.
         if seen = Some True then connect_output aes cmac (t_card_opens t i) (of_nat i) None else ret None))"

fun refresh_slots :: "aes_fn \<Rightarrow> cmac_fn \<Rightarrow> turn \<Rightarrow> nat \<Rightarrow> Output option list \<Rightarrow> Output option list task" where
  "refresh_slots aes cmac t i [] = ret []"
| "refresh_slots aes cmac t i (slot # slots) =
    andthen (refresh_slot aes cmac t i slot) (\<lambda>slot.
    andthen (refresh_slots aes cmac t (i + 1) slots) (\<lambda>slots.
    ret (slot # slots)))"

definition refresh_topology :: "aes_fn \<Rightarrow> cmac_fn \<Rightarrow> turn \<Rightarrow> Output option list \<Rightarrow> Output option list task" where
  "refresh_topology aes cmac t outs =
    andthen (session (gets (\<lambda>s. reports_presence (protocol (dock_profile (cs_profile s)))))) (\<lambda>reports.
    if reports then refresh_slots aes cmac t 0 outs else ret outs)"

section \<open>The loop\<close>

definition take_turn :: "aes_fn \<Rightarrow> cmac_fn \<Rightarrow> turn \<Rightarrow> Output option list \<Rightarrow> Output option list task" where
  "take_turn aes cmac t outs =
    andthen (serve_outputs aes cmac t 0 outs) (\<lambda>outs.
    andthen (program_deferred aes cmac outs) (\<lambda>outs.
    andthen (if t_presence_due t then refresh_topology aes cmac t outs else ret outs) (\<lambda>outs.
    andthen (if t_keepalive_due t then session (keepalive_poll aes cmac) else ret ()) (\<lambda>_.
    andthen (if t_heartbeat_due t then session (session_heartbeat aes cmac) else ret ()) (\<lambda>_.
    ret outs)))))"

fun take_turns :: "aes_fn \<Rightarrow> cmac_fn \<Rightarrow> turn list \<Rightarrow> Output option list \<Rightarrow> Output option list task" where
  "take_turns aes cmac [] outs = ret outs"
| "take_turns aes cmac (t # ts) outs = andthen (take_turn aes cmac t outs) (take_turns aes cmac ts)"

fun discover :: "aes_fn \<Rightarrow> cmac_fn \<Rightarrow> (nat \<Rightarrow> bool) \<Rightarrow> nat list \<Rightarrow> Output option list \<Rightarrow> Output option list task" where
  "discover aes cmac opens [] outs = ret outs"
| "discover aes cmac opens (head # heads) outs =
    andthen (session (gets (\<lambda>s. \<not> shared_edid_handler (quirks (dock_profile (cs_profile s))) \<or>
      \<not> reports_presence (protocol (dock_profile (cs_profile s)))))) (\<lambda>blind.
    andthen (if blind then ret True
      else andthen (session (probe_head_present aes cmac (of_nat head))) (\<lambda>seen. ret (seen = Some True))) (\<lambda>found.
    andthen (if found then connect_output aes cmac (opens head) (of_nat head) (outs ! head) else ret (outs ! head)) (\<lambda>slot.
    discover aes cmac opens heads (outs[head := slot]))))"

definition run_session :: "aes_fn \<Rightarrow> cmac_fn \<Rightarrow> (nat \<Rightarrow> bool) \<Rightarrow> turn list \<Rightarrow> Output option list task" where
  "run_session aes cmac opens ts =
    andthen (session (gets session_connectors)) (\<lambda>n.
    andthen (discover aes cmac opens [0..<n] (replicate MAX_CONNECTORS None)) (\<lambda>outs.
    take_turns aes cmac ts outs))"

section \<open>Invariants of the service\<close>

text \<open>What an action can return, whatever the session it runs on.\<close>

definition gives :: "('e, 's, 'a) fallible \<Rightarrow> ('a \<Rightarrow> bool) \<Rightarrow> ('e \<Rightarrow> bool) \<Rightarrow> bool" where
  "gives m Q E \<longleftrightarrow> (\<forall>s. case fst (m s) of Inr a \<Rightarrow> Q a | Inl e \<Rightarrow> E e)"

lemma gives_ret: "Q a \<Longrightarrow> gives (ret a) Q E"
  by (simp add: gives_def ret_def)

lemma gives_fail: "E e \<Longrightarrow> gives (fail e) Q E"
  by (simp add: gives_def fail_def)

lemma gives_andthen:
  assumes "gives m Q E" and "\<And>a. Q a \<Longrightarrow> gives (f a) R E"
  shows "gives (andthen m f) R E"
  unfolding gives_def
proof
  fix s
  obtain r s1 where m: "m s = (r, s1)" by fastforce
  show "case fst (andthen m f s) of Inr a \<Rightarrow> R a | Inl e \<Rightarrow> E e"
  proof (cases r)
    case (Inl e)
    then show ?thesis using assms(1) m by (auto simp: gives_def andthen_def dest: spec [of _ s])
  next
    case (Inr a)
    then have "Q a" using assms(1) m by (auto simp: gives_def dest: spec [of _ s])
    then show ?thesis using assms(2) m Inr by (simp add: gives_def andthen_def)
  qed
qed

lemma gives_session: "(\<And>e. E (SessionError e)) \<Longrightarrow> gives (session m) (\<lambda>_. True) E"
  by (simp add: gives_def session_def split: prod.splits sum.splits)

lemma gives_if: "(b \<Longrightarrow> gives m Q E) \<Longrightarrow> (\<not> b \<Longrightarrow> gives n Q E) \<Longrightarrow> gives (if b then m else n) Q E"
  by simp

text \<open>An active output has a mode, and an output knows its connector.\<close>

definition output_ok :: "nat \<Rightarrow> Output \<Rightarrow> bool" where
  "output_ok i out \<longleftrightarrow> out_head out = of_nat i \<and> (out_active out \<longrightarrow> out_mode out \<noteq> None)"

definition slot_ok :: "nat \<Rightarrow> Output option \<Rightarrow> bool" where
  "slot_ok i slot \<longleftrightarrow> (\<forall>out. slot = Some out \<longrightarrow> output_ok i out)"

fun slots_ok :: "nat \<Rightarrow> Output option list \<Rightarrow> bool" where
  "slots_ok i [] \<longleftrightarrow> True"
| "slots_ok i (slot # slots) \<longleftrightarrow> slot_ok i slot \<and> slots_ok (i + 1) slots"

definition moded :: "daemon_error \<Rightarrow> bool" where
  "moded e \<longleftrightarrow> (\<forall>head. e \<noteq> NoActiveMode head)"

lemma moded_simps [simp]: "moded (SessionError e)" "moded (CursorFormat f)" "moded CursorShort" "moded DaemonPanic"
  by (simp_all add: moded_def)

lemma gives_do: "(\<And>a. gives (f a) R moded) \<Longrightarrow> gives (andthen (session m) f) R moded"
  by (rule gives_andthen [OF gives_session]) simp_all

lemma handle_event_ok:
  assumes "output_ok i out"
  shows "gives (handle_event aes cmac ev out) (output_ok i) moded"
proof -
  have hot: "output_ok i (out\<lparr>cursor_hotspot := p\<rparr>)" for p using assms by (simp add: output_ok_def)
  have cursor: "gives (set_output_cursor aes cmac c out) (output_ok i) moded" for c
    unfolding set_output_cursor_def Let_def
    using assms
    by (auto intro!: gives_if gives_do gives_ret gives_fail hot simp: cursor_bgra_def Let_def split: sum.split)
  have ddc: "gives (answer_ddcci aes cmac address flags buffer out) (output_ok i) moded" for address flags buffer
    using assms by (auto simp: gives_def answer_ddcci_def output_ok_def split: prod.splits sum.splits)
  show ?thesis
    unfolding handle_event_def
    by (rule gives_do, cases ev)
      (use assms in \<open>auto intro!: gives_if gives_do gives_ret gives_fail cursor ddc simp: output_ok_def split: option.splits\<close>)
qed

lemma handle_events_ok: "output_ok i out \<Longrightarrow> gives (handle_events aes cmac evs out) (output_ok i) moded"
proof (induction evs arbitrary: out)
  case (Cons ev evs)
  show ?case
    unfolding handle_events.simps by (rule gives_andthen [OF handle_event_ok [OF Cons.prems] Cons.IH])
qed (simp add: gives_ret)

lemma show_frame_ok: "output_ok i out \<Longrightarrow> gives (show_frame aes cmac f m out) (output_ok i) moded"
  unfolding show_frame_def
  by (rule gives_andthen [where Q = "output_ok i"])
    (auto intro!: gives_if gives_do gives_ret gives_fail simp: output_ok_def split: sum.split prod.split)

lemma repeat_surface_ok: "output_ok i out \<Longrightarrow> gives (repeat_surface aes cmac out) (output_ok i) moded"
  unfolding repeat_surface_def
  by (rule gives_do) (auto intro!: gives_do gives_ret split: bool.split option.split prod.split)

lemma serve_output_ok: "output_ok i out \<Longrightarrow> gives (serve_output aes cmac t i out) (output_ok i) moded"
  unfolding serve_output_def
  by (rule gives_andthen [OF handle_events_ok])
    (auto intro!: gives_if gives_ret show_frame_ok repeat_surface_ok split: option.split)

lemma serve_outputs_ok: "slots_ok i slots \<Longrightarrow> gives (serve_outputs aes cmac t i slots)
    (\<lambda>slots'. slots_ok i slots' \<and> length slots' = length slots) moded"
proof (induction slots arbitrary: i)
  case (Cons slot slots)
  have one: "gives (case slot of None \<Rightarrow> ret None | Some out \<Rightarrow> andthen (serve_output aes cmac t i out) (\<lambda>out. ret (Some out)))
      (slot_ok i) moded"
    using Cons.prems by (auto intro!: gives_ret gives_andthen [OF serve_output_ok] simp: slot_ok_def split: option.split)
  show ?case
    unfolding serve_outputs.simps
    by (rule gives_andthen [OF one], rule gives_andthen [OF Cons.IH]) (use Cons.prems in \<open>auto intro!: gives_ret\<close>)
qed (simp add: gives_ret)

lemma slots_ok_map: "slots_ok i slots \<Longrightarrow> slots_ok i (map (map_option mark_programmed) slots)"
  by (induction slots arbitrary: i)
    (auto simp: slot_ok_def output_ok_def mark_programmed_def split: option.splits)

lemma program_deferred_ok: "slots_ok 0 outs \<Longrightarrow> gives (program_deferred aes cmac outs)
    (\<lambda>outs'. slots_ok 0 outs' \<and> length outs' = length outs) moded"
  unfolding program_deferred_def by (auto intro!: gives_if gives_do gives_ret slots_ok_map)

lemma connect_ok: "slot_ok i slot \<Longrightarrow> gives (connect_output aes cmac opens (of_nat i) slot) (slot_ok i) moded"
  by (auto simp: gives_def connect_output_def slot_ok_def output_ok_def new_output_def split: prod.splits sum.splits)

lemma follow_ok: "output_ok i out \<Longrightarrow> slot_ok i (follow_presence grace seen out)"
  by (auto simp: follow_presence_def slot_ok_def output_ok_def Let_def)

lemma refresh_slot_ok: "slot_ok i slot \<Longrightarrow> gives (refresh_slot aes cmac t i slot) (slot_ok i) moded"
  unfolding refresh_slot_def
  by (auto intro!: gives_if gives_do gives_ret connect_ok follow_ok simp: slot_ok_def split: option.split)

lemma refresh_slots_ok: "slots_ok i slots \<Longrightarrow> gives (refresh_slots aes cmac t i slots)
    (\<lambda>slots'. slots_ok i slots' \<and> length slots' = length slots) moded"
proof (induction slots arbitrary: i)
  case (Cons slot slots)
  show ?case
    unfolding refresh_slots.simps
    by (rule gives_andthen [OF refresh_slot_ok], use Cons.prems in simp, rule gives_andthen [OF Cons.IH])
      (use Cons.prems in \<open>auto intro!: gives_ret\<close>)
qed (simp add: gives_ret)

abbreviation outputs_ok :: "Output option list \<Rightarrow> bool" where
  "outputs_ok outs \<equiv> slots_ok 0 outs \<and> length outs = MAX_CONNECTORS"

lemma take_turn_ok: "outputs_ok outs \<Longrightarrow> gives (take_turn aes cmac t outs) outputs_ok moded"
proof -
  assume outs: "outputs_ok outs"
  have serve: "gives (serve_outputs aes cmac t 0 outs) outputs_ok moded" if "outputs_ok outs" for outs
    using serve_outputs_ok [of 0 outs aes cmac t] that by simp
  have program: "gives (program_deferred aes cmac outs) outputs_ok moded" if "outputs_ok outs" for outs
    using program_deferred_ok [of outs aes cmac] that by simp
  have refresh: "gives (refresh_topology aes cmac t outs) outputs_ok moded" if "outputs_ok outs" for outs
    unfolding refresh_topology_def
    using refresh_slots_ok [of 0 outs aes cmac t] that by (auto intro!: gives_do gives_if gives_ret)
  have due: "gives (if b then session m else ret ()) (\<lambda>_. True) moded" for b and m :: "unit op"
    by (simp add: gives_ret gives_session)
  show ?thesis
    unfolding take_turn_def
    by (rule gives_andthen [OF serve [OF outs]], rule gives_andthen [OF program], assumption,
        rule gives_andthen [where Q = outputs_ok], rule gives_if, erule refresh, erule gives_ret,
        intro gives_andthen [OF due] gives_ret) blast
qed

lemma take_turns_ok: "outputs_ok outs \<Longrightarrow> gives (take_turns aes cmac ts outs) outputs_ok moded"
proof (induction ts arbitrary: outs)
  case (Cons t ts)
  show ?case unfolding take_turns.simps by (rule gives_andthen [OF take_turn_ok [OF Cons.prems] Cons.IH])
qed (simp add: gives_ret)

lemma slots_ok_nth: "slots_ok i slots \<longleftrightarrow> (\<forall>k < length slots. slot_ok (i + k) (slots ! k))"
proof (induction slots arbitrary: i)
  case (Cons slot slots)
  show ?case by (simp add: Cons.IH All_less_Suc2)
qed simp

lemma discover_ok: "outputs_ok outs \<Longrightarrow> (\<And>h. h \<in> set heads \<Longrightarrow> h < MAX_CONNECTORS) \<Longrightarrow>
    gives (discover aes cmac opens heads outs) outputs_ok moded"
proof (induction heads arbitrary: outs)
  case (Cons head heads)
  have head: "slot_ok head (outs ! head)" "head < length outs"
    using Cons.prems by (simp_all add: slots_ok_nth)
  have probe: "gives (if b then ret True else andthen (session m) (\<lambda>seen. ret (seen = Some True))) (\<lambda>_. True) moded"
    for b and m :: "bool option op"
    by (auto intro!: gives_if gives_ret gives_do)
  have slot: "gives (if b then connect_output aes cmac (opens head) (of_nat head) (outs ! head) else ret (outs ! head))
      (slot_ok head) moded" for b
    using head by (auto intro!: gives_if connect_ok gives_ret)
  show ?case
    unfolding discover.simps
  proof (rule gives_do, rule gives_andthen [OF probe], rule gives_andthen [OF slot])
    fix slot assume "slot_ok head slot"
    then have "outputs_ok (outs[head := slot])"
      using Cons.prems(1) by (simp add: slots_ok_nth) (metis nth_list_update_eq nth_list_update_neq)
    then show "gives (discover aes cmac opens heads (outs[head := slot])) outputs_ok moded"
      using Cons.IH Cons.prems(2) by simp
  qed
qed (simp add: gives_ret)

section \<open>The service and the session\<close>

text \<open>A cursor that fits a message; the virtual display offers 64 by 64 pixels.\<close>

definition event_ok :: "DeviceEvent \<Rightarrow> bool" where
  "event_ok ev = (case ev of CursorSet c \<Rightarrow> cur_width c * 4 * cur_height c + 64 < 65536 | _ \<Rightarrow> True)"

definition turn_ok :: "turn \<Rightarrow> bool" where
  "turn_ok t \<longleftrightarrow> (\<forall>i. list_all event_ok (t_events t i))"

lemma chunks_exact_rows:
  "0 < n \<Longrightarrow> length xs = n * h \<Longrightarrow> chunks_exact n xs = map (\<lambda>y. get (y * n) n xs) [0..<h]"
proof (induction h arbitrary: xs)
  case (Suc h)
  have "[0..<Suc h] = 0 # map Suc [0..<h]" by (simp add: upt_conv_Cons map_Suc_upt)
  then show ?case
    using Suc.IH [of "drop n xs"] Suc.prems
    by (simp add: chunks_exact.simps [of n xs] get_def add.commute)
qed (simp add: chunks_exact.simps)

lemma cursor_bgra_length: "cursor_bgra c = Inr bgra \<Longrightarrow> length bgra = cur_width c * 4 * cur_height c"
proof -
  assume ok: "cursor_bgra c = Inr bgra"
  then have n: "0 < cur_stride c" "cur_width c * 4 \<le> cur_stride c" "cur_stride c * cur_height c \<le> length (cur_pixels c)"
    and b: "bgra = concat (map (take (cur_width c * 4)) (chunks_exact (cur_stride c) (take (cur_stride c * cur_height c) (cur_pixels c))))"
    by (auto simp: cursor_bgra_def Let_def not_less split: if_splits)
  let ?p = "take (cur_stride c * cur_height c) (cur_pixels c)"
  have "length (get (y * cur_stride c) (cur_stride c) ?p) = cur_stride c" if "y < cur_height c" for y
  proof -
    have "(y + 1) * cur_stride c \<le> cur_height c * cur_stride c" using that by (intro mult_right_mono) simp_all
    then show ?thesis using n by (intro length_get) (simp add: algebra_simps)
  qed
  then have "map (length \<circ> take (cur_width c * 4)) (chunks_exact (cur_stride c) ?p) = replicate (cur_height c) (cur_width c * 4)"
    using n chunks_exact_rows [of "cur_stride c" ?p "cur_height c"] by (auto intro!: nth_equalityI simp: min_def)
  then show ?thesis by (simp add: b length_concat comp_def sum_list_replicate)
qed

lemma keeps_as: "(\<And>s. snd (m s) = snd (n s)) \<Longrightarrow> keeps sinv n \<Longrightarrow> keeps sinv m"
  by (simp add: keeps_def)

context session_invariant
begin

lemma keeps_session: "keeps sinv m \<Longrightarrow> keeps sinv (session m)"
  by (auto simp: keeps_def session_def split: prod.splits sum.splits)

lemma keeps_answer: "keeps sinv (answer_ddcci aes cmac address flags buffer out)"
  by (rule keeps_as [OF _ keeps_ddcci [of "out_head out" address flags buffer]]) (simp add: answer_ddcci_def split: prod.splits sum.splits)

lemma keeps_output_cursor: "event_ok (CursorSet c) \<Longrightarrow> keeps sinv (set_output_cursor aes cmac c out)"
  unfolding set_output_cursor_def Let_def
  by (auto intro!: keeps_andthen keeps_session keeps_image keeps_hide keeps_ret keeps_fail
      simp: event_ok_def dest!: cursor_bgra_length split: sum.split)

lemma keeps_event: "event_ok ev \<Longrightarrow> keeps sinv (handle_event aes cmac ev out)"
  unfolding handle_event_def
  by (intro keeps_andthen keeps_session keeps_gets, cases ev)
    (auto intro!: keeps_andthen keeps_session keeps_activate keeps_deactivate keeps_output_cursor keeps_move keeps_answer
      keeps_ret keeps_fail split: option.split)

lemma keeps_events: "list_all event_ok evs \<Longrightarrow> keeps sinv (handle_events aes cmac evs out)"
  by (induction evs arbitrary: out) (auto intro!: keeps_ret keeps_andthen keeps_event)

lemma keeps_show_frame: "keeps sinv (show_frame aes cmac f m out)"
  unfolding show_frame_def
  by (auto intro!: keeps_andthen keeps_session keeps_activate keeps_present keeps_gets keeps_ret keeps_fail
      split: sum.split prod.split)

lemma keeps_repeat: "keeps sinv (repeat_surface aes cmac out)"
  unfolding repeat_surface_def
  by (auto intro!: keeps_andthen keeps_session keeps_gets keeps_present keeps_ret split: bool.split option.split prod.split)

lemma keeps_serve_output: "turn_ok t \<Longrightarrow> keeps sinv (serve_output aes cmac t i out)"
  unfolding serve_output_def
  by (auto intro!: keeps_andthen keeps_events keeps_show_frame keeps_repeat keeps_ret simp: turn_ok_def split: option.split)

lemma keeps_serve_outputs: "turn_ok t \<Longrightarrow> keeps sinv (serve_outputs aes cmac t i slots)"
  by (induction slots arbitrary: i)
    (auto intro!: keeps_ret keeps_andthen keeps_serve_output split: option.split)

lemma keeps_connect: "keeps sinv (connect_output aes cmac opens head slot)"
  by (rule keeps_as [OF _ keeps_fetch [of head]]) (simp add: connect_output_def split: prod.splits sum.splits)

lemma keeps_refresh_slots: "keeps sinv (refresh_slots aes cmac t i slots)"
  by (induction slots arbitrary: i)
    (auto intro!: keeps_ret keeps_andthen keeps_session keeps_probe keeps_connect simp: refresh_slot_def split: option.split)

lemma keeps_turn: "turn_ok t \<Longrightarrow> keeps sinv (take_turn aes cmac t outs)"
  unfolding take_turn_def refresh_topology_def program_deferred_def
  by (auto intro!: keeps_andthen keeps_session keeps_gets keeps_ret keeps_serve_outputs keeps_refresh_slots
      keeps_activate_modes keeps_heartbeat keeps_poll simp: keepalive_poll_def)

lemma keeps_turns: "list_all turn_ok ts \<Longrightarrow> keeps sinv (take_turns aes cmac ts outs)"
  by (induction ts arbitrary: outs) (auto intro!: keeps_ret keeps_andthen keeps_turn)

lemma keeps_discover: "keeps sinv (discover aes cmac opens heads outs)"
  by (induction heads arbitrary: outs)
    (auto intro!: keeps_ret keeps_andthen keeps_session keeps_gets keeps_probe keeps_connect)

lemma keeps_run: "list_all turn_ok ts \<Longrightarrow> keeps sinv (run_session aes cmac opens ts)"
  unfolding run_session_def by (intro keeps_andthen keeps_session keeps_gets keeps_discover keeps_turns)

end

section \<open>Presence over time\<close>

text \<open>Successive probes of one connected output: what the dock answered, and whether grace held.\<close>

fun watch :: "(bool option \<times> bool) list \<Rightarrow> Output \<Rightarrow> Output option" where
  "watch [] out = Some out"
| "watch ((seen, grace) # obs) out =
    (case follow_presence grace seen out of None \<Rightarrow> None | Some out \<Rightarrow> watch obs out)"

lemma watch_append: "watch (xs @ ys) out = (case watch xs out of None \<Rightarrow> None | Some out \<Rightarrow> watch ys out)"
  by (induction xs out rule: watch.induct) (auto split: option.split)

text \<open>A probe that counts towards removal, and one that does not refute it.\<close>

definition missing :: "bool option \<times> bool \<Rightarrow> bool" where
  "missing ob \<longleftrightarrow> fst ob \<noteq> Some True \<and> \<not> snd ob"

definition silence :: "(bool option \<times> bool) list \<Rightarrow> nat" where
  "silence obs = length (takeWhile (\<lambda>ob. fst ob = None) (rev obs))"

definition suspected :: "(bool option \<times> bool) list \<Rightarrow> bool" where
  "suspected obs \<longleftrightarrow> (\<exists>pre x mid. obs = pre @ x # mid \<and> missing x \<and> (\<forall>m \<in> set mid. fst m \<noteq> Some True))"

definition watched :: "(bool option \<times> bool) list \<Rightarrow> Output \<Rightarrow> bool" where
  "watched obs out \<longleftrightarrow> unat (silent_probes out) \<le> silence obs \<and>
    (presence_debounce out = 0 \<or> presence_debounce out = 1 \<and> suspected obs)"

lemma suspected_more: "suspected obs \<Longrightarrow> fst ob \<noteq> Some True \<Longrightarrow> suspected (obs @ [ob])"
proof -
  assume "suspected obs" and ob: "fst ob \<noteq> Some True"
  then obtain pre x mid where "obs = pre @ x # mid" "missing x" "\<forall>m \<in> set mid. fst m \<noteq> Some True"
    unfolding suspected_def by blast
  then show ?thesis
    using ob unfolding suspected_def by (intro exI [of _ pre] exI [of _ x] exI [of _ "mid @ [ob]"]) auto
qed

lemma suspected_now: "missing ob \<Longrightarrow> suspected (obs @ [ob])"
  unfolding suspected_def by (intro exI [of _ obs] exI [of _ ob] exI [of _ "[]"]) simp

lemma silence_snoc: "silence (obs @ [ob]) = (if fst ob = None then silence obs + 1 else 0)"
  by (simp add: silence_def)

lemma unat_saturating_inc: "unat (saturating_inc n) \<le> unat n + 1"
  by (auto simp: saturating_inc_def unat_plus_if')

lemma watched_step:
  assumes "watched obs out"
  shows "case follow_presence grace seen out of
     Some out' \<Rightarrow> watched (obs @ [(seen, grace)]) out'
   | None \<Rightarrow> suspected obs \<and> missing (seen, grace) \<and> (seen = None \<longrightarrow> 2 \<le> silence obs)"
proof -
  have inc: "unat (saturating_inc (silent_probes out)) \<le> silence obs + 1"
    using assms unat_saturating_inc [of "silent_probes out"] by (simp add: watched_def)
  have three: "2 \<le> silence obs" if "\<not> saturating_inc (silent_probes out) < PRESENCE_SILENT_LIMIT"
  proof -
    have "3 \<le> unat (saturating_inc (silent_probes out))"
      using that by (simp add: PRESENCE_SILENT_LIMIT_def word_less_nat_alt)
    then show ?thesis using inc by simp
  qed
  have "\<not> (2 :: byte) \<le> 1" by (simp add: word_le_nat_alt)
  then show ?thesis
    using assms inc three
    by (auto simp: follow_presence_def watched_def silence_snoc missing_def saturating_inc_def Let_def
        intro: suspected_more suspected_now split: option.split if_splits)
qed

lemma watch_watched: "watch obs out = Some out' \<Longrightarrow> watched [] out \<Longrightarrow> watched obs out'"
proof (induction obs arbitrary: out' rule: rev_induct)
  case (snoc ob obs)
  obtain seen grace where ob: "ob = (seen, grace)" by (cases ob)
  obtain mid where mid: "watch obs out = Some mid" "follow_presence grace seen mid = Some out'"
    using snoc.prems(1) by (auto simp: watch_append ob split: option.splits)
  show ?case
    using watched_step [OF snoc.IH [OF mid(1) snoc.prems(2)], where grace = grace and seen = seen] mid(2) by (simp add: ob)
qed simp

lemma watch_none: "watch obs out = None \<Longrightarrow>
    \<exists>pre ob post mid. obs = pre @ ob # post \<and> watch pre out = Some mid \<and> follow_presence (snd ob) (fst ob) mid = None"
proof (induction obs rule: rev_induct)
  case (snoc ob obs)
  show ?case
  proof (cases "watch obs out")
    case None
    then show ?thesis using snoc.IH by (metis append_Cons append_assoc)
  next
    case (Some mid)
    then have "follow_presence (snd ob) (fst ob) mid = None"
      using snoc.prems by (cases ob) (auto simp: watch_append split: option.splits)
    with Some show ?thesis by blast
  qed
qed simp

section \<open>Surfaces\<close>

definition xrgb_pixel :: "FrameView \<Rightarrow> nat \<Rightarrow> nat \<Rightarrow> bytes" where
  "xrgb_pixel f x y =
    (let source = y * fv_stride f + x * 4 in
     if source + 4 \<le> length (fv_pixels f)
     then [fv_pixels f ! (source + 2), fv_pixels f ! (source + 1), fv_pixels f ! source] else [0, 0, 0])"

lemma rd32_channels:
  "[ucast (drop_bit 16 (rd32 i b)), ucast (drop_bit 8 (rd32 i b)), ucast (rd32 i b)] = [b ! (i + 2), b ! (i + 1), b ! i]"
  using le32_from_le32 [of "b ! i" "b ! (i + 1)" "b ! (i + 2)" "b ! (i + 3)"] by (simp add: rd32_def le32_def)

lemma to_rgb888_rows:
  "to_rgb888 f = concat (map (\<lambda>y. concat (map (\<lambda>x. xrgb_pixel f x y) [0..<fv_width f])) [0..<fv_height f])"
  unfolding to_rgb888_def xrgb_pixel_def Let_def rd32_channels ..

lemma get_concat:
  "(\<And>k. k < n \<Longrightarrow> length (f k) = m) \<Longrightarrow> k < n \<Longrightarrow> get (k * m) m (concat (map f [0..<n])) = f k"
proof (induction n)
  case (Suc n)
  have len: "length (concat (map f [0..<n])) = n * m"
    using Suc.prems(1) by (induction n) (simp_all add: length_concat)
  show ?case
  proof (cases "k = n")
    case True
    then show ?thesis using len Suc.prems(1) by simp
  next
    case False
    then have "k < n" using Suc.prems(2) by simp
    then have "(k + 1) * m \<le> n * m" by (intro mult_right_mono) simp_all
    then show ?thesis
      using Suc.IH Suc.prems(1) \<open>k < n\<close> len by (simp add: algebra_simps)
  qed
qed simp

lemma to_rgb888_length: "length (to_rgb888 f) = fv_height f * (fv_width f * 3)"
proof -
  have "length (xrgb_pixel f x y) = 3" for x y by (simp add: xrgb_pixel_def Let_def)
  then have "length (concat (map (\<lambda>x. xrgb_pixel f x y) [0..<n])) = n * 3" for n y
    by (induction n) simp_all
  then have "length (concat (map (\<lambda>y. concat (map (\<lambda>x. xrgb_pixel f x y) [0..<fv_width f])) [0..<n])) =
      n * (fv_width f * 3)" for n
    by (induction n) simp_all
  then show ?thesis by (simp add: to_rgb888_rows)
qed

lemma to_rgb888_pixel:
  assumes "x < fv_width f" and "y < fv_height f"
  shows "get (y * (fv_width f * 3) + x * 3) 3 (to_rgb888 f) = xrgb_pixel f x y"
proof -
  have three: "length (xrgb_pixel f x y) = 3" for x y by (simp add: xrgb_pixel_def Let_def)
  then have row: "length (concat (map (\<lambda>x. xrgb_pixel f x y) [0..<n])) = n * 3" for n y
    by (induction n) simp_all
  have "get (y * (fv_width f * 3)) (fv_width f * 3) (to_rgb888 f) =
      concat (map (\<lambda>x. xrgb_pixel f x y) [0..<fv_width f])"
    unfolding to_rgb888_rows by (rule get_concat) (simp_all add: row assms(2))
  moreover have "get (x * 3) 3 (concat (map (\<lambda>x. xrgb_pixel f x y) [0..<fv_width f])) = xrgb_pixel f x y"
    by (rule get_concat) (simp_all add: three assms(1))
  moreover have "x * 3 + 3 \<le> fv_width f * 3" using assms(1) by simp
  ultimately show ?thesis by (metis get_get)
qed

text \<open>Offset \<open>y * T + c\<close> lies in the first \<open>m\<close> bytes of row \<open>n\<close> exactly when \<open>y = n\<close> and \<open>c < m\<close>.\<close>

lemma in_row: "c < T \<Longrightarrow> m \<le> T \<Longrightarrow> n * T \<le> y * T + c \<and> y * T + c < n * T + m \<longleftrightarrow> y = n \<and> c < m" for c T m n y :: nat
proof -
  assume c: "c < T" "m \<le> T"
  consider "y < n" | "y = n" | "n < y" by linarith
  then show ?thesis
  proof cases
    case 1
    then have "(y + 1) * T \<le> n * T" by (intro mult_right_mono) simp_all
    then show ?thesis using c 1 by simp
  next
    case 3
    then have "(n + 1) * T \<le> y * T" by (intro mult_right_mono) simp_all
    then show ?thesis using c 3 by simp
  qed simp
qed

lemma pad_rows:
  assumes "w \<le> T" and "n \<le> h" and "h * w \<le> length rgb" and "h * T \<le> size0"
  defines "rows k \<equiv> foldl (\<lambda>buf row. put (row * T) (get (row * w) w rgb) buf) (replicate size0 (0 :: byte)) [0..<k]"
  shows "length (rows n) = size0 \<and> (\<forall>y c. c < T \<longrightarrow> y * T + c < size0 \<longrightarrow>
    rows n ! (y * T + c) = (if y < n \<and> c < w then rgb ! (y * w + c) else 0))"
  using assms(2)
proof (induction n)
  case 0
  show ?case by (simp add: rows_def)
next
  case (Suc n)
  then have IH: "length (rows n) = size0" "\<And>y c. c < T \<Longrightarrow> y * T + c < size0 \<Longrightarrow>
      rows n ! (y * T + c) = (if y < n \<and> c < w then rgb ! (y * w + c) else 0)" by simp_all
  have step: "rows (Suc n) = put (n * T) (get (n * w) w rgb) (rows n)" by (simp add: rows_def)
  have "(n + 1) * w \<le> h * w" "(n + 1) * T \<le> h * T" using Suc.prems by (intro mult_right_mono; simp)+
  then have fits: "n * w + w \<le> length rgb" "n * T + T \<le> size0" using assms(3,4) by simp_all
  have row: "length (get (n * w) w rgb) = w" "\<And>c. c < w \<Longrightarrow> get (n * w) w rgb ! c = rgb ! (n * w + c)"
    using fits(1) by (simp_all add: get_def)
  have len: "length (rows (Suc n)) = size0" using step IH(1) row(1) fits(2) assms(1) by simp
  moreover have "rows (Suc n) ! (y * T + c) = (if y < Suc n \<and> c < w then rgb ! (y * w + c) else 0)"
    if "c < T" "y * T + c < size0" for y c
    using in_row [OF that(1) assms(1), of n y] IH(2) [OF that] row fits(2) assms(1) IH(1)
    by (auto simp: step nth_put that less_Suc_eq)
  ultimately show ?case by blast
qed

lemma get_three: "i + 3 \<le> length b \<Longrightarrow> get i 3 b = [b ! i, b ! (i + 1), b ! (i + 2)]"
  by (rule nth_equalityI) (auto simp: get_def less_Suc_eq numeral_eq_Suc)

lemma pad_pixels:
  assumes "w \<le> pw" and "h \<le> ph" and len: "length rgb = h * (w * 3)"
  defines "p \<equiv> foldl (\<lambda>buf row. put (row * (pw * 3)) (get (row * (w * 3)) (w * 3) rgb) buf)
      (replicate (pw * ph * 3) (0 :: byte)) [0..<h]"
  shows "length p = pw * ph * 3" and "x < pw \<Longrightarrow> y < ph \<Longrightarrow>
    get ((y * pw + x) * 3) 3 p = (if x < w \<and> y < h then get (y * (w * 3) + x * 3) 3 rgb else [0, 0, 0])"
proof -
  have fits: "h * (pw * 3) \<le> pw * ph * 3" using assms(2) by (simp add: algebra_simps)
  have rows: "length p = pw * ph * 3" "\<And>y c. c < pw * 3 \<Longrightarrow> y * (pw * 3) + c < pw * ph * 3 \<Longrightarrow>
      p ! (y * (pw * 3) + c) = (if y < h \<and> c < w * 3 then rgb ! (y * (w * 3) + c) else 0)"
    using pad_rows [of "w * 3" "pw * 3" h h rgb "pw * ph * 3"] assms(1) len fits by (simp_all add: p_def)
  show "length p = pw * ph * 3" by (rule rows(1))
  assume x: "x < pw" and y: "y < ph"
  have "(y + 1) * (pw * 3) \<le> ph * (pw * 3)" using y by (intro mult_right_mono) simp_all
  then have room: "y * (pw * 3) + x * 3 + 3 \<le> pw * ph * 3" using x by (simp add: algebra_simps)
  have byte: "p ! (y * (pw * 3) + x * 3 + k) = (if x < w \<and> y < h then rgb ! (y * (w * 3) + x * 3 + k) else 0)"
    if "k < 3" for k
  proof -
    have "x * 3 + k < w * 3 \<longleftrightarrow> x < w" "x * 3 + k < pw * 3" using that x by linarith+
    then show ?thesis using rows(2) [of "x * 3 + k" y] room that by (simp add: add.assoc conj_commute)
  qed
  have "(y * pw + x) * 3 = y * (pw * 3) + x * 3" by (simp add: algebra_simps)
  moreover have "y * (w * 3) + x * 3 + 3 \<le> length rgb" if "x < w" "y < h"
  proof -
    have "(y + 1) * (w * 3) \<le> h * (w * 3)" using that(2) by (intro mult_right_mono) simp_all
    then show ?thesis using that(1) len by simp
  qed
  ultimately show "get ((y * pw + x) * 3) 3 p = (if x < w \<and> y < h then get (y * (w * 3) + x * 3) 3 rgb else [0, 0, 0])"
    using byte [of 0] byte [of 1] byte [of 2] rows(1) room by (simp only: get_three) (auto simp: get_three)
qed

lemma div_up: "0 < k \<Longrightarrow> n \<le> (n + k - 1) div k * k \<and> (n + k - 1) div k * k < n + k" for n k :: nat
  using div_mult_mod_eq [of "n + k - 1" k] mod_less_divisor [of k "n + k - 1"] by linarith

section \<open>Properties\<close>

text \<open>
  C30: The service never trips over its own state. In every run of the service on a session of a
  supported dock, whatever the dock, the bus, the cards and the clock do, every output in a slot carries
  its slot's connector number and an active output has a mode; when the run ends with an error, it is
  never the missing mode of an active output.
\<close>

theorem daemon_outputs_consistent:
  assumes "supported (cs_profile s)"
  shows "case fst (run_session aes cmac opens ts s) of
     Inr outs \<Rightarrow> length outs = MAX_CONNECTORS \<and>
       (\<forall>i out. i < MAX_CONNECTORS \<longrightarrow> outs ! i = Some out \<longrightarrow>
         out_head out = of_nat i \<and> (out_active out \<longrightarrow> out_mode out \<noteq> None))
   | Inl e \<Rightarrow> \<forall>head. e \<noteq> NoActiveMode head"
proof -
  have n: "session_connectors s \<le> MAX_CONNECTORS"
    using assms by (auto simp: session_connectors_def supported_def PROFILE_ELLA_def PROFILE_RIDGE_def PROFILE_NAVARRO_def
        MAX_CONNECTORS_def)
  have "slots_ok 0 (replicate MAX_CONNECTORS None)" by (simp add: slots_ok_nth slot_ok_def)
  then have "gives (andthen (discover aes cmac opens [0..<session_connectors s] (replicate MAX_CONNECTORS None))
      (take_turns aes cmac ts)) outputs_ok moded"
    using n by (intro gives_andthen [OF discover_ok] take_turns_ok) auto
  then show ?thesis
    unfolding gives_def run_session_def
    by (auto simp: andthen_def session_def gets_def moded_def slots_ok_nth slot_ok_def output_ok_def
        dest!: spec [of _ s] split: sum.splits prod.splits)
qed



text \<open>
  C17: The surface that is presented is the frame. For every frame view and dock, padding succeeds; the
  surface is a whole number of strips that exceeds the frame by less than a strip each way, its buffer is
  exactly its pixels, every pixel of the frame is the red, green and blue of its XRGB word, or black where
  the frame's buffer ends early, and every pixel of the margin is black.
\<close>

theorem surface_is_frame:
  "\<exists>p pw ph. pad_rgb dock (to_rgb888 f) (fv_width f) (fv_height f) = Ok (p, pw, ph) \<and>
    fst (strip_dims dock) dvd pw \<and> snd (strip_dims dock) dvd ph \<and>
    fv_width f \<le> pw \<and> pw < fv_width f + fst (strip_dims dock) \<and>
    fv_height f \<le> ph \<and> ph < fv_height f + snd (strip_dims dock) \<and> length p = pw * ph * 3 \<and>
    (\<forall>x y. x < pw \<longrightarrow> y < ph \<longrightarrow> get ((y * pw + x) * 3) 3 p =
      (if x < fv_width f \<and> y < fv_height f then xrgb_pixel f x y else [0, 0, 0]))"
proof -
  obtain sw sh where sd: "strip_dims dock = (sw, sh)" by fastforce
  then have pos: "0 < sw" "0 < sh" by (auto simp: strip_dims_def)
  let ?w = "fv_width f" and ?h = "fv_height f" and ?rgb = "to_rgb888 f"
  define pw ph where "pw = (?w + sw - 1) div sw * sw" and "ph = (?h + sh - 1) div sh * sh"
  define p where "p = (if pw = ?w \<and> ph = ?h then ?rgb else
    foldl (\<lambda>buf row. put (row * (pw * 3)) (get (row * (?w * 3)) (?w * 3) ?rgb) buf) (replicate (pw * ph * 3) 0) [0..<?h])"
  have dims: "sw dvd pw" "sh dvd ph" "?w \<le> pw" "pw < ?w + sw" "?h \<le> ph" "ph < ?h + sh"
    using div_up pos by (simp_all add: pw_def ph_def)
  have ok: "pad_rgb dock ?rgb ?w ?h = Ok (p, pw, ph)"
    by (simp add: pad_rgb_def sd Let_def p_def pw_def ph_def to_rgb888_length)
  have "length p = pw * ph * 3"
    using pad_pixels(1) [OF dims(3,5) to_rgb888_length] to_rgb888_length [of f] by (simp add: p_def)
  moreover have "get ((y * pw + x) * 3) 3 p = (if x < ?w \<and> y < ?h then xrgb_pixel f x y else [0, 0, 0])"
    if "x < pw" "y < ph" for x y
    using pad_pixels(2) [OF dims(3,5) to_rgb888_length that] to_rgb888_pixel [of x f y] that
    by (simp add: p_def add_mult_distrib mult.assoc)
  ultimately show ?thesis
    using ok dims by (intro exI [of _ p] exI [of _ pw] exI [of _ ph]) (simp add: sd)
qed

text \<open>Two frames on two buses: the documented conversion example, and a turn of a quiet service.\<close>

definition example_frame :: FrameView where
  "example_frame = \<lparr>fv_pixels = [0x33, 0x22, 0x11, 0xff, 0x66, 0x55, 0x44, 0xff, 0xaa, 0xaa, 0xaa, 0xaa],
    fv_width = 2, fv_height = 1, fv_stride = 12\<rparr>"

theorem surface_is_frame_witness:
  "\<exists>p pw ph. pad_rgb dock_ridge (to_rgb888 example_frame) 2 1 = Ok (p, pw, ph) \<and> length p = pw * ph * 3 \<and>
    get 3 3 p = [0x44, 0x55, 0x66]"
proof -
  obtain p pw ph where p: "pad_rgb dock_ridge (to_rgb888 example_frame) 2 1 = Ok (p, pw, ph)" "2 \<le> pw" "1 \<le> ph"
      "length p = pw * ph * 3" "\<And>x y. x < pw \<Longrightarrow> y < ph \<Longrightarrow> get ((y * pw + x) * 3) 3 p =
        (if x < 2 \<and> y < 1 then xrgb_pixel example_frame x y else [0, 0, 0])"
    using surface_is_frame [of dock_ridge example_frame] by (auto simp: example_frame_def)
  have "get 3 3 p = [0x44, 0x55, 0x66]"
    using p(5) [of 1 0] p(2,3) by (simp add: xrgb_pixel_def example_frame_def)
  with p show ?thesis by blast
qed

definition example_turn :: turn where
  "example_turn = \<lparr>t_events = (\<lambda>_. [Dpms 3, ModeChanged \<lparr>mode_width = 640, mode_height = 480, mode_refresh_hz = 60,
      mode_bits_per_pixel = 32, mode_pixel_format = 0\<rparr>]), t_frame = (\<lambda>_. Some example_frame), t_card_mode = (\<lambda>_. None),
    t_card_opens = (\<lambda>_. True), t_in_grace = (\<lambda>_. False), t_presence_due = True, t_keepalive_due = True,
    t_heartbeat_due = True\<rparr>"

theorem daemon_outputs_consistent_witness:
  "case fst (run_session const_aes const_cmac (\<lambda>_. True) [example_turn] (fetch_session [Inr (const_reply ready_text)])) of
     Inr outs \<Rightarrow> length outs = MAX_CONNECTORS \<and>
       (\<forall>i out. i < MAX_CONNECTORS \<longrightarrow> outs ! i = Some out \<longrightarrow>
         out_head out = of_nat i \<and> (out_active out \<longrightarrow> out_mode out \<noteq> None))
   | Inl e \<Rightarrow> \<forall>head. e \<noteq> NoActiveMode head"
  by (rule daemon_outputs_consistent) (simp add: fetch_session_def engaged_def supported_def dock_ridge_def)



text \<open>
  A frame whose mode the dock declined is presented all the same: the mode is recorded as deferred and
  the surface, padded to the frame's size, is handed to the session.
\<close>

lemma declined_frame_presented:
  assumes "activate_mode aes cmac (out_head out) (mode_width m) (mode_height m) (mode_refresh_hz m) s = (Inr False, s)"
    and "Some m \<noteq> out_mode out"
    and "pad_rgb (cs_profile s) (to_rgb888 f) (fv_width f) (fv_height f) = Ok (surface, w, h)"
  shows "show_frame aes cmac f m out s =
    andthen (session (present_rgb aes cmac (out_head out) w h surface)) (\<lambda>_.
      ret (out\<lparr>deferred_mode := Some m, last_surface := Some (surface, w, h)\<rparr>)) s"
  using assms by (simp add: show_frame_def andthen_def session_def gets_def ret_def)

text \<open>
  Waking a connector that a dock declines to program beside a lit one is dropped: the output stays dark
  and nothing is deferred.
\<close>

lemma declined_wake_forgotten:
  assumes "activate_mode aes cmac (out_head out) (mode_width m) (mode_height m) (mode_refresh_hz m) s = (Inr False, s)"
    and "out_mode out = Some m" and "\<not> out_active out"
  shows "handle_event aes cmac (Dpms 0) out s = (Inr out, s)"
  using assms by (simp add: handle_event_def andthen_def session_def gets_def ret_def)

end
