(* ===== verification/Color_Pipeline.thy ===== *)
theory Color_Pipeline
  imports Vino_Prelude
begin

text \<open>
  Software colour management of the virtual display (\<open>module/color.rs\<close>): the colour transformation
  matrix and the gamma ramp of a CRTC, precomputed into per-channel tables where the matrix does not mix
  channels. The optimised form is shown equal to the plain pipeline, and a transform that builds nothing is
  the identity.

  \<open>i32\<close> and \<open>i64\<close> values are integers; \<open>ctm_sum_in_range\<close> and \<open>sample_in_range\<close> show that no intermediate
  leaves its type. The decoding of the sign-magnitude coefficients and the hash belong to the kernel: a matrix
  is the list of its nine decoded coefficients and the hash is an argument.
\<close>

section \<open>Fixed point\<close>

record ColorLut =
  lut_red :: u16
  lut_green :: u16
  lut_blue :: u16

definition Q :: int where "Q = 65536"
definition MAX_Q :: int where "MAX_Q = 0xffff"
definition HALF_Q :: int where "HALF_Q = 32768"
definition LUT_LEN :: nat where "LUT_LEN = 256"

definition clamp :: "int \<Rightarrow> int \<Rightarrow> int \<Rightarrow> int" where
  "clamp lo hi v = (if v < lo then lo else if hi < v then hi else v)"

definition expand :: "byte \<Rightarrow> int" where
  "expand v = uint v * 257"

definition narrow :: "int \<Rightarrow> byte" where
  "narrow v = of_int (min 255 ((clamp 0 MAX_Q v + 128) div 257))"

definition sample :: "u16 list \<Rightarrow> int \<Rightarrow> int" where
  "sample table v =
    (let v = clamp 0 MAX_Q v;
         idx = nat (v div 257);
         frac = v - int idx * 257;
         a = uint (table ! min idx (LUT_LEN - 1));
         b = uint (table ! min (idx + 1) (LUT_LEN - 1))
     in (a * (257 - frac) + b * frac + 128) div 257)"

definition lut_channel :: "(ColorLut \<Rightarrow> u16) \<Rightarrow> ColorLut list \<Rightarrow> u16 list" where
  "lut_channel entry lut =
    map (\<lambda>i. if i < length lut then entry (lut ! i) else of_nat (i * 257)) [0..<LUT_LEN]"

definition read_lut :: "ColorLut list \<Rightarrow> u16 list" where
  "read_lut lut = lut_channel lut_red lut @ lut_channel lut_green lut @ lut_channel lut_blue lut"

definition to_q16 :: "int \<Rightarrow> int" where
  "to_q16 v = clamp (- 2147483648) 2147483647 (v div 65536)"

section \<open>The pipeline\<close>

datatype ColorPipeline = Fused bytes | Mixed "int list" "u16 list option"

definition lut_slice :: "nat \<Rightarrow> 'a list \<Rightarrow> 'a list" where
  "lut_slice c t = get (c * LUT_LEN) LUT_LEN t"

definition fuse_entry :: "int list option \<Rightarrow> u16 list option \<Rightarrow> nat \<Rightarrow> nat \<Rightarrow> byte" where
  "fuse_entry diag gamma c i =
    (let v = expand (of_nat i);
         v = (case diag of None \<Rightarrow> v | Some m \<Rightarrow> clamp 0 MAX_Q (([m ! 0, m ! 4, m ! 8] ! c * v + HALF_Q) div 65536));
         v = (case gamma of None \<Rightarrow> v | Some t \<Rightarrow> sample (lut_slice c t) v)
     in narrow (clamp 0 MAX_Q v))"

definition fuse :: "int list option \<Rightarrow> u16 list option \<Rightarrow> ColorPipeline" where
  "fuse diag gamma = Fused (concat (map (\<lambda>c. map (fuse_entry diag gamma c) [0..<LUT_LEN]) [0..<3]))"

definition mixes :: "int list \<Rightarrow> bool" where
  "mixes m \<longleftrightarrow> m ! 1 \<noteq> 0 \<or> m ! 2 \<noteq> 0 \<or> m ! 3 \<noteq> 0 \<or> m ! 5 \<noteq> 0 \<or> m ! 6 \<noteq> 0 \<or> m ! 7 \<noteq> 0"

definition is_identity :: "int list \<Rightarrow> bool" where
  "is_identity m \<longleftrightarrow> m ! 0 = Q \<and> m ! 4 = Q \<and> m ! 8 = Q"

definition build :: "ColorLut list option \<Rightarrow> int list option \<Rightarrow> ColorPipeline option" where
  "build lut ctm =
    (let gamma = map_option read_lut lut
     in case map_option (map to_q16) ctm of
          None \<Rightarrow> (if gamma = None then None else Some (fuse None gamma))
        | Some m \<Rightarrow>
            if mixes m then Some (Mixed m gamma)
            else if is_identity m then (if gamma = None then None else Some (fuse None gamma))
            else Some (fuse (Some m) gamma))"

definition ctm_sum :: "int list \<Rightarrow> nat \<Rightarrow> byte \<times> byte \<times> byte \<Rightarrow> int" where
  "ctm_sum m row = (\<lambda>(r, g, b).
    m ! (row * 3) * expand r + m ! (row * 3 + 1) * expand g + m ! (row * 3 + 2) * expand b)"

definition ctm_row :: "int list \<Rightarrow> nat \<Rightarrow> byte \<times> byte \<times> byte \<Rightarrow> int" where
  "ctm_row m row p = clamp 0 MAX_Q ((ctm_sum m row p + HALF_Q) div 65536)"

definition mixed_channel :: "int list \<Rightarrow> u16 list option \<Rightarrow> byte \<times> byte \<times> byte \<Rightarrow> nat \<Rightarrow> byte" where
  "mixed_channel m gamma p c =
    narrow (clamp 0 MAX_Q
      (case gamma of None \<Rightarrow> ctm_row m c p | Some t \<Rightarrow> sample (lut_slice c t) (ctm_row m c p)))"

fun apply_color :: "ColorPipeline \<Rightarrow> byte \<times> byte \<times> byte \<Rightarrow> byte \<times> byte \<times> byte" where
  "apply_color (Fused t) (r, g, b) = (t ! unat r, t ! (LUT_LEN + unat g), t ! (2 * LUT_LEN + unat b))"
| "apply_color (Mixed m gamma) p = (mixed_channel m gamma p 0, mixed_channel m gamma p 1, mixed_channel m gamma p 2)"

definition COLOR_SEED :: u64 where "COLOR_SEED = 0x9e3779b185ebca87"

definition ctm_bytes :: "int list \<Rightarrow> bytes" where
  "ctm_bytes m = concat (map (\<lambda>c. le32 (of_int c)) m)"

definition lut_bytes :: "u16 list \<Rightarrow> bytes" where
  "lut_bytes t = concat (map le16 t)"

fun color_tag :: "(bytes \<Rightarrow> u64 \<Rightarrow> u64) \<Rightarrow> ColorPipeline \<Rightarrow> u64" where
  "color_tag xxh64 (Fused t) = xxh64 t COLOR_SEED"
| "color_tag xxh64 (Mixed m gamma) =
    (let h = xxh64 (ctm_bytes m) COLOR_SEED
     in case gamma of None \<Rightarrow> h | Some t \<Rightarrow> xxh64 (lut_bytes t) h)"

section \<open>Arithmetic\<close>

lemma clamp_in: "lo \<le> v \<Longrightarrow> v \<le> hi \<Longrightarrow> clamp lo hi v = v"
  by (simp add: clamp_def)

lemma clamp_bounds: "lo \<le> hi \<Longrightarrow> lo \<le> clamp lo hi v \<and> clamp lo hi v \<le> hi"
  by (simp add: clamp_def)

lemma clamp_clamp [simp]: "lo \<le> hi \<Longrightarrow> clamp lo hi (clamp lo hi v) = clamp lo hi v"
  by (simp add: clamp_def)

lemma expand_bounds: "0 \<le> expand v" "expand v \<le> MAX_Q"
proof -
  have "uint v < 256" using uint_lt2p [of v] by simp
  then show "0 \<le> expand v" "expand v \<le> MAX_Q" by (simp_all add: expand_def MAX_Q_def)
qed

lemma clamp_expand [simp]: "clamp 0 MAX_Q (expand v) = expand v"
  by (simp add: clamp_in expand_bounds)

lemma narrow_expand [simp]: "narrow (expand v) = v"
proof -
  have "uint v < 256" using uint_lt2p [of v] by simp
  then have "min 255 ((uint v * 257 + 128) div 257) = uint v" by (simp add: min_def)
  then have "narrow (expand v) = of_int (uint v)"
    using clamp_expand [of v] by (simp add: narrow_def expand_def)
  then show ?thesis by simp
qed

lemma narrow_clamp [simp]: "narrow (clamp 0 MAX_Q v) = narrow v"
  by (simp add: narrow_def clamp_def MAX_Q_def)

lemma unity_gain: "clamp 0 MAX_Q ((65536 * expand v + HALF_Q) div 65536) = expand v"
proof -
  have "(65536 * expand v + HALF_Q) div 65536 = expand v" by (simp add: HALF_Q_def)
  then show ?thesis by (simp only: clamp_expand)
qed

lemma weighted_mean:
  fixes lo a b k f hi :: int
  assumes "0 \<le> k" "0 \<le> f"
  shows "lo \<le> a \<Longrightarrow> lo \<le> b \<Longrightarrow> lo * (k + f) \<le> a * k + b * f"
    and "a \<le> hi \<Longrightarrow> b \<le> hi \<Longrightarrow> a * k + b * f \<le> hi * (k + f)"
  unfolding distrib_left using assms by (simp_all add: add_mono mult_right_mono)

text \<open>Interpolation stays between the two neighbouring entries and meets the table at its own inputs.\<close>

lemma sample_between:
  assumes "v = clamp 0 MAX_Q v'" and "lo \<le> uint (table ! min (nat (v div 257)) 255)"
    and "uint (table ! min (nat (v div 257)) 255) \<le> hi"
    and "lo \<le> uint (table ! min (nat (v div 257) + 1) 255)"
    and "uint (table ! min (nat (v div 257) + 1) 255) \<le> hi"
  shows "lo \<le> sample table v'" "sample table v' \<le> hi"
proof -
  define a where "a = uint (table ! min (nat (v div 257)) 255)"
  define b where "b = uint (table ! min (nat (v div 257) + 1) 255)"
  have v: "0 \<le> v" using assms(1) clamp_bounds [of 0 MAX_Q v'] by (simp add: MAX_Q_def)
  define f where "f = v - int (nat (v div 257)) * 257"
  have f: "f = v mod 257" using v by (simp add: f_def minus_div_mult_eq_mod pos_imp_zdiv_nonneg_iff)
  then have f0: "0 \<le> f" "0 \<le> 257 - f" by simp_all
  have ab: "lo \<le> a" "a \<le> hi" "lo \<le> b" "b \<le> hi" using assms by (simp_all only: a_def b_def)
  have s: "sample table v' = (a * (257 - f) + b * f + 128) div 257"
    using assms(1) by (simp add: sample_def Let_def LUT_LEN_def a_def b_def f_def)
  have "lo * 257 \<le> a * (257 - f) + b * f" "a * (257 - f) + b * f \<le> hi * 257"
    using weighted_mean(1) [OF f0(2,1) ab(1,3)] weighted_mean(2) [OF f0(2,1) ab(2,4)] by simp_all
  then have "lo * 257 div 257 \<le> (a * (257 - f) + b * f + 128) div 257"
    "(a * (257 - f) + b * f + 128) div 257 \<le> (hi * 257 + 128) div 257"
    by (intro zdiv_mono1; simp)+
  then show "lo \<le> sample table v'" "sample table v' \<le> hi"
    unfolding s by simp_all
qed

lemma sample_in_range: "0 \<le> sample table v \<and> sample table v \<le> MAX_Q"
proof -
  have "0 \<le> uint (w :: u16) \<and> uint w \<le> MAX_Q" for w
    using uint_lt2p [of w] by (simp add: MAX_Q_def)
  then show ?thesis using sample_between [OF refl, of 0 table v MAX_Q] by blast
qed

lemma sample_at_entry: "i < 256 \<Longrightarrow> sample table (int i * 257) = uint (table ! i)"
  by (simp add: sample_def Let_def LUT_LEN_def clamp_def MAX_Q_def)

lemma ctm_sum_in_range:
  assumes "length m = 9" and "\<forall>c \<in> set m. - 2147483648 \<le> c \<and> c \<le> 2147483647" and "row < 3"
  shows "\<bar>ctm_sum m row p + HALF_Q\<bar> < 9223372036854775808"
proof -
  obtain r g b where p: "p = (r, g, b)" by (cases p)
  have prod: "\<bar>m ! i * expand v\<bar> \<le> 2147483648 * 65535" if "i < 9" for i v
  proof -
    have "\<bar>m ! i\<bar> \<le> 2147483648" using assms that nth_mem [of i m] by fastforce
    then have "\<bar>m ! i\<bar> * \<bar>expand v\<bar> \<le> 2147483648 * 65535"
      using expand_bounds [of v] by (intro mult_mono) (simp_all add: MAX_Q_def)
    then show ?thesis by (simp add: abs_mult)
  qed
  have "row * 3 < 9" "row * 3 + 1 < 9" "row * 3 + 2 < 9" using assms(3) by simp_all
  from prod [OF this(1), of r] prod [OF this(2), of g] prod [OF this(3), of b]
  show ?thesis unfolding ctm_sum_def p HALF_Q_def by simp
qed

lemma to_q16_range: "- 2147483648 \<le> to_q16 v \<and> to_q16 v \<le> 2147483647"
  unfolding to_q16_def by (rule clamp_bounds) simp

section \<open>The fused tables\<close>

lemma fuse_table_nth:
  assumes "c < 3" "i < LUT_LEN"
  shows "concat (map (\<lambda>c. map (f c) [0..<LUT_LEN]) [0..<3]) ! (c * LUT_LEN + i) = f c i"
proof -
  have upt: "[0..<3] = [0, 1, 2 :: nat]" by (simp add: upt_rec)
  consider "c = 0" | "c = 1" | "c = 2" using assms(1) by linarith
  then show ?thesis using assms(2) by cases (simp_all add: upt nth_append)
qed

lemma apply_fuse:
  "apply_color (fuse diag gamma) (r, g, b) =
    (fuse_entry diag gamma 0 (unat r), fuse_entry diag gamma 1 (unat g), fuse_entry diag gamma 2 (unat b))"
proof -
  have lt: "unat (v :: byte) < LUT_LEN" for v using unat_byte_lt [of v] by (simp add: LUT_LEN_def)
  show ?thesis
    using fuse_table_nth [of 0 "unat r" "fuse_entry diag gamma"] fuse_table_nth [of 1 "unat g" "fuse_entry diag gamma"]
      fuse_table_nth [of 2 "unat b" "fuse_entry diag gamma"] lt
    by (simp add: fuse_def)
qed

lemma diagonal_rows:
  assumes "\<not> mixes m"
  shows "ctm_row m 0 (r, g, b) = clamp 0 MAX_Q ((m ! 0 * expand r + HALF_Q) div 65536)"
    and "ctm_row m (Suc 0) (r, g, b) = clamp 0 MAX_Q ((m ! 4 * expand g + HALF_Q) div 65536)"
    and "ctm_row m 2 (r, g, b) = clamp 0 MAX_Q ((m ! 8 * expand b + HALF_Q) div 65536)"
  using assms by (simp_all add: ctm_row_def ctm_sum_def mixes_def numeral_2_eq_2)

lemma identity_rows:
  assumes "\<not> mixes m" "is_identity m"
  shows "ctm_row m 0 (r, g, b) = expand r" "ctm_row m (Suc 0) (r, g, b) = expand g" "ctm_row m 2 (r, g, b) = expand b"
  using assms(2) unity_gain by (simp_all only: diagonal_rows [OF assms(1)] is_identity_def Q_def)

lemma fused_diagonal:
  "\<not> mixes m \<Longrightarrow> apply_color (fuse (Some m) gamma) p = apply_color (Mixed m gamma) p"
  by (cases p; cases gamma) (simp_all add: apply_fuse fuse_entry_def mixed_channel_def diagonal_rows Let_def)

lemma fused_gamma:
  "\<not> mixes m \<Longrightarrow> is_identity m \<Longrightarrow> apply_color (fuse None gamma) p = apply_color (Mixed m gamma) p"
  by (cases p; cases gamma) (simp_all add: apply_fuse fuse_entry_def mixed_channel_def identity_rows Let_def)

lemma no_transform:
  "\<not> mixes m \<Longrightarrow> is_identity m \<Longrightarrow> apply_color (Mixed m None) p = p"
  by (cases p) (simp add: mixed_channel_def identity_rows)

section \<open>The pipeline is the plain transform\<close>

text \<open>
  What the properties ask for: the matrix in full, the identity when none is programmed, then the ramp when one
  is.
\<close>

definition programmed_ctm :: "int list option \<Rightarrow> int list" where
  "programmed_ctm ctm = (case ctm of None \<Rightarrow> [Q, 0, 0, 0, Q, 0, 0, 0, Q] | Some raw \<Rightarrow> map to_q16 raw)"

definition corrected :: "ColorLut list option \<Rightarrow> int list option \<Rightarrow> byte \<times> byte \<times> byte \<Rightarrow> byte \<times> byte \<times> byte" where
  "corrected lut ctm p =
    (let m = programmed_ctm ctm;
         channel = (\<lambda>c. let v = clamp 0 MAX_Q ((ctm_sum m c p + HALF_Q) div 65536)
                        in narrow (case lut of None \<Rightarrow> v | Some l \<Rightarrow> sample (lut_channel ([lut_red, lut_green, lut_blue] ! c) l) v))
     in (channel 0, channel 1, channel 2))"

definition color_pixel :: "ColorPipeline option \<Rightarrow> byte \<times> byte \<times> byte \<Rightarrow> byte \<times> byte \<times> byte" where
  "color_pixel pipeline p = (case pipeline of None \<Rightarrow> p | Some t \<Rightarrow> apply_color t p)"

lemma lut_slice_read_lut:
  "lut_slice 0 (read_lut l) = lut_channel lut_red l"
  "lut_slice (Suc 0) (read_lut l) = lut_channel lut_green l"
  "lut_slice 2 (read_lut l) = lut_channel lut_blue l"
  by (simp_all add: lut_slice_def read_lut_def lut_channel_def get_def LUT_LEN_def)

lemma corrected_eq_mixed:
  "corrected lut ctm p = apply_color (Mixed (programmed_ctm ctm) (map_option read_lut lut)) p"
  by (cases lut; cases p)
    (simp_all add: corrected_def Let_def mixed_channel_def ctm_row_def lut_slice_read_lut)

lemma color_pixel_corrected: "color_pixel (build lut ctm) p = corrected lut ctm p"
proof -
  let ?m = "programmed_ctm ctm" and ?gamma = "map_option read_lut lut"
  have unit: "\<not> mixes [Q, 0, 0, 0, Q, 0, 0, 0, Q]" "is_identity [Q, 0, 0, 0, Q, 0, 0, 0, Q]"
    by (simp_all add: mixes_def is_identity_def)
  have "color_pixel (build lut ctm) p = apply_color (Mixed ?m ?gamma) p"
  proof (cases ctm)
    case None
    then show ?thesis
      by (cases lut) (simp_all del: apply_color.simps(2) add: build_def color_pixel_def programmed_ctm_def Let_def
        no_transform [OF unit] fused_gamma [OF unit])
  next
    case (Some raw)
    then show ?thesis
      by (cases lut) (simp_all del: apply_color.simps(2) add: build_def color_pixel_def programmed_ctm_def Let_def
        fused_diagonal fused_gamma no_transform)
  qed
  then show ?thesis by (simp only: corrected_eq_mixed)
qed

text \<open>
  C26: the precomputed pipeline of a CRTC is the plain transform on every pixel: whichever of the three forms
  \<open>build\<close> chooses (nothing, fused tables, the mixing matrix), a pixel comes out as the matrix and the ramp
  applied in full.
\<close>

theorem color_pipeline_exact: "color_pixel (build lut ctm) p = corrected lut ctm p"
  by (rule color_pixel_corrected)

section \<open>Cache tags\<close>

text \<open>The arrays of the source have fixed lengths and an \<open>i32\<close> per coefficient.\<close>

fun pipeline_wf :: "ColorPipeline \<Rightarrow> bool" where
  "pipeline_wf (Fused t) \<longleftrightarrow> length t = 3 * LUT_LEN"
| "pipeline_wf (Mixed m gamma) \<longleftrightarrow>
    length m = 9 \<and> (\<forall>c \<in> set m. - 2147483648 \<le> c \<and> c \<le> 2147483647) \<and> pred_option (\<lambda>t. length t = 3 * LUT_LEN) gamma"

fun tag_inputs :: "(bytes \<Rightarrow> u64 \<Rightarrow> u64) \<Rightarrow> ColorPipeline \<Rightarrow> (bytes \<times> u64) set" where
  "tag_inputs xxh64 (Fused t) = {(t, COLOR_SEED)}"
| "tag_inputs xxh64 (Mixed m gamma) =
    insert (ctm_bytes m, COLOR_SEED)
      (case gamma of None \<Rightarrow> {} | Some t \<Rightarrow> {(lut_bytes t, xxh64 (ctm_bytes m) COLOR_SEED)})"

lemma length_serialised: "length (ctm_bytes m) = 4 * length m" "length (lut_bytes t) = 2 * length t"
  by (induction m; induction t; simp add: ctm_bytes_def lut_bytes_def)+

lemma lut_bytes_inj: "lut_bytes t = lut_bytes u \<longleftrightarrow> t = u"
proof (induction t arbitrary: u)
  case (Cons w t)
  moreover have "le16 w \<noteq> []" by (simp add: le16_def)
  ultimately show ?case by (cases u) (auto simp: lut_bytes_def append_eq_append_conv)
qed (cases u; auto simp: lut_bytes_def le16_def)

lemma ctm_bytes_inj:
  assumes "\<forall>c \<in> set m. - 2147483648 \<le> c \<and> c \<le> 2147483647" "\<forall>c \<in> set n. - 2147483648 \<le> c \<and> c \<le> 2147483647"
  shows "ctm_bytes m = ctm_bytes n \<longleftrightarrow> m = n"
  using assms
proof (induction m arbitrary: n)
  case (Cons c m)
  have "(of_int c :: u32) = of_int d \<longleftrightarrow> c = d" if "- 2147483648 \<le> d" "d \<le> 2147483647" for d
  proof
    assume "(of_int c :: u32) = of_int d"
    then have "sint (of_int c :: u32) = sint (of_int d :: u32)" by simp
    then show "c = d" using that Cons.prems(1) by (simp add: signed_of_int signed_take_bit_int_eq_self)
  qed simp
  moreover have "le32 (of_int c) \<noteq> []" by (simp add: le32_def)
  ultimately show ?case using Cons by (cases n) (auto simp: ctm_bytes_def append_eq_append_conv)
qed (cases n; auto simp: ctm_bytes_def le32_def)

lemma ctm_bytes_not_lut_bytes: "length m = 9 \<Longrightarrow> length t = 3 * LUT_LEN \<Longrightarrow> ctm_bytes m \<noteq> lut_bytes t"
  using length_serialised(1) [of m] length_serialised(2) [of t] by (auto simp: LUT_LEN_def)

lemma length_fuse_table: "length (concat (map (\<lambda>c. map (f c) [0..<LUT_LEN]) [0..<3])) = 3 * LUT_LEN"
  by (simp add: length_concat comp_def sum_list_triv)

lemma length_read_lut: "length (read_lut lut) = 3 * LUT_LEN"
  by (simp add: read_lut_def lut_channel_def)

lemma built_wf: "pred_option (\<lambda>c. length c = 9) ctm \<Longrightarrow> pred_option pipeline_wf (build lut ctm)"
  by (cases ctm; cases lut)
    (auto simp: build_def Let_def fuse_def length_fuse_table length_read_lut to_q16_range)

text \<open>
  Two transforms with the same tag are the same transform, unless the hash collides on one of the inputs the
  tags were computed from.
\<close>

lemma color_tag_separates:
  assumes "inj_on (\<lambda>(b, s). xxh64 b s) (tag_inputs xxh64 p \<union> tag_inputs xxh64 q)"
    and "pipeline_wf p" "pipeline_wf q" and "color_tag xxh64 p = color_tag xxh64 q"
  shows "p = q"
proof -
  have inj: "b = c \<and> s = t"
    if "xxh64 b s = xxh64 c t" "(b, s) \<in> tag_inputs xxh64 p" "(c, t) \<in> tag_inputs xxh64 q" for b c s t
    using inj_onD [OF assms(1), of "(b, s)" "(c, t)"] that by simp
  show ?thesis
  proof (cases p; cases q)
    fix t u assume pq: "p = Fused t" "q = Fused u"
    with assms(4) inj [of t COLOR_SEED u COLOR_SEED] show ?thesis by simp
  next
    fix t m gamma assume pq: "p = Fused t" "q = Mixed m gamma"
    with assms inj [of t COLOR_SEED "ctm_bytes m" COLOR_SEED]
      inj [of t COLOR_SEED "lut_bytes (the gamma)" "xxh64 (ctm_bytes m) COLOR_SEED"]
    show ?thesis by (cases gamma) (auto simp: length_serialised Let_def LUT_LEN_def dest!: arg_cong [of _ _ length])
  next
    fix t m gamma assume pq: "p = Mixed m gamma" "q = Fused t"
    with assms inj [of "ctm_bytes m" COLOR_SEED t COLOR_SEED]
      inj [of "lut_bytes (the gamma)" "xxh64 (ctm_bytes m) COLOR_SEED" t COLOR_SEED]
    show ?thesis by (cases gamma) (auto simp: length_serialised Let_def LUT_LEN_def dest!: arg_cong [of _ _ length])
  next
    fix m gamma n delta assume pq: "p = Mixed m gamma" "q = Mixed n delta"
    have mn: "m = n" if "xxh64 (ctm_bytes m) COLOR_SEED = xxh64 (ctm_bytes n) COLOR_SEED"
      using inj [OF that] assms(2,3) pq by (simp add: ctm_bytes_inj)
    show ?thesis
    proof (cases gamma; cases delta)
      assume "gamma = None" "delta = None"
      with assms(4) pq mn show ?thesis by simp
    next
      fix t assume g: "gamma = None" "delta = Some t"
      then have "ctm_bytes m = lut_bytes t" using assms(4) pq inj [of "ctm_bytes m" COLOR_SEED "lut_bytes t"] by simp
      with assms(2,3) pq g show ?thesis by (simp add: ctm_bytes_not_lut_bytes)
    next
      fix t assume g: "gamma = Some t" "delta = None"
      then have "ctm_bytes n = lut_bytes t"
        using assms(4) pq inj [of "lut_bytes t" "xxh64 (ctm_bytes m) COLOR_SEED" "ctm_bytes n" COLOR_SEED] by simp
      with assms(2,3) pq g show ?thesis by (simp add: ctm_bytes_not_lut_bytes)
    next
      fix t u assume g: "gamma = Some t" "delta = Some u"
      then have "lut_bytes t = lut_bytes u \<and> xxh64 (ctm_bytes m) COLOR_SEED = xxh64 (ctm_bytes n) COLOR_SEED"
        using assms(4) pq by (intro inj) simp_all
      with pq g mn show ?thesis by (simp add: lut_bytes_inj)
    qed
  qed
qed

end
