(* ===== verification/Cmac.thy ===== *)
theory Cmac
  imports Crypto_Seal
begin

text \<open>
  AES-CMAC as \<open>chimera/src/kshim.rs\<close> implements it over the block cipher (\<open>crypto::dbl\<close>,
  \<open>crypto::aes_cmac\<close>): the function the user-space build hands to \<open>dl3cmac_tag\<close>, a parameter of
  \<open>Crypto_Seal\<close>. It is shown to be the construction of RFC 4493: doubling is multiplication by \<open>x\<close>
  modulo \<open>x\<^sup>1\<^sup>2\<^sup>8 + x\<^sup>7 + x\<^sup>2 + x + 1\<close>, and the loop over offsets is the chain over the blocks of the
  message with its last block masked.
\<close>

unbundle bit_operations_syntax

section \<open>The implementation\<close>

definition dbl_byte :: "bytes \<Rightarrow> nat \<Rightarrow> byte" where
  "dbl_byte b i = (let o_i = push_bit 1 (b ! i) in if i + 1 < 16 then o_i OR drop_bit 7 (b ! (i + 1)) else o_i)"

definition dbl :: "bytes \<Rightarrow> bytes" where
  "dbl b =
    (let msb = drop_bit 7 (b ! 0);
         out = map (dbl_byte b) [0..<16]
     in if msb = 1 then out[15 := out ! 15 XOR 0x87] else out)"

text \<open>One turn of the chaining loop, and the loop.\<close>

definition cmac_absorb :: "aes_fn \<Rightarrow> bytes \<Rightarrow> bytes \<Rightarrow> nat \<Rightarrow> bytes \<Rightarrow> bytes" where
  "cmac_absorb aes key data j x = block_bytes (aes key (map (\<lambda>i. x ! i XOR data ! (j * 16 + i)) [0..<16]))"

definition mlast_complete :: "bytes \<Rightarrow> nat \<Rightarrow> bytes \<Rightarrow> bytes" where
  "mlast_complete data last_off k1 = map (\<lambda>i. data ! (last_off + i) XOR k1 ! i) [0..<16]"

definition mlast_padded :: "bytes \<Rightarrow> nat \<Rightarrow> bytes \<Rightarrow> bytes" where
  "mlast_padded data last_off k2 =
    (let rem = (if data = [] then [] else drop last_off data);
         block = put 0 rem (replicate 16 0);
         block = block[length rem := 0x80]
     in map (\<lambda>i. block ! i XOR k2 ! i) [0..<16])"

definition aes_cmac :: "aes_fn \<Rightarrow> cmac_fn" where
  "aes_cmac aes key data =
    (let l = block_bytes (aes key (replicate 16 0));
         k1 = dbl l;
         k2 = dbl k1;
         complete = (data \<noteq> [] \<and> length data mod 16 = 0);
         nblocks = (if data = [] then 1 else (length data + 15) div 16);
         last_off = (nblocks - 1) * 16;
         mlast = (if complete then mlast_complete data last_off k1 else mlast_padded data last_off k2);
         x = fold (cmac_absorb aes key data) [0..<nblocks - 1] (replicate 16 0)
     in aes key (map (\<lambda>i. x ! i XOR mlast ! i) [0..<16]))"

section \<open>Doubling\<close>

text \<open>Bit \<open>n\<close> of a block read as a big-endian number.\<close>

definition block_bit :: "bytes \<Rightarrow> nat \<Rightarrow> bool" where
  "block_bit b n = bit (b ! (15 - n div 8)) (n mod 8)"

lemma length_dbl [simp]: "length (dbl b) = 16"
  by (simp add: dbl_def Let_def)

lemma bit_drop_bit_byte: "bit (drop_bit 7 (w :: byte)) k \<longleftrightarrow> k = 0 \<and> bit w 7"
  using bit_imp_le_length [of w "7 + k"] by (auto simp: bit_drop_bit_eq)

lemma msb_bit: "drop_bit 7 (w :: byte) = 1 \<longleftrightarrow> bit w 7"
proof
  assume "drop_bit 7 w = 1"
  then have "bit (drop_bit 7 w) 0" by simp
  then show "bit w 7" by (simp add: bit_drop_bit_byte)
next
  assume "bit w 7"
  then show "drop_bit 7 w = 1" by (intro bit_eqI) (auto simp: bit_drop_bit_byte bit_1_iff)
qed

lemma bit_dbl_byte:
  "bit (dbl_byte b i) k \<longleftrightarrow> (0 < k \<and> k < 8 \<and> bit (b ! i) (k - 1)) \<or> (k = 0 \<and> i + 1 < 16 \<and> bit (b ! (i + 1)) 7)"
proof -
  have "bit (push_bit 1 w) k \<longleftrightarrow> 0 < k \<and> k < 8 \<and> bit w (k - 1)" for w :: byte
    by (auto simp only: bit_push_bit_iff possible_bit_word) auto
  then show ?thesis by (auto simp add: dbl_byte_def Let_def bit_or_iff bit_drop_bit_byte simp del: push_bit_Suc push_bit_numeral)
qed

lemma shifted_bit:
  assumes "n < 128"
  shows "bit (dbl_byte b (15 - n div 8)) (n mod 8) \<longleftrightarrow> n \<noteq> 0 \<and> block_bit b (n - 1)"
proof (cases "n mod 8 = 0")
  case True
  then obtain q where n: "n = 8 * q" by auto
  show ?thesis
  proof (cases q)
    case 0
    with n show ?thesis by (simp add: bit_dbl_byte)
  next
    case (Suc r)
    then have "(n - 1) div 8 = r" "(n - 1) mod 8 = 7" "n div 8 = Suc r" "r < 15" using n assms by auto
    moreover from this have "15 - r = Suc (15 - Suc r)" by simp
    ultimately show ?thesis using True n Suc by (auto simp: block_bit_def bit_dbl_byte)
  qed
next
  case False
  then obtain q k where n: "n = 8 * q + Suc k" "Suc k < 8"
    by (metis mod_less_divisor mult_div_mod_eq not0_implies_Suc zero_less_numeral)
  then have "(n - 1) div 8 = q" "(n - 1) mod 8 = k" "n div 8 = q" "n mod 8 = Suc k" by simp_all
  then have "(n - 1) div 8 = n div 8" "(n - 1) mod 8 = n mod 8 - 1" "n \<noteq> 0" using n by simp_all
  then show ?thesis using False by (simp add: block_bit_def bit_dbl_byte)
qed

lemma block_bit_dbl:
  assumes "n < 128"
  shows "block_bit (dbl b) n \<longleftrightarrow> (n \<noteq> 0 \<and> block_bit b (n - 1)) \<noteq> (block_bit b 127 \<and> bit (0x87 :: byte) n)"
proof -
  define out where "out = map (dbl_byte b) [0..<16]"
  have dbl: "dbl b = (if bit (b ! 0) 7 then out[15 := out ! 15 XOR 0x87] else out)"
    by (simp add: dbl_def out_def Let_def msb_bit)
  have len: "length out = 16" by (simp add: out_def)
  have top: "block_bit b 127 = bit (b ! 0) 7" by (simp add: block_bit_def)
  have out: "bit (out ! (15 - n div 8)) (n mod 8) \<longleftrightarrow> n \<noteq> 0 \<and> block_bit b (n - 1)"
    using shifted_bit [OF assms, of b] by (simp add: out_def)
  have high: "\<not> bit (0x87 :: byte) n" if "8 \<le> n" using that bit_imp_le_length [of "0x87 :: byte" n] by auto
  show ?thesis
  proof (cases "n < 8")
    case True
    then show ?thesis using out len unfolding dbl top by (simp add: block_bit_def bit_xor_iff)
  next
    case False
    then have "15 - n div 8 \<noteq> 15" using assms by auto
    then show ?thesis using out high False unfolding dbl top by (simp add: block_bit_def)
  qed
qed

section \<open>The chain\<close>

text \<open>RFC 4493: the message in blocks, the last one completed and masked with its subkey.\<close>

definition cmac_last :: "bytes \<Rightarrow> bytes \<Rightarrow> bytes \<Rightarrow> bytes" where
  "cmac_last k1 k2 tail =
    (if length tail = 16 then map2 (XOR) tail k1 else map2 (XOR) (tail @ 0x80 # replicate (15 - length tail) 0) k2)"

definition cmac_blocks :: "bytes \<Rightarrow> bytes list" where
  "cmac_blocks data = (if data = [] then [[]] else chunks 16 data)"

definition rfc4493 :: "aes_fn \<Rightarrow> cmac_fn" where
  "rfc4493 aes key data =
    (let k1 = dbl (block_bytes (aes key (replicate 16 0)));
         k2 = dbl k1;
         bs = cmac_blocks data;
         x = foldl (\<lambda>x b. block_bytes (aes key (map2 (XOR) x b))) (replicate 16 0) (butlast bs)
     in aes key (map2 (XOR) x (cmac_last k1 k2 (List.last bs))))"

lemma map2_nth: "length xs = n \<Longrightarrow> length ys = n \<Longrightarrow> map (\<lambda>i. f (xs ! i) (ys ! i)) [0..<n] = map2 f xs ys"
  by (rule nth_equalityI) auto

lemma chunks_nth:
  assumes "0 < n" "j < length (chunks n xs)"
  shows "chunks n xs ! j = take n (drop (j * n) xs)"
  using assms(2)
proof (induction j arbitrary: xs)
  case 0
  then show ?case using assms(1) by (cases "xs = []") (auto simp: chunks_step)
next
  case (Suc j)
  then have "xs \<noteq> []" by auto
  with Suc show ?case using assms(1) by (auto simp: chunks_step add.commute)
qed

lemma length_block_bytes [simp]: "length (block_bytes w) = 16"
  by (simp add: block_bytes_def)

lemma xor_loops:
  assumes "length x = 16"
  shows "length (block :: bytes) = 16 \<Longrightarrow> map (\<lambda>i. x ! i XOR block ! i) [0..<16] = map2 (XOR) x block"
    and "off + 16 \<le> length data \<Longrightarrow> map (\<lambda>i. data ! (off + i) XOR x ! i) [0..<16] = map2 (XOR) (take 16 (drop off data)) x"
  by (rule nth_equalityI; use assms in simp)+

lemma absorb_block:
  assumes "length x = 16" "j * 16 + 16 \<le> length data"
  shows "cmac_absorb aes key data j x = block_bytes (aes key (map2 (XOR) x (take 16 (drop (j * 16) data))))"
proof -
  have "map (\<lambda>i. x ! i XOR data ! (j * 16 + i)) [0..<16] = map2 (XOR) x (take 16 (drop (j * 16) data))"
    by (rule nth_equalityI) (use assms in simp_all)
  then show ?thesis by (simp add: cmac_absorb_def)
qed

lemma length_absorbed: "length x = 16 \<Longrightarrow> length (fold (cmac_absorb aes key data) js x) = 16"
  by (induction js arbitrary: x) (simp_all add: cmac_absorb_def)

lemma absorb_blocks:
  assumes "n * 16 \<le> length data" "length x = 16"
  shows "fold (cmac_absorb aes key data) [0..<n] x =
    foldl (\<lambda>x b. block_bytes (aes key (map2 (XOR) x b))) x (map (\<lambda>j. take 16 (drop (j * 16) data)) [0..<n])"
  using assms
proof (induction n)
  case (Suc n)
  let ?x = "fold (cmac_absorb aes key data) [0..<n] x"
  from Suc have IH: "?x = foldl (\<lambda>x b. block_bytes (aes key (map2 (XOR) x b))) x (map (\<lambda>j. take 16 (drop (j * 16) data)) [0..<n])"
    by simp
  from absorb_block [OF length_absorbed [OF assms(2), of aes key data "[0..<n]"]] Suc.prems(1) show ?case by (simp add: IH [symmetric])
qed simp

lemma padded_tail:
  "length rem < 16 \<Longrightarrow> (put 0 rem (replicate 16 0))[length rem := 0x80] = rem @ 0x80 # replicate (15 - length rem) (0 :: byte)"
  by (rule nth_equalityI) (auto simp: nth_put nth_append nth_list_update nth_Cons')

lemma aes_cmac_nonempty:
  assumes "data \<noteq> []"
  defines "n \<equiv> (length data + 15) div 16 - 1"
  shows "n * 16 < length data" "length (drop (n * 16) data) \<le> 16"
    "length data mod 16 = 0 \<longleftrightarrow> length (drop (n * 16) data) = 16"
    "butlast (chunks 16 data) = map (\<lambda>j. take 16 (drop (j * 16) data)) [0..<n]"
    "List.last (chunks 16 data) = drop (n * 16) data"
proof -
  have pos: "0 < length data" using assms(1) by simp
  then show bounds: "n * 16 < length data" "length (drop (n * 16) data) \<le> 16"
    "length data mod 16 = 0 \<longleftrightarrow> length (drop (n * 16) data) = 16"
  proof -
    define q r where "q = length data div 16" and "r = length data mod 16"
    then have len: "length data = 16 * q + r" "r < 16" by simp_all
    show "n * 16 < length data" "length (drop (n * 16) data) \<le> 16"
      "length data mod 16 = 0 \<longleftrightarrow> length (drop (n * 16) data) = 16"
    proof (atomize (full), cases "r = 0")
      case True
      then have "n = q - 1" using len by (simp add: n_def)
      then show "n * 16 < length data \<and> length (drop (n * 16) data) \<le> 16 \<and>
        (length data mod 16 = 0 \<longleftrightarrow> length (drop (n * 16) data) = 16)" using True len pos by (cases q) auto
    next
      case False
      then have "(16 * q + r + 15) div 16 = Suc q" using len(2) by (simp add: div_nat_eqI)
      then have "n = q" using len by (simp add: n_def)
      then show "n * 16 < length data \<and> length (drop (n * 16) data) \<le> 16 \<and>
        (length data mod 16 = 0 \<longleftrightarrow> length (drop (n * 16) data) = 16)" using False len by auto
    qed
  qed
  have "0 < (length data + 15) div 16" using pos by (simp add: div_greater_zero_iff Suc_le_eq)
  then have len: "length (chunks 16 data) = Suc n" by (simp add: chunks_length n_def add.commute)
  have nth: "chunks 16 data ! j = take 16 (drop (j * 16) data)" if "j < Suc n" for j
    using that len by (simp add: chunks_nth)
  show "butlast (chunks 16 data) = map (\<lambda>j. take 16 (drop (j * 16) data)) [0..<n]"
    by (rule nth_equalityI) (simp_all add: len nth nth_butlast)
  have "chunks 16 data \<noteq> []" using len by auto
  then have "List.last (chunks 16 data) = chunks 16 data ! n" by (simp add: last_conv_nth len)
  then show "List.last (chunks 16 data) = drop (n * 16) data" using nth [of n] bounds(2) by simp
qed

section \<open>Properties\<close>

text \<open>
  C24: the user-space \<open>aes_cmac\<close> is RFC 4493 for every key and message, the empty one included; and its
  subkeys are derived by doubling in the field: bit \<open>n\<close> of the double is bit \<open>n - 1\<close>, exclusive or
  bit \<open>n\<close> of 0x87 when the top bit was set.
\<close>

theorem aes_cmac_rfc4493:
  "aes_cmac aes key data = rfc4493 aes key data \<and>
    (n < 128 \<longrightarrow> block_bit (dbl b) n = ((n \<noteq> 0 \<and> block_bit b (n - 1)) \<noteq> (block_bit b 127 \<and> bit (0x87 :: byte) n)))"
proof (rule conjI)
  let ?k1 = "dbl (block_bytes (aes key (replicate 16 0)))" and ?zero = "replicate 16 0 :: bytes"
  show "aes_cmac aes key data = rfc4493 aes key data"
  proof (cases "data = []")
    case True
    have "mlast_padded [] 0 (dbl ?k1) = cmac_last ?k1 (dbl ?k1) []"
      using padded_tail [of "[]"] xor_loops(1) [of "0x80 # replicate 15 0" "dbl ?k1"]
      by (simp add: mlast_padded_def cmac_last_def)
    moreover have "length (cmac_last ?k1 (dbl ?k1) []) = 16" by (simp add: cmac_last_def)
    ultimately show ?thesis
      using True xor_loops(1) [of ?zero] by (simp add: aes_cmac_def rfc4493_def cmac_blocks_def Let_def)
  next
    case False
    define m where "m = (length data + 15) div 16 - 1"
    define tail where "tail = drop (m * 16) data"
    define x where "x = fold (cmac_absorb aes key data) [0..<m] ?zero"
    note split = aes_cmac_nonempty [OF False, folded m_def, folded tail_def]
    have mlast: "(if length data mod 16 = 0 then mlast_complete data (m * 16) ?k1 else mlast_padded data (m * 16) (dbl ?k1)) =
        cmac_last ?k1 (dbl ?k1) tail"
    proof (cases "length data mod 16 = 0")
      case True
      then have "length tail = 16" "m * 16 + 16 \<le> length data" using split(1,3) by (auto simp: tail_def)
      with True show ?thesis
        using xor_loops(2) [of ?k1 "m * 16" data] by (simp add: mlast_complete_def cmac_last_def tail_def)
    next
      case part: False
      then have "length tail < 16" using split(2,3) by linarith
      with part False show ?thesis
        using padded_tail [of tail] xor_loops(1) [of "tail @ 0x80 # replicate (15 - length tail) 0" "dbl ?k1"]
        by (simp add: mlast_padded_def cmac_last_def Let_def tail_def [symmetric])
    qed
    have len: "length (cmac_last ?k1 (dbl ?k1) tail) = 16" using split(2) by (auto simp: cmac_last_def)
    have x: "x = foldl (\<lambda>x b. block_bytes (aes key (map2 (XOR) x b))) ?zero (butlast (chunks 16 data))" "length x = 16"
      using absorb_blocks [of m data ?zero aes key] length_absorbed [of ?zero aes key data "[0..<m]"] split(1,4)
      by (simp_all add: x_def)
    have "aes_cmac aes key data = aes key (map (\<lambda>i. x ! i XOR cmac_last ?k1 (dbl ?k1) tail ! i) [0..<16])"
      unfolding mlast [symmetric] x_def m_def using False by (simp add: aes_cmac_def Let_def)
    also have "\<dots> = aes key (map2 (XOR) x (cmac_last ?k1 (dbl ?k1) tail))"
      using xor_loops(1) [OF x(2) len] by simp
    also have "\<dots> = rfc4493 aes key data"
      using False by (simp add: rfc4493_def cmac_blocks_def Let_def x(1) split(5))
    finally show ?thesis .
  qed
  show "n < 128 \<longrightarrow> block_bit (dbl b) n = ((n \<noteq> 0 \<and> block_bit b (n - 1)) \<noteq> (block_bit b 127 \<and> bit (0x87 :: byte) n))"
    using block_bit_dbl by blast
qed

theorem aes_cmac_rfc4493_witness:
  "aes_cmac (\<lambda>k x. of_nat (length x)) [] [1, 2, 3] = rfc4493 (\<lambda>k x. of_nat (length x)) [] [1, 2, 3] \<and>
    block_bit (dbl (0x80 # replicate 15 0)) 7"
  using aes_cmac_rfc4493 [of "\<lambda>k x. of_nat (length x)" "[]" "[1, 2, 3]" 7 "0x80 # replicate 15 0"]
  by (simp add: block_bit_def)

end
