(* ===== verification/Hdcp_Reference.thy ===== *)
theory Hdcp_Reference
  imports Hdcp
begin

text \<open>
  The two HDCP implementations the driver is tested against: the key derivations, certificate and
  message parser of the \<open>vino-hdcp\<close> crate (\<open>kdf.rs\<close>, \<open>cert.rs\<close>, \<open>messages.rs\<close>) and the message builders
  of \<open>vino-driver/src/hdcp_msgs.rs\<close>. They are written independently of \<open>chimera/vino/hdcp.rs\<close> and
  \<open>chimera/vino/ake.rs\<close> (\<open>Hdcp\<close>), and are shown to agree with them byte for byte. Where a name of
  the driver is used again the definition here carries the suffix \<open>_ref\<close>. AES and HMAC-SHA256 are
  the parameters they are in \<open>Hdcp\<close>; the big-integer key of \<open>rsa_pubkey\<close> is the pair of numbers
  handed to the RSA library.
\<close>

section \<open>Key derivation (\<open>kdf.rs\<close>)\<close>

text \<open>\<open>for i in 0..8 { key[8 + i] ^= rn[i] }\<close>, an index at a time.\<close>

fun xor_loop :: "nat \<Rightarrow> bytes \<Rightarrow> bytes \<Rightarrow> bytes" where
  "xor_loop off [] key = key"
| "xor_loop off (v # vs) key = xor_loop (off + 1) vs (key[off := key ! off XOR v])"

definition derive_dkey_ref :: "aes_fn \<Rightarrow> bytes \<Rightarrow> bytes \<Rightarrow> bytes \<Rightarrow> bytes \<Rightarrow> byte \<Rightarrow> bytes" where
  "derive_dkey_ref aes km rn rtx rrx n =
    (let counter = replicate 16 0;
         counter = put 0 rtx counter;
         counter = put 8 rrx counter;
         counter = counter[15 := counter ! 15 XOR n];
         key = xor_loop 8 rn km
     in block_bytes (aes key counter))"

definition derive_kd_ref :: "aes_fn \<Rightarrow> bytes \<Rightarrow> bytes \<Rightarrow> bytes \<Rightarrow> bytes" where
  "derive_kd_ref aes km rtx rrx =
    (let rn = replicate 8 0;
         d0 = derive_dkey_ref aes km rn rtx rrx 0;
         d1 = derive_dkey_ref aes km rn rtx rrx 1;
         kd = replicate 32 0;
         kd = put 0 d0 kd
     in put 16 d1 kd)"

definition compute_h_simple :: "hmac_fn \<Rightarrow> bytes \<Rightarrow> bytes \<Rightarrow> byte \<Rightarrow> bytes" where
  "compute_h_simple hmac kd rtx repeater =
    (let rtx_x = rtx[7 := rtx ! 7 XOR repeater] in digest_bytes (hmac kd rtx_x))"

definition compute_l_ref :: "hmac_fn \<Rightarrow> bytes \<Rightarrow> bytes \<Rightarrow> bytes \<Rightarrow> bytes" where
  "compute_l_ref hmac kd rrx rn = digest_bytes (hmac (xor_loop 24 rrx kd) rn)"

definition ske_encrypt_ks :: "aes_fn \<Rightarrow> bytes \<Rightarrow> bytes \<Rightarrow> bytes \<Rightarrow> bytes \<Rightarrow> bytes \<Rightarrow> bytes" where
  "ske_encrypt_ks aes km rtx rrx rn ks =
    (let dkey2 = derive_dkey_ref aes km rn rtx rrx 2;
         msk = xor_loop 8 rrx dkey2
     in map (\<lambda>i. ks ! i XOR msk ! i) [0..<16])"

section \<open>The receiver certificate (\<open>cert.rs\<close>)\<close>

record ReceiverCert =
  rc_receiver_id :: bytes
  rc_modulus :: bytes
  rc_exponent :: bytes
  rc_reserved :: bytes
  rc_signature :: bytes

datatype CertError = Truncated nat | BadReserved bytes | Rsa

definition cert_from_bytes :: "bytes \<Rightarrow> CertError + ReceiverCert" where
  "cert_from_bytes b =
    (if length b < 522 then Inl (Truncated (length b))
     else if get 136 2 b \<noteq> [0, 0] then Inl (BadReserved (get 136 2 b))
     else Inr \<lparr>rc_receiver_id = get 0 5 b, rc_modulus = get 5 128 b, rc_exponent = get 133 3 b, rc_reserved = get 136 2 b,
       rc_signature = get 138 384 b\<rparr>)"

text \<open>\<open>BigUint::from_bytes_be\<close>; \<open>accepts\<close> is the RSA library's own check of the key.\<close>

definition from_bytes_be :: "bytes \<Rightarrow> nat" where
  "from_bytes_be b = foldl (\<lambda>n x. n * 256 + unat x) 0 b"

definition rsa_pubkey :: "(nat \<Rightarrow> nat \<Rightarrow> bool) \<Rightarrow> ReceiverCert \<Rightarrow> CertError + (nat \<times> nat)" where
  "rsa_pubkey accepts c =
    (let n = from_bytes_be (rc_modulus c); e = from_bytes_be (rc_exponent c) in
     if accepts n e then Inr (n, e) else Inl Rsa)"

section \<open>Parsing messages (\<open>messages.rs\<close>)\<close>

datatype MessageId =
    AkeInit | AkeSendCert | AkeNoStoredKm | AkeStoredKm | AkeSendRrx | AkeSendHPrime | AkeSendPairingInfo
  | LcInit | LcSendLPrime | SkeSendEks | RepeaterAuthSendReceiverIdList | RepeaterAuthSendAck
  | RepeaterAuthStreamManage | RepeaterAuthStreamReady | ReceiverAuthStatus | AkeTransmitterInfo | AkeReceiverInfo

definition from_u8 :: "byte \<Rightarrow> MessageId option" where
  "from_u8 v =
    (if v = 0x02 then Some AkeInit else if v = 0x03 then Some AkeSendCert
     else if v = 0x04 then Some AkeNoStoredKm else if v = 0x05 then Some AkeStoredKm
     else if v = 0x06 then Some AkeSendRrx else if v = 0x07 then Some AkeSendHPrime
     else if v = 0x08 then Some AkeSendPairingInfo else if v = 0x09 then Some LcInit
     else if v = 0x0a then Some LcSendLPrime else if v = 0x0b then Some SkeSendEks
     else if v = 0x0c then Some RepeaterAuthSendReceiverIdList else if v = 0x0f then Some RepeaterAuthSendAck
     else if v = 0x10 then Some RepeaterAuthStreamManage else if v = 0x11 then Some RepeaterAuthStreamReady
     else if v = 0x12 then Some ReceiverAuthStatus else if v = 0x13 then Some AkeTransmitterInfo
     else if v = 0x14 then Some AkeReceiverInfo else None)"

datatype HdcpMessage =
    MsgAkeInit bytes bytes
  | MsgAkeSendCert bytes bytes bytes
  | MsgAkeNoStoredKm bytes
  | MsgAkeSendHPrime bytes
  | MsgAkeSendPairingInfo bytes
  | MsgUnknown byte bytes

definition message_from_bytes :: "bytes \<Rightarrow> HdcpMessage option" where
  "message_from_bytes buf =
    (if buf = [] then None
     else let id = buf ! 0; payload = drop 1 buf in
       case from_u8 id of
         None \<Rightarrow> None
       | Some m \<Rightarrow>
         (case m of
            AkeInit \<Rightarrow>
              if length payload < 11 then None else Some (MsgAkeInit (get 0 8 payload) (get 8 3 payload))
          | AkeSendCert \<Rightarrow>
              if length payload < 533 then None
              else Some (MsgAkeSendCert (get 0 522 payload) (get 522 8 payload) (get 530 3 payload))
          | AkeNoStoredKm \<Rightarrow> Some (MsgAkeNoStoredKm payload)
          | AkeSendHPrime \<Rightarrow> if length payload < 32 then None else Some (MsgAkeSendHPrime (get 0 32 payload))
          | AkeSendPairingInfo \<Rightarrow> if length payload < 16 then None else Some (MsgAkeSendPairingInfo (get 0 16 payload))
          | _ \<Rightarrow> Some (MsgUnknown id payload)))"

section \<open>Building messages (\<open>hdcp_msgs.rs\<close>)\<close>

definition DATA :: u32 where "DATA = 0x04"
definition DATA_HDCP :: u16 where "DATA_HDCP = 0x04"

text \<open>The header every body begins with; \<open>sub_size\<close> is the body's first field.\<close>

definition ref_body :: "nat \<Rightarrow> u16 \<Rightarrow> u32 \<Rightarrow> byte \<Rightarrow> bytes" where
  "ref_body body_len sub_size hdcp_seq msg_id =
    (let b = replicate body_len 0;
         b = put 0 (le16 sub_size) b;
         b = put 2 (le16 0x0010) b;
         b = put 4 (le32 hdcp_seq) b;
         b = put 22 (le32 0x00000030) b
     in b[27 := msg_id])"

definition hdcp_frame :: "u16 \<Rightarrow> u32 \<Rightarrow> bytes \<Rightarrow> frame" where
  "hdcp_frame sub_len dlm_seq bd =
    \<lparr>msg_type = DATA, sub_id = DATA_HDCP, sub_len_dw = sub_len, seq = dlm_seq, body = bd\<rparr>"

definition build_hdcp_out :: "u32 \<Rightarrow> u32 \<Rightarrow> byte \<Rightarrow> bytes \<Rightarrow> frame" where
  "build_hdcp_out hdcp_seq dlm_seq msg_id payload =
    (let unpadded = 28 + length payload;
         body_len = (unpadded + 15) div 16 * 16;
         sub_size = of_nat (body_len - 14);
         bd = ref_body body_len sub_size hdcp_seq msg_id;
         bd = put 28 payload bd
     in hdcp_frame (of_nat (body_len div 4)) dlm_seq bd)"

definition parse_hdcp_in :: "bytes \<Rightarrow> (byte \<times> bytes) option" where
  "parse_hdcp_in bd = (if length bd < 10 then None else Some (bd ! 9, drop 10 bd))"

definition ake_init_ref :: "u32 \<Rightarrow> u32 \<Rightarrow> bytes \<Rightarrow> bytes \<Rightarrow> frame" where
  "ake_init_ref hdcp_seq dlm_seq rtx tx_caps =
    (let payload = rtx @ tx_caps;
         payload = payload @ replicate (12 - length payload) 0
     in build_hdcp_out hdcp_seq dlm_seq 0x02 payload)"

definition ake_transmitter_info_ref :: "u32 \<Rightarrow> u32 \<Rightarrow> frame" where
  "ake_transmitter_info_ref hdcp_seq dlm_seq =
    (let b = ref_body 48 0x001f hdcp_seq 0x13;
         b = b[28 := 0x00]; b = b[29 := 0x06]; b = b[30 := 0x02]; b = b[31 := 0x00]; b = b[32 := 0x02]
     in hdcp_frame 0x000f dlm_seq b)"

definition ake_no_stored_km_ref :: "u32 \<Rightarrow> u32 \<Rightarrow> bytes \<Rightarrow> frame" where
  "ake_no_stored_km_ref hdcp_seq dlm_seq ekpub_km =
    hdcp_frame 0x0004 dlm_seq (put 28 ekpub_km (ref_body 160 0x009a hdcp_seq 0x04))"

definition ake_stored_km :: "u32 \<Rightarrow> u32 \<Rightarrow> bytes \<Rightarrow> bytes \<Rightarrow> frame" where
  "ake_stored_km hdcp_seq dlm_seq ekh_km m =
    build_hdcp_out hdcp_seq dlm_seq 0x05 (put 16 m (put 0 ekh_km (replicate 32 0)))"

definition lc_init_ref :: "u32 \<Rightarrow> u32 \<Rightarrow> bytes \<Rightarrow> frame" where
  "lc_init_ref hdcp_seq dlm_seq rn =
    hdcp_frame 0x000c dlm_seq (put 28 rn (ref_body 48 0x0022 hdcp_seq 0x09))"

definition repeater_auth_send_ack_ref :: "u32 \<Rightarrow> u32 \<Rightarrow> bytes \<Rightarrow> frame" where
  "repeater_auth_send_ack_ref hdcp_seq dlm_seq v =
    hdcp_frame 0x0004 dlm_seq (put 28 v (ref_body 48 0x002a hdcp_seq 0x0f))"

definition repeater_auth_stream_manage_1 :: "u32 \<Rightarrow> u32 \<Rightarrow> frame" where
  "repeater_auth_stream_manage_1 hdcp_seq dlm_seq =
    (let b = ref_body 64 0x0032 hdcp_seq 0x10;
         b = b[31 := 0x00]; b = b[32 := 0x02]; b = b[33 := 0x00]; b = b[34 := 0x04]
     in hdcp_frame 0x000c dlm_seq b)"

definition repeater_auth_stream_manage_2 :: "u32 \<Rightarrow> u32 \<Rightarrow> frame" where
  "repeater_auth_stream_manage_2 hdcp_seq dlm_seq =
    (let b = ref_body 48 0x002d hdcp_seq 0x10;
         b = put 32 [0x02, 0, 0, 0] b;
         b = put 36 [0x04, 0, 0, 0] b;
         b = b[43 := 0x05]
     in hdcp_frame 0x0001 dlm_seq b)"

definition ske_send_eks_ref :: "u32 \<Rightarrow> u32 \<Rightarrow> bytes \<Rightarrow> bytes \<Rightarrow> frame" where
  "ske_send_eks_ref hdcp_seq dlm_seq edkey_ks riv =
    (let b = ref_body 64 0x0032 hdcp_seq 0x0b;
         b = put 28 edkey_ks b;
         b = put 44 riv b
     in hdcp_frame 0x000c dlm_seq b)"

section \<open>The derivations agree\<close>

lemma length_xor_loop [simp]: "length (xor_loop off vs key) = length key"
  by (induction off vs key rule: xor_loop.induct) simp_all

lemma nth_xor_loop:
  "off + length vs \<le> length key \<Longrightarrow> i < length key \<Longrightarrow>
    xor_loop off vs key ! i = (if off \<le> i \<and> i < off + length vs then key ! i XOR vs ! (i - off) else key ! i)"
  by (induction off vs key rule: xor_loop.induct) (auto simp: nth_list_update nth_Cons')

lemma xor_loop_xor_at:
  assumes "off + length vs \<le> length key"
  shows "xor_loop off vs key = xor_at off vs key"
proof (rule nth_equalityI)
  fix i assume "i < length (xor_loop off vs key)"
  then show "xor_loop off vs key ! i = xor_at off vs key ! i"
    using assms by (auto simp: nth_xor_loop xor_at_def nth_put get_def)
qed (use assms in simp)

lemma derive_dkey_agrees:
  "length rn = 8 \<Longrightarrow> length km = 16 \<Longrightarrow> derive_dkey_ref aes km rn rtx rrx n = derive_dkey aes km rn rtx rrx n"
  by (simp add: derive_dkey_ref_def derive_dkey_def xor_loop_xor_at Let_def)

lemma derive_kd_agrees:
  assumes "length km = 16"
  shows "derive_kd_ref aes km rtx rrx = derive_kd aes km rtx rrx"
proof -
  have "put 16 b (put 0 a (replicate 32 0)) = a @ b" if "length a = 16" "length b = 16" for a b :: bytes
    using that by (simp add: put_def)
  then show ?thesis using assms by (simp add: derive_kd_ref_def derive_kd_def derive_dkey_agrees Let_def)
qed

lemma compute_agrees:
  "compute_h_simple hmac kd rtx (if repeater then 1 else 0) = compute_h hmac kd rtx repeater"
  "length rrx = 8 \<Longrightarrow> length kd = 32 \<Longrightarrow> compute_l_ref hmac kd rrx rn = compute_l hmac kd rrx rn"
  by (simp_all add: compute_h_simple_def compute_h_def compute_l_ref_def compute_l_def xor_loop_xor_at Let_def)

lemma ske_agrees:
  assumes "length km = 16" "length rn = 8" "length rrx = 8" "length ks = 16"
  shows "ske_encrypt_ks aes km rtx rrx rn ks = compute_eks aes km rtx rrx rn ks"
  using assms
  by (intro nth_equalityI) (simp_all add: ske_encrypt_ks_def compute_eks_mask derive_dkey_agrees xor_loop_xor_at Let_def)

section \<open>The messages agree\<close>

lemma ref_body_agrees: "ref_body n ss hs mid = hdcp_body n ss hs mid"
  by (simp add: ref_body_def hdcp_body_def)

lemma hdcp_frame_wrap: "frame_encode (hdcp_frame sub_len sq b) = hdcp_wrap sub_len sq b"
  by (simp add: frame_encode_header hdcp_frame_def hdcp_wrap_def push_frame_with_header DATA_def DATA_HDCP_def SUB_HDCP_def)

lemma put_zero_tail:
  assumes "\<And>i. off + length v \<le> i \<Longrightarrow> i < off + length v + k \<Longrightarrow> b ! i = 0" "off + length v + k \<le> length b"
  shows "put off (v @ replicate k 0) b = put off v b"
  by (rule nth_equalityI) (use assms in \<open>auto simp: nth_put nth_append\<close>)

lemma put_put_adjacent:
  "j = i + length v \<Longrightarrow> j + length w \<le> length b \<Longrightarrow> put j w (put i v b) = put i (v @ w) b"
  by (rule nth_equalityI) (auto simp: nth_put nth_append)

lemma put_single: "i < length b \<Longrightarrow> put i [x] b = b[i := x]"
  by (rule nth_equalityI) (auto simp: nth_put nth_list_update)

lemma ake_init_agrees:
  assumes "length rtx = 8" "length tx_caps = 3"
  shows "frame_encode (ake_init_ref hs sq rtx tx_caps) = ake_init hs sq rtx tx_caps"
proof -
  have "put 28 ((rtx @ tx_caps) @ replicate 1 0) (hdcp_body 48 34 hs 2) = put 28 (rtx @ tx_caps) (hdcp_body 48 34 hs 2)"
    by (rule put_zero_tail) (use assms in \<open>simp_all add: nth_hdcp_body_zero\<close>)
  also have "\<dots> = put 36 tx_caps (put 28 rtx (hdcp_body 48 34 hs 2))"
    using assms by (simp add: put_put_adjacent)
  finally show ?thesis
    using assms by (simp add: ake_init_ref_def ake_init_def build_hdcp_out_def ref_body_agrees hdcp_frame_wrap AKE_INIT_def Let_def)
qed

lemma transmitter_info_agrees: "frame_encode (ake_transmitter_info_ref hs sq) = ake_transmitter_info hs sq"
proof -
  have "put 28 [0, 6, 2, 0, 2] b = b[28 := 0, 29 := 6, 30 := 2, 31 := 0, 32 := 2]" if "length b = 48" for b :: bytes
    using that by (simp add: put_single [symmetric] put_put_adjacent)
  then show ?thesis
    by (simp add: ake_transmitter_info_ref_def ake_transmitter_info_def ref_body_agrees hdcp_frame_wrap AKE_TRANSMITTER_INFO_def Let_def)
qed

lemma fixed_messages_agree:
  "frame_encode (ake_no_stored_km_ref hs sq ekpub_km) = ake_no_stored_km hs sq ekpub_km"
  "frame_encode (lc_init_ref hs sq rn) = lc_init hs sq rn"
  "frame_encode (ske_send_eks_ref hs sq edkey_ks riv) = ske_send_eks hs sq edkey_ks riv"
  "frame_encode (repeater_auth_send_ack_ref hs sq v) = repeater_auth_send_ack hs sq v"
  "frame_encode (repeater_auth_stream_manage_2 hs sq) = repeater_auth_stream_manage hs sq"
  by (simp_all add: ake_no_stored_km_ref_def ake_no_stored_km_def lc_init_ref_def lc_init_def ske_send_eks_ref_def ske_send_eks_def
      repeater_auth_send_ack_ref_def repeater_auth_send_ack_def repeater_auth_stream_manage_2_def repeater_auth_stream_manage_def
      ref_body_agrees hdcp_frame_wrap hdcp_ids Let_def)

section \<open>Certificates and received messages\<close>

text \<open>A certificate is accepted exactly when it is long enough and its reserved bytes are zero, and is then its fields end to end.\<close>

lemma cert_roundtrip:
  "cert_from_bytes b = Inr c \<longleftrightarrow>
    (\<exists>rest. b = rc_receiver_id c @ rc_modulus c @ rc_exponent c @ rc_reserved c @ rc_signature c @ rest) \<and>
    length (rc_receiver_id c) = 5 \<and> length (rc_modulus c) = 128 \<and> length (rc_exponent c) = 3 \<and>
    rc_reserved c = [0, 0] \<and> length (rc_signature c) = 384"
  (is "?L \<longleftrightarrow> _")
proof
  assume L: ?L
  then have c: "522 \<le> length b" "rc_receiver_id c = get 0 5 b" "rc_modulus c = get 5 128 b" "rc_exponent c = get 133 3 b"
    "rc_reserved c = get 136 2 b" "get 136 2 b = [0, 0]" "rc_signature c = get 138 384 b"
    by (auto simp: cert_from_bytes_def not_less split: if_splits)
  have "get 0 (5 + (128 + (3 + (2 + 384)))) b =
      get 0 5 b @ get 5 128 b @ get 133 3 b @ get 136 2 b @ get 138 384 b"
    by (simp only: get_split) simp
  then have fields: "take 522 b = rc_receiver_id c @ rc_modulus c @ rc_exponent c @ rc_reserved c @ rc_signature c"
    using c by (simp add: get_def)
  have "b = take 522 b @ drop 522 b" by simp
  then have "b = (rc_receiver_id c @ rc_modulus c @ rc_exponent c @ rc_reserved c @ rc_signature c) @ drop 522 b"
    unfolding fields .
  with c show "(\<exists>rest. b = rc_receiver_id c @ rc_modulus c @ rc_exponent c @ rc_reserved c @ rc_signature c @ rest) \<and>
    length (rc_receiver_id c) = 5 \<and> length (rc_modulus c) = 128 \<and> length (rc_exponent c) = 3 \<and>
    rc_reserved c = [0, 0] \<and> length (rc_signature c) = 384"
    by auto
next
  assume "(\<exists>rest. b = rc_receiver_id c @ rc_modulus c @ rc_exponent c @ rc_reserved c @ rc_signature c @ rest) \<and>
    length (rc_receiver_id c) = 5 \<and> length (rc_modulus c) = 128 \<and> length (rc_exponent c) = 3 \<and>
    rc_reserved c = [0, 0] \<and> length (rc_signature c) = 384"
  then obtain rest where b: "b = rc_receiver_id c @ rc_modulus c @ rc_exponent c @ [0, 0] @ rc_signature c @ rest" and
    len: "length (rc_receiver_id c) = 5" "length (rc_modulus c) = 128" "length (rc_exponent c) = 3"
    "rc_reserved c = [0, 0]" "length (rc_signature c) = 384" by auto
  have "get 136 2 b = [0, 0]" "522 \<le> length b" using len by (simp_all add: b get_def)
  moreover have "get 0 5 b = rc_receiver_id c" "get 5 128 b = rc_modulus c" "get 133 3 b = rc_exponent c"
    "get 138 384 b = rc_signature c"
    using len by (simp_all add: b get_def)
  ultimately show ?L using len by (simp add: cert_from_bytes_def)
qed

text \<open>The transmitter's own opening message parses back to its fields.\<close>

lemma ake_init_parses:
  assumes "length rtx = 8" "length tx_caps = 3"
  shows "message_from_bytes (drop 27 (body (ake_init_ref hs sq rtx tx_caps))) = Some (MsgAkeInit rtx tx_caps)"
proof -
  let ?p = "rtx @ tx_caps @ [0]"
  let ?b = "put 28 ?p (ref_body 48 34 hs 2)"
  have len: "length ?b = 48" and id: "?b ! 27 = 2" and payload: "get 28 12 ?b = ?p"
    using assms by (simp_all add: ref_body_agrees)
  have "get 0 8 (get 28 12 ?b) = rtx" "get 8 3 (get 28 12 ?b) = tx_caps"
    using assms unfolding payload by (simp_all add: get_def)
  then have "get 28 8 ?b = rtx" "get 36 3 ?b = tx_caps" by (simp_all add: get_get)
  then have "get 0 8 (drop 28 ?b) = rtx" "get 8 3 (drop 28 ?b) = tx_caps" by (simp_all add: get_def)
  moreover have "body (ake_init_ref hs sq rtx tx_caps) = ?b"
    using assms by (simp add: ake_init_ref_def build_hdcp_out_def hdcp_frame_def Let_def)
  ultimately show ?thesis
    using len id by (simp add: message_from_bytes_def from_u8_def Let_def)
qed

section \<open>Properties\<close>

text \<open>
  C18: the driver's HDCP layer and the independent reference agree: the same keys, verifiers and
  masked session key from the same inputs, the same bytes on the wire for every message of the
  authentication, and the same reading of a reply.
\<close>

theorem reference_agrees:
  assumes "length km = 16" and "length rtx = 8" and "length rrx = 8" and "length rn = 8" and "length ks = 16" and "length tx_caps = 3"
  shows "derive_kd_ref aes km rtx rrx = derive_kd aes km rtx rrx \<and>
    compute_h_simple hmac (derive_kd_ref aes km rtx rrx) rtx (if repeater then 1 else 0) =
      compute_h hmac (derive_kd aes km rtx rrx) rtx repeater \<and>
    compute_l_ref hmac (derive_kd_ref aes km rtx rrx) rrx rn = compute_l hmac (derive_kd aes km rtx rrx) rrx rn \<and>
    ske_encrypt_ks aes km rtx rrx rn ks = compute_eks aes km rtx rrx rn ks \<and>
    frame_encode (ake_init_ref hs sq rtx tx_caps) = ake_init hs sq rtx tx_caps \<and>
    frame_encode (ake_transmitter_info_ref hs sq) = ake_transmitter_info hs sq \<and>
    frame_encode (ake_no_stored_km_ref hs sq ekpub_km) = ake_no_stored_km hs sq ekpub_km \<and>
    frame_encode (lc_init_ref hs sq rn) = lc_init hs sq rn \<and>
    frame_encode (ske_send_eks_ref hs sq (ske_encrypt_ks aes km rtx rrx rn ks) riv) =
      ske_send_eks hs sq (compute_eks aes km rtx rrx rn ks) riv \<and>
    frame_encode (repeater_auth_send_ack_ref hs sq v) = repeater_auth_send_ack hs sq v \<and>
    frame_encode (repeater_auth_stream_manage_2 hs sq) = repeater_auth_stream_manage hs sq \<and>
    parse_hdcp_in reply = parse_in reply"
  using assms
  by (simp add: derive_kd_agrees compute_agrees ske_agrees ake_init_agrees transmitter_info_agrees fixed_messages_agree
      parse_hdcp_in_def parse_in_def)

theorem reference_agrees_witness:
  "ske_encrypt_ks (\<lambda>k b. of_nat (length k)) (replicate 16 1) (replicate 8 2) (replicate 8 3) (replicate 8 4) (replicate 16 5) =
      compute_eks (\<lambda>k b. of_nat (length k)) (replicate 16 1) (replicate 8 2) (replicate 8 3) (replicate 8 4) (replicate 16 5) \<and>
    frame_encode (ake_init_ref 2 0 (replicate 8 2) [0, 0, 0]) = ake_init 2 0 (replicate 8 2) [0, 0, 0]"
  using reference_agrees [of "replicate 16 1" "replicate 8 2" "replicate 8 3" "replicate 8 4" "replicate 16 5" "[0, 0, 0]"
      "\<lambda>k b. of_nat (length k)" "\<lambda>k m. 0" False 2 0 "[]" "[]" "[]" "[]"] by simp

end
