(* ===== verification/Usb_Transport.thy ===== *)
theory Usb_Transport
  imports Session_Auth Dock_Profile
begin

text \<open>
  The USB transport of \<open>vino-driver/src/usb.rs\<close>: the pool of posted reads on the reply endpoint, the
  single asynchronous control write, the bounded submit-ahead window for video, the error
  translation, and opening a dock.

  libusb is not part of the repository. What the code relies on is explicit: a transfer that was
  submitted belongs to libusb until its completion callback has run, and an event pump runs callbacks
  only for transfers that libusb owns. Each turn of a waiting loop reads the clock and, if it has not
  passed the deadline, pumps events; a \<open>tick\<close> is that clock reading together with the completions the
  pump delivers, as a function of the state it finds, and \<open>honest\<close> is the law above. A theorem for
  all honest ticks is a theorem for every order and outcome of completions. A loop that is still
  waiting when the ticks run out has the value \<open>None\<close>.
\<close>

section \<open>Errors\<close>

text \<open>The variants of \<open>rusb::Error\<close> that the source names; the others by number.\<close>

datatype rusb_error = RusbIo | RusbTimeout | RusbPipe | RusbNoDevice | RusbNotFound | RusbOther | RusbVariant nat

datatype Error =
    DeviceNotFound
  | Timeout
  | Stall
  | Disconnected
  | Usb rusb_error
  | Decode
  | ShortRead nat
  | ShortWrite nat nat

fun map_err :: "rusb_error \<Rightarrow> Error" where
  "map_err RusbTimeout = Timeout"
| "map_err RusbPipe = Stall"
| "map_err RusbNoDevice = Disconnected"
| "map_err RusbNotFound = Disconnected"
| "map_err other = Usb other"

datatype transfer_status = Completed | TimedOut | Stalled | NoDevice | OtherStatus int

fun status_to_err :: "transfer_status \<Rightarrow> Error" where
  "status_to_err TimedOut = Timeout"
| "status_to_err Stalled = Stall"
| "status_to_err NoDevice = Disconnected"
| "status_to_err _ = Usb RusbOther"

section \<open>Ticks\<close>

type_synonym ('s, 'c) tick = "nat \<times> ('s \<Rightarrow> 'c list)"

text \<open>\<open>allowed callback cs s\<close>: each completion of \<open>cs\<close> is for a transfer libusb owns when it arrives.\<close>

fun allowed :: "('c \<Rightarrow> 's \<Rightarrow> 's) \<Rightarrow> ('c \<Rightarrow> 's \<Rightarrow> bool) \<Rightarrow> 'c list \<Rightarrow> 's \<Rightarrow> bool" where
  "allowed callback may [] s = True"
| "allowed callback may (c # cs) s = (may c s \<and> allowed callback may cs (callback c s))"

definition honest :: "('c \<Rightarrow> 's \<Rightarrow> 's) \<Rightarrow> ('c \<Rightarrow> 's \<Rightarrow> bool) \<Rightarrow> ('s, 'c) tick list \<Rightarrow> bool" where
  "honest callback may ticks \<longleftrightarrow> (\<forall>(now, events) \<in> set ticks. \<forall>s. allowed callback may (events s) s)"

lemma honest_Cons [simp]:
  "honest callback may ((now, events) # ticks) \<longleftrightarrow>
    (\<forall>s. allowed callback may (events s) s) \<and> honest callback may ticks"
  by (auto simp: honest_def)

text \<open>What a callback keeps, every pump keeps.\<close>

locale pumped_state =
  fixes callback :: "'c \<Rightarrow> 's \<Rightarrow> 's" and may :: "'c \<Rightarrow> 's \<Rightarrow> bool" and keeps :: "'s \<Rightarrow> bool"
  assumes callback_keeps: "keeps s \<Longrightarrow> may c s \<Longrightarrow> keeps (callback c s)"
begin

lemma pump_keeps: "keeps s \<Longrightarrow> allowed callback may cs s \<Longrightarrow> keeps (fold callback cs s)"
  by (induction cs arbitrary: s) (auto intro: callback_keeps)

end

section \<open>The pool of posted reads\<close>

definition RECV_QUEUE_DEPTH :: nat where "RECV_QUEUE_DEPTH = 4"
definition RECV_BUF_LEN :: nat where "RECV_BUF_LEN = 8192"

text \<open>
  The transfers are numbered by their position in the vector. \<open>posted\<close> is the set libusb owns; the
  code has only its cardinality, in \<open>inflight\<close>.
\<close>

record AsyncIn =
  ready :: "bytes list"
  inflight :: int
  closing :: bool
  posted :: "nat set"

text \<open>A completion: the transfer, its status, the bytes it moved, and whether resubmitting it is accepted.\<close>

type_synonym in_completion = "nat \<times> transfer_status \<times> bytes \<times> bool"

fun ep84_complete :: "in_completion \<Rightarrow> AsyncIn \<Rightarrow> AsyncIn" where
  "ep84_complete (t, status, data, accepted) s =
    (if status = Completed \<and> \<not> closing s then
       let s = (if 0 < length data then s\<lparr>ready := ready s @ [data]\<rparr> else s) in
       if accepted then s else s\<lparr>inflight := inflight s - 1, posted := posted s - {t}\<rparr>
     else s\<lparr>inflight := inflight s - 1, posted := posted s - {t}\<rparr>)"

fun may_arrive :: "in_completion \<Rightarrow> AsyncIn \<Rightarrow> bool" where
  "may_arrive (t, status, data, accepted) s \<longleftrightarrow> t \<in> posted s \<and> length data \<le> RECV_BUF_LEN"

definition pump_in :: "in_completion list \<Rightarrow> AsyncIn \<Rightarrow> AsyncIn" where
  "pump_in cs s = fold ep84_complete cs s"

text \<open>\<open>accepts t\<close> is the outcome of submitting transfer \<open>t\<close>.\<close>

definition post :: "(nat \<Rightarrow> bool) \<Rightarrow> nat \<Rightarrow> AsyncIn \<Rightarrow> AsyncIn" where
  "post accepts t s = (if accepts t then s\<lparr>inflight := inflight s + 1, posted := insert t (posted s)\<rparr> else s)"

definition AsyncIn_new :: "(nat \<Rightarrow> bool) \<Rightarrow> AsyncIn" where
  "AsyncIn_new accepts =
    fold (post accepts) [0..<RECV_QUEUE_DEPTH] \<lparr>ready = [], inflight = 0, closing = False, posted = {}\<rparr>"

text \<open>The result, the pool after it, and the ticks not used.\<close>

fun recv :: "nat \<Rightarrow> (AsyncIn, in_completion) tick list \<Rightarrow> AsyncIn \<Rightarrow>
    (Error + bytes) option \<times> AsyncIn \<times> (AsyncIn, in_completion) tick list" where
  "recv deadline ticks s =
    (case ready s of
       b # bs \<Rightarrow> (Some (Inr b), s\<lparr>ready := bs\<rparr>, ticks)
     | [] \<Rightarrow>
       if inflight s = 0 then (Some (Inl Disconnected), s, ticks)
       else case ticks of
           [] \<Rightarrow> (None, s, [])
         | (now, events) # ticks \<Rightarrow>
           if deadline \<le> now then (Some (Inl Timeout), s, ticks)
           else recv deadline ticks (pump_in (events s) s))"

declare recv.simps [simp del]

text \<open>
  \<open>Drop\<close>: cancelling makes libusb complete the transfer later, through the callback. The result is the
  pool at the moment its transfers are freed.
\<close>

fun drain_in :: "nat \<Rightarrow> (AsyncIn, in_completion) tick list \<Rightarrow> AsyncIn \<Rightarrow> AsyncIn option" where
  "drain_in deadline ticks s =
    (if 0 < inflight s then
       case ticks of
         [] \<Rightarrow> None
       | (now, events) # ticks \<Rightarrow>
         if now < deadline then drain_in deadline ticks (pump_in (events s) s) else Some s
     else Some s)"

declare drain_in.simps [simp del]

definition drop_in :: "nat \<Rightarrow> (AsyncIn, in_completion) tick list \<Rightarrow> AsyncIn \<Rightarrow> AsyncIn option" where
  "drop_in start ticks s = drain_in (start + 500) ticks (s\<lparr>closing := True\<rparr>)"

section \<open>The control write\<close>

text \<open>
  The one transfer of \<open>write_ctrl_raw_async\<close>: the shared cell its callback fills, and whether libusb
  owns it.
\<close>

record OutShared =
  out_done :: bool
  out_status :: transfer_status
  out_actual :: int
  out_owned :: bool

fun out_complete_one :: "transfer_status \<times> int \<Rightarrow> OutShared \<Rightarrow> OutShared" where
  "out_complete_one (status, actual) s =
    s\<lparr>out_done := True, out_status := status, out_actual := actual, out_owned := False\<rparr>"

fun may_complete_one :: "transfer_status \<times> int \<Rightarrow> OutShared \<Rightarrow> bool" where
  "may_complete_one (status, actual) s \<longleftrightarrow> out_owned s"

definition pump_one :: "(transfer_status \<times> int) list \<Rightarrow> OutShared \<Rightarrow> OutShared" where
  "pump_one cs s = fold out_complete_one cs s"

text \<open>The unbounded wait after a cancellation.\<close>

fun await_cancelled :: "(OutShared, transfer_status \<times> int) tick list \<Rightarrow> OutShared \<Rightarrow> OutShared option" where
  "await_cancelled ticks s =
    (if out_done s then Some s
     else case ticks of
         [] \<Rightarrow> None
       | (now, events) # ticks \<Rightarrow> await_cancelled ticks (pump_one (events s) s))"

declare await_cancelled.simps [simp del]

fun await_written :: "nat \<Rightarrow> (OutShared, transfer_status \<times> int) tick list \<Rightarrow> OutShared \<Rightarrow> (bool \<times> OutShared) option" where
  "await_written deadline ticks s =
    (if out_done s then Some (True, s)
     else case ticks of
         [] \<Rightarrow> None
       | (now, events) # ticks \<Rightarrow>
         if deadline \<le> now then map_option (\<lambda>s. (False, s)) (await_cancelled ((now, events) # ticks) s)
         else await_written deadline ticks (pump_one (events s) s))"

declare await_written.simps [simp del]

text \<open>The value returned, with the cell as it was when the transfer was freed.\<close>

definition write_ctrl_raw_async ::
  "bool \<Rightarrow> bytes \<Rightarrow> nat \<Rightarrow> (OutShared, transfer_status \<times> int) tick list \<Rightarrow> ((Error + nat) \<times> OutShared) option" where
  "write_ctrl_raw_async accepted bs deadline ticks =
    (let s = \<lparr>out_done = False, out_status = OtherStatus (- 1), out_actual = 0, out_owned = accepted\<rparr> in
     if \<not> accepted then Some (Inl (Usb RusbIo), s)
     else map_option (\<lambda>(in_time, s).
         (if \<not> in_time then Inl Timeout
          else if out_status s \<noteq> Completed then Inl (status_to_err (out_status s))
          else let actual = nat (out_actual s mod 2 ^ 64) in
            if actual \<noteq> length bs then Inl (ShortWrite actual (length bs)) else Inr actual, s))
       (await_written deadline ticks s))"

text \<open>The synchronous writes: \<open>wrote\<close> is what libusb reports.\<close>

definition write_ctrl_raw :: "rusb_error + nat \<Rightarrow> Error + nat" where
  "write_ctrl_raw wrote = (case wrote of Inl e \<Rightarrow> Inl (map_err e) | Inr n \<Rightarrow> Inr n)"

section \<open>The video window\<close>

definition PIPELINE_DEPTH :: nat where "PIPELINE_DEPTH = 8"

text \<open>
  The locals of \<open>pipeline_out\<close>. \<open>chunk_of t\<close> is the chunk whose buffer and length transfer \<open>t\<close> holds,
  \<open>owned\<close> the transfers libusb owns, and \<open>sent\<close> the pieces in the order they were submitted.
\<close>

record pipe =
  next_chunk :: nat
  submitted :: nat
  reaped :: nat
  total_bytes :: nat
  err :: "Error option"
  completions :: "(nat \<times> transfer_status \<times> int) list"
  chunk_of :: "nat \<Rightarrow> nat"
  owned :: "nat set"
  sent :: "bytes list"

definition pipe_new :: pipe where
  "pipe_new = \<lparr>next_chunk = 0, submitted = 0, reaped = 0, total_bytes = 0, err = None, completions = [],
    chunk_of = (\<lambda>_. 0), owned = {}, sent = []\<rparr>"

type_synonym out_completion = "nat \<times> transfer_status \<times> int"

fun out_complete :: "out_completion \<Rightarrow> pipe \<Rightarrow> pipe" where
  "out_complete (t, status, actual) p =
    p\<lparr>completions := completions p @ [(t, status, actual)], owned := owned p - {t}\<rparr>"

fun may_complete :: "out_completion \<Rightarrow> pipe \<Rightarrow> bool" where
  "may_complete (t, status, actual) p \<longleftrightarrow> t \<in> owned p"

definition pump_out :: "out_completion list \<Rightarrow> pipe \<Rightarrow> pipe" where
  "pump_out cs p = fold out_complete cs p"

text \<open>
  Submitting the next chunk on transfer \<open>t\<close>, which libusb may refuse (\<open>accepts t\<close> of the chunk's
  index).
\<close>

definition submit_next :: "(nat \<Rightarrow> nat \<Rightarrow> bool) \<Rightarrow> bytes list \<Rightarrow> nat \<Rightarrow> pipe \<Rightarrow> pipe" where
  "submit_next accepts pieces t p =
    (if accepts t (next_chunk p) then
       p\<lparr>chunk_of := (chunk_of p)(t := next_chunk p), owned := insert t (owned p),
         sent := sent p @ [pieces ! next_chunk p], submitted := submitted p + 1, next_chunk := next_chunk p + 1\<rparr>
     else p\<lparr>err := Some Disconnected\<rparr>)"

fun prime :: "(nat \<Rightarrow> nat \<Rightarrow> bool) \<Rightarrow> bytes list \<Rightarrow> nat list \<Rightarrow> pipe \<Rightarrow> pipe" where
  "prime accepts pieces [] p = p"
| "prime accepts pieces (t # ts) p =
    (if length pieces \<le> next_chunk p then p
     else let p = submit_next accepts pieces t p in
       if err p = None then prime accepts pieces ts p else p)"

text \<open>\<open>err.or(Some(e))\<close>\<close>

definition or_err :: "Error \<Rightarrow> Error option \<Rightarrow> Error option" where
  "or_err e x = (case x of None \<Rightarrow> Some e | Some y \<Rightarrow> Some y)"

text \<open>\<open>len as c_int\<close>, and \<open>.max(0) as usize\<close> of it.\<close>

definition c_int :: "nat \<Rightarrow> int" where
  "c_int n = sint (of_nat n :: 32 word)"

text \<open>The body of the reaping loop once a completion was popped.\<close>

fun reap_one :: "(nat \<Rightarrow> nat \<Rightarrow> bool) \<Rightarrow> bytes list \<Rightarrow> out_completion \<Rightarrow> pipe \<Rightarrow> pipe" where
  "reap_one accepts pieces (t, status, actual) p =
    (let p = p\<lparr>reaped := reaped p + 1\<rparr> in
     if status \<noteq> Completed then p\<lparr>err := or_err (status_to_err status) (err p)\<rparr>
     else
       let wanted = nat (max (c_int (length (pieces ! chunk_of p t))) 0);
           wrote = nat (max actual 0) in
       if wrote \<noteq> wanted then p\<lparr>err := or_err (ShortWrite wrote wanted) (err p)\<rparr>
       else
         let p = p\<lparr>total_bytes := total_bytes p + wrote\<rparr> in
         if err p = None \<and> next_chunk p < length pieces then submit_next accepts pieces t p else p)"

lemma completions_reap_one [simp]: "completions (reap_one accepts pieces c p) = completions p"
  by (cases c) (simp add: submit_next_def Let_def)

text \<open>The reaping loop; a tick is used up by the pump or by the reading that passed the deadline.\<close>

function reap_loop :: "(nat \<Rightarrow> nat \<Rightarrow> bool) \<Rightarrow> bytes list \<Rightarrow> nat \<Rightarrow> (pipe, out_completion) tick list \<Rightarrow> pipe \<Rightarrow>
    (pipe \<times> (pipe, out_completion) tick list) option" where
  "reap_loop accepts pieces deadline ticks p =
    (if reaped p < submitted p then
       case completions p of
         c # cs \<Rightarrow> reap_loop accepts pieces deadline ticks (reap_one accepts pieces c (p\<lparr>completions := cs\<rparr>))
       | [] \<Rightarrow>
         (case ticks of
            [] \<Rightarrow> None
          | (now, events) # ticks \<Rightarrow>
            if deadline \<le> now then Some (p\<lparr>err := or_err Timeout (err p)\<rparr>, ticks)
            else reap_loop accepts pieces deadline ticks (pump_out (events p) p))
     else Some (p, ticks))"
  by pat_completeness auto
termination
  by (relation "measures [\<lambda>(_, _, _, ticks, _). length ticks, \<lambda>(_, _, _, _, p). length (completions p)]") auto

declare reap_loop.simps [simp del]

text \<open>After the cancellations, every submitted transfer is accounted for before any is freed.\<close>

function drain_out :: "(pipe, out_completion) tick list \<Rightarrow> pipe \<Rightarrow> pipe option" where
  "drain_out ticks p =
    (if reaped p < submitted p then
       case completions p of
         c # cs \<Rightarrow> drain_out ticks (p\<lparr>completions := cs, reaped := reaped p + 1\<rparr>)
       | [] \<Rightarrow>
         (case ticks of
            [] \<Rightarrow> None
          | (now, events) # ticks \<Rightarrow> drain_out ticks (pump_out (events p) p))
     else Some p)"
  by pat_completeness auto
termination
  by (relation "measures [\<lambda>(ticks, _). length ticks, \<lambda>(_, p). length (completions p)]") auto

declare drain_out.simps [simp del]

text \<open>The value returned, with the locals as they are when the transfers are freed.\<close>

definition pipeline_out :: "(nat \<Rightarrow> nat \<Rightarrow> bool) \<Rightarrow> bytes list \<Rightarrow> nat \<Rightarrow> (pipe, out_completion) tick list \<Rightarrow>
    ((Error + nat) \<times> pipe) option" where
  "pipeline_out accepts pieces deadline ticks =
    (if pieces = [] then Some (Inr 0, pipe_new)
     else let depth = min PIPELINE_DEPTH (length pieces) in
       case reap_loop accepts pieces deadline ticks (prime accepts pieces [0..<depth] pipe_new) of
         None \<Rightarrow> None
       | Some (p, ticks) \<Rightarrow>
         map_option (\<lambda>p. (case err p of Some e \<Rightarrow> Inl e | None \<Rightarrow> Inr (total_bytes p), p)) (drain_out ticks p))"

section \<open>Opening a dock\<close>

definition VID :: u16 where "VID = 0x17e9"
definition CLASS_VENDOR :: byte where "CLASS_VENDOR = 0xff"
definition PROTOCOL_DL3 :: byte where "PROTOCOL_DL3 = 0x03"
definition MAX_HEADS :: nat where "MAX_HEADS = 4"
definition EP_INTR :: byte where "EP_INTR = 0x83"

record interface_descriptor =
  class_code :: byte
  sub_class_code :: byte
  protocol_code :: byte
  endpoint_addresses :: "byte list"

text \<open>
  A device as libusb presents it: what each request of \<open>open\<close> is answered with. \<open>active_config\<close> is the
  active configuration when the bus is searched, \<open>configured\<close> after configuration 1 was selected. The
  results of the requests that \<open>open\<close> ignores have no entry.
\<close>

record usb_device =
  device_descriptor :: "(u16 \<times> u16) option"
  active_config :: "interface_descriptor list option"
  open_device :: "rusb_error option"
  claim_control :: "rusb_error option"
  configured :: "interface_descriptor list option"
  config_head :: "rusb_error + bytes"
  config_all :: "nat \<Rightarrow> rusb_error + bytes"
  claim_status :: "rusb_error option"
  accepts_read :: "nat \<Rightarrow> bool"

definition is_dl3_display_function :: "usb_device \<Rightarrow> bool" where
  "is_dl3_display_function dev =
    (case active_config dev of
       None \<Rightarrow> False
     | Some ds \<Rightarrow> list_ex (\<lambda>d. class_code d = CLASS_VENDOR \<and> sub_class_code d = 0 \<and> protocol_code d = PROTOCOL_DL3) ds)"

definition has_endpoint :: "usb_device \<Rightarrow> byte \<Rightarrow> bool" where
  "has_endpoint dev addr =
    (case configured dev of
       None \<Rightarrow> False
     | Some ds \<Rightarrow> list_ex (\<lambda>e. e = addr) (concat (map endpoint_addresses ds)))"

text \<open>A control read fills the front of a zeroed buffer; the code does not look at how much.\<close>

definition filled :: "nat \<Rightarrow> bytes \<Rightarrow> bytes" where
  "filled n b = take n (b @ replicate n 0)"

definition CONFIG_DESCRIPTOR_MAX :: nat where "CONFIG_DESCRIPTOR_MAX = 1024"

definition read_identity :: "usb_device \<Rightarrow> Identity option" where
  "read_identity dev =
    (case config_head dev of
       Inl _ \<Rightarrow> None
     | Inr b \<Rightarrow>
       let head = filled 9 b;
           total = unat (from_le16 (head ! 2) (head ! 3)) in
       if total < length head \<or> CONFIG_DESCRIPTOR_MAX < total then None
       else case config_all dev total of
           Inl _ \<Rightarrow> None
         | Inr b \<Rightarrow> Identity_parse (filled total b))"

fun find_open :: "usb_device list \<Rightarrow> Error + (usb_device \<times> u16)" where
  "find_open [] = Inl DeviceNotFound"
| "find_open (dev # devs) =
    (case device_descriptor dev of
       None \<Rightarrow> find_open devs
     | Some (vendor, product) \<Rightarrow>
       if vendor \<noteq> VID \<or> \<not> is_dl3_display_function dev then find_open devs
       else case open_device dev of Some e \<Rightarrow> Inl (map_err e) | None \<Rightarrow> Inr (dev, product))"

record Placement =
  placed_name :: string
  placed_endpoints :: "byte list"
  placed_connectors :: nat

text \<open>The connector loop: it stops at the first connector past the placement's count or not exposed.\<close>

fun claim_heads :: "(byte \<Rightarrow> bool) \<Rightarrow> nat \<Rightarrow> nat \<Rightarrow> byte list \<Rightarrow> byte list" where
  "claim_heads exposes limit n [] = []"
| "claim_heads exposes limit n (addr # addrs) =
    (if limit \<le> n \<or> \<not> exposes addr then [] else addr # claim_heads exposes limit (n + 1) addrs)"

record UsbDock =
  ep84 :: AsyncIn
  usb_placement :: Placement
  usb_identity :: "Identity option"
  usb_video :: "byte option list"
  usb_connectors :: nat
  usb_has_intr :: bool

definition open_placed :: "(Family option \<Rightarrow> u16 \<Rightarrow> Placement option) \<Rightarrow> usb_device \<Rightarrow> u16 \<Rightarrow> Error + UsbDock" where
  "open_placed place dev product =
    (case claim_control dev of
       Some e \<Rightarrow> Inl (map_err e)
     | None \<Rightarrow>
       let identity = read_identity dev in
       case place (case identity of None \<Rightarrow> None | Some i \<Rightarrow> family i) product of
         None \<Rightarrow> Inl DeviceNotFound
       | Some placement \<Rightarrow>
         let heads = claim_heads (has_endpoint dev) (placed_connectors placement) 0 (take MAX_HEADS (placed_endpoints placement)) in
         if heads = [] then Inl DeviceNotFound
         else Inr \<lparr>ep84 = AsyncIn_new (accepts_read dev), usb_placement = placement, usb_identity = identity,
           usb_video = map Some heads @ replicate (MAX_HEADS - length heads) None, usb_connectors = length heads,
           usb_has_intr = (case claim_status dev of None \<Rightarrow> has_endpoint dev EP_INTR | Some _ \<Rightarrow> False)\<rparr>)"

text \<open>\<open>bus\<close> is the context and the device list, or the error that creating or listing gave.\<close>

definition dock_open ::
  "rusb_error + usb_device list \<Rightarrow> (Family option \<Rightarrow> u16 \<Rightarrow> Placement option) \<Rightarrow> Error + UsbDock" where
  "dock_open bus place =
    (case bus of
       Inl e \<Rightarrow> Inl (map_err e)
     | Inr devs \<Rightarrow>
       (case find_open devs of Inl e \<Rightarrow> Inl e | Inr (dev, product) \<Rightarrow> open_placed place dev product))"

section \<open>The requests of an open dock\<close>

definition video_ep :: "UsbDock \<Rightarrow> nat \<Rightarrow> Error + byte" where
  "video_ep d head =
    (case (if head < length (usb_video d) then usb_video d ! head else None) of
       None \<Rightarrow> Inl Disconnected
     | Some ep \<Rightarrow> Inr ep)"

text \<open>\<open>write_bulk ep bs\<close> is libusb's answer to a synchronous bulk write.\<close>

definition write_video :: "UsbDock \<Rightarrow> (byte \<Rightarrow> bytes \<Rightarrow> rusb_error + nat) \<Rightarrow> nat \<Rightarrow> bytes \<Rightarrow> Error + nat" where
  "write_video d write_bulk head bs =
    (case video_ep d head of
       Inl e \<Rightarrow> Inl e
     | Inr ep \<Rightarrow>
       (case write_bulk ep bs of
          Inl e \<Rightarrow> Inl (map_err e)
        | Inr written \<Rightarrow> if written = length bs then Inr written else Inl (ShortWrite written (length bs))))"

definition write_video_frame ::
  "UsbDock \<Rightarrow> (byte \<Rightarrow> nat \<Rightarrow> nat \<Rightarrow> bool) \<Rightarrow> nat \<Rightarrow> bytes list \<Rightarrow> nat \<Rightarrow> (pipe, out_completion) tick list \<Rightarrow>
    ((Error + nat) \<times> pipe) option" where
  "write_video_frame d accepts head pieces deadline ticks =
    (case video_ep d head of
       Inl e \<Rightarrow> Some (Inl e, pipe_new)
     | Inr ep \<Rightarrow> pipeline_out (accepts ep) pieces deadline ticks)"

definition clear_video_halt :: "UsbDock \<Rightarrow> (byte \<Rightarrow> rusb_error option) \<Rightarrow> nat \<Rightarrow> Error + unit" where
  "clear_video_halt d clear_halt head =
    (case video_ep d head of
       Inl e \<Rightarrow> Inl e
     | Inr ep \<Rightarrow> (case clear_halt ep of Some e \<Rightarrow> Inl (map_err e) | None \<Rightarrow> Inr ()))"

definition read_intr :: "UsbDock \<Rightarrow> rusb_error + nat \<Rightarrow> Error + nat" where
  "read_intr d answer =
    (if \<not> usb_has_intr d then Inl Disconnected
     else case answer of
         Inr n \<Rightarrow> Inr n
       | Inl e \<Rightarrow> if e = RusbTimeout then Inr 0 else Inl (map_err e))"

text \<open>
  Control transfers: \<open>read_control\<close> and \<open>write_control\<close> are libusb's answers to a request type, request,
  value, index and length or data.
\<close>

type_synonym control_read = "byte \<Rightarrow> byte \<Rightarrow> u16 \<Rightarrow> u16 \<Rightarrow> nat \<Rightarrow> rusb_error + bytes"
type_synonym control_write = "byte \<Rightarrow> byte \<Rightarrow> u16 \<Rightarrow> u16 \<Rightarrow> bytes \<Rightarrow> rusb_error option"

definition RT_VENDOR_IN_IFACE :: byte where "RT_VENDOR_IN_IFACE = 0xc1"
definition RT_VENDOR_OUT_DEV :: byte where "RT_VENDOR_OUT_DEV = 0x40"
definition RT_STD_IN_DEV :: byte where "RT_STD_IN_DEV = 0x80"
definition RT_STD_OUT_IFACE :: byte where "RT_STD_OUT_IFACE = 0x01"
definition RT_STD_OUT_DEV :: byte where "RT_STD_OUT_DEV = 0x00"
definition RT_CLASS_OUT_DEV :: byte where "RT_CLASS_OUT_DEV = 0x20"

text \<open>\<open>.map_err(map_err)\<close>\<close>

definition normalised :: "rusb_error + 'a \<Rightarrow> Error + 'a" where
  "normalised r = (case r of Inl e \<Rightarrow> Inl (map_err e) | Inr a \<Rightarrow> Inr a)"

definition acknowledged :: "rusb_error option \<Rightarrow> Error + unit" where
  "acknowledged r = (case r of Some e \<Rightarrow> Inl (map_err e) | None \<Rightarrow> Inr ())"

definition vendor_in :: "control_read \<Rightarrow> byte \<Rightarrow> u16 \<Rightarrow> u16 \<Rightarrow> u16 \<Rightarrow> Error + bytes" where
  "vendor_in read_control request val index len = normalised (read_control RT_VENDOR_IN_IFACE request val index (unat len))"

definition vendor_out :: "control_write \<Rightarrow> byte \<Rightarrow> u16 \<Rightarrow> u16 \<Rightarrow> bytes \<Rightarrow> Error + unit" where
  "vendor_out write_control request val index data = acknowledged (write_control RT_VENDOR_OUT_DEV request val index data)"

definition std_in :: "control_read \<Rightarrow> byte \<Rightarrow> u16 \<Rightarrow> u16 \<Rightarrow> u16 \<Rightarrow> Error + bytes" where
  "std_in read_control request val index len = normalised (read_control RT_STD_IN_DEV request val index (unat len))"

definition std_out_iface :: "control_write \<Rightarrow> byte \<Rightarrow> u16 \<Rightarrow> u16 \<Rightarrow> bytes \<Rightarrow> Error + unit" where
  "std_out_iface write_control request val index data = acknowledged (write_control RT_STD_OUT_IFACE request val index data)"

definition class_out_device :: "control_write \<Rightarrow> byte \<Rightarrow> u16 \<Rightarrow> u16 \<Rightarrow> bytes \<Rightarrow> Error + unit" where
  "class_out_device write_control request val index data = acknowledged (write_control RT_CLASS_OUT_DEV request val index data)"

definition claim_interface :: "(byte \<Rightarrow> rusb_error option) \<Rightarrow> byte \<Rightarrow> Error + unit" where
  "claim_interface claim iface = acknowledged (claim iface)"

definition ctrl_noop :: "control_write \<Rightarrow> Error + unit" where
  "ctrl_noop write_control = (let _ = write_control RT_STD_OUT_DEV 0 0 0 [] in Inr ())"

text \<open>\<open>submit_video\<close> of the session: a timeout is answered by offering the frame once more.\<close>

definition submit_video_usb ::
  "UsbDock \<Rightarrow> (byte \<Rightarrow> nat \<Rightarrow> nat \<Rightarrow> bool) \<Rightarrow> nat \<Rightarrow> bytes list \<Rightarrow>
    nat \<times> (pipe, out_completion) tick list \<Rightarrow> nat \<times> (pipe, out_completion) tick list \<Rightarrow> ((Error + unit) \<times> bytes list) option" where
  "submit_video_usb d accepts head pieces = (\<lambda>(deadline, ticks) (deadline', ticks').
    case write_video_frame d accepts head pieces deadline ticks of
      None \<Rightarrow> None
    | Some (Inr _, p) \<Rightarrow> Some (Inr (), sent p)
    | Some (Inl Timeout, p) \<Rightarrow>
      map_option (\<lambda>(r, p'). (case r of Inr _ \<Rightarrow> Inr () | Inl e \<Rightarrow> Inl e, sent p @ sent p'))
        (write_video_frame d accepts head pieces deadline' ticks')
    | Some (Inl e, p) \<Rightarrow> Some (Inl e, sent p))"

section \<open>The pool keeps count and order\<close>

definition pool_ok :: "AsyncIn \<Rightarrow> bool" where
  "pool_ok s \<longleftrightarrow> inflight s = int (card (posted s)) \<and> posted s \<subseteq> {..<RECV_QUEUE_DEPTH}"

lemma pool_finite: "pool_ok s \<Longrightarrow> finite (posted s)"
  by (auto simp: pool_ok_def intro: finite_subset)

lemma pool_ok_complete:
  assumes "pool_ok s" "may_arrive c s"
  shows "pool_ok (ep84_complete c s)"
proof -
  obtain t status data accepted where c: "c = (t, status, data, accepted)" by (cases c)
  have "t \<in> posted s" using assms c by simp
  then have "card (posted s) = Suc (card (posted s - {t}))"
    by (rule card.remove [OF pool_finite [OF assms(1)]])
  then show ?thesis using assms c by (auto simp: pool_ok_def Let_def)
qed

interpretation pool: pumped_state ep84_complete may_arrive pool_ok
  by unfold_locales (rule pool_ok_complete)

lemma posting:
  assumes "n \<le> RECV_QUEUE_DEPTH" and s: "s = fold (post accepts) [0..<n] \<lparr>ready = [], inflight = 0, closing = False, posted = {}\<rparr>"
  shows "pool_ok s \<and> posted s \<subseteq> {..<n} \<and> ready s = [] \<and> \<not> closing s"
  using assms
proof (induction n arbitrary: s)
  case (Suc n)
  then show ?case by (auto simp: pool_ok_def post_def lessThan_Suc finite_subset card_insert_if)
qed (simp add: pool_ok_def)

lemmas new_pool = posting [OF order_refl AsyncIn_new_def]

text \<open>
  Every interleaving of completions and readers: \<open>arrived\<close> is what the dock sent, \<open>handed\<close> what
  callers were given.
\<close>

fun arrival :: "in_completion \<Rightarrow> bytes list" where
  "arrival (t, status, data, accepted) = (if status = Completed \<and> data \<noteq> [] then [data] else [])"

inductive ep84_run :: "bytes list \<Rightarrow> bytes list \<Rightarrow> AsyncIn \<Rightarrow> bool" where
  opened: "ep84_run [] [] (AsyncIn_new accepts)"
| completed: "ep84_run arrived handed s \<Longrightarrow> may_arrive c s \<Longrightarrow>
    ep84_run (arrived @ arrival c) handed (ep84_complete c s)"
| taken: "ep84_run arrived handed s \<Longrightarrow> ready s = b # bs \<Longrightarrow>
    ep84_run arrived (handed @ [b]) (s\<lparr>ready := bs\<rparr>)"

lemma ep84_run_inv:
  "ep84_run arrived handed s \<Longrightarrow> pool_ok s \<and> \<not> closing s \<and> arrived = handed @ ready s"
proof (induction rule: ep84_run.induct)
  case (completed arrived handed s c)
  obtain t status data accepted where c: "c = (t, status, data, accepted)" by (cases c)
  have "ready (ep84_complete c s) = ready s @ arrival c \<and> \<not> closing (ep84_complete c s)"
    using completed c by (auto simp: Let_def)
  with completed show ?case by (simp add: pool_ok_complete)
next
  case (taken arrived handed s b bs)
  then show ?case by (simp add: pool_ok_def)
qed (simp add: new_pool)

lemma ep84_run_pump:
  "ep84_run arrived handed s \<Longrightarrow> allowed ep84_complete may_arrive cs s \<Longrightarrow>
    \<exists>more. ep84_run (arrived @ more) handed (pump_in cs s)"
proof (induction cs arbitrary: arrived s)
  case Nil
  then show ?case by (auto simp: pump_in_def intro: exI [of _ "[]"])
next
  case (Cons c cs)
  then have "ep84_run (arrived @ arrival c) handed (ep84_complete c s)" by (simp add: ep84_run.completed)
  from Cons.IH [OF this] Cons.prems(2) show ?case by (auto simp: pump_in_def)
qed

lemma recv_run:
  assumes "ep84_run arrived handed s" "honest ep84_complete may_arrive ticks" "recv deadline ticks s = (Some r, s', rest)"
  shows "\<exists>more. ep84_run (arrived @ more) (handed @ (case r of Inl e \<Rightarrow> [] | Inr b \<Rightarrow> [b])) s' \<and>
    (\<forall>e. r = Inl e \<longrightarrow> ready s' = [] \<and> (e = Disconnected \<and> posted s' = {} \<or> e = Timeout \<and> posted s' \<noteq> {}))"
  using assms
proof (induction deadline ticks s arbitrary: arrived rule: recv.induct)
  case (1 deadline ticks s)
  note run = 1(2) and ret = 1(4)
  have none: "inflight s = 0 \<longleftrightarrow> posted s = {}"
    using ep84_run_inv [OF run] pool_finite [of s] by (auto simp: pool_ok_def)
  show ?case
  proof (cases "ready s")
    case (Cons b bs)
    then show ?thesis using ep84_run.taken [OF run Cons] ret by (auto simp: recv.simps [of deadline] intro!: exI [of _ "[]"])
  next
    case Nil
    show ?thesis
    proof (cases "inflight s = 0")
      case True
      with Nil none run ret show ?thesis by (auto simp: recv.simps [of deadline] intro!: exI [of _ "[]"])
    next
      case False
      then obtain now events rest' where ticks: "ticks = (now, events) # rest'"
        using Nil ret by (cases ticks) (auto simp: recv.simps [of deadline])
      show ?thesis
      proof (cases "deadline \<le> now")
        case True
        with Nil False none run ret ticks show ?thesis by (auto simp: recv.simps [of deadline] intro!: exI [of _ "[]"])
      next
        case early: False
        from ep84_run_pump [OF run] 1(3) ticks obtain more where
          pumped: "ep84_run (arrived @ more) handed (pump_in (events s) s)" by auto
        have "recv deadline rest' (pump_in (events s) s) = (Some r, s', rest)" and "honest ep84_complete may_arrive rest'"
          using 1(3) ret ticks Nil False early by (simp_all add: recv.simps [of deadline "(now, events) # rest'" s])
        from 1(1) [OF Nil False ticks refl early pumped this(2,1)] show ?thesis by force
      qed
    qed
  qed
qed

lemma recv_returns:
  assumes "(now, events) \<in> set ticks" "deadline \<le> now"
  shows "\<exists>r s' rest. recv deadline ticks s = (Some r, s', rest)"
  using assms(1)
proof (induction ticks arbitrary: s)
  case (Cons tick ticks)
  then show ?case using assms(2) by (cases "ready s") (auto simp: recv.simps [of deadline "tick # ticks"] split: prod.split)
qed simp

section \<open>A control write owns nothing when it returns\<close>

definition one_ok :: "OutShared \<Rightarrow> bool" where
  "one_ok s \<longleftrightarrow> out_owned s = (\<not> out_done s)"

interpretation one: pumped_state out_complete_one may_complete_one one_ok
  by unfold_locales (auto simp: one_ok_def)

lemma pump_one_ok: "one_ok s \<Longrightarrow> allowed out_complete_one may_complete_one cs s \<Longrightarrow> one_ok (pump_one cs s)"
  unfolding pump_one_def by (rule one.pump_keeps)

lemma await_cancelled_idle:
  "one_ok s \<Longrightarrow> honest out_complete_one may_complete_one ticks \<Longrightarrow> await_cancelled ticks s = Some s' \<Longrightarrow> out_done s' \<and> one_ok s'"
proof (induction ticks arbitrary: s)
  case (Cons tick ticks)
  obtain now events where tick: "tick = (now, events)" by fastforce
  show ?case
    using Cons.prems Cons.IH [of "pump_one (events s) s"] pump_one_ok [of s "events s"] tick
    by (cases "out_done s") (auto simp: await_cancelled.simps [of "(now, events) # ticks"])
qed (auto simp: await_cancelled.simps split: if_splits)

lemma await_written_idle:
  "one_ok s \<Longrightarrow> honest out_complete_one may_complete_one ticks \<Longrightarrow> await_written deadline ticks s = Some (b, s') \<Longrightarrow>
    out_done s' \<and> one_ok s'"
proof (induction ticks arbitrary: s)
  case (Cons tick ticks)
  obtain now events where tick: "tick = (now, events)" by fastforce
  show ?case
    using Cons.prems Cons.IH [of "pump_one (events s) s"] pump_one_ok [of s "events s"] await_cancelled_idle [of s "tick # ticks" s'] tick
    by (cases "out_done s") (auto simp: await_written.simps [of _ "(now, events) # ticks"] split: if_splits)
qed (auto simp: await_written.simps split: if_splits)

lemma control_write_settled:
  assumes "honest out_complete_one may_complete_one ticks" "write_ctrl_raw_async accepted bs deadline ticks = Some (r, s)"
  shows "\<not> out_owned s" and "r = Inr n \<Longrightarrow> n = length bs \<and> out_status s = Completed"
proof -
  show "\<not> out_owned s"
    using assms await_written_idle [of "\<lparr>out_done = False, out_status = OtherStatus (- 1), out_actual = 0, out_owned = True\<rparr>" ticks deadline _ s]
    by (auto simp: write_ctrl_raw_async_def one_ok_def Let_def split: if_splits)
  show "n = length bs \<and> out_status s = Completed" if "r = Inr n"
    using assms(2) that by (auto simp: write_ctrl_raw_async_def Let_def split: if_splits)
qed

section \<open>The window accounts for every chunk\<close>

definition outstanding :: "pipe \<Rightarrow> nat set" where
  "outstanding p = owned p \<union> fst ` set (completions p)"

definition pipe_counts :: "bytes list \<Rightarrow> pipe \<Rightarrow> bool" where
  "pipe_counts pieces p \<longleftrightarrow> submitted p = next_chunk p \<and> next_chunk p \<le> length pieces \<and> sent p = take (next_chunk p) pieces \<and>
    outstanding p \<subseteq> {..<PIPELINE_DEPTH} \<and> distinct (map fst (completions p)) \<and> owned p \<inter> fst ` set (completions p) = {} \<and>
    reaped p + card (outstanding p) = submitted p \<and> (\<forall>t\<in>outstanding p. chunk_of p t < next_chunk p)"

definition pipe_sums :: "bytes list \<Rightarrow> pipe \<Rightarrow> bool" where
  "pipe_sums pieces p \<longleftrightarrow> (err p = None \<longrightarrow>
    total_bytes p + (\<Sum>t\<in>outstanding p. length (pieces ! chunk_of p t)) = length (concat (sent p)) \<and>
    (next_chunk p = length pieces \<or> outstanding p \<noteq> {}))"

definition pipe_ok :: "bytes list \<Rightarrow> pipe \<Rightarrow> bool" where
  "pipe_ok pieces p \<longleftrightarrow> pipe_counts pieces p \<and> pipe_sums pieces p"

lemma outstanding_finite: "pipe_counts pieces p \<Longrightarrow> finite (outstanding p)"
  by (auto simp: pipe_counts_def intro: finite_subset)

lemma outstanding_complete: "may_complete c p \<Longrightarrow> outstanding (out_complete c p) = outstanding p"
  by (cases c) (auto simp: outstanding_def)

lemma pipe_counts_complete:
  assumes "pipe_counts pieces p" "may_complete c p"
  shows "pipe_counts pieces (out_complete c p)"
  using assms outstanding_complete [OF assms(2)] by (cases c) (auto simp: pipe_counts_def)

lemma pipe_sums_complete:
  assumes "pipe_sums pieces p" "may_complete c p"
  shows "pipe_sums pieces (out_complete c p)"
  using assms outstanding_complete [OF assms(2)] by (cases c) (auto simp: pipe_sums_def)

interpretation counts: pumped_state out_complete may_complete "pipe_counts pieces" for pieces
  by unfold_locales (rule pipe_counts_complete)

interpretation window: pumped_state out_complete may_complete "pipe_ok pieces" for pieces
  by unfold_locales (simp add: pipe_ok_def pipe_counts_complete pipe_sums_complete)

lemma pump_out_ok:
  "pipe_counts pieces p \<Longrightarrow> allowed out_complete may_complete cs p \<Longrightarrow> pipe_counts pieces (pump_out cs p)"
  "pipe_ok pieces p \<Longrightarrow> allowed out_complete may_complete cs p \<Longrightarrow> pipe_ok pieces (pump_out cs p)"
  unfolding pump_out_def by (rule counts.pump_keeps window.pump_keeps; assumption)+

lemma pump_out_other [simp]:
  "err (pump_out cs p) = err p" "submitted (pump_out cs p) = submitted p" "reaped (pump_out cs p) = reaped p"
  "next_chunk (pump_out cs p) = next_chunk p" "sent (pump_out cs p) = sent p" "total_bytes (pump_out cs p) = total_bytes p"
proof -
  have "err (pump_out cs p) = err p \<and> submitted (pump_out cs p) = submitted p \<and> reaped (pump_out cs p) = reaped p \<and>
    next_chunk (pump_out cs p) = next_chunk p \<and> sent (pump_out cs p) = sent p \<and> total_bytes (pump_out cs p) = total_bytes p"
    by (induction cs arbitrary: p) (auto simp: pump_out_def)
  then show "err (pump_out cs p) = err p" "submitted (pump_out cs p) = submitted p" "reaped (pump_out cs p) = reaped p"
    "next_chunk (pump_out cs p) = next_chunk p" "sent (pump_out cs p) = sent p" "total_bytes (pump_out cs p) = total_bytes p"
    by simp_all
qed

text \<open>Submitting on a transfer that is idle.\<close>

lemma submit_next_counts:
  assumes "pipe_counts pieces p" "next_chunk p < length pieces" "t \<notin> outstanding p" "t < PIPELINE_DEPTH"
  shows "pipe_counts pieces (submit_next accepts pieces t p)"
proof -
  have "card (insert t (outstanding p)) = Suc (card (outstanding p))"
    using assms(3) outstanding_finite [OF assms(1)] by simp
  then show ?thesis
    using assms by (auto simp: pipe_counts_def submit_next_def outstanding_def take_Suc_conv_app_nth less_Suc_eq)
qed

lemma submit_next_sums:
  assumes "pipe_counts pieces p" "next_chunk p < length pieces" "t \<notin> outstanding p"
    "err p = None \<Longrightarrow> total_bytes p + (\<Sum>t\<in>outstanding p. length (pieces ! chunk_of p t)) = length (concat (sent p))"
  shows "pipe_sums pieces (submit_next accepts pieces t p)"
proof (cases "accepts t (next_chunk p)")
  case True
  let ?q = "submit_next accepts pieces t p"
  have out: "outstanding ?q = insert t (outstanding p)" using True by (simp add: submit_next_def outstanding_def)
  have "(\<Sum>u\<in>outstanding p. length (pieces ! chunk_of ?q u)) = (\<Sum>u\<in>outstanding p. length (pieces ! chunk_of p u))"
    using assms(3) True by (intro sum.cong) (auto simp: submit_next_def)
  moreover have "(\<Sum>u\<in>outstanding ?q. length (pieces ! chunk_of ?q u)) =
      length (pieces ! next_chunk p) + (\<Sum>u\<in>outstanding p. length (pieces ! chunk_of ?q u))"
    unfolding out using assms(3) outstanding_finite [OF assms(1)] True by (simp add: submit_next_def)
  ultimately show ?thesis using assms(4) True out by (auto simp: pipe_sums_def submit_next_def)
qed (simp add: submit_next_def pipe_sums_def)

lemma prime_ok:
  assumes "pipe_counts pieces p"
    "err p = None" "total_bytes p + (\<Sum>t\<in>outstanding p. length (pieces ! chunk_of p t)) = length (concat (sent p))"
    "distinct ts" "set ts \<inter> outstanding p = {}" "set ts \<subseteq> {..<PIPELINE_DEPTH}"
    "next_chunk p = length pieces \<or> outstanding p \<noteq> {} \<or> ts \<noteq> []"
  shows "pipe_ok pieces (prime accepts pieces ts p)"
  using assms
proof (induction ts arbitrary: p)
  case Nil
  then show ?case by (simp add: pipe_ok_def pipe_sums_def)
next
  case (Cons t ts)
  show ?case
  proof (cases "length pieces \<le> next_chunk p")
    case True
    then show ?thesis using Cons.prems by (auto simp: pipe_ok_def pipe_sums_def pipe_counts_def)
  next
    case False
    let ?q = "submit_next accepts pieces t p"
    have counts: "pipe_counts pieces ?q" by (rule submit_next_counts) (use Cons.prems False in auto)
    have sums: "pipe_sums pieces ?q" by (rule submit_next_sums) (use Cons.prems False in auto)
    show ?thesis
    proof (cases "err ?q = None")
      case True
      then have out: "outstanding ?q = insert t (outstanding p)"
        by (auto simp: submit_next_def outstanding_def split: if_splits)
      have "pipe_ok pieces (prime accepts pieces ts ?q)"
        by (rule Cons.IH [OF counts True]) (use Cons.prems sums True out in \<open>auto simp: pipe_sums_def\<close>)
      with True False show ?thesis by (simp add: Let_def)
    next
      case failed: False
      with False counts sums show ?thesis by (auto simp: Let_def pipe_ok_def)
    qed
  qed
qed

lemma popped:
  assumes "pipe_counts pieces p" "completions p = (t, status, actual) # cs"
  defines "q \<equiv> p\<lparr>completions := cs, reaped := reaped p + 1\<rparr>"
  shows "pipe_counts pieces q" "t \<notin> outstanding q" "t < PIPELINE_DEPTH" "outstanding p = insert t (outstanding q)"
proof -
  show out: "outstanding p = insert t (outstanding q)" using assms(2) by (auto simp: q_def outstanding_def)
  show t: "t \<notin> outstanding q" using assms(1,2) by (auto simp: q_def outstanding_def pipe_counts_def)
  show "t < PIPELINE_DEPTH" using assms(1) out by (auto simp: pipe_counts_def)
  have "finite (outstanding q)" using outstanding_finite [OF assms(1)] out by simp
  then have "card (outstanding p) = Suc (card (outstanding q))" using out t by simp
  then show "pipe_counts pieces q" using assms(1,2) out by (auto simp: q_def pipe_counts_def)
qed

lemma c_int_small: "n < 2 ^ 31 \<Longrightarrow> nat (max (c_int n) 0) = n"
  by (simp add: c_int_def signed_of_nat signed_take_bit_int_eq_self)

lemma or_err_not_None [simp]: "or_err e x \<noteq> None"
  by (cases x) (simp_all add: or_err_def)

lemma pipe_sums_error [simp]: "pipe_sums pieces (p\<lparr>err := or_err e x\<rparr>)"
  by (simp add: pipe_sums_def)

lemma pipe_counts_cong:
  "pipe_counts pieces (p\<lparr>err := e\<rparr>) = pipe_counts pieces p" "pipe_counts pieces (p\<lparr>total_bytes := n\<rparr>) = pipe_counts pieces p"
  by (simp_all add: pipe_counts_def outstanding_def)

lemma outstanding_cong [simp]:
  "outstanding (p\<lparr>err := e\<rparr>) = outstanding p" "outstanding (p\<lparr>total_bytes := n\<rparr>) = outstanding p"
  by (simp_all add: outstanding_def)

lemma reap_one_ok:
  assumes ok: "pipe_ok pieces p" and c: "completions p = c # cs" and small: "\<forall>c\<in>set pieces. length c < 2 ^ 31"
  shows "pipe_ok pieces (reap_one accepts pieces c (p\<lparr>completions := cs\<rparr>))"
proof -
  obtain t status actual where [simp]: "c = (t, status, actual)" by (cases c)
  define q where "q = p\<lparr>completions := cs, reaped := reaped p + 1\<rparr>"
  note pop = popped [OF ok [unfolded pipe_ok_def, THEN conjunct1] c [simplified], folded q_def]
  define wrote where "wrote = nat (max actual 0)"
  define wanted where "wanted = nat (max (c_int (length (pieces ! chunk_of p t))) 0)"
  define q' where "q' = q\<lparr>total_bytes := total_bytes p + wrote\<rparr>"
  have result: "reap_one accepts pieces c (p\<lparr>completions := cs\<rparr>) =
    (if status \<noteq> Completed then q\<lparr>err := or_err (status_to_err status) (err p)\<rparr>
     else if wrote \<noteq> wanted then q\<lparr>err := or_err (ShortWrite wrote wanted) (err p)\<rparr>
     else if err p = None \<and> next_chunk p < length pieces then submit_next accepts pieces t q' else q')"
    by (simp add: q_def q'_def wrote_def wanted_def Let_def)
  have sums: "total_bytes q' + (\<Sum>u\<in>outstanding q'. length (pieces ! chunk_of q' u)) = length (concat (sent q'))"
    if "wrote = wanted" "err p = None" and inside: "chunk_of p t < length pieces"
  proof -
    have "wrote = length (pieces ! chunk_of p t)"
      using that small c_int_small by (simp add: wanted_def)
    moreover have "(\<Sum>u\<in>outstanding p. length (pieces ! chunk_of p u)) =
        length (pieces ! chunk_of p t) + (\<Sum>u\<in>outstanding q. length (pieces ! chunk_of p u))"
      unfolding pop(4) using pop(2) outstanding_finite [OF pop(1)] by simp
    ultimately show ?thesis using ok \<open>err p = None\<close> by (simp add: pipe_ok_def pipe_sums_def q'_def q_def)
  qed
  have "chunk_of p t < next_chunk p" "next_chunk p \<le> length pieces"
    using ok pop(4) by (auto simp: pipe_ok_def pipe_counts_def)
  then have inside: "chunk_of p t < length pieces" by simp
  have counts: "pipe_counts pieces q'" "t \<notin> outstanding q'"
    using pop(1,2) by (simp_all add: q'_def pipe_counts_cong)
  have fields: "err q' = err p" "next_chunk q' = next_chunk p" by (simp_all add: q'_def q_def)
  have "pipe_ok pieces (submit_next accepts pieces t q')"
    if "wrote = wanted" "err p = None" "next_chunk p < length pieces"
    unfolding pipe_ok_def
    using submit_next_counts [OF counts(1) _ counts(2) pop(3)] submit_next_sums [OF counts(1) _ counts(2) sums]
      that inside fields by simp
  moreover have "pipe_ok pieces q'" if "wrote = wanted" "\<not> (err p = None \<and> next_chunk p < length pieces)"
    using that sums inside counts(1) fields \<open>next_chunk p \<le> length pieces\<close> by (auto simp: pipe_ok_def pipe_sums_def)
  ultimately show ?thesis
    unfolding result using pop(1) by (auto simp: pipe_ok_def pipe_counts_cong)
qed

lemma reap_loop_ok:
  assumes "pipe_ok pieces p" "honest out_complete may_complete ticks" "\<forall>c\<in>set pieces. length c < 2 ^ 31"
    "reap_loop accepts pieces deadline ticks p = Some (p', rest)"
  shows "pipe_ok pieces p' \<and> honest out_complete may_complete rest \<and> (err p' = None \<longrightarrow> \<not> reaped p' < submitted p')"
  using assms
proof (induction accepts pieces deadline ticks p rule: reap_loop.induct)
  case (1 accepts pieces deadline ticks p)
  note loop = reap_loop.simps [of accepts pieces deadline ticks p]
  show ?case
  proof (cases "reaped p < submitted p")
    case busy: True
    show ?thesis
    proof (cases "completions p")
      case (Cons c cs)
      from 1(2) [OF busy Cons reap_one_ok [OF 1(3) Cons 1(5)] 1(4,5)] 1(6) loop busy Cons show ?thesis by simp
    next
      case Nil
      then obtain now events more where ticks: "ticks = (now, events) # more"
        using 1(6) loop busy Nil by (cases ticks) auto
      show ?thesis
      proof (cases "deadline \<le> now")
        case True
        then show ?thesis using 1(3,4,6) loop busy Nil ticks
          by (auto simp: pipe_ok_def pipe_counts_cong)
      next
        case False
        have "pipe_ok pieces (pump_out (events p) p)" using pump_out_ok(2) [OF 1(3)] 1(4) ticks by simp
        from 1(1) [OF busy Nil ticks refl False this _ 1(5)] 1(4,6) loop busy Nil ticks False show ?thesis by simp
      qed
    qed
  next
    case False
    with 1(3,4,6) loop show ?thesis by auto
  qed
qed

lemma window_idle: "pipe_counts pieces p \<Longrightarrow> \<not> reaped p < submitted p \<Longrightarrow> outstanding p = {}"
proof -
  assume counts: "pipe_counts pieces p" and "\<not> reaped p < submitted p"
  then have "card (outstanding p) = 0" by (simp add: pipe_counts_def)
  then show "outstanding p = {}" using outstanding_finite [OF counts] by simp
qed

lemma drain_out_ok:
  assumes "pipe_counts pieces p" "honest out_complete may_complete ticks" "drain_out ticks p = Some p'"
  shows "owned p' = {} \<and> completions p' = [] \<and> sent p' = sent p \<and> err p' = err p \<and> total_bytes p' = total_bytes p"
  using assms
proof (induction ticks p rule: drain_out.induct)
  case (1 ticks p)
  note loop = drain_out.simps [of ticks p]
  show ?case
  proof (cases "reaped p < submitted p")
    case busy: True
    show ?thesis
    proof (cases "completions p")
      case (Cons c cs)
      obtain t status actual where "c = (t, status, actual)" by (cases c)
      with popped(1) [OF 1(3)] Cons have "pipe_counts pieces (p\<lparr>completions := cs, reaped := reaped p + 1\<rparr>)" by simp
      from 1(2) [OF busy Cons this 1(4)] 1(5) loop busy Cons show ?thesis by simp
    next
      case Nil
      then obtain now events more where ticks: "ticks = (now, events) # more"
        using 1(5) loop busy Nil by (cases ticks) auto
      have "pipe_counts pieces (pump_out (events p) p)" using pump_out_ok(1) [OF 1(3)] 1(4) ticks by simp
      from 1(1) [OF busy Nil ticks refl this] 1(4,5) loop busy Nil ticks show ?thesis by simp
    qed
  next
    case False
    then have "outstanding p = {}" by (rule window_idle [OF 1(3)])
    with 1(5) loop False show ?thesis by (simp add: outstanding_def)
  qed
qed

lemma primed_ok: "pieces \<noteq> [] \<Longrightarrow> n = min PIPELINE_DEPTH (length pieces) \<Longrightarrow> pipe_ok pieces (prime accepts pieces [0..<n] pipe_new)"
  by (rule prime_ok) (auto simp: pipe_counts_def pipe_new_def outstanding_def PIPELINE_DEPTH_def)

section \<open>The window empties\<close>

definition prompt :: "(pipe, out_completion) tick list \<Rightarrow> bool" where
  "prompt ticks \<longleftrightarrow> (\<forall>(now, events) \<in> set ticks. \<forall>p. owned p \<noteq> {} \<longrightarrow> owned p \<subseteq> {..<PIPELINE_DEPTH} \<longrightarrow> events p \<noteq> [])"

lemma length_pump_out [simp]: "length (completions (pump_out cs p)) = length (completions p) + length cs"
  by (induction cs arbitrary: p) (auto simp: pump_out_def)

lemma counts_split:
  assumes "pipe_counts pieces p"
  shows "reaped p + length (completions p) + card (owned p) = submitted p" "submitted p \<le> length pieces"
proof -
  have "card (fst ` set (completions p)) = length (completions p)"
    using assms distinct_card [of "map fst (completions p)"] by (simp add: pipe_counts_def)
  moreover have "finite (owned p)" using outstanding_finite [OF assms] by (simp add: outstanding_def)
  ultimately have "card (outstanding p) = card (owned p) + length (completions p)"
    using assms card_Un_disjoint [of "owned p" "fst ` set (completions p)"] by (simp add: outstanding_def pipe_counts_def)
  then show "reaped p + length (completions p) + card (owned p) = submitted p" "submitted p \<le> length pieces"
    using assms by (simp_all add: pipe_counts_def)
qed

lemma owned_busy:
  "pipe_counts pieces p \<Longrightarrow> reaped p < submitted p \<Longrightarrow> completions p = [] \<Longrightarrow> owned p \<noteq> {} \<and> owned p \<subseteq> {..<PIPELINE_DEPTH}"
  using counts_split(1) [of pieces p] by (auto simp: pipe_counts_def outstanding_def)

lemma reaped_reap_one [simp]: "reaped (reap_one accepts pieces c p) = reaped p + 1"
  by (cases c) (simp add: submit_next_def Let_def)

lemma reap_loop_returns:
  assumes "pipe_ok pieces p" "honest out_complete may_complete ticks" "prompt ticks" "\<forall>c\<in>set pieces. length c < 2 ^ 31"
    "length pieces < reaped p + length (completions p) + length ticks"
  shows "\<exists>p' rest. reap_loop accepts pieces deadline ticks p = Some (p', rest) \<and>
    prompt rest \<and> length pieces \<le> reaped p' + length (completions p') + length rest"
  using assms
proof (induction accepts pieces deadline ticks p rule: reap_loop.induct)
  case (1 accepts pieces deadline ticks p)
  note loop = reap_loop.simps [of accepts pieces deadline ticks p]
  show ?case
  proof (cases "reaped p < submitted p")
    case busy: True
    show ?thesis
    proof (cases "completions p")
      case (Cons c cs)
      from 1(2) [OF busy Cons reap_one_ok [OF 1(3) Cons 1(6)] 1(4-6)] 1(7) loop busy Cons show ?thesis by simp
    next
      case Nil
      have counts: "pipe_counts pieces p" using 1(3) by (simp add: pipe_ok_def)
      from counts_split [OF counts] busy Nil 1(7) obtain now events more where ticks: "ticks = (now, events) # more"
        by (cases ticks) auto
      show ?thesis
      proof (cases "deadline \<le> now")
        case True
        then show ?thesis using 1(5,7) loop busy Nil ticks by (auto simp: prompt_def)
      next
        case False
        have "pipe_ok pieces (pump_out (events p) p)" using pump_out_ok(2) [OF 1(3)] 1(4) ticks by simp
        moreover have "events p \<noteq> []" using 1(5) owned_busy [OF counts busy Nil] ticks by (auto simp: prompt_def)
        then have "length pieces < reaped (pump_out (events p) p) + length (completions (pump_out (events p) p)) + length more"
          using 1(7) ticks Nil by (cases "events p") auto
        ultimately show ?thesis
          using 1(1) [OF busy Nil ticks refl False] 1(4-6) loop busy Nil ticks False by (simp add: prompt_def)
      qed
    qed
  next
    case False
    with 1(5,7) loop show ?thesis by auto
  qed
qed

lemma drain_out_returns:
  assumes "pipe_counts pieces p" "honest out_complete may_complete ticks" "prompt ticks"
    "length pieces \<le> reaped p + length (completions p) + length ticks"
  shows "\<exists>p'. drain_out ticks p = Some p'"
  using assms
proof (induction ticks p rule: drain_out.induct)
  case (1 ticks p)
  note loop = drain_out.simps [of ticks p]
  show ?case
  proof (cases "reaped p < submitted p")
    case busy: True
    show ?thesis
    proof (cases "completions p")
      case (Cons c cs)
      obtain t status actual where "c = (t, status, actual)" by (cases c)
      with popped(1) [OF 1(3)] Cons have "pipe_counts pieces (p\<lparr>completions := cs, reaped := reaped p + 1\<rparr>)" by simp
      from 1(2) [OF busy Cons this 1(4,5)] 1(6) loop busy Cons show ?thesis by simp
    next
      case Nil
      from counts_split [OF 1(3)] busy Nil 1(6) obtain now events more where ticks: "ticks = (now, events) # more"
        by (cases ticks) auto
      have "pipe_counts pieces (pump_out (events p) p)" using pump_out_ok(1) [OF 1(3)] 1(4) ticks by simp
      moreover have "events p \<noteq> []" using 1(5) owned_busy [OF 1(3) busy Nil] ticks by (auto simp: prompt_def)
      then have "length pieces \<le> reaped (pump_out (events p) p) + length (completions (pump_out (events p) p)) + length more"
        using 1(6) ticks Nil by (cases "events p") auto
      ultimately show ?thesis
        using 1(1) [OF busy Nil ticks refl] 1(4,5) loop busy Nil ticks by (simp add: prompt_def)
    qed
  qed (simp add: loop)
qed

section \<open>Placement\<close>

lemma claim_heads_prefix:
  "\<exists>rest. addrs = claim_heads exposes limit n addrs @ rest"
  by (induction addrs arbitrary: n) auto

lemma claim_heads_exposed: "addr \<in> set (claim_heads exposes limit n addrs) \<Longrightarrow> exposes addr"
  by (induction addrs arbitrary: n) (auto split: if_splits)

lemma claim_heads_limit: "length (claim_heads exposes limit n addrs) \<le> limit - n"
proof (induction addrs arbitrary: n)
  case (Cons addr addrs)
  from Cons [of "Suc n"] show ?case by auto
qed simp

lemma find_open_genuine:
  "find_open devs = Inr (dev, product) \<Longrightarrow> dev \<in> set devs \<and> device_descriptor dev = Some (VID, product) \<and> is_dl3_display_function dev"
  by (induction devs) (auto split: option.splits prod.splits if_splits)

text \<open>
  A dock that opens is a DisplayLink display function of the bus, and drives between one connector and
  the placement's count, each on its placement's endpoint, which the device exposes; a write to any
  other connector is refused as disconnected.
\<close>

lemma open_places:
  assumes "dock_open (Inr devs) place = Inr d"
  obtains dev product where "dev \<in> set devs" "device_descriptor dev = Some (VID, product)" "is_dl3_display_function dev"
    "place (case read_identity dev of None \<Rightarrow> None | Some i \<Rightarrow> family i) product = Some (usb_placement d)"
    "0 < usb_connectors d" "usb_connectors d \<le> min MAX_HEADS (placed_connectors (usb_placement d))"
    "\<And>h. video_ep d h = (if h < usb_connectors d then Inr (placed_endpoints (usb_placement d) ! h) else Inl Disconnected)"
    "\<And>h. h < usb_connectors d \<Longrightarrow> has_endpoint dev (placed_endpoints (usb_placement d) ! h)"
proof -
  obtain dev product where found: "find_open devs = Inr (dev, product)" and d: "open_placed place dev product = Inr d"
    using assms by (auto simp: dock_open_def split: sum.splits prod.splits)
  obtain pl where pl: "place (case read_identity dev of None \<Rightarrow> None | Some i \<Rightarrow> family i) product = Some pl"
    using d by (auto simp: open_placed_def Let_def split: option.splits if_splits)
  let ?addrs = "take MAX_HEADS (placed_endpoints pl)"
  define heads where "heads = claim_heads (has_endpoint dev) (placed_connectors pl) 0 ?addrs"
  have dock: "heads \<noteq> []" "usb_placement d = pl" "usb_connectors d = length heads"
    "usb_video d = map Some heads @ replicate (MAX_HEADS - length heads) None"
    using d pl by (auto simp: open_placed_def Let_def heads_def split: option.splits if_splits)
  obtain rest where split: "?addrs = heads @ rest" using claim_heads_prefix unfolding heads_def by blast
  then have "length heads + length rest \<le> MAX_HEADS" by (metis length_append length_take min.cobounded2)
  then have len: "length heads \<le> MAX_HEADS" by simp
  have nth: "placed_endpoints pl ! h = heads ! h" if "h < length heads" for h
    using that arg_cong [OF split, of "\<lambda>xs. xs ! h"] len by (simp add: nth_append)
  have limit: "length heads \<le> placed_connectors pl"
    using claim_heads_limit [of "has_endpoint dev" "placed_connectors pl" 0 ?addrs] by (simp add: heads_def)
  have exposed: "has_endpoint dev (heads ! h)" if "h < length heads" for h
    using claim_heads_exposed nth_mem [OF that] unfolding heads_def by blast
  show ?thesis
  proof (rule that [of dev product])
    show "dev \<in> set devs" "device_descriptor dev = Some (VID, product)" "is_dl3_display_function dev"
      using find_open_genuine [OF found] by simp_all
    show "place (case read_identity dev of None \<Rightarrow> None | Some i \<Rightarrow> family i) product = Some (usb_placement d)"
      using pl dock(2) by simp
    show "0 < usb_connectors d" using dock(1,3) by simp
    show "usb_connectors d \<le> min MAX_HEADS (placed_connectors (usb_placement d))"
      using dock(2,3) len limit by simp
    show "video_ep d h = (if h < usb_connectors d then Inr (placed_endpoints (usb_placement d) ! h) else Inl Disconnected)" for h
      using nth [of h] dock(2-4) len by (simp add: video_ep_def nth_append)
    show "has_endpoint dev (placed_endpoints (usb_placement d) ! h)" if "h < usb_connectors d" for h
      using that nth [of h] dock(2,3) exposed by simp
  qed
qed

section \<open>Properties\<close>

lemma pipeline_sound:
  assumes "honest out_complete may_complete ticks" "\<forall>c\<in>set pieces. length c < 2 ^ 31"
    "pipeline_out accepts pieces deadline ticks = Some (r, p)"
  shows "owned p = {}" "\<exists>k. sent p = take k pieces" "r = Inr n \<Longrightarrow> sent p = pieces \<and> n = length (concat pieces)"
proof -
  have "owned p = {} \<and> (\<exists>k. sent p = take k pieces) \<and> (\<forall>n. r = Inr n \<longrightarrow> sent p = pieces \<and> n = length (concat pieces))"
  proof (cases "pieces = []")
    case True
    with assms(3) show ?thesis by (auto simp: pipeline_out_def pipe_new_def)
  next
    case False
    let ?p0 = "prime accepts pieces [0..<min PIPELINE_DEPTH (length pieces)] pipe_new"
    from assms(3) False obtain q rest where
      reap: "reap_loop accepts pieces deadline ticks ?p0 = Some (q, rest)" and drain: "drain_out rest q = Some p"
      and r: "r = (case err p of Some e \<Rightarrow> Inl e | None \<Rightarrow> Inr (total_bytes p))"
      by (auto simp: pipeline_out_def Let_def split: option.splits)
    from reap_loop_ok [OF primed_ok [OF False refl] assms(1,2) reap]
    have q: "pipe_counts pieces q" "pipe_sums pieces q" "honest out_complete may_complete rest"
      "err q = None \<Longrightarrow> \<not> reaped q < submitted q" by (simp_all add: pipe_ok_def)
    from drain_out_ok [OF q(1,3) drain]
    have p: "owned p = {}" "sent p = sent q" "err p = err q" "total_bytes p = total_bytes q" by simp_all
    have "sent q = pieces \<and> n = length (concat pieces)" if "r = Inr n" for n
    proof -
      have none: "err q = None" and n: "n = total_bytes q" using that r p by (auto split: option.splits)
      then have "outstanding q = {}" using window_idle [OF q(1)] q(4) by simp
      then show ?thesis using q(1,2) none n by (auto simp: pipe_sums_def pipe_counts_def)
    qed
    moreover have "\<exists>k. sent q = take k pieces" using q(1) by (auto simp: pipe_counts_def)
    ultimately show ?thesis using p by simp
  qed
  then show "owned p = {}" "\<exists>k. sent p = take k pieces" "r = Inr n \<Longrightarrow> sent p = pieces \<and> n = length (concat pieces)"
    by blast+
qed

text \<open>
  C10: a video frame handed to the window is either on the wire complete and in order, and then the
  number of bytes returned is its size, or the call fails having submitted a prefix of its chunks;
  in both cases libusb owns none of the transfers when they are freed. This holds for every order
  and outcome of the completions.
\<close>

theorem pipeline_delivers:
  assumes "honest out_complete may_complete ticks" and "\<forall>c\<in>set pieces. length c < 2 ^ 31"
    and "pipeline_out accepts pieces deadline ticks = Some (r, p)"
  shows "owned p = {} \<and> (\<exists>k. sent p = take k pieces) \<and>
    (\<forall>n. r = Inr n \<longrightarrow> sent p = pieces \<and> n = length (concat pieces))"
  using pipeline_sound [OF assms] by blast

text \<open>A bus that completes the lowest transfer it owns at every pump.\<close>

definition obliging :: "nat \<Rightarrow> int \<Rightarrow> pipe \<Rightarrow> out_completion list" where
  "obliging n len p = (case filter (\<lambda>t. t \<in> owned p) [0..<n] of [] \<Rightarrow> [] | t # ts \<Rightarrow> [(t, Completed, len)])"

lemma obliging_honest: "honest out_complete may_complete (replicate k (now, obliging n len))"
  by (induction k) (auto simp: obliging_def honest_def filter_eq_Cons_iff split: list.splits)

theorem pipeline_delivers_witness:
  "\<exists>p. pipeline_out (\<lambda>_ _. True) [[1, 2], [3, 4]] 100 [(0, obliging 2 2), (0, obliging 2 2)] = Some (Inr 4, p) \<and>
    owned p = {} \<and> sent p = [[1, 2], [3, 4]]"
proof -
  let ?ticks = "[(0, obliging 2 2), (0, obliging 2 2)]"
  obtain r p where run: "pipeline_out (\<lambda>_ _. True) [[1, 2], [3, 4]] 100 ?ticks = Some (r, p)" and r: "r = Inr 4"
    by (simp add: pipeline_out_def reap_loop.simps drain_out.simps submit_next_def pipe_new_def PIPELINE_DEPTH_def
        obliging_def pump_out_def c_int_def Let_def upt_rec numeral_2_eq_2)
  have "honest out_complete may_complete ?ticks"
    using obliging_honest [of 2 0 2 2] by (simp add: numeral_2_eq_2)
  from pipeline_delivers [OF this _ run] r run show ?thesis by auto
qed

text \<open>
  C23: the window always empties: when each pump completes at least one of the transfers libusb owns,
  the call returns after at most one pump per chunk and one reading of the clock past the deadline,
  whatever the outcomes of the transfers.
\<close>

theorem pipeline_returns:
  assumes "honest out_complete may_complete ticks" and "prompt ticks" and "\<forall>c\<in>set pieces. length c < 2 ^ 31"
    and "length pieces < length ticks"
  shows "\<exists>r p. pipeline_out accepts pieces deadline ticks = Some (r, p)"
proof (cases "pieces = []")
  case False
  let ?p0 = "prime accepts pieces [0..<min PIPELINE_DEPTH (length pieces)] pipe_new"
  have ok: "pipe_ok pieces ?p0" by (rule primed_ok [OF False refl])
  from reap_loop_returns [OF this assms(1-3)] assms(4) obtain q rest where
    reap: "reap_loop accepts pieces deadline ticks ?p0 = Some (q, rest)" and rest: "prompt rest"
      "length pieces \<le> reaped q + length (completions q) + length rest"
    by (meson le_add2 order_less_le_trans)
  from reap_loop_ok [OF ok assms(1,3) reap] have "pipe_counts pieces q" "honest out_complete may_complete rest"
    by (simp_all add: pipe_ok_def)
  from drain_out_returns [OF this rest] reap False show ?thesis by (auto simp: pipeline_out_def Let_def)
qed (simp add: pipeline_out_def)

theorem pipeline_returns_witness:
  "\<exists>r p. pipeline_out (\<lambda>t c. c < 8) (replicate 9 [7]) 100 (replicate 10 (0, obliging 8 1)) = Some (r, p)"
proof (rule pipeline_returns [OF obliging_honest])
  show "prompt (replicate 10 (0, obliging 8 1))"
    by (auto simp: prompt_def obliging_def PIPELINE_DEPTH_def filter_empty_conv subset_eq split: list.splits)
qed simp_all

text \<open>
  C16: replies reach the callers in the order the dock sent them, none lost and none twice, and at
  most four reads are posted. A receive that fails leaves nothing behind: it reports a disconnection
  exactly when no read is posted any more, and otherwise a timeout.
\<close>

theorem replies_in_order:
  assumes "ep84_run arrived handed s" and "honest ep84_complete may_arrive ticks"
    and "recv deadline ticks s = (Some r, s', rest)"
  shows "card (posted s') \<le> RECV_QUEUE_DEPTH \<and> inflight s' = int (card (posted s')) \<and>
    (\<exists>more. ep84_run (arrived @ more) (handed @ (case r of Inl e \<Rightarrow> [] | Inr b \<Rightarrow> [b])) s' \<and>
      arrived @ more = handed @ (case r of Inl e \<Rightarrow> [] | Inr b \<Rightarrow> [b]) @ ready s') \<and>
    (\<forall>e. r = Inl e \<longrightarrow> ready s' = [] \<and> (e = Disconnected \<and> posted s' = {} \<or> e = Timeout \<and> posted s' \<noteq> {}))"
proof -
  from recv_run [OF assms] obtain more where
    run: "ep84_run (arrived @ more) (handed @ (case r of Inl e \<Rightarrow> [] | Inr b \<Rightarrow> [b])) s'"
    and failed: "\<forall>e. r = Inl e \<longrightarrow> ready s' = [] \<and> (e = Disconnected \<and> posted s' = {} \<or> e = Timeout \<and> posted s' \<noteq> {})"
    by blast
  from ep84_run_inv [OF run] have inv: "pool_ok s'" and
    order: "arrived @ more = handed @ (case r of Inl e \<Rightarrow> [] | Inr b \<Rightarrow> [b]) @ ready s'" by simp_all
  from inv have "inflight s' = int (card (posted s'))" "card (posted s') \<le> RECV_QUEUE_DEPTH"
    using card_mono [of "{..<RECV_QUEUE_DEPTH}" "posted s'"] by (simp_all add: pool_ok_def)
  with run order failed show ?thesis by blast
qed

text \<open>A dock that answers with two frames in one pump, out of the order of the transfers.\<close>

definition answering :: "AsyncIn \<Rightarrow> in_completion list" where
  "answering s = (if {0, 2} \<subseteq> posted s then [(2, Completed, [1], True), (0, Completed, [2], False)] else [])"

theorem replies_in_order_witness:
  "\<exists>s'. recv 100 [(0, answering)] (AsyncIn_new (\<lambda>_. True)) = (Some (Inr [1]), s', []) \<and>
    card (posted s') \<le> 4 \<and> ready s' = [[2]]"
proof -
  let ?s = "AsyncIn_new (\<lambda>_. True)"
  have pool: "ready ?s = []" "inflight ?s = 4" "closing ?s = False" "posted ?s = {0, 1, 2, 3}"
    by (simp_all add: AsyncIn_new_def post_def RECV_QUEUE_DEPTH_def upt_rec insert_commute numeral_2_eq_2 numeral_3_eq_3)
  have "honest ep84_complete may_arrive [(0, answering)]"
    by (simp add: honest_def answering_def RECV_BUF_LEN_def Let_def)
  moreover obtain s' where "recv 100 [(0, answering)] ?s = (Some (Inr [1]), s', [])" "ready s' = [[2]]"
    using pool by (simp add: recv.simps pump_in_def answering_def)
  ultimately show ?thesis
    using replies_in_order [OF ep84_run.opened, of "[(0, answering)]" 100 "\<lambda>_. True"] by (auto simp: RECV_QUEUE_DEPTH_def)
qed

section \<open>Limits of the transport\<close>

text \<open>
  Dropping the pool is safe when its cancellations are drained in time. It gives up after half a
  second and frees the transfers all the same, whether or not libusb still owns them.
\<close>

lemma drop_drained:
  assumes "pool_ok s" "honest ep84_complete may_arrive ticks" "drop_in start ticks s = Some s'"
    "\<forall>(now, events) \<in> set ticks. now < start + 500"
  shows "posted s' = {}"
proof -
  have "pool_ok s \<Longrightarrow> honest ep84_complete may_arrive ticks \<Longrightarrow> drain_in deadline ticks s = Some s' \<Longrightarrow>
      \<forall>(now, events) \<in> set ticks. now < deadline \<Longrightarrow> pool_ok s' \<and> inflight s' \<le> 0" for deadline s
  proof (induction ticks arbitrary: s)
    case (Cons tick ticks)
    obtain now events where tick: "tick = (now, events)" by fastforce
    have "pool_ok (pump_in (events s) s)"
      unfolding pump_in_def by (rule pool.pump_keeps [OF Cons.prems(1)]) (use Cons.prems(2) tick in simp)
    then show ?case
      using Cons.prems Cons.IH [of "pump_in (events s) s"] tick
      by (cases "0 < inflight s") (auto simp: drain_in.simps [of deadline "(now, events) # ticks"])
  qed (auto simp: drain_in.simps [of deadline "[]"] split: if_splits)
  from this [of "s\<lparr>closing := True\<rparr>" "start + 500"] assms have "pool_ok s'" "inflight s' \<le> 0"
    by (simp_all add: drop_in_def pool_ok_def)
  then have "int (card (posted s')) \<le> 0" unfolding pool_ok_def by argo
  with pool_finite [OF \<open>pool_ok s'\<close>] show ?thesis by simp
qed

lemma drop_frees_posted_read:
  "\<exists>s. drop_in 0 [(500, \<lambda>_. [])] (AsyncIn_new (\<lambda>_. True)) = Some s \<and> posted s \<noteq> {}"
  by (simp add: drop_in_def drain_in.simps AsyncIn_new_def post_def RECV_QUEUE_DEPTH_def upt_rec)

text \<open>A control write that completes in full after its deadline is still reported as timed out.\<close>

lemma timeout_after_delivery:
  "\<exists>s. write_ctrl_raw_async True [7] 2000 [(2000, \<lambda>s. if out_owned s then [(Completed, 1)] else [])] = Some (Inl Timeout, s) \<and>
    out_status s = Completed \<and> out_actual s = 1"
  by (simp add: write_ctrl_raw_async_def await_written.simps await_cancelled.simps pump_one_def Let_def)

text \<open>
  A frame submitted by the session is followed on the wire by nothing else, but after a timeout the
  chunks of the first attempt precede the whole frame, also those the dock has already taken.
\<close>

lemma submitted_video_complete:
  assumes "honest out_complete may_complete ticks" "honest out_complete may_complete ticks'" "\<forall>c\<in>set pieces. length c < 2 ^ 31"
    "submit_video_usb d accepts head pieces (deadline, ticks) (deadline', ticks') = Some (Inr (), out)"
  shows "\<exists>k. out = take k pieces @ pieces"
proof -
  obtain r p where first: "write_video_frame d accepts head pieces deadline ticks = Some (r, p)"
    using assms(4) by (auto simp: submit_video_usb_def split: option.splits)
  have head: "\<exists>ep. video_ep d head = Inr ep"
    using assms(4) by (auto simp: submit_video_usb_def write_video_frame_def split: option.splits sum.splits Error.splits)
  then obtain ep where ep: "video_ep d head = Inr ep" by blast
  note sound = pipeline_sound [OF assms(1,3), of "accepts ep" deadline] pipeline_sound [OF assms(2,3), of "accepts ep" deadline']
  show ?thesis
  proof (cases r)
    case (Inr n)
    then have "out = take 0 pieces @ pieces"
      using assms(4) first ep sound(3) by (auto simp: submit_video_usb_def write_video_frame_def)
    then show ?thesis by blast
  next
    case (Inl e)
    with assms(4) first obtain a p' where again: "write_video_frame d accepts head pieces deadline' ticks' = Some (a, p')"
      and a: "(case a of Inr _ \<Rightarrow> Inr () | Inl e \<Rightarrow> Inl e) = Inr ()" and out: "out = sent p @ sent p'"
      by (cases e) (auto simp: submit_video_usb_def)
    then obtain r' where second: "write_video_frame d accepts head pieces deadline' ticks' = Some (Inr r', p')"
      by (cases a) simp_all
    from second ep sound(6) have "sent p' = pieces" by (auto simp: write_video_frame_def)
    moreover from first ep sound(2) obtain k where "sent p = take k pieces" by (auto simp: write_video_frame_def)
    ultimately show ?thesis using out by auto
  qed
qed

definition late_bus :: "pipe \<Rightarrow> out_completion list" where
  "late_bus p = (if {0, 1} \<subseteq> owned p then [(0, Completed, 1), (1, TimedOut, 0)] else [])"

lemma retry_repeats_delivered_chunk:
  "\<exists>p. pipeline_out (\<lambda>_ _. True) [[1], [2]] 100 [(0, late_bus)] = Some (Inl Timeout, p) \<and> sent p = [[1], [2]] \<and> total_bytes p = 1"
  by (simp add: pipeline_out_def reap_loop.simps drain_out.simps submit_next_def pipe_new_def PIPELINE_DEPTH_def
      late_bus_def pump_out_def c_int_def Let_def upt_rec numeral_2_eq_2 or_err_def)

end
