(* ===== verification/Vblank_Timer.thy ===== *)
theory Vblank_Timer
  imports Vino_Prelude
begin

text \<open>
  The software vblank of the virtual card (\<open>module/kms.rs\<close>: \<open>VblankTimer\<close>, its callback, \<open>enable_vblank\<close>,
  \<open>disable_vblank\<close> and \<open>shutdown\<close>). A page flip completes at the next tick, so an enabled vblank that
  does not tick is a desktop that stops.

  The high-resolution timer of the kernel is modelled by what the code relies on: an expiry takes the
  timer off the queue and runs the callback; starting it puts it on the queue, also while the
  callback runs, and then a callback that does not ask for a restart leaves it there; cancelling
  waits for the callback. The callback is two steps, the test of \<open>enabled\<close> and the rest, so that other
  calls may come in between. The prepared framebuffers that \<open>shutdown\<close> also releases are \<open>discard\<close> of
  \<open>Evdi_Card\<close>.
\<close>

record VblankTimer =
  interval_ns :: int
  enabled :: bool
  published :: bool
  started :: bool
  queued :: bool
  period :: int
  running :: "bool option"
  ticks :: nat

text \<open>
  \<open>published\<close> is whether the CRTC is known to the callback, \<open>started\<close> whether the card holds the timer's
  handle, \<open>period\<close> the delay it was queued with, and \<open>ticks\<close> the vblanks delivered.
\<close>

definition timer_new :: VblankTimer where
  "timer_new = \<lparr>interval_ns = 16666666, enabled = False, published = False, started = False, queued = False, period = 0,
    running = None, ticks = 0\<rparr>"

definition enable_vblank :: "int \<Rightarrow> VblankTimer \<Rightarrow> VblankTimer" where
  "enable_vblank frame_duration s =
    (let s = (if 0 < frame_duration then s\<lparr>interval_ns := frame_duration\<rparr> else s);
         s = s\<lparr>published := True\<rparr>;
         s = s\<lparr>enabled := True\<rparr>;
         interval = interval_ns s
     in if \<not> started s then s\<lparr>started := True, queued := True, period := interval\<rparr>
        else s\<lparr>queued := True, period := interval\<rparr>)"

definition disable_vblank :: "VblankTimer \<Rightarrow> VblankTimer" where
  "disable_vblank s = s\<lparr>enabled := False\<rparr>"

text \<open>The expiry and the first test of the callback, and the rest of it.\<close>

definition expire :: "VblankTimer \<Rightarrow> VblankTimer" where
  "expire s = s\<lparr>queued := False, running := Some (enabled s)\<rparr>"

definition run_timer :: "VblankTimer \<Rightarrow> VblankTimer" where
  "run_timer s =
    (case running s of
       None \<Rightarrow> s
     | Some False \<Rightarrow> s\<lparr>running := None\<rparr>
     | Some True \<Rightarrow>
       let s = (if published s then s\<lparr>ticks := ticks s + 1\<rparr> else s);
           interval = max (interval_ns s) 1000000
       in s\<lparr>queued := True, period := interval, running := None\<rparr>)"

definition shutdown :: "VblankTimer \<Rightarrow> VblankTimer" where
  "shutdown s =
    (if started s then
       let s = s\<lparr>enabled := False\<rparr>;
           s = run_timer s
       in s\<lparr>started := False, queued := False, published := False\<rparr>
     else s)"

inductive timer_reach :: "VblankTimer \<Rightarrow> bool" where
  new: "timer_reach timer_new"
| enable: "timer_reach s \<Longrightarrow> timer_reach (enable_vblank d s)"
| disable: "timer_reach s \<Longrightarrow> timer_reach (disable_vblank s)"
| expires: "timer_reach s \<Longrightarrow> queued s \<Longrightarrow> running s = None \<Longrightarrow> timer_reach (expire s)"
| runs: "timer_reach s \<Longrightarrow> timer_reach (run_timer s)"
| stops: "timer_reach s \<Longrightarrow> timer_reach (shutdown s)"

definition timer_ok :: "VblankTimer \<Rightarrow> bool" where
  "timer_ok s \<longleftrightarrow> (enabled s \<longrightarrow> started s \<and> published s \<and> (queued s \<or> running s = Some True)) \<and>
    (\<not> started s \<longrightarrow> \<not> queued s \<and> running s = None) \<and> 0 < interval_ns s"

lemma timer_reach_ok: "timer_reach s \<Longrightarrow> timer_ok s"
  by (induction rule: timer_reach.induct)
    (auto simp: timer_ok_def timer_new_def enable_vblank_def disable_vblank_def expire_def run_timer_def shutdown_def Let_def
      split: option.splits bool.splits if_splits)

text \<open>
  While vblank is enabled the timer is never dead, whatever raced with whatever: either it is queued, or
  its callback is past the test and will queue it, or the callback saw vblank disabled and the later
  enabling queued it again. So the next expiry delivers a vblank.
\<close>

lemma enabled_vblank_ticks:
  assumes "timer_reach s" "enabled s"
  shows "running s = Some True \<Longrightarrow> ticks (run_timer s) = ticks s + 1"
    and "running s \<noteq> Some True \<Longrightarrow> queued (run_timer s) \<and> running (run_timer s) = None \<and>
      ticks (run_timer (expire (run_timer s))) = ticks s + 1"
  using timer_reach_ok [OF assms(1)] assms(2)
  by (auto simp: timer_ok_def run_timer_def expire_def Let_def split: option.splits bool.splits)

text \<open>A disabled vblank stops by itself: the next expiry leaves the timer off the queue, unless it was enabled in between.\<close>

lemma disabled_vblank_stops:
  assumes "\<not> enabled s" "queued s" "running s = None"
  shows "\<not> queued (run_timer (expire s)) \<and> ticks (run_timer (expire s)) = ticks s"
    and "queued (run_timer (enable_vblank d (expire s)))"
  using assms by (simp_all add: run_timer_def expire_def enable_vblank_def Let_def)

lemma shutdown_quiet:
  assumes "timer_reach s"
  shows "\<not> queued (shutdown s) \<and> running (shutdown s) = None \<and> \<not> enabled (shutdown s)"
  using timer_reach_ok [OF assms]
  by (auto simp: timer_ok_def shutdown_def run_timer_def Let_def split: option.splits bool.splits)

end
