(* ===== verification/Evdi_Registry.thy ===== *)
theory Evdi_Registry
  imports Vino_Prelude
begin

text \<open>
  The registry of cards behind the module's control files (\<open>module/evdi.rs\<close>): adding generic cards or the card
  of a USB device, removing the cards of a device that went away, removing all, and the printed count.

  Text is the list of its code points. Whether the platform device of a card can be registered and linked, and
  which USB devices are present, is up to the kernel: outcomes and topology paths are arguments. A card's
  platform device itself has no further content here.
\<close>

section \<open>Text\<close>

definition continuation :: "byte \<Rightarrow> bool" where
  "continuation b \<longleftrightarrow> 0x80 \<le> b \<and> b \<le> 0xBF"

definition low6 :: "byte \<Rightarrow> nat" where
  "low6 b = unat b mod 64"

fun from_utf8 :: "bytes \<Rightarrow> nat list option" where
  "from_utf8 [] = Some []"
| "from_utf8 (a # r) =
    (if a < 0x80 then map_option ((#) (unat a)) (from_utf8 r)
     else if 0xC2 \<le> a \<and> a \<le> 0xDF then
       (case r of
          b # r' \<Rightarrow> if continuation b then map_option ((#) (unat a mod 32 * 64 + low6 b)) (from_utf8 (drop 1 r)) else None
        | _ \<Rightarrow> None)
     else if 0xE0 \<le> a \<and> a \<le> 0xEF then
       (case r of
          b # c # r' \<Rightarrow>
            if continuation b \<and> continuation c \<and> (a = 0xE0 \<longrightarrow> 0xA0 \<le> b) \<and> (a = 0xED \<longrightarrow> b \<le> 0x9F)
            then map_option ((#) (unat a mod 16 * 4096 + low6 b * 64 + low6 c)) (from_utf8 (drop 2 r)) else None
        | _ \<Rightarrow> None)
     else if 0xF0 \<le> a \<and> a \<le> 0xF4 then
       (case r of
          b # c # d # r' \<Rightarrow>
            if continuation b \<and> continuation c \<and> continuation d \<and> (a = 0xF0 \<longrightarrow> 0x90 \<le> b) \<and> (a = 0xF4 \<longrightarrow> b \<le> 0x8F)
            then map_option ((#) (unat a mod 8 * 262144 + low6 b * 4096 + low6 c * 64 + low6 d)) (from_utf8 (drop 3 r))
            else None
        | _ \<Rightarrow> None)
     else None)"

definition is_whitespace :: "nat \<Rightarrow> bool" where
  "is_whitespace c \<longleftrightarrow> 9 \<le> c \<and> c \<le> 13 \<or> 0x2000 \<le> c \<and> c \<le> 0x200A
     \<or> c \<in> {0x20, 0x85, 0xA0, 0x1680, 0x2028, 0x2029, 0x202F, 0x205F, 0x3000}"

definition trim :: "nat list \<Rightarrow> nat list" where
  "trim s = rev (dropWhile is_whitespace (rev (dropWhile is_whitespace s)))"

definition is_digit :: "nat \<Rightarrow> bool" where
  "is_digit c \<longleftrightarrow> 48 \<le> c \<and> c \<le> 57"

definition decimal :: "nat list \<Rightarrow> nat" where
  "decimal s = foldl (\<lambda>v c. v * 10 + (c - 48)) 0 s"

text \<open>\<open>str::parse::<u32>()\<close>: an optional plus sign and decimal digits, without overflow.\<close>

definition parse_u32 :: "nat list \<Rightarrow> nat option" where
  "parse_u32 s =
    (let ds = (if s \<noteq> [] \<and> hd s = 43 then tl s else s)
     in if ds \<noteq> [] \<and> list_all is_digit ds \<and> decimal ds < 2 ^ 32 then Some (decimal ds) else None)"

fun split :: "nat \<Rightarrow> nat list \<Rightarrow> nat list list" where
  "split sep [] = [[]]"
| "split sep (c # s) = (if c = sep then [] # split sep s else (c # hd (split sep s)) # tl (split sep s))"

definition split_once :: "nat \<Rightarrow> nat list \<Rightarrow> (nat list \<times> nat list) option" where
  "split_once sep s =
    (if sep \<in> set s then Some (takeWhile (\<lambda>c. c \<noteq> sep) s, tl (dropWhile (\<lambda>c. c \<noteq> sep) s)) else None)"

section \<open>Cards\<close>

definition MAX_USB_ADDR :: nat where "MAX_USB_ADDR = 8"
definition MAX_CARDS :: nat where "MAX_CARDS = 16"

record CardEntry =
  usb_addr :: "nat list"
  usb_len :: nat

type_synonym registry = "CardEntry list"

definition generic_card :: CardEntry where
  "generic_card = \<lparr>usb_addr = replicate MAX_USB_ADDR 0, usb_len = 0\<rparr>"

text \<open>The cards at the path are taken out in order.\<close>

definition at_path :: "nat list \<Rightarrow> CardEntry \<Rightarrow> bool" where
  "at_path path e \<longleftrightarrow> usb_len e = length path \<and> take (length path) (usb_addr e) = path"

fun remove_matching :: "nat list \<Rightarrow> registry \<Rightarrow> registry \<times> registry" where
  "remove_matching path [] = ([], [])"
| "remove_matching path (e # es) =
    (case remove_matching path es of
       (kept, dropped) \<Rightarrow> if at_path path e then (kept, e # dropped) else (e # kept, dropped))"

text \<open>The removed cards are collected in an array of \<open>MAX_CARDS\<close>; one more would be out of its bounds.\<close>

definition remove_usb :: "nat list option \<Rightarrow> registry \<Rightarrow> unit result \<times> registry" where
  "remove_usb topology_path devices =
    (case topology_path of
       None \<Rightarrow> (Ok (), devices)
     | Some path \<Rightarrow>
        case remove_matching path devices of
          (kept, dropped) \<Rightarrow> if MAX_CARDS < length dropped then (Err Panic, kept) else (Ok (), kept))"

definition parse_address :: "nat list \<Rightarrow> nat list result" where
  "parse_address token =
    (case split_once 45 token of
       None \<Rightarrow> Err EINVAL
     | Some (bus, ports) \<Rightarrow>
        if 45 \<in> set ports then Err EINVAL
        else case those (map parse_u32 (bus # split 46 ports)) of
          None \<Rightarrow> Err EINVAL
        | Some addr \<Rightarrow> if MAX_USB_ADDR < length addr then Err EINVAL else Ok addr)"

definition add_usb_device ::
  "nat list option list \<Rightarrow> unit result \<Rightarrow> unit result \<Rightarrow> nat list \<Rightarrow> registry \<Rightarrow> unit result \<times> registry" where
  "add_usb_device present registered linked token devices =
    (case parse_address token of
       Inl e \<Rightarrow> (Err e, devices)
     | Inr addr \<Rightarrow>
        if Some addr \<notin> set present then (Err EINVAL, devices)
        else case registered of
          Inl e \<Rightarrow> (Err e, devices)
        | Inr _ \<Rightarrow>
          (case linked of
             Inl e \<Rightarrow> (Err e, devices)
           | Inr _ \<Rightarrow>
              if MAX_CARDS \<le> length devices then (Err EINVAL, devices)
              else (Ok (), devices @ [\<lparr>usb_addr = addr @ replicate (MAX_USB_ADDR - length addr) 0, usb_len = length addr\<rparr>])))"

text \<open>A card that cannot be registered ends the loop; those before it stay.\<close>

fun add_generic :: "(nat \<Rightarrow> unit result) \<Rightarrow> nat \<Rightarrow> nat \<Rightarrow> registry \<Rightarrow> unit result \<times> registry" where
  "add_generic registered i 0 devices = (Ok (), devices)"
| "add_generic registered i (Suc n) devices =
    (case registered i of
       Inl e \<Rightarrow> (Err e, devices)
     | Inr _ \<Rightarrow> add_generic registered (Suc i) n (devices @ [generic_card]))"

definition store_add ::
  "nat list option list \<Rightarrow> (nat \<Rightarrow> unit result) \<Rightarrow> unit result \<Rightarrow> bytes \<Rightarrow> registry \<Rightarrow> unit result \<times> registry" where
  "store_add present registered linked buf devices =
    (case from_utf8 buf of
       None \<Rightarrow> (Err EINVAL, devices)
     | Some decoded \<Rightarrow>
        let text = trim decoded
        in if take 4 text = [117, 115, 98, 58] then
             add_usb_device present (registered 0) linked (trim (hd (split 58 (drop 4 text)))) devices
           else case parse_u32 text of
             None \<Rightarrow> (Err EINVAL, devices)
           | Some n \<Rightarrow>
              if MAX_CARDS < n \<or> MAX_CARDS < length devices + n then (Err EINVAL, devices)
              else add_generic registered 0 n devices)"

datatype attr = Count | Add | RemoveAll | OtherAttr

definition store ::
  "nat list option list \<Rightarrow> (nat \<Rightarrow> unit result) \<Rightarrow> unit result \<Rightarrow> attr \<Rightarrow> bytes \<Rightarrow> registry \<Rightarrow> unit result \<times> registry" where
  "store present registered linked name buf devices =
    (case name of
       Add \<Rightarrow> store_add present registered linked buf devices
     | RemoveAll \<Rightarrow> (Ok (), [])
     | _ \<Rightarrow> (Err EINVAL, devices))"

text \<open>The digits are written from the end of a buffer of 24 bytes, which holds any 64-bit value.\<close>

fun uint_digits :: "nat \<Rightarrow> bytes \<Rightarrow> bytes" where
  "uint_digits v out =
    (let out = (48 + of_nat (v mod 10)) # out in if v div 10 = 0 then out else uint_digits (v div 10) out)"

declare uint_digits.simps [simp del]

definition write_uint :: "nat \<Rightarrow> bytes" where
  "write_uint v = uint_digits v [] @ [10]"

definition show_attr :: "attr \<Rightarrow> registry \<Rightarrow> bytes result" where
  "show_attr name devices = (case name of Count \<Rightarrow> Ok (write_uint (length devices)) | _ \<Rightarrow> Err EINVAL)"

section \<open>Removal\<close>

lemma remove_matching_eq:
  "remove_matching path devices = (filter (\<lambda>e. \<not> at_path path e) devices, filter (at_path path) devices)"
  by (induction path devices rule: remove_matching.induct) simp_all

lemma remove_usb_exact:
  "length devices \<le> MAX_CARDS \<Longrightarrow>
    remove_usb (Some path) devices = (Ok (), filter (\<lambda>e. \<not> at_path path e) devices)"
  using le_trans [OF length_filter_le [of "at_path path" devices]]
  by (simp add: remove_usb_def remove_matching_eq not_less)

lemma remove_usb_length: "length (snd (remove_usb path devices)) \<le> length devices"
  by (simp add: remove_usb_def remove_matching_eq split: option.split)

section \<open>Addition\<close>

lemma add_generic_length: "length (snd (add_generic registered i n devices)) \<le> length devices + n"
  by (induction registered i n devices rule: add_generic.induct) (auto split: sum.split)

lemma add_generic_ok:
  "fst (add_generic registered i n devices) = Ok () \<Longrightarrow>
    snd (add_generic registered i n devices) = devices @ replicate n generic_card"
  by (induction registered i n devices rule: add_generic.induct) (auto simp: replicate_app_Cons_same split: sum.splits)

lemma add_usb_device_length:
  "length devices \<le> MAX_CARDS \<Longrightarrow> length (snd (add_usb_device present registered linked token devices)) \<le> MAX_CARDS"
  by (auto simp: add_usb_device_def split: sum.split)

lemma store_length:
  "length devices \<le> MAX_CARDS \<Longrightarrow> length (snd (store present registered linked name buf devices)) \<le> MAX_CARDS"
  by (auto simp: store_def store_add_def Let_def add_usb_device_length split: option.split attr.split
      intro: le_trans [OF add_generic_length])

section \<open>Printed numbers\<close>

lemma decimal_append: "decimal (s @ [c]) = decimal s * 10 + (c - 48)"
  by (simp add: decimal_def)

text \<open>The digits read back as the number, and are digits.\<close>

lemma uint_digits_append: "uint_digits v out = uint_digits v [] @ out"
proof (induction v arbitrary: out rule: less_induct)
  case (less v)
  show ?case
  proof (cases "v div 10 = 0")
    case False
    then have "v div 10 < v" by simp
    from less [OF this, of "(48 + of_nat (v mod 10)) # out"] less [OF this, of "[48 + of_nat (v mod 10)]"]
    show ?thesis using False by (simp add: uint_digits.simps [of v] Let_def)
  qed (simp add: uint_digits.simps [of v] Let_def)
qed

lemma uint_digits_step:
  "uint_digits v [] = (if v div 10 = 0 then [] else uint_digits (v div 10) []) @ [48 + of_nat (v mod 10)]"
  using uint_digits_append [of "v div 10" "[48 + of_nat (v mod 10)]"] by (simp add: uint_digits.simps [of v] Let_def)

lemma unat_digit: "d < 10 \<Longrightarrow> unat (48 + of_nat d :: byte) = 48 + d"
  by (simp add: unat_word_ariths unsigned_of_nat take_bit_nat_eq_self)

lemma uint_digits_decimal:
  "list_all is_digit (map unat (uint_digits v [])) \<and> decimal (map unat (uint_digits v [])) = v \<and> uint_digits v [] \<noteq> []"
proof (induction v rule: less_induct)
  case (less v)
  have d: "unat (48 + of_nat (v mod 10) :: byte) = 48 + v mod 10" by (simp add: unat_digit)
  then have digit: "is_digit (unat (48 + of_nat (v mod 10) :: byte))" by (simp add: is_digit_def)
  show ?case
  proof (cases "v div 10 = 0")
    case True
    then have "v mod 10 = v" by (simp add: div_eq_0_iff)
    then show ?thesis using True d digit by (simp add: uint_digits_step [of v] decimal_def)
  next
    case False
    then have "v div 10 < v" by simp
    from less [OF this] False d digit show ?thesis
      by (simp add: uint_digits_step [of v] decimal_append)
  qed
qed

lemma from_utf8_ascii: "\<forall>b \<in> set bs. b < 0x80 \<Longrightarrow> from_utf8 bs = Some (map unat bs)"
  by (induction bs) simp_all

lemma trim_printed:
  assumes "s \<noteq> []" and "list_all is_digit s"
  shows "trim (s @ [10]) = s"
proof -
  have no_space: "\<not> is_whitespace c" if "c \<in> set s" for c
    using that assms(2) by (auto simp: list_all_iff is_digit_def is_whitespace_def)
  then have "dropWhile is_whitespace (s @ [10]) = s @ [10]" using assms(1) by (cases s) simp_all
  moreover have "dropWhile is_whitespace (10 # rev s) = rev s"
    using no_space assms(1) by (cases "rev s") (auto simp: is_whitespace_def dest!: arg_cong [of _ _ set])
  ultimately show ?thesis by (simp add: trim_def)
qed

lemma parse_digits: "s \<noteq> [] \<Longrightarrow> list_all is_digit s \<Longrightarrow> decimal s < 2 ^ 32 \<Longrightarrow> parse_u32 s = Some (decimal s)"
  by (cases s) (auto simp: parse_u32_def is_digit_def Let_def)

text \<open>What the count file prints is a number the add file would read as the same number.\<close>

lemma write_uint_parses:
  assumes "v < 2 ^ 32"
  shows "map_option (\<lambda>t. parse_u32 (trim t)) (from_utf8 (write_uint v)) = Some (Some v)"
proof -
  note d = uint_digits_decimal [of v]
  have "\<forall>b \<in> set (write_uint v). b < 0x80"
    using d by (auto simp: write_uint_def list_all_iff is_digit_def word_less_nat_alt)
  then have "from_utf8 (write_uint v) = Some (map unat (uint_digits v []) @ [10])"
    by (simp add: from_utf8_ascii write_uint_def)
  moreover have "trim (map unat (uint_digits v []) @ [10]) = map unat (uint_digits v [])"
    using d by (intro trim_printed) simp_all
  ultimately show ?thesis using d assms by (simp add: parse_digits)
qed

section \<open>Histories\<close>

text \<open>The module's files are written and read and USB devices go away, in any order.\<close>

datatype registry_op =
    Store "nat list option list" "nat \<Rightarrow> unit result" "unit result" attr bytes
  | DeviceRemoved "nat list option"

fun registry_step :: "registry_op \<Rightarrow> registry \<Rightarrow> unit result \<times> registry" where
  "registry_step (Store present registered linked name buf) devices = store present registered linked name buf devices"
| "registry_step (DeviceRemoved path) devices = remove_usb path devices"

definition registry_run :: "registry_op list \<Rightarrow> registry" where
  "registry_run ops = fold (\<lambda>oper devices. snd (registry_step oper devices)) ops []"

definition entry_wf :: "CardEntry \<Rightarrow> bool" where
  "entry_wf e \<longleftrightarrow> length (usb_addr e) = MAX_USB_ADDR \<and> usb_len e \<le> MAX_USB_ADDR"

definition registry_wf :: "registry \<Rightarrow> bool" where
  "registry_wf devices \<longleftrightarrow> length devices \<le> MAX_CARDS \<and> list_all entry_wf devices"

lemma add_generic_wf: "list_all entry_wf devices \<Longrightarrow> list_all entry_wf (snd (add_generic registered i n devices))"
  by (induction registered i n devices rule: add_generic.induct)
    (auto simp: generic_card_def entry_wf_def split: sum.split)

lemma parse_address_length: "parse_address token = Ok addr \<Longrightarrow> length addr \<le> MAX_USB_ADDR"
  by (auto simp: parse_address_def split: option.splits if_splits)

lemma add_usb_device_wf:
  "list_all entry_wf devices \<Longrightarrow> list_all entry_wf (snd (add_usb_device present registered linked token devices))"
  by (auto simp: add_usb_device_def entry_wf_def dest: parse_address_length split: sum.split)

lemma registry_step_wf: "registry_wf devices \<Longrightarrow> registry_wf (snd (registry_step oper devices))"
proof (cases oper)
  case (Store present registered linked name buf)
  moreover assume "registry_wf devices"
  ultimately show ?thesis
    by (auto simp: registry_wf_def store_length)
      (auto simp: store_def store_add_def Let_def add_usb_device_wf add_generic_wf split: option.split attr.split)
next
  case (DeviceRemoved path)
  moreover assume "registry_wf devices"
  ultimately show ?thesis
    using remove_usb_length [of path devices]
    by (auto simp: registry_wf_def remove_usb_def remove_matching_eq list_all_iff split: option.split)
qed

lemma registry_run_wf: "registry_wf (registry_run ops)"
proof -
  have "registry_wf (fold (\<lambda>oper devices. snd (registry_step oper devices)) ops devices)" if "registry_wf devices" for devices
    using that by (induction ops arbitrary: devices) (simp_all add: registry_step_wf)
  then show ?thesis by (simp add: registry_run_def registry_wf_def)
qed

text \<open>
  C29: whatever is written to the control files and whichever USB devices go away, there are never more than
  sixteen cards and every entry is within its arrays; removing a device takes out exactly the cards at its path,
  without an index out of range; and the count file states the number of cards in a form the add file reads back.
\<close>

theorem registry_consistent:
  "registry_wf (registry_run ops) \<and>
    registry_step (DeviceRemoved (Some path)) (registry_run ops) =
      (Ok (), filter (\<lambda>e. \<not> at_path path e) (registry_run ops)) \<and>
    (\<exists>text. show_attr Count (registry_run ops) = Ok text \<and>
      map_option (\<lambda>t. parse_u32 (trim t)) (from_utf8 text) = Some (Some (length (registry_run ops))))"
proof -
  have wf: "registry_wf (registry_run ops)" by (rule registry_run_wf)
  then have len: "length (registry_run ops) \<le> MAX_CARDS" by (simp add: registry_wf_def)
  then have "map_option (\<lambda>t. parse_u32 (trim t)) (from_utf8 (write_uint (length (registry_run ops)))) =
      Some (Some (length (registry_run ops)))"
    by (intro write_uint_parses) (simp add: MAX_CARDS_def)
  with wf len show ?thesis by (simp add: remove_usb_exact show_attr_def)
qed

end
