(* ===== verification/Evdi_Card.thy ===== *)
theory Evdi_Card
  imports Color_Pipeline
begin

text \<open>
  The virtual display card (\<open>module/painter.rs\<close>, \<open>module/ioctl.rs\<close>, \<open>module/kms.rs\<close>): the damage accumulated
  between two grabs, the ring of prepared framebuffers, the ioctls of the client and the callbacks of the
  compositor's commits.

  The DRM core is not part of the sources. A framebuffer is its identity, geometry and format; its pixels are a
  function of the identity, given to \<open>grabpix\<close>, and mapping one yields its pitch or an error, an argument of
  the commit. The damage clips of a commit, the outcome of registering the event receiver and the bytes the
  client's pointers lead to are arguments too. The events handed to the channel are kept in order in \<open>sent\<close>.
\<close>

section \<open>Damage\<close>

type_synonym rect = "int \<times> int \<times> int \<times> int"

definition MAX_DAMAGE_RECTS :: nat where "MAX_DAMAGE_RECTS = 16"

record Damage =
  rects :: "rect list"
  count :: nat

definition damage_new :: Damage where
  "damage_new = \<lparr>rects = replicate MAX_DAMAGE_RECTS (0, 0, 0, 0), count = 0\<rparr>"

fun bounding :: "rect \<Rightarrow> rect \<Rightarrow> rect" where
  "bounding (a1, b1, a2, b2) (x1, y1, x2, y2) = (min a1 x1, min b1 y1, max a2 x2, max b2 y2)"

definition damage_push :: "rect \<Rightarrow> Damage \<Rightarrow> Damage" where
  "damage_push r d =
    (if count d < MAX_DAMAGE_RECTS then d\<lparr>rects := (rects d)[count d := r], count := count d + 1\<rparr>
     else d\<lparr>rects := (rects d)[0 := foldl bounding r (take (count d) (rects d))], count := 1\<rparr>)"

definition damage_clear :: "Damage \<Rightarrow> Damage" where
  "damage_clear d = d\<lparr>count := 0\<rparr>"

record PainterState =
  frame_dirty :: bool
  damage :: Damage

definition painter_new :: PainterState where
  "painter_new = \<lparr>frame_dirty = False, damage = damage_new\<rparr>"

section \<open>Events\<close>

definition DPMS_ON :: int where "DPMS_ON = 0"
definition DPMS_OFF :: int where "DPMS_OFF = 3"
definition XRGB8888 :: u32 where "XRGB8888 = 0x34325258"

record CursorShape =
  shape_hot_x :: int
  shape_hot_y :: int
  shape_width :: u32
  shape_height :: u32
  shape_pixel_format :: u32
  shape_stride :: u32
  shape_buffer_length :: u32

datatype evdi_event =
    EvUpdateReady
  | EvDpms int
  | EvModeChanged int int int int u32
  | EvCursorSet CursorShape bool u32
  | EvCursorMove int int

definition no_shape :: CursorShape where
  "no_shape = \<lparr>shape_hot_x = 0, shape_hot_y = 0, shape_width = 0, shape_height = 0, shape_pixel_format = 0,
     shape_stride = 0, shape_buffer_length = 0\<rparr>"

section \<open>Prepared framebuffers\<close>

record Framebuffer =
  fb_id :: nat
  fb_width :: u32
  fb_height :: u32
  fb_format :: u32

record PreparedScanout =
  framebuffer :: Framebuffer
  map_pitch :: nat

definition SCANOUT_BINDINGS :: nat where "SCANOUT_BINDINGS = 4"

record ScanoutState =
  current :: "PreparedScanout option"
  bindings :: "PreparedScanout option list"
  next_binding :: nat

definition scanout_new :: ScanoutState where
  "scanout_new = \<lparr>current = None, bindings = replicate SCANOUT_BINDINGS None, next_binding = 0\<rparr>"

definition discard :: "ScanoutState \<Rightarrow> ScanoutState" where
  "discard s = s\<lparr>current := None, bindings := replicate SCANOUT_BINDINGS None, next_binding := 0\<rparr>"

fun find_binding :: "Framebuffer \<Rightarrow> PreparedScanout option list \<Rightarrow> PreparedScanout option" where
  "find_binding fb [] = None"
| "find_binding fb (None # bs) = find_binding fb bs"
| "find_binding fb (Some p # bs) = (if fb_id (framebuffer p) = fb_id fb then Some p else find_binding fb bs)"

definition prepare :: "(Framebuffer \<Rightarrow> nat result) \<Rightarrow> Framebuffer option \<Rightarrow> ScanoutState \<Rightarrow> unit result \<times> ScanoutState" where
  "prepare vmap fb s =
    (case fb of
       None \<Rightarrow> (Ok (), discard s)
     | Some fb \<Rightarrow>
        (case find_binding fb (bindings s) of
           Some p \<Rightarrow> (Ok (), s\<lparr>current := Some p\<rparr>)
         | None \<Rightarrow>
            (case vmap fb of
               Inl e \<Rightarrow> (Err e, s)
             | Inr pitch \<Rightarrow>
                let p = \<lparr>framebuffer = fb, map_pitch = pitch\<rparr>
                in (Ok (), s\<lparr>bindings := (bindings s)[next_binding s := Some p],
                     next_binding := (next_binding s + 1) mod SCANOUT_BINDINGS, current := Some p\<rparr>))))"

section \<open>The card\<close>

record Card =
  painter :: PainterState
  scanout :: ScanoutState
  cached_edid :: "bytes option"
  pixel_area_limit :: u32
  pixel_per_second_limit :: u32
  color :: "ColorPipeline option"
  cursor_events :: bool
  announced_mode :: "(int \<times> int \<times> int) option"
  receivers :: "nat list"
  sent :: "evdi_event list"
  hotplugs :: nat

definition card_new :: Card where
  "card_new = \<lparr>painter = painter_new, scanout = scanout_new, cached_edid = None, pixel_area_limit = 0,
     pixel_per_second_limit = 0, color = None, cursor_events = False, announced_mode = None,
     receivers = [], sent = [], hotplugs = 0\<rparr>"

definition send :: "evdi_event \<Rightarrow> Card \<Rightarrow> Card" where
  "send ev c = c\<lparr>sent := sent c @ [ev]\<rparr>"

definition notify_update_ready :: "Card \<Rightarrow> Card" where
  "notify_update_ready = send EvUpdateReady"

definition notify_dpms :: "int \<Rightarrow> Card \<Rightarrow> Card" where
  "notify_dpms mode = send (EvDpms mode)"

definition notify_mode_changed :: "int \<Rightarrow> int \<Rightarrow> int \<Rightarrow> int \<Rightarrow> u32 \<Rightarrow> Card \<Rightarrow> Card" where
  "notify_mode_changed hdisplay vdisplay vrefresh bpp fmt = send (EvModeChanged hdisplay vdisplay vrefresh bpp fmt)"

text \<open>Minting the buffer handle in the client's file has three outcomes: a handle, an error, or no client.\<close>

definition notify_cursor_set :: "u32 option result \<Rightarrow> CursorShape \<Rightarrow> Card \<Rightarrow> Card" where
  "notify_cursor_set handle shape =
    (case handle of Inr (Some h) \<Rightarrow> send (EvCursorSet shape True h) | _ \<Rightarrow> id)"

definition notify_cursor_disabled :: "Card \<Rightarrow> Card" where
  "notify_cursor_disabled = send (EvCursorSet no_shape False 0)"

definition notify_cursor_move :: "int \<Rightarrow> int \<Rightarrow> Card \<Rightarrow> Card" where
  "notify_cursor_move x y = send (EvCursorMove x y)"

definition hotplug_event :: "Card \<Rightarrow> Card" where
  "hotplug_event c = c\<lparr>hotplugs := hotplugs c + 1\<rparr>"

definition replay_state :: "Card \<Rightarrow> Card" where
  "replay_state c =
    (case announced_mode c of
       None \<Rightarrow> c
     | Some (hdisplay, vdisplay, vrefresh) \<Rightarrow>
        notify_mode_changed hdisplay vdisplay vrefresh 32 XRGB8888 (notify_dpms DPMS_ON c))"

definition set_scanout :: "(Framebuffer \<Rightarrow> nat result) \<Rightarrow> Framebuffer option \<Rightarrow> Card \<Rightarrow> unit result \<times> Card" where
  "set_scanout vmap fb c = (case prepare vmap fb (scanout c) of (r, s) \<Rightarrow> (r, c\<lparr>scanout := s\<rparr>))"

definition prepared_scanout :: "Card \<Rightarrow> PreparedScanout option" where
  "prepared_scanout c = current (scanout c)"

definition set_edid :: "bytes \<Rightarrow> Card \<Rightarrow> Card" where
  "set_edid blob c = hotplug_event (c\<lparr>cached_edid := Some blob\<rparr>)"

definition clear_edid :: "Card \<Rightarrow> Card" where
  "clear_edid c = hotplug_event (c\<lparr>cached_edid := None\<rparr>)"

definition set_mode_limits :: "u32 \<Rightarrow> u32 \<Rightarrow> Card \<Rightarrow> Card" where
  "set_mode_limits area pps c = c\<lparr>pixel_area_limit := area, pixel_per_second_limit := pps\<rparr>"

section \<open>The ioctls\<close>

definition EDID_MAX :: nat where "EDID_MAX = 32 * 1024"

record connect_args =
  ca_connected :: int
  ca_edid :: "bytes option"
  ca_edid_length :: u32
  ca_pixel_area_limit :: u32
  ca_pixel_per_second_limit :: u32

text \<open>Reading fewer bytes than the client has mapped is a fault.\<close>

definition client_edid :: "connect_args \<Rightarrow> bytes result" where
  "client_edid a =
    (let len = unat (ca_edid_length a)
     in case ca_edid a of
          None \<Rightarrow> Ok []
        | Some mapped \<Rightarrow>
            if len = 0 then Ok []
            else if EDID_MAX < len then Err EINVAL
            else if length mapped < len then Err EFAULT
            else Ok (take len mapped))"

definition connect :: "unit result \<Rightarrow> nat \<Rightarrow> connect_args \<Rightarrow> Card \<Rightarrow> unit result \<times> Card" where
  "connect registered file a c =
    (if ca_connected a \<noteq> 0 then
       (case client_edid a of
          Inl e \<Rightarrow> (Err e, c)
        | Inr edid \<Rightarrow>
           (case registered of
              Inl e \<Rightarrow> (Err e, c)
            | Inr _ \<Rightarrow>
               let c = c\<lparr>receivers := List.insert file (receivers c)\<rparr>;
                   c = set_mode_limits (ca_pixel_area_limit a) (ca_pixel_per_second_limit a) c;
                   c = (if edid \<noteq> [] then set_edid edid c else c)
               in (Ok (), replay_state c)))
     else (Ok (), clear_edid (c\<lparr>receivers := removeAll file (receivers c)\<rparr>)))"

definition request_update :: "Card \<Rightarrow> nat" where
  "request_update c = (if frame_dirty (painter c) then 1 else 0)"

definition EVDI_GRABPIX_MODE_DIRTY :: u32 where "EVDI_GRABPIX_MODE_DIRTY = 1"

text \<open>
  The argument of a grab: the client's buffer starts at an address and the bytes mapped from there on are
  \<open>g_buffer\<close>; \<open>g_rects\<close> are those mapped at the rectangle array, when there is one.
\<close>

record grab_args =
  g_mode :: u32
  g_buf_width :: int
  g_buf_height :: int
  g_buf_byte_stride :: int
  g_address :: nat
  g_buffer :: bytes
  g_num_rects :: int
  g_rects :: "bytes option"

definition take_damage :: "Card \<Rightarrow> Damage \<times> Card" where
  "take_damage c =
    (damage (painter c), c\<lparr>painter := (painter c)\<lparr>frame_dirty := False, damage := damage_clear (damage (painter c))\<rparr>\<rparr>)"

definition recorded_rects :: "int \<Rightarrow> int \<Rightarrow> Damage \<Rightarrow> rect list" where
  "recorded_rects fb_w fb_h dmg = (if count dmg = 0 then [(0, 0, fb_w, fb_h)] else take (count dmg) (rects dmg))"

fun clamp_rect :: "int \<Rightarrow> int \<Rightarrow> rect \<Rightarrow> rect" where
  "clamp_rect max_w max_h (rx1, ry1, rx2, ry2) =
    (let x1 = clamp 0 max_w rx1; y1 = clamp 0 max_h ry1 in (x1, y1, clamp x1 max_w rx2, clamp y1 max_h ry2))"

fun rect_nonempty :: "rect \<Rightarrow> bool" where
  "rect_nonempty (x1, y1, x2, y2) \<longleftrightarrow> x1 < x2 \<and> y1 < y2"

definition clip_rects :: "int \<Rightarrow> int \<Rightarrow> rect list \<Rightarrow> rect list" where
  "clip_rects max_w max_h rs = filter rect_nonempty (map (clamp_rect max_w max_h) rs)"

definition coalesce :: "nat \<Rightarrow> rect list \<Rightarrow> rect list" where
  "coalesce cap rs = (if cap < length rs then [foldl bounding (hd rs) (tl rs)] else rs)"

fun rect_bytes :: "rect \<Rightarrow> bytes" where
  "rect_bytes (x1, y1, x2, y2) = le16 (of_int x1) @ le16 (of_int y1) @ le16 (of_int x2) @ le16 (of_int y2)"

definition write_rects :: "rect list \<Rightarrow> bytes option \<Rightarrow> bytes option result" where
  "write_rects rs mapped =
    (case mapped of
       None \<Rightarrow> Ok None
     | Some buf \<Rightarrow> if length buf < length rs * 8 then Err EFAULT else Ok (Some (put 0 (concat (map rect_bytes rs)) buf)))"

fun color_bytes :: "ColorPipeline option \<Rightarrow> bytes \<Rightarrow> bytes" where
  "color_bytes pipeline [b, g, r, x] = (case color_pixel pipeline (r, g, b) of (r, g, b) \<Rightarrow> [b, g, r, x])"
| "color_bytes pipeline px = px"

definition color_row :: "ColorPipeline option \<Rightarrow> bytes \<Rightarrow> bytes" where
  "color_row pipeline row = (if pipeline = None then row else concat (map (color_bytes pipeline) (chunks 4 row)))"

text \<open>
  The rows of one rectangle. A row past the end of the mapping ends the rectangle; an address past the address
  space or past what the client has mapped fails, keeping the rows already written.
\<close>

fun copy_rows :: "ColorPipeline option \<Rightarrow> bytes \<Rightarrow> nat \<Rightarrow> nat \<Rightarrow> nat \<Rightarrow> nat \<Rightarrow> nat \<Rightarrow> nat list \<Rightarrow> bytes \<Rightarrow> unit result \<times> bytes"
where
  "copy_rows pipeline src pitch address stride xoff span [] dst = (Ok (), dst)"
| "copy_rows pipeline src pitch address stride xoff span (y # ys) dst =
    (let so = y * pitch + xoff
     in if length src < so + span then (Ok (), dst)
        else
          let row = color_row pipeline (get so span src);
              off = y * stride + xoff
          in if 2 ^ 64 \<le> address + off then (Err EINVAL, dst)
             else if length dst < off + span then (Err EFAULT, dst)
             else copy_rows pipeline src pitch address stride xoff span ys (put off row dst))"

fun copy_rect :: "ColorPipeline option \<Rightarrow> bytes \<Rightarrow> nat \<Rightarrow> nat \<Rightarrow> nat \<Rightarrow> rect \<Rightarrow> bytes \<Rightarrow> unit result \<times> bytes" where
  "copy_rect pipeline src pitch address stride (x1, y1, x2, y2) dst =
    copy_rows pipeline src pitch address stride (nat x1 * 4) (nat (x2 - x1) * 4) [nat y1..<nat y2] dst"

fun copy_rects :: "ColorPipeline option \<Rightarrow> bytes \<Rightarrow> nat \<Rightarrow> nat \<Rightarrow> nat \<Rightarrow> rect list \<Rightarrow> bytes \<Rightarrow> unit result \<times> bytes" where
  "copy_rects pipeline src pitch address stride [] dst = (Ok (), dst)"
| "copy_rects pipeline src pitch address stride (r # rs) dst =
    (case copy_rect pipeline src pitch address stride r dst of
       (Inl e, dst) \<Rightarrow> (Inl e, dst)
     | (Inr _, dst) \<Rightarrow> copy_rects pipeline src pitch address stride rs dst)"

text \<open>The bounds of the copy: a rectangle is clamped to the framebuffer and to the client's buffer.\<close>

definition max_w :: "PreparedScanout \<Rightarrow> grab_args \<Rightarrow> int" where
  "max_w s a = min (sint (fb_width (framebuffer s))) (g_buf_byte_stride a div 4)"

definition max_h :: "PreparedScanout \<Rightarrow> grab_args \<Rightarrow> int" where
  "max_h s a = min (sint (fb_height (framebuffer s))) (g_buf_height a)"

definition grab_rects :: "PreparedScanout \<Rightarrow> grab_args \<Rightarrow> Damage \<Rightarrow> rect list" where
  "grab_rects s a dmg =
    (let fb_w = sint (fb_width (framebuffer s)); fb_h = sint (fb_height (framebuffer s));
         rs = clip_rects (max_w s a) (max_h s a) (recorded_rects fb_w fb_h dmg)
     in coalesce (min (nat (max (g_num_rects a) 1)) MAX_DAMAGE_RECTS) rs)"

text \<open>Clamping to an empty range panics: a framebuffer dimension of \<open>2^31\<close> or more.\<close>

definition grabpix :: "(nat \<Rightarrow> bytes) \<Rightarrow> grab_args \<Rightarrow> Card \<Rightarrow> unit result \<times> Card \<times> grab_args" where
  "grabpix view a c =
    (if g_mode a \<noteq> EVDI_GRABPIX_MODE_DIRTY then (Err EINVAL, c, a)
     else if g_num_rects a < 1 then (Err EINVAL, c, a)
     else case prepared_scanout c of
       None \<Rightarrow> (Ok (), c, a\<lparr>g_num_rects := 0\<rparr>)
     | Some s \<Rightarrow>
        case take_damage c of (dmg, c) \<Rightarrow>
        if g_address a = 0 \<or> g_buf_byte_stride a \<le> 0 \<or> g_buf_width a < 0 \<or> g_buf_height a < 0
        then (Err EINVAL, c, a)
        else if max_w s a < 0 \<or> max_h s a < 0 then (Err Panic, c, a)
        else
          let rs = grab_rects s a dmg
          in if rs = [] then (Ok (), c, a\<lparr>g_num_rects := 0\<rparr>)
             else case write_rects rs (g_rects a) of
               Inl e \<Rightarrow> (Err e, c, a)
             | Inr rects_out \<Rightarrow>
                case copy_rects (color c) (view (fb_id (framebuffer s))) (map_pitch s) (g_address a)
                       (nat (g_buf_byte_stride a)) rs (g_buffer a) of
                  (r, dst) \<Rightarrow> (r, c, a\<lparr>g_rects := rects_out, g_num_rects := int (length rs), g_buffer := dst\<rparr>))"

definition ddcci_response :: "Card \<Rightarrow> unit result \<times> Card" where
  "ddcci_response c = (Ok (), c)"

definition enable_cursor_events :: "byte \<Rightarrow> Card \<Rightarrow> unit result \<times> Card" where
  "enable_cursor_events enable c = (Ok (), c\<lparr>cursor_events := (enable \<noteq> 0)\<rparr>)"

section \<open>The callbacks of a commit\<close>

record DisplayMode =
  hdisplay :: u16
  vdisplay :: u16
  vrefresh :: int

definition atomic_enable :: "DisplayMode \<Rightarrow> Card \<Rightarrow> Card" where
  "atomic_enable mode c =
    (let h = uint (hdisplay mode); v = uint (vdisplay mode);
         c = c\<lparr>announced_mode := Some (h, v, vrefresh mode)\<rparr>
     in notify_mode_changed h v (vrefresh mode) 32 XRGB8888 (notify_dpms DPMS_ON c))"

definition atomic_disable :: "Card \<Rightarrow> Card" where
  "atomic_disable c =
    notify_dpms DPMS_OFF ((snd (set_scanout (\<lambda>_. Err EINVAL) None c))\<lparr>color := None, announced_mode := None\<rparr>)"

datatype completion = Armed | SentNow

definition atomic_flush ::
  "ColorLut list option \<Rightarrow> int list option \<Rightarrow> bool \<Rightarrow> bool \<Rightarrow> Card \<Rightarrow> completion option \<times> Card" where
  "atomic_flush gamma_lut ctm pending vblank c =
    (if pending then Some (if vblank then Armed else SentNow) else None, c\<lparr>color := build gamma_lut ctm\<rparr>)"

definition atomic_update :: "(Framebuffer \<Rightarrow> nat result) \<Rightarrow> Framebuffer option \<Rightarrow> rect list \<Rightarrow> Card \<Rightarrow> Card" where
  "atomic_update vmap fb clips c =
    (case set_scanout vmap fb c of
       (Inl e, c) \<Rightarrow> c
     | (Inr _, c) \<Rightarrow>
        if fb = None then c
        else
          let p = painter c
          in notify_update_ready
               (c\<lparr>painter := p\<lparr>damage := fold damage_push clips (damage p), frame_dirty := True\<rparr>\<rparr>))"

definition saturating_mul :: "u32 \<Rightarrow> u32 \<Rightarrow> u32" where
  "saturating_mul a b = (if 2 ^ 32 \<le> unat a * unat b then - 1 else a * b)"

definition cursor_shape :: "Framebuffer \<Rightarrow> u32 \<Rightarrow> CursorShape" where
  "cursor_shape fb stride = \<lparr>shape_hot_x = 0, shape_hot_y = 0, shape_width = fb_width fb, shape_height = fb_height fb,
     shape_pixel_format = fb_format fb, shape_stride = stride, shape_buffer_length = saturating_mul stride (fb_height fb)\<rparr>"

definition update_cursor ::
  "u32 option result \<Rightarrow> u32 result \<Rightarrow> Framebuffer option \<Rightarrow> Framebuffer option \<Rightarrow> rect option result \<Rightarrow> rect option
    \<Rightarrow> Card \<Rightarrow> Card" where
  "update_cursor handle stride old new source destination c =
    (if \<not> cursor_events c then c
     else case new of
       None \<Rightarrow> notify_cursor_disabled c
     | Some fb \<Rightarrow>
        let shape_changed = (case old of None \<Rightarrow> True | Some previous \<Rightarrow> fb_id previous \<noteq> fb_id fb);
            c = (case stride of
                   Inr stride \<Rightarrow> if shape_changed then notify_cursor_set handle (cursor_shape fb stride) c else c
                 | Inl _ \<Rightarrow> c)
        in case (source, destination) of
             (Inr (Some (sx, sy, _, _)), Some (dx, dy, _, _)) \<Rightarrow> notify_cursor_move (dx - sx) (dy - sy) c
           | _ \<Rightarrow> c)"

section \<open>The connector\<close>

datatype ModeStatus = ModeOk | ModeBad

definition FALLBACK_W :: u32 where "FALLBACK_W = 1024"
definition FALLBACK_H :: u32 where "FALLBACK_H = 768"

text \<open>The modes added, and whether the fallback size was made the preferred one.\<close>

definition get_modes :: "(bytes \<Rightarrow> int result) \<Rightarrow> (u32 \<times> u32 \<Rightarrow> int) \<Rightarrow> Card \<Rightarrow> int \<times> bool" where
  "get_modes add_edid_modes add_modes_noedid c =
    (let fallback = (add_modes_noedid (FALLBACK_W, FALLBACK_H), True)
     in case cached_edid c of
          None \<Rightarrow> fallback
        | Some blob \<Rightarrow> (case add_edid_modes blob of Inl _ \<Rightarrow> fallback | Inr n \<Rightarrow> if 0 < n then (n, False) else fallback))"

definition detect :: "Card \<Rightarrow> bool" where
  "detect c \<longleftrightarrow> cached_edid c \<noteq> None"

definition is_lowest_frequency_mode_of_resolution :: "DisplayMode list \<Rightarrow> DisplayMode \<Rightarrow> bool" where
  "is_lowest_frequency_mode_of_resolution probed mode \<longleftrightarrow>
    \<not> (\<exists>candidate \<in> set probed. hdisplay candidate = hdisplay mode \<and> vdisplay candidate = vdisplay mode
         \<and> vrefresh candidate < vrefresh mode)"

definition mode_valid :: "DisplayMode list \<Rightarrow> Card \<Rightarrow> DisplayMode \<Rightarrow> ModeStatus" where
  "mode_valid probed c mode =
    (let pps = pixel_per_second_limit c;
         area = ucast (hdisplay mode) * ucast (vdisplay mode) :: u32;
         refresh = of_int (max (vrefresh mode) 0) :: u32
     in if pps = 0 then ModeOk
        else if pixel_area_limit c < area then ModeBad
        else if saturating_mul area refresh \<le> pps then ModeOk
        else if is_lowest_frequency_mode_of_resolution probed mode then ModeOk
        else ModeBad)"

section \<open>Rectangles\<close>

fun inside :: "int \<Rightarrow> int \<Rightarrow> rect \<Rightarrow> bool" where
  "inside x y (x1, y1, x2, y2) \<longleftrightarrow> x1 \<le> x \<and> x < x2 \<and> y1 \<le> y \<and> y < y2"

definition damage_wf :: "Damage \<Rightarrow> bool" where
  "damage_wf d \<longleftrightarrow> length (rects d) = MAX_DAMAGE_RECTS \<and> count d \<le> MAX_DAMAGE_RECTS"

definition damaged :: "Damage \<Rightarrow> int \<Rightarrow> int \<Rightarrow> bool" where
  "damaged d x y \<longleftrightarrow> (\<exists>r \<in> set (take (count d) (rects d)). inside x y r)"

lemma bounding_covers: "inside x y r \<or> inside x y q \<Longrightarrow> inside x y (bounding r q)"
  by (cases r; cases q) auto

lemma foldl_bounding_covers: "inside x y r \<or> (\<exists>q \<in> set qs. inside x y q) \<Longrightarrow> inside x y (foldl bounding r qs)"
proof (induction qs arbitrary: r)
  case (Cons q qs)
  then have "inside x y (bounding r q) \<or> (\<exists>q \<in> set qs. inside x y q)" by (auto intro: bounding_covers)
  with Cons.IH show ?case by simp
qed simp

lemma damage_new_wf: "damage_wf damage_new"
  by (simp add: damage_wf_def damage_new_def)

lemma damage_clear_wf: "damage_wf d \<Longrightarrow> damage_wf (damage_clear d)"
  by (simp add: damage_wf_def damage_clear_def)

lemma damage_push_wf: "damage_wf d \<Longrightarrow> damage_wf (damage_push r d)"
  by (auto simp: damage_wf_def damage_push_def MAX_DAMAGE_RECTS_def)

lemma damage_push_covers:
  assumes "damage_wf d" and "damaged d x y \<or> inside x y r"
  shows "damaged (damage_push r d) x y"
proof (cases "count d < MAX_DAMAGE_RECTS")
  case True
  then have "take (Suc (count d)) ((rects d)[count d := r]) = take (count d) (rects d) @ [r]"
    using assms(1) by (simp add: take_Suc_conv_app_nth damage_wf_def)
  with True assms(2) show ?thesis by (auto simp: damaged_def damage_push_def)
next
  case False
  then have "inside x y (foldl bounding r (take (count d) (rects d)))"
    using assms(2) by (intro foldl_bounding_covers) (auto simp: damaged_def)
  moreover have "rects d \<noteq> []" using assms(1) by (auto simp: damage_wf_def MAX_DAMAGE_RECTS_def)
  ultimately show ?thesis
    using False by (cases "rects d") (simp_all add: damaged_def damage_push_def)
qed

lemma damage_pushes_wf: "damage_wf d \<Longrightarrow> damage_wf (fold damage_push clips d)"
  by (induction clips arbitrary: d) (simp_all add: damage_push_wf)

lemma damage_pushes_cover:
  "damage_wf d \<Longrightarrow> damaged d x y \<or> (\<exists>r \<in> set clips. inside x y r) \<Longrightarrow> damaged (fold damage_push clips d) x y"
proof (induction clips arbitrary: d)
  case (Cons r clips)
  then have "damaged (damage_push r d) x y \<or> (\<exists>r \<in> set clips. inside x y r)" by (auto intro: damage_push_covers)
  with Cons show ?case by (simp add: damage_push_wf)
qed simp

fun within :: "int \<Rightarrow> int \<Rightarrow> rect \<Rightarrow> bool" where
  "within w h (x1, y1, x2, y2) \<longleftrightarrow> 0 \<le> x1 \<and> x1 \<le> x2 \<and> x2 \<le> w \<and> 0 \<le> y1 \<and> y1 \<le> y2 \<and> y2 \<le> h"

lemma clamp_rect_within: "0 \<le> w \<Longrightarrow> 0 \<le> h \<Longrightarrow> within w h (clamp_rect w h r)"
  by (cases r) (auto simp: clamp_def Let_def)

lemma clamp_rect_inside:
  "0 \<le> x \<Longrightarrow> x < w \<Longrightarrow> 0 \<le> y \<Longrightarrow> y < h \<Longrightarrow> inside x y r \<Longrightarrow> inside x y (clamp_rect w h r)"
  by (cases r) (auto simp: clamp_def Let_def)

lemma inside_nonempty: "inside x y r \<Longrightarrow> rect_nonempty r"
  by (cases r) auto

lemma bounding_within: "within w h r \<Longrightarrow> within w h q \<Longrightarrow> within w h (bounding r q)"
  by (cases r; cases q) auto

lemma foldl_bounding_within: "within w h r \<Longrightarrow> \<forall>q \<in> set qs. within w h q \<Longrightarrow> within w h (foldl bounding r qs)"
  by (induction qs arbitrary: r) (simp_all add: bounding_within)

lemma clip_rects_within: "0 \<le> w \<Longrightarrow> 0 \<le> h \<Longrightarrow> r \<in> set (clip_rects w h rs) \<Longrightarrow> within w h r"
  by (auto simp: clip_rects_def intro: clamp_rect_within)

lemma clip_rects_cover:
  assumes "0 \<le> x" "x < w" "0 \<le> y" "y < h" "\<exists>r \<in> set rs. inside x y r"
  shows "\<exists>r \<in> set (clip_rects w h rs). inside x y r"
proof -
  obtain r where "r \<in> set rs" "inside x y r" using assms(5) by blast
  then have "inside x y (clamp_rect w h r)" using assms by (intro clamp_rect_inside)
  moreover from this have "clamp_rect w h r \<in> set (clip_rects w h rs)"
    using \<open>r \<in> set rs\<close> by (auto simp: clip_rects_def inside_nonempty)
  ultimately show ?thesis by blast
qed

lemma coalesce_within: "\<forall>r \<in> set rs. within w h r \<Longrightarrow> r \<in> set (coalesce cap rs) \<Longrightarrow> within w h r"
  by (cases rs) (auto simp: coalesce_def intro!: foldl_bounding_within split: if_splits)

lemma coalesce_covers: "\<exists>r \<in> set rs. inside x y r \<Longrightarrow> \<exists>r \<in> set (coalesce cap rs). inside x y r"
  by (cases rs) (auto simp: coalesce_def intro: foldl_bounding_covers)

lemma coalesce_length: "0 < cap \<Longrightarrow> length (coalesce cap rs) \<le> cap"
  by (simp add: coalesce_def)

lemma grab_rects_within:
  "0 \<le> max_w s a \<Longrightarrow> 0 \<le> max_h s a \<Longrightarrow> r \<in> set (grab_rects s a dmg) \<Longrightarrow> within (max_w s a) (max_h s a) r"
  unfolding grab_rects_def Let_def by (erule coalesce_within [rotated]) (simp add: clip_rects_within)

lemma grab_rects_length: "length (grab_rects s a dmg) \<le> min (nat (max (g_num_rects a) 1)) MAX_DAMAGE_RECTS"
  unfolding grab_rects_def Let_def by (rule coalesce_length) (simp add: MAX_DAMAGE_RECTS_def)

text \<open>Whatever is damaged and in bounds is in a rectangle of the grab; without damage everything is.\<close>

lemma grab_rects_cover:
  assumes "0 \<le> x" "x < max_w s a" "0 \<le> y" "y < max_h s a" and "count dmg = 0 \<or> damaged dmg x y"
  shows "\<exists>r \<in> set (grab_rects s a dmg). inside x y r"
proof -
  have "\<exists>r \<in> set (recorded_rects (sint (fb_width (framebuffer s))) (sint (fb_height (framebuffer s))) dmg). inside x y r"
    using assms by (auto simp: recorded_rects_def damaged_def max_w_def max_h_def)
  then show ?thesis
    using assms(1-4) unfolding grab_rects_def Let_def by (intro coalesce_covers clip_rects_cover)
qed

section \<open>Copying\<close>

definition pixel :: "nat \<Rightarrow> nat \<Rightarrow> nat \<Rightarrow> bytes \<Rightarrow> bytes" where
  "pixel stride x y b = get (y * stride + x * 4) 4 b"

lemma color_bytes_None [simp]: "color_bytes None px = px"
  by (cases "(None :: ColorPipeline option, px)" rule: color_bytes.cases) (simp_all add: color_pixel_def)

lemma length_color_bytes [simp]: "length (color_bytes p px) = length px"
  by (cases "(p, px)" rule: color_bytes.cases) (simp_all split: prod.split)

lemma color_row_chunks: "color_row p row = concat (map (color_bytes p) (chunks 4 row))"
  by (cases p) (simp_all add: color_row_def map_idI)

lemma color_row_pixels:
  assumes "length row = n * 4"
  shows "length (color_row p row) = n * 4 \<and>
    (\<forall>m < n. get (m * 4) 4 (color_row p row) = color_bytes p (get (m * 4) 4 row))"
  using assms
proof (induction n arbitrary: row)
  case (Suc n)
  let ?rest = "drop 4 row"
  have len: "length (take 4 row) = 4" "length ?rest = n * 4" using Suc.prems by simp_all
  have step: "color_row p row = color_bytes p (take 4 row) @ color_row p ?rest"
    using Suc.prems by (cases "row = []") (simp_all add: color_row_chunks chunks_step)
  note IH = Suc.IH [OF len(2)]
  have "get (m * 4) 4 (color_row p row) = color_bytes p (get (m * 4) 4 row)" if "m < Suc n" for m
  proof (cases m)
    case 0
    then show ?thesis using len by (simp add: step) (simp add: get_def)
  next
    case (Suc k)
    then have "get (m * 4) 4 (color_row p row) = get (k * 4) 4 (color_row p ?rest)" using len by (simp add: step)
    also have "\<dots> = color_bytes p (get (k * 4) 4 ?rest)" using Suc that IH by simp
    also have "get (k * 4) 4 ?rest = get (m * 4) 4 row" using Suc by (simp add: get_def add.commute)
    finally show ?thesis .
  qed
  with IH len show ?case by (simp add: step)
qed (simp add: color_row_chunks)

lemma length_color_row [simp]: "length (color_row p row) = length row"
proof -
  have "length (concat (map (color_bytes p) (chunks 4 row))) = length (concat (chunks 4 row))"
    by (simp only: length_concat map_map comp_def length_color_bytes)
  then show ?thesis by (simp add: color_row_chunks)
qed

lemma length_copy_rows: "length (snd (copy_rows p src pitch address stride xoff span ys dst)) = length dst"
  by (induction p src pitch address stride xoff span ys dst rule: copy_rows.induct) (auto simp: Let_def)

lemma length_copy_rects: "length (snd (copy_rects p src pitch address stride rs dst)) = length dst"
proof (induction rs arbitrary: dst)
  case (Cons r rs)
  have "length (snd (copy_rect p src pitch address stride r dst)) = length dst"
    by (cases r) (simp add: length_copy_rows)
  with Cons show ?case by (cases "copy_rect p src pitch address stride r dst") (auto split: sum.split)
qed simp

text \<open>A grab never resizes the client's buffer, whatever its outcome.\<close>

lemma length_grabpix: "length (g_buffer (snd (snd (grabpix view a c)))) = length (g_buffer a)"
proof -
  have "length dst = length (g_buffer a)" if "copy_rects p src pitch address stride rs (g_buffer a) = (r, dst)"
    for p src pitch address stride rs r dst
    using that length_copy_rects [of p src pitch address stride rs "g_buffer a"] by simp
  then show ?thesis
    by (auto simp: grabpix_def take_damage_def Let_def split: option.split sum.split prod.split)
qed

lemma rows_apart:
  fixes x y y' stride k n :: nat
  assumes "y \<noteq> y'" "x * 4 + 4 \<le> stride" "k * 4 + n * 4 \<le> stride"
  shows "y * stride + x * 4 + 4 \<le> y' * stride + k * 4 \<or> y' * stride + k * 4 + n * 4 \<le> y * stride + x * 4"
proof (cases "y < y'")
  case True
  then have "Suc y * stride \<le> y' * stride" by (intro mult_le_mono1) simp
  with assms(2) show ?thesis by simp
next
  case False
  with assms(1) have "Suc y' * stride \<le> y * stride" by (intro mult_le_mono1) simp
  with assms(3) show ?thesis by simp
qed

lemma pixel_put_row:
  assumes "k * 4 + n * 4 \<le> stride" "y' * stride + k * 4 + n * 4 \<le> length dst"
    and "y' * pitch + k * 4 + n * 4 \<le> length src" and "x * 4 + 4 \<le> stride"
  shows "pixel stride x y (put (y' * stride + k * 4) (color_row p (get (y' * pitch + k * 4) (n * 4) src)) dst) =
    (if y = y' \<and> k \<le> x \<and> x < k + n then color_bytes p (pixel pitch x y src) else pixel stride x y dst)"
proof -
  let ?row = "get (y' * pitch + k * 4) (n * 4) src"
  have row: "length ?row = n * 4" using assms(3) by simp
  have len: "length (color_row p ?row) = n * 4" using row by simp
  show ?thesis
  proof (cases "y = y' \<and> k \<le> x \<and> x < k + n")
    case True
    then have "pixel stride x y (put (y' * stride + k * 4) (color_row p ?row) dst) = get ((x - k) * 4) 4 (color_row p ?row)"
      unfolding pixel_def using assms(2) len by (subst get_put_inside) (auto simp: diff_mult_distrib)
    also have "\<dots> = color_bytes p (get ((x - k) * 4) 4 ?row)"
      using True by (simp add: color_row_pixels [OF row] less_diff_conv2 add.commute)
    also have "get ((x - k) * 4) 4 ?row = pixel pitch x y src"
      unfolding pixel_def using True by (subst get_get) (auto simp: diff_mult_distrib)
    finally show ?thesis using True by simp
  next
    case False
    then have "y * stride + x * 4 + 4 \<le> y' * stride + k * 4 \<or> y' * stride + k * 4 + n * 4 \<le> y * stride + x * 4"
      using rows_apart [OF _ assms(4,1), of y y'] by (cases "y = y'") auto
    then have "pixel stride x y (put (y' * stride + k * 4) (color_row p ?row) dst) = pixel stride x y dst"
      unfolding pixel_def using assms(2) len by (intro get_put_other) auto
    with False show ?thesis by (simp only: if_False)
  qed
qed

lemma copy_rows_pixels:
  assumes "k * 4 + n * 4 \<le> stride" and "\<forall>y' \<in> set ys. y' * stride + k * 4 + n * 4 \<le> length dst"
    and "\<forall>y' \<in> set ys. y' * pitch + k * 4 + n * 4 \<le> length src" and "address + length dst < 2 ^ 64"
  shows "\<exists>dst'. copy_rows p src pitch address stride (k * 4) (n * 4) ys dst = (Ok (), dst') \<and> length dst' = length dst \<and>
    (\<forall>x y. x * 4 + 4 \<le> stride \<longrightarrow>
      pixel stride x y dst' = (if y \<in> set ys \<and> k \<le> x \<and> x < k + n then color_bytes p (pixel pitch x y src) else pixel stride x y dst))"
  using assms
proof (induction ys arbitrary: dst)
  case (Cons y' ys)
  let ?off = "y' * stride + k * 4" and ?row = "color_row p (get (y' * pitch + k * 4) (n * 4) src)"
  have len: "length ?row = n * 4" using Cons.prems(3) by (simp add: color_row_pixels)
  then have "length (put ?off ?row dst) = length dst" using Cons.prems(2) by simp
  moreover have "address + ?off < 2 ^ 64" using Cons.prems(2,4) by auto
  ultimately show ?case
    using Cons.IH [of "put ?off ?row dst"] Cons.prems pixel_put_row [of k n stride y' dst pitch src _ _ p]
    by (auto simp: Let_def)
qed simp

text \<open>What a rectangle needs to be copied whole.\<close>

definition copyable :: "int \<Rightarrow> int \<Rightarrow> bytes \<Rightarrow> nat \<Rightarrow> nat \<Rightarrow> nat \<Rightarrow> nat \<Rightarrow> bool" where
  "copyable w h src pitch address stride len \<longleftrightarrow>
    nat w * 4 \<le> stride \<and> nat h * stride \<le> len \<and> nat w * 4 \<le> pitch \<and> nat h * pitch \<le> length src \<and> address + len < 2 ^ 64"

lemma copy_rect_pixels:
  assumes "copyable w h src pitch address stride (length dst)" and "within w h r"
  shows "\<exists>dst'. copy_rect p src pitch address stride r dst = (Ok (), dst') \<and> length dst' = length dst \<and>
    (\<forall>x y. x * 4 + 4 \<le> stride \<longrightarrow> pixel stride x y dst' =
      (if inside (int x) (int y) r then color_bytes p (pixel pitch x y src) else pixel stride x y dst))"
proof -
  obtain x1 y1 x2 y2 where r: "r = (x1, y1, x2, y2)" by (cases r)
  let ?k = "nat x1" and ?n = "nat (x2 - x1)"
  have kn: "?k * 4 + ?n * 4 \<le> nat w * 4" using assms(2) r by auto
  have row: "y * m + ?k * 4 + ?n * 4 \<le> nat h * m" if "y \<in> set [nat y1..<nat y2]" "nat w * 4 \<le> m" for y m
  proof -
    have "Suc y * m \<le> nat h * m" using that(1) assms(2) r by (intro mult_le_mono1) auto
    with kn that(2) show ?thesis by simp
  qed
  have ok: "nat w * 4 \<le> stride" "nat h * stride \<le> length dst" "nat w * 4 \<le> pitch" "nat h * pitch \<le> length src"
    "address + length dst < 2 ^ 64" using assms(1) by (simp_all add: copyable_def)
  have in_iff: "inside (int x) (int y) r \<longleftrightarrow> y \<in> set [nat y1..<nat y2] \<and> ?k \<le> x \<and> x < ?k + ?n" for x y
    using assms(2) r by auto
  have pre: "?k * 4 + ?n * 4 \<le> stride" "\<forall>y \<in> set [nat y1..<nat y2]. y * stride + ?k * 4 + ?n * 4 \<le> length dst"
    "\<forall>y \<in> set [nat y1..<nat y2]. y * pitch + ?k * 4 + ?n * 4 \<le> length src"
    using kn ok row [OF _ ok(1)] row [OF _ ok(3)] le_trans by blast+
  obtain dst' where "copy_rows p src pitch address stride (?k * 4) (?n * 4) [nat y1..<nat y2] dst = (Ok (), dst')"
    "length dst' = length dst"
    "\<forall>x y. x * 4 + 4 \<le> stride \<longrightarrow> pixel stride x y dst' =
      (if y \<in> set [nat y1..<nat y2] \<and> ?k \<le> x \<and> x < ?k + ?n then color_bytes p (pixel pitch x y src) else pixel stride x y dst)"
    using copy_rows_pixels [OF pre(1-3) ok(5), of p] by blast
  then show ?thesis unfolding in_iff by (simp add: r)
qed

lemma copy_rects_pixels:
  assumes "copyable w h src pitch address stride (length dst)" and "\<forall>r \<in> set rs. within w h r"
  shows "\<exists>dst'. copy_rects p src pitch address stride rs dst = (Ok (), dst') \<and> length dst' = length dst \<and>
    (\<forall>x y. x * 4 + 4 \<le> stride \<longrightarrow> pixel stride x y dst' =
      (if \<exists>r \<in> set rs. inside (int x) (int y) r then color_bytes p (pixel pitch x y src) else pixel stride x y dst))"
  using assms
proof (induction rs arbitrary: dst)
  case (Cons r rs)
  then obtain dst1 where first: "copy_rect p src pitch address stride r dst = (Ok (), dst1)" "length dst1 = length dst"
    "\<forall>x y. x * 4 + 4 \<le> stride \<longrightarrow> pixel stride x y dst1 =
      (if inside (int x) (int y) r then color_bytes p (pixel pitch x y src) else pixel stride x y dst)"
    using copy_rect_pixels [of w h src pitch address stride dst r p] by auto
  from Cons.IH [of dst1] Cons.prems first(2) obtain dst2 where
    "copy_rects p src pitch address stride rs dst1 = (Ok (), dst2)" "length dst2 = length dst1"
    "\<forall>x y. x * 4 + 4 \<le> stride \<longrightarrow> pixel stride x y dst2 =
      (if \<exists>r \<in> set rs. inside (int x) (int y) r then color_bytes p (pixel pitch x y src) else pixel stride x y dst1)"
    by auto
  with first show ?case by auto
qed simp

section \<open>One grab\<close>

definition client_ok :: "grab_args \<Rightarrow> bool" where
  "client_ok a \<longleftrightarrow> g_mode a = EVDI_GRABPIX_MODE_DIRTY \<and> 1 \<le> g_num_rects a \<and> g_address a \<noteq> 0
     \<and> 0 < g_buf_byte_stride a \<and> 0 \<le> g_buf_width a \<and> 0 \<le> g_buf_height a
     \<and> nat (g_buf_height a) * nat (g_buf_byte_stride a) \<le> length (g_buffer a)
     \<and> g_address a + length (g_buffer a) < 2 ^ 64
     \<and> pred_option (\<lambda>b. nat (g_num_rects a) * 8 \<le> length b) (g_rects a)"

definition mapping_ok :: "(nat \<Rightarrow> bytes) \<Rightarrow> PreparedScanout \<Rightarrow> bool" where
  "mapping_ok view s \<longleftrightarrow>
    (let w = sint (fb_width (framebuffer s)); h = sint (fb_height (framebuffer s))
     in 0 \<le> w \<and> 0 \<le> h \<and> nat w * 4 \<le> map_pitch s \<and> nat h * map_pitch s \<le> length (view (fb_id (framebuffer s))))"

definition scanned :: "(nat \<Rightarrow> bytes) \<Rightarrow> PreparedScanout \<Rightarrow> nat \<Rightarrow> nat \<Rightarrow> bytes" where
  "scanned view s x y = pixel (map_pitch s) x y (view (fb_id (framebuffer s)))"

abbreviation client_stride :: "grab_args \<Rightarrow> nat" where
  "client_stride a \<equiv> nat (g_buf_byte_stride a)"

lemma max_nonneg:
  assumes "client_ok a" "mapping_ok view s"
  shows "0 \<le> max_w s a" "0 \<le> max_h s a"
  using assms by (auto simp: client_ok_def mapping_ok_def Let_def max_w_def max_h_def)

lemma grab_copyable:
  assumes "client_ok a" "mapping_ok view s"
  shows "copyable (max_w s a) (max_h s a) (view (fb_id (framebuffer s))) (map_pitch s) (g_address a) (client_stride a)
    (length (g_buffer a))"
proof -
  let ?w = "max_w s a" and ?h = "max_h s a" and ?stride = "client_stride a"
  have "nat ?w * 4 \<le> ?stride" using assms(1) by (auto simp: max_w_def client_ok_def min_def)
  moreover have "nat ?h * ?stride \<le> length (g_buffer a)"
    by (rule le_trans [OF mult_le_mono1 [of _ "nat (g_buf_height a)"]])
      (use assms(1) in \<open>simp_all add: client_ok_def max_h_def nat_mono\<close>)
  moreover have "nat ?w * 4 \<le> map_pitch s"
    by (rule le_trans [OF mult_le_mono1 [of _ "nat (sint (fb_width (framebuffer s)))"]])
      (use assms(2) in \<open>simp_all add: mapping_ok_def Let_def max_w_def nat_mono\<close>)
  moreover have "nat ?h * map_pitch s \<le> length (view (fb_id (framebuffer s)))"
    by (rule le_trans [OF mult_le_mono1 [of _ "nat (sint (fb_height (framebuffer s)))"]])
      (use assms(2) in \<open>simp_all add: mapping_ok_def Let_def max_h_def nat_mono\<close>)
  ultimately show ?thesis
    using assms(1) by (simp add: copyable_def client_ok_def)
qed

lemma write_rects_ok:
  assumes "client_ok a"
  shows "\<exists>out. write_rects (grab_rects s a dmg) (g_rects a) = Ok out"
proof (cases "g_rects a")
  case (Some buf)
  have "length (grab_rects s a dmg) \<le> nat (g_num_rects a)"
    using grab_rects_length [of s a dmg] assms by (simp add: client_ok_def)
  then have "length (grab_rects s a dmg) * 8 \<le> length buf"
    using assms Some by (simp add: client_ok_def)
  then show ?thesis using Some by (simp add: write_rects_def)
qed (simp add: write_rects_def)

lemma grabpix_pixels:
  assumes "prepared_scanout c = Some s" "client_ok a" "mapping_ok view s"
  shows "\<exists>out dst'. grabpix view a c =
      (Ok (), snd (take_damage c), a\<lparr>g_rects := out, g_num_rects := int (length (grab_rects s a (damage (painter c)))), g_buffer := dst'\<rparr>)
    \<and> write_rects (grab_rects s a (damage (painter c))) (g_rects a) = Ok out
    \<and> length dst' = length (g_buffer a)
    \<and> (\<forall>x y. x * 4 + 4 \<le> client_stride a \<longrightarrow> pixel (client_stride a) x y dst' =
        (if \<exists>r \<in> set (grab_rects s a (damage (painter c))). inside (int x) (int y) r
         then color_bytes (color c) (scanned view s x y) else pixel (client_stride a) x y (g_buffer a)))"
proof -
  let ?rs = "grab_rects s a (damage (painter c))"
  have within: "\<forall>r \<in> set ?rs. within (max_w s a) (max_h s a) r"
    using grab_rects_within max_nonneg [OF assms(2,3)] by blast
  obtain out where out: "write_rects ?rs (g_rects a) = Ok out" using write_rects_ok [OF assms(2)] by blast
  obtain dst' where dst: "copy_rects (color c) (view (fb_id (framebuffer s))) (map_pitch s) (g_address a) (client_stride a) ?rs
      (g_buffer a) = (Ok (), dst')" "length dst' = length (g_buffer a)"
    "\<forall>x y. x * 4 + 4 \<le> client_stride a \<longrightarrow> pixel (client_stride a) x y dst' =
        (if \<exists>r \<in> set ?rs. inside (int x) (int y) r
         then color_bytes (color c) (scanned view s x y) else pixel (client_stride a) x y (g_buffer a))"
    using copy_rects_pixels [OF grab_copyable [OF assms(2,3)] within, of "color c"] unfolding scanned_def by blast
  have guards: "g_mode a = EVDI_GRABPIX_MODE_DIRTY" "\<not> g_num_rects a < 1"
    "\<not> (g_address a = 0 \<or> g_buf_byte_stride a \<le> 0 \<or> g_buf_width a < 0 \<or> g_buf_height a < 0)"
    "\<not> (max_w s a < 0 \<or> max_h s a < 0)"
    using assms(2) max_nonneg [OF assms(2,3)] by (auto simp: client_ok_def)
  show ?thesis
  proof (cases "?rs = []")
    case True
    with out have "out = g_rects a" by (cases "g_rects a") (auto simp: write_rects_def put_def)
    with True dst out guards assms(1) show ?thesis
      by (intro exI [of _ out] exI [of _ dst']) (simp add: grabpix_def take_damage_def Let_def)
  next
    case False
    with dst out guards assms(1) show ?thesis
      by (intro exI [of _ out] exI [of _ dst']) (simp add: grabpix_def take_damage_def Let_def)
  qed
qed

section \<open>Histories of a display\<close>

text \<open>
  A display is the card, the memory of the framebuffers and the client's buffer; the client grabs with the same
  geometry each time. The compositor renders into framebuffers that are not scanned out, and flips with clips
  that cover every pixel in which the new framebuffer differs from the one scanned out (all of them when there
  was none). A new colour transform is programmed while the whole picture is damaged. \<open>fbs\<close> are the compositor's
  framebuffers, told apart by their identity; mapping one always gives the same result.
\<close>

type_synonym display = "Card \<times> (nat \<Rightarrow> bytes) \<times> bytes"

definition in_bounds :: "PreparedScanout \<Rightarrow> grab_args \<Rightarrow> nat \<Rightarrow> nat \<Rightarrow> bool" where
  "in_bounds s a x y \<longleftrightarrow> int x < max_w s a \<and> int y < max_h s a"

definition honest_clips ::
  "grab_args \<Rightarrow> (nat \<Rightarrow> bytes) \<Rightarrow> PreparedScanout option \<Rightarrow> (nat \<Rightarrow> bytes) \<Rightarrow> PreparedScanout \<Rightarrow> rect list \<Rightarrow> bool" where
  "honest_clips a view old view' new clips \<longleftrightarrow>
    (\<forall>x y. in_bounds new a x y \<longrightarrow>
      (\<exists>r \<in> set clips. inside (int x) (int y) r) \<or>
      (\<exists>s. old = Some s \<and> in_bounds s a x y \<and> scanned view' new x y = scanned view s x y))"

definition all_damaged :: "grab_args \<Rightarrow> Card \<Rightarrow> bool" where
  "all_damaged a c \<longleftrightarrow>
    (\<forall>s x y. prepared_scanout c = Some s \<longrightarrow> in_bounds s a x y \<longrightarrow> damaged (damage (painter c)) (int x) (int y))"

inductive display_step :: "Framebuffer set \<Rightarrow> (Framebuffer \<Rightarrow> nat result) \<Rightarrow> grab_args \<Rightarrow> display \<Rightarrow> display \<Rightarrow> bool" for fbs vmap a where
  render: "(\<And>s. prepared_scanout c = Some s \<Longrightarrow> view' (fb_id (framebuffer s)) = view (fb_id (framebuffer s))) \<Longrightarrow>
    display_step fbs vmap a (c, view, dst) (c, view', dst)"
| flip: "fb \<in> fbs \<Longrightarrow> vmap fb = Ok pitch \<Longrightarrow> s = \<lparr>framebuffer = fb, map_pitch = pitch\<rparr> \<Longrightarrow> mapping_ok view' s \<Longrightarrow>
    honest_clips a view (prepared_scanout c) view' s clips \<Longrightarrow>
    display_step fbs vmap a (c, view, dst) (atomic_update vmap (Some fb) clips c, view', dst)"
| grab: "grabpix view (a\<lparr>g_buffer := dst\<rparr>) c = (Ok (), c', a') \<Longrightarrow>
    display_step fbs vmap a (c, view, dst) (c', view, g_buffer a')"
| hide: "display_step fbs vmap a (c, view, dst) (atomic_update vmap None clips c, view, dst)"
| disable: "display_step fbs vmap a (c, view, dst) (atomic_disable c, view, dst)"
| enable: "display_step fbs vmap a (c, view, dst) (atomic_enable mode c, view, dst)"
| flush: "build lut ctm = color c \<or> all_damaged a c \<Longrightarrow>
    display_step fbs vmap a (c, view, dst) (snd (atomic_flush lut ctm pending vblank c), view, dst)"
| attach: "display_step fbs vmap a (c, view, dst) (snd (connect registered file args c), view, dst)"
| cursor: "display_step fbs vmap a (c, view, dst) (update_cursor handle stride old new source destination c, view, dst)"
| cursor_switch: "display_step fbs vmap a (c, view, dst) (snd (enable_cursor_events on c), view, dst)"

inductive displayed :: "Framebuffer set \<Rightarrow> (Framebuffer \<Rightarrow> nat result) \<Rightarrow> grab_args \<Rightarrow> display \<Rightarrow> bool" for fbs vmap a where
  start: "length dst = length (g_buffer a) \<Longrightarrow> displayed fbs vmap a (card_new, view, dst)"
| step: "displayed fbs vmap a d \<Longrightarrow> display_step fbs vmap a d d' \<Longrightarrow> displayed fbs vmap a d'"

definition in_step :: "grab_args \<Rightarrow> display \<Rightarrow> nat \<Rightarrow> nat \<Rightarrow> bool" where
  "in_step a = (\<lambda>(c, view, dst) x y. \<forall>s. prepared_scanout c = Some s \<longrightarrow>
    pixel (client_stride a) x y dst = color_bytes (color c) (scanned view s x y))"

definition bindings_ok :: "Framebuffer set \<Rightarrow> (Framebuffer \<Rightarrow> nat result) \<Rightarrow> ScanoutState \<Rightarrow> bool" where
  "bindings_ok fbs vmap s \<longleftrightarrow> length (bindings s) = SCANOUT_BINDINGS \<and> next_binding s < SCANOUT_BINDINGS \<and>
    (\<forall>p. Some p \<in> set (bindings s) \<longrightarrow> framebuffer p \<in> fbs \<and> vmap (framebuffer p) = Ok (map_pitch p))"

definition display_inv :: "Framebuffer set \<Rightarrow> (Framebuffer \<Rightarrow> nat result) \<Rightarrow> grab_args \<Rightarrow> display \<Rightarrow> bool" where
  "display_inv fbs vmap a = (\<lambda>(c, view, dst).
    length dst = length (g_buffer a) \<and> bindings_ok fbs vmap (scanout c) \<and> damage_wf (damage (painter c)) \<and>
    (\<forall>s. prepared_scanout c = Some s \<longrightarrow> mapping_ok view s \<and>
      (\<forall>x y. in_bounds s a x y \<longrightarrow> damaged (damage (painter c)) (int x) (int y) \<or> in_step a (c, view, dst) x y)) \<and>
    (\<forall>x y. damaged (damage (painter c)) x y \<longrightarrow> frame_dirty (painter c)))"

text \<open>Most callbacks leave the picture alone.\<close>

definition picture :: "Card \<Rightarrow> PainterState \<times> ScanoutState \<times> ColorPipeline option" where
  "picture c = (painter c, scanout c, color c)"

lemma picture_notify [simp]:
  "picture (send ev c) = picture c" "picture (notify_update_ready c) = picture c" "picture (notify_dpms m c) = picture c"
  "picture (notify_mode_changed h v r b f c) = picture c" "picture (notify_cursor_set handle shape c) = picture c"
  "picture (notify_cursor_disabled c) = picture c" "picture (notify_cursor_move x y c) = picture c"
  "picture (hotplug_event c) = picture c"
  by (simp_all add: picture_def send_def notify_update_ready_def notify_dpms_def notify_mode_changed_def
      notify_cursor_set_def notify_cursor_disabled_def notify_cursor_move_def hotplug_event_def
      split: sum.split option.split)

lemma picture_update [simp]:
  "picture (c\<lparr>cached_edid := e\<rparr>) = picture c" "picture (c\<lparr>receivers := l\<rparr>) = picture c"
  "picture (c\<lparr>announced_mode := m\<rparr>) = picture c" "picture (c\<lparr>cursor_events := b\<rparr>) = picture c"
  "picture (set_mode_limits p q c) = picture c" "picture (set_edid blob c) = picture c" "picture (clear_edid c) = picture c"
  "picture (replay_state c) = picture c"
  by (simp_all add: set_edid_def clear_edid_def replay_state_def split: option.split)
    (simp_all add: picture_def set_mode_limits_def)

lemma picture_connect [simp]: "picture (snd (connect registered file args c)) = picture c"
  by (simp add: connect_def Let_def split: sum.split)

lemma picture_cursor [simp]: "picture (update_cursor handle stride old new source destination c) = picture c"
  by (simp add: update_cursor_def Let_def split: option.split sum.split prod.split)

lemma picture_enable [simp]:
  "picture (atomic_enable mode c) = picture c" "picture (snd (enable_cursor_events on c)) = picture c"
  by (simp_all add: atomic_enable_def enable_cursor_events_def Let_def)

lemma display_inv_picture: "picture c' = picture c \<Longrightarrow> display_inv fbs vmap a (c', view, dst) = display_inv fbs vmap a (c, view, dst)"
  by (simp add: display_inv_def picture_def in_step_def prepared_scanout_def)

lemmas display_inv_quiet = display_inv_picture [OF picture_connect] display_inv_picture [OF picture_cursor]
  display_inv_picture [OF picture_enable(1)] display_inv_picture [OF picture_enable(2)]

lemma bindings_ok_empty:
  "bindings_ok fbs vmap scanout_new" "bindings_ok fbs vmap (discard s)"
  by (simp_all add: bindings_ok_def scanout_new_def discard_def SCANOUT_BINDINGS_def)

lemma find_binding_Some: "find_binding fb bs = Some p \<Longrightarrow> Some p \<in> set bs \<and> fb_id (framebuffer p) = fb_id fb"
  by (induction fb bs rule: find_binding.induct) (auto split: if_splits)

text \<open>The framebuffer flipped in is the one prepared, whether or not it was bound before.\<close>

lemma prepare_current:
  assumes "bindings_ok fbs vmap s" and "inj_on fb_id fbs" and "fb \<in> fbs" and "vmap fb = Ok pitch"
  shows "\<exists>s'. prepare vmap (Some fb) s = (Ok (), s') \<and> current s' = Some \<lparr>framebuffer = fb, map_pitch = pitch\<rparr> \<and>
    bindings_ok fbs vmap s'"
proof (cases "find_binding fb (bindings s)")
  case None
  with assms show ?thesis
    by (auto simp: prepare_def Let_def bindings_ok_def SCANOUT_BINDINGS_def dest!: subsetD [OF set_update_subset_insert])
next
  case (Some p)
  then have p: "Some p \<in> set (bindings s)" "fb_id (framebuffer p) = fb_id fb" by (simp_all add: find_binding_Some)
  then have "framebuffer p = fb" using assms by (auto simp: bindings_ok_def dest: inj_onD)
  moreover from this p assms have "map_pitch p = pitch" by (auto simp: bindings_ok_def)
  ultimately have "p = \<lparr>framebuffer = fb, map_pitch = pitch\<rparr>" by simp
  with Some assms show ?thesis by (simp add: prepare_def bindings_ok_def)
qed

lemma display_inv_new: "length dst = length (g_buffer a) \<Longrightarrow> display_inv fbs vmap a (card_new, view, dst)"
  by (simp add: display_inv_def card_new_def painter_new_def damage_new_wf bindings_ok_empty prepared_scanout_def)
    (simp add: damaged_def damage_new_def scanout_new_def)

lemma display_inv_hidden:
  assumes "display_inv fbs vmap a (c, view, dst)" and "painter c' = painter c" and "scanout c' = discard (scanout c)"
  shows "display_inv fbs vmap a (c', view, dst)"
  using assms bindings_ok_empty(2) [of fbs vmap "scanout c"]
  by (simp add: display_inv_def prepared_scanout_def) (simp add: discard_def)

lemma display_inv_all_damaged:
  assumes "display_inv fbs vmap a (c, view, dst)" and "all_damaged a c" and "scanout c' = scanout c"
    and "painter c' = painter c"
  shows "display_inv fbs vmap a (c', view, dst)"
  using assms by (simp add: display_inv_def all_damaged_def prepared_scanout_def)

lemma hidden: "painter (atomic_update vmap None clips c) = painter c" "scanout (atomic_update vmap None clips c) = discard (scanout c)"
  by (simp_all add: atomic_update_def set_scanout_def prepare_def)

lemma disabled: "painter (atomic_disable c) = painter c" "scanout (atomic_disable c) = discard (scanout c)"
  by (simp_all add: atomic_disable_def set_scanout_def prepare_def notify_dpms_def send_def)

lemma flipped:
  assumes "display_inv fbs vmap a (c, view, dst)" and "inj_on fb_id fbs" and "fb \<in> fbs" and "vmap fb = Ok pitch"
    and c'_def: "c' = atomic_update vmap (Some fb) clips c"
  shows "prepared_scanout c' = Some \<lparr>framebuffer = fb, map_pitch = pitch\<rparr>" and "color c' = color c"
    and "bindings_ok fbs vmap (scanout c')"
    and "painter c' = (painter c)\<lparr>damage := fold damage_push clips (damage (painter c)), frame_dirty := True\<rparr>"
proof -
  obtain s' where "prepare vmap (Some fb) (scanout c) = (Ok (), s')"
    "current s' = Some \<lparr>framebuffer = fb, map_pitch = pitch\<rparr>" "bindings_ok fbs vmap s'"
    using prepare_current [of fbs vmap "scanout c" fb pitch] assms(1-4) by (auto simp: display_inv_def)
  then show "prepared_scanout c' = Some \<lparr>framebuffer = fb, map_pitch = pitch\<rparr>" "color c' = color c"
    "bindings_ok fbs vmap (scanout c')"
    "painter c' = (painter c)\<lparr>damage := fold damage_push clips (damage (painter c)), frame_dirty := True\<rparr>"
    by (simp_all add: c'_def atomic_update_def set_scanout_def Let_def notify_update_ready_def send_def prepared_scanout_def)
qed

lemma display_inv_flip:
  assumes inv: "display_inv fbs vmap a (c, view, dst)" and ids: "inj_on fb_id fbs" "fb \<in> fbs" "vmap fb = Ok pitch"
    and s: "s = \<lparr>framebuffer = fb, map_pitch = pitch\<rparr>" and map: "mapping_ok view' s"
    and clips: "honest_clips a view (prepared_scanout c) view' s clips"
  shows "display_inv fbs vmap a (atomic_update vmap (Some fb) clips c, view', dst)" (is "display_inv fbs vmap a (?c, _, _)")
proof -
  note new = flipped [OF inv ids refl, of clips]
  have wf: "damage_wf (damage (painter c))" using inv by (simp add: display_inv_def)
  have "damaged (damage (painter ?c)) (int x) (int y) \<or> in_step a (?c, view', dst) x y" if xy: "in_bounds s a x y" for x y
  proof (cases "(\<exists>r \<in> set clips. inside (int x) (int y) r) \<or> damaged (damage (painter c)) (int x) (int y)")
    case True
    then show ?thesis using damage_pushes_cover [OF wf, of "int x" "int y" clips] by (auto simp: new)
  next
    case False
    then obtain s0 where s0: "prepared_scanout c = Some s0" "in_bounds s0 a x y" "scanned view' s x y = scanned view s0 x y"
      using clips xy False unfolding honest_clips_def by blast
    then have "in_step a (c, view, dst) x y" using inv False by (auto simp: display_inv_def)
    then show ?thesis using s0 s by (simp add: in_step_def new)
  qed
  then show ?thesis
    using inv s map wf by (auto simp: display_inv_def new damage_pushes_wf)
qed

lemma client_ok_buffer: "client_ok a \<Longrightarrow> length dst = length (g_buffer a) \<Longrightarrow> client_ok (a\<lparr>g_buffer := dst\<rparr>)"
  by (simp add: client_ok_def)

lemma bounds_buffer [simp]: "max_w s (a\<lparr>g_buffer := dst\<rparr>) = max_w s a" "max_h s (a\<lparr>g_buffer := dst\<rparr>) = max_h s a"
  by (simp_all add: max_w_def max_h_def)

lemma in_bounds_stride:
  assumes "in_bounds s a x y"
  shows "x * 4 + 4 \<le> client_stride a"
proof -
  have "int x < g_buf_byte_stride a div 4" using assms by (simp add: in_bounds_def max_w_def)
  then show ?thesis by linarith
qed

text \<open>A grab brings every pixel of the client's buffer up to date.\<close>

lemma grab_updates:
  assumes inv: "display_inv fbs vmap a (c, view, dst)" and ok: "client_ok a" and s: "prepared_scanout c = Some s"
  shows "\<exists>a'. grabpix view (a\<lparr>g_buffer := dst\<rparr>) c = (Ok (), snd (take_damage c), a') \<and> length (g_buffer a') = length dst \<and>
    (\<forall>x y. in_bounds s a x y \<longrightarrow> pixel (client_stride a) x y (g_buffer a') = color_bytes (color c) (scanned view s x y))"
proof -
  let ?a = "a\<lparr>g_buffer := dst\<rparr>" and ?d = "damage (painter c)"
  have len: "length dst = length (g_buffer a)" and map: "mapping_ok view s"
    using inv s by (auto simp: display_inv_def)
  obtain a' where a': "grabpix view ?a c = (Ok (), snd (take_damage c), a')" "length (g_buffer a') = length dst"
    and px: "\<forall>x y. x * 4 + 4 \<le> client_stride a \<longrightarrow> pixel (client_stride a) x y (g_buffer a') =
        (if \<exists>r \<in> set (grab_rects s ?a ?d). inside (int x) (int y) r
         then color_bytes (color c) (scanned view s x y) else pixel (client_stride a) x y dst)"
    using grabpix_pixels [OF s client_ok_buffer [OF ok len] map] by force
  have "pixel (client_stride a) x y (g_buffer a') = color_bytes (color c) (scanned view s x y)" if xy: "in_bounds s a x y" for x y
  proof (cases "\<exists>r \<in> set (grab_rects s ?a ?d). inside (int x) (int y) r")
    case True
    with px in_bounds_stride [OF xy] show ?thesis by simp
  next
    case False
    then have "\<not> damaged ?d (int x) (int y)"
      using grab_rects_cover [of "int x" s ?a "int y" ?d] xy by (auto simp: in_bounds_def)
    then have "in_step a (c, view, dst) x y" using inv s xy by (auto simp: display_inv_def)
    with False px in_bounds_stride [OF xy] s show ?thesis by (simp add: in_step_def)
  qed
  with a' show ?thesis by blast
qed

lemma display_inv_grab:
  assumes inv: "display_inv fbs vmap a (c, view, dst)" and ok: "client_ok a"
    and grab: "grabpix view (a\<lparr>g_buffer := dst\<rparr>) c = (Ok (), c', a')"
  shows "display_inv fbs vmap a (c', view, g_buffer a')"
proof (cases "prepared_scanout c")
  case None
  then have "c' = c" "g_buffer a' = dst" using grab ok by (auto simp: grabpix_def client_ok_def)
  with inv show ?thesis by simp
next
  case (Some s)
  obtain a'' where "grabpix view (a\<lparr>g_buffer := dst\<rparr>) c = (Ok (), snd (take_damage c), a'')" "length (g_buffer a'') = length dst"
    "\<forall>x y. in_bounds s a x y \<longrightarrow> pixel (client_stride a) x y (g_buffer a'') = color_bytes (color c) (scanned view s x y)"
    using grab_updates [OF inv ok Some] by blast
  with inv grab Some show ?thesis
    by (auto simp: display_inv_def in_step_def take_damage_def prepared_scanout_def damage_clear_wf)
      (simp_all add: damaged_def damage_clear_def)
qed

lemma display_step_inv:
  assumes "display_step fbs vmap a d d'" and "client_ok a" and "inj_on fb_id fbs" and "display_inv fbs vmap a d"
  shows "display_inv fbs vmap a d'"
  using assms
proof (cases rule: display_step.cases)
  case (render c view' view dst)
  then have "scanned view' s = scanned view s" "mapping_ok view' s = mapping_ok view s" if "prepared_scanout c = Some s" for s
    using that by (auto simp: scanned_def mapping_ok_def fun_eq_iff)
  then show ?thesis using assms(4) render by (simp add: display_inv_def in_step_def)
next
  case (flush lut ctm c view dst pending vblank)
  let ?c = "snd (atomic_flush lut ctm pending vblank c)"
  have same: "scanout ?c = scanout c" "painter ?c = painter c" by (simp_all add: atomic_flush_def)
  show ?thesis
  proof (cases "build lut ctm = color c")
    case True
    then have "picture ?c = picture c" by (simp add: picture_def atomic_flush_def)
    from display_inv_picture [OF this] assms(4) flush(1,2) show ?thesis by simp
  next
    case False
    with flush have "all_damaged a c" by simp
    from display_inv_all_damaged [OF _ this same] assms(4) flush(1,2) show ?thesis by simp
  qed
qed (auto intro: display_inv_flip display_inv_grab display_inv_hidden [OF _ hidden] display_inv_hidden [OF _ disabled]
  simp: display_inv_quiet)

lemma displayed_inv: "displayed fbs vmap a d \<Longrightarrow> client_ok a \<Longrightarrow> inj_on fb_id fbs \<Longrightarrow> display_inv fbs vmap a d"
  by (induction rule: displayed.induct) (auto intro: display_inv_new display_step_inv)


text \<open>A two by two framebuffer, flipped in once.\<close>

definition demo_fb :: Framebuffer where
  "demo_fb = \<lparr>fb_id = 7, fb_width = 2, fb_height = 2, fb_format = XRGB8888\<rparr>"

definition demo_view :: "nat \<Rightarrow> bytes" where
  "demo_view i = (if i = 7 then [1, 2, 3, 0, 4, 5, 6, 0, 7, 8, 9, 0, 10, 11, 12, 0] else [])"

definition demo_client :: grab_args where
  "demo_client = \<lparr>g_mode = 1, g_buf_width = 2, g_buf_height = 2, g_buf_byte_stride = 8, g_address = 4096,
     g_buffer = replicate 16 0, g_num_rects = 16, g_rects = None\<rparr>"

definition demo_scanout :: PreparedScanout where
  "demo_scanout = \<lparr>framebuffer = demo_fb, map_pitch = 8\<rparr>"

definition demo_card :: Card where
  "demo_card = atomic_update (\<lambda>_. Ok 8) (Some demo_fb) [(0, 0, 2, 2)] card_new"

lemma demo_client_ok: "client_ok demo_client"
  by (simp add: client_ok_def demo_client_def EVDI_GRABPIX_MODE_DIRTY_def)

lemma demo_displayed:
  assumes "length (g_buffer a) = 16" "g_buf_byte_stride a = 8" "g_buf_height a = 2"
  shows "displayed {demo_fb} (\<lambda>_. Ok 8) a (demo_card, demo_view, replicate 16 0)"
  unfolding demo_card_def
proof (rule displayed.step [OF displayed.start display_step.flip])
  show "demo_scanout = \<lparr>framebuffer = demo_fb, map_pitch = 8\<rparr>" by (rule demo_scanout_def)
  show "mapping_ok demo_view demo_scanout"
    by (simp add: mapping_ok_def demo_scanout_def demo_fb_def demo_view_def)
  show "honest_clips a demo_view (prepared_scanout card_new) demo_view demo_scanout [(0, 0, 2, 2)]"
    using assms by (simp add: honest_clips_def in_bounds_def max_w_def max_h_def demo_scanout_def demo_fb_def)
qed (use assms in simp_all)

lemma demo_prepared: "prepared_scanout demo_card = Some demo_scanout"
proof -
  have "display_inv {demo_fb} (\<lambda>_. Ok 8) demo_client (card_new, demo_view, replicate 16 0)"
    by (rule display_inv_new) (simp add: demo_client_def)
  from flipped(1) [OF this, of demo_fb 8, OF _ _ _ demo_card_def] show ?thesis by (simp add: demo_scanout_def)
qed


section \<open>Modes and announcements\<close>

definition same_resolution :: "DisplayMode \<Rightarrow> DisplayMode \<Rightarrow> bool" where
  "same_resolution m n \<longleftrightarrow> hdisplay m = hdisplay n \<and> vdisplay m = vdisplay n"

lemma area_exact: "unat (ucast h * ucast v :: u32) = unat (h :: u16) * unat (v :: u16)"
proof -
  have "unat h * unat v \<le> 65535 * 65535" using unat_u16_lt [of h] unat_u16_lt [of v] by (intro mult_le_mono) auto
  then show ?thesis 
    using unat_u16_lt [of h] unat_u16_lt [of v]
    by (simp add: unat_word_ariths unsigned_ucast_eq take_bit_nat_eq_self)
qed

lemma unat_saturating_mul: "unat (saturating_mul a b) = min (unat a * unat b) (2 ^ 32 - 1)"
proof (cases "2 ^ 32 \<le> unat a * unat b")
  case True
  have "unat (- 1 :: u32) = 2 ^ 32 - 1" by (simp add: unsigned_minus_1_eq_mask mask_eq_exp_minus_1)
  with True show ?thesis by (simp add: saturating_mul_def)
next
  case False
  then show ?thesis by (simp add: saturating_mul_def unat_word_ariths min_def)
qed

text \<open>
  A mode is kept exactly when its area fits and either its pixel rate does or no probed mode of the same
  resolution is slower; without a rate limit every mode is.
\<close>

lemma mode_valid_iff:
  "mode_valid probed c mode = ModeOk \<longleftrightarrow>
    pixel_per_second_limit c = 0 \<or>
    unat (hdisplay mode) * unat (vdisplay mode) \<le> unat (pixel_area_limit c) \<and>
    (min (unat (hdisplay mode) * unat (vdisplay mode) * unat (of_int (max (vrefresh mode) 0) :: u32)) (2 ^ 32 - 1)
        \<le> unat (pixel_per_second_limit c)
      \<or> (\<forall>m \<in> set probed. same_resolution m mode \<longrightarrow> vrefresh mode \<le> vrefresh m))"
  by (auto simp: mode_valid_def Let_def word_less_nat_alt word_le_nat_alt area_exact unat_saturating_mul
      is_lowest_frequency_mode_of_resolution_def same_resolution_def not_less)

text \<open>No resolution within the area limit is lost: its slowest mode stays.\<close>

lemma resolution_kept:
  assumes "mode \<in> set probed" and "unat (hdisplay mode) * unat (vdisplay mode) \<le> unat (pixel_area_limit c)"
  shows "\<exists>m \<in> set probed. same_resolution m mode \<and> mode_valid probed c m = ModeOk"
proof -
  let ?same = "{m \<in> set probed. same_resolution m mode}"
  let ?m = "arg_min_on vrefresh ?same"
  have S: "finite ?same" "?same \<noteq> {}" using assms(1) by (auto simp: same_resolution_def)
  then have m: "?m \<in> set probed" "same_resolution ?m mode" using arg_min_if_finite(1) [OF S, of vrefresh] by simp_all
  moreover have "vrefresh ?m \<le> vrefresh n" if "n \<in> set probed" "same_resolution n ?m" for n
    using that m arg_min_least [OF S, of n vrefresh] by (simp add: same_resolution_def)
  ultimately have "mode_valid probed c ?m = ModeOk"
    using assms(2) by (auto simp: mode_valid_iff same_resolution_def)
  with m show ?thesis by blast
qed

text \<open>A client that connects to a card already in use is told the power state and the mode.\<close>

lemma connect_replays_mode:
  assumes "connect registered file args c = (Ok (), c')" and "ca_connected args \<noteq> 0" and "announced_mode c = Some (h, v, r)"
  shows "\<exists>before. sent c' = before @ [EvDpms DPMS_ON, EvModeChanged h v r 32 XRGB8888]"
  using assms
  by (auto simp: connect_def Let_def replay_state_def notify_mode_changed_def notify_dpms_def send_def set_edid_def
      set_mode_limits_def hotplug_event_def split: sum.splits if_splits)

text \<open>The connector reports a monitor exactly between a connection that brings an EDID and a disconnection.\<close>

lemma detect_connect:
  "client_edid args = Ok edid \<Longrightarrow> edid \<noteq> [] \<Longrightarrow> ca_connected args \<noteq> 0 \<Longrightarrow> detect (snd (connect (Ok ()) file args c))"
  "ca_connected args = 0 \<Longrightarrow> \<not> detect (snd (connect registered file args c))"
  by (auto simp: connect_def Let_def detect_def replay_state_def notify_mode_changed_def notify_dpms_def send_def
      set_edid_def clear_edid_def set_mode_limits_def hotplug_event_def split: option.split)

section \<open>Limits of the guarantee\<close>

text \<open>A grab refused for its geometry has already consumed the damage: the next grab does not copy it.\<close>

lemma refused_grab_loses_damage:
  "prepared_scanout c = Some s \<Longrightarrow> g_mode a = EVDI_GRABPIX_MODE_DIRTY \<Longrightarrow> 1 \<le> g_num_rects a \<Longrightarrow> g_address a = 0 \<Longrightarrow>
    fst (grabpix view a c) = Err EINVAL \<and> frame_dirty (painter (fst (snd (grabpix view a c)))) = False \<and>
    count (damage (painter (fst (snd (grabpix view a c))))) = 0"
  by (simp add: grabpix_def take_damage_def damage_clear_def)

text \<open>
  A new colour transform on a picture that is not flipped reports nothing to the client: no event, no damage, and
  an update request is answered as before.
\<close>

lemma recolour_not_reported:
  "sent (snd (atomic_flush lut ctm pending vblank c)) = sent c \<and>
    painter (snd (atomic_flush lut ctm pending vblank c)) = painter c \<and>
    request_update (snd (atomic_flush lut ctm pending vblank c)) = request_update c"
  by (simp add: atomic_flush_def request_update_def)

text \<open>A connecting client inherits the damage of the previous one, although its buffer is empty.\<close>

lemma connect_keeps_damage: "painter (snd (connect registered file args c)) = painter c"
  using picture_connect by (metis fst_conv picture_def)

end
