(* ===== verification/Card_Selection.thy ===== *)
theory Card_Selection
  imports Evdi_Registry Evdi_Card "HOL-Library.Sublist"
begin

text \<open>
  How the client library finds, opens and gives back a card (\<open>library/src/lib.rs\<close>: from \<open>Globals\<close> to
  \<open>evdi_close\<close>; \<open>present_cards\<close> and \<open>open_nth\<close> of \<open>safe.rs\<close>).

  The file system is an argument: the platform devices with their links and directories, the processes
  with their open files, and the answers of a card node to the requests made of it. What a write to
  the control file makes of the platform devices is a function of what is written. Waiting between
  attempts is not modelled; each attempt has its own answers. Log lines are left out.
\<close>

section \<open>Names\<close>

definition EVDI_USAGE_LEN :: nat where "EVDI_USAGE_LEN = 64"
definition INVALID_DEVICE_INDEX :: int where "INVALID_DEVICE_INDEX = - 1"

text \<open>\<open>str::parse::<i32>()\<close>: an optional sign and decimal digits, in range.\<close>

definition parse_i32 :: "string \<Rightarrow> int option" where
  "parse_i32 s =
    (let cs = map of_char s :: nat list;
         neg = (case cs of c # rest \<Rightarrow> c = 45 \<and> rest \<noteq> [] | [] \<Rightarrow> False);
         ds = (case cs of c # rest \<Rightarrow> if (c = 45 \<or> c = 43) \<and> rest \<noteq> [] then rest else cs | [] \<Rightarrow> []);
         v = int (decimal ds)
     in if ds = [] \<or> \<not> list_all is_digit ds then None
        else if neg then (if v \<le> 2 ^ 31 then Some (- v) else None)
        else if v < 2 ^ 31 then Some v else None)"

fun strip_prefix :: "string \<Rightarrow> string \<Rightarrow> string option" where
  "strip_prefix [] s = Some s"
| "strip_prefix (p # ps) [] = None"
| "strip_prefix (p # ps) (c # s) = (if p = c then strip_prefix ps s else None)"

section \<open>Platform devices\<close>

text \<open>
  The entry of a platform device: its \<open>device\<close> link, if there is one (whether it resolves, and the last
  component of its target), and the names in its \<open>drm\<close> directory, if that can be read.
\<close>

record platform_device =
  pd_name :: string
  pd_link :: "(bool \<times> string option) option"
  pd_drm :: "string list option"

type_synonym platform_devices = "platform_device list option"

fun first_card :: "string list \<Rightarrow> int" where
  "first_card [] = INVALID_DEVICE_INDEX"
| "first_card (name # names) =
    (case strip_prefix ''card'' name of
       None \<Rightarrow> first_card names
     | Some rest \<Rightarrow> (case parse_i32 rest of None \<Rightarrow> first_card names | Some n \<Rightarrow> n))"

definition get_drm_device_index :: "string list option \<Rightarrow> int" where
  "get_drm_device_index dir = (case dir of None \<Rightarrow> INVALID_DEVICE_INDEX | Some names \<Rightarrow> first_card names)"

definition is_correct_parent_device :: "platform_device \<Rightarrow> string option \<Rightarrow> bool" where
  "is_correct_parent_device pd parent_device =
    (case parent_device of
       None \<Rightarrow> (case pd_link pd of None \<Rightarrow> True | Some (resolves, _) \<Rightarrow> \<not> resolves)
     | Some parent \<Rightarrow>
       (case pd_link pd of
          Some (_, Some token) \<Rightarrow> 2 \<le> length parent \<and> token = parent
        | _ \<Rightarrow> False))"

fun unused_card :: "bool list \<Rightarrow> string option \<Rightarrow> platform_device list \<Rightarrow> int" where
  "unused_card in_use parent [] = INVALID_DEVICE_INDEX"
| "unused_card in_use parent (pd # pds) =
    (if strip_prefix ''evdi'' (pd_name pd) = None then unused_card in_use parent pds
     else if \<not> is_correct_parent_device pd parent then unused_card in_use parent pds
     else
       let dev_index = get_drm_device_index (pd_drm pd) in
       if dev_index < 0 \<or> int EVDI_USAGE_LEN \<le> dev_index then unused_card in_use parent pds
       else if \<not> in_use ! nat dev_index then dev_index
       else unused_card in_use parent pds)"

definition find_unused_card_for :: "bool list \<Rightarrow> platform_devices \<Rightarrow> string option \<Rightarrow> int" where
  "find_unused_card_for in_use devices parent =
    (case devices of None \<Rightarrow> INVALID_DEVICE_INDEX | Some pds \<Rightarrow> unused_card in_use parent pds)"

text \<open>\<open>added\<close> is the directory after its argument was written to \<open>/sys/devices/evdi/add\<close>.\<close>

definition get_generic_device :: "bool list \<Rightarrow> platform_devices \<Rightarrow> (string \<Rightarrow> platform_devices) \<Rightarrow> int" where
  "get_generic_device in_use devices added =
    (let idx = find_unused_card_for in_use devices None in
     if idx \<noteq> INVALID_DEVICE_INDEX then idx else find_unused_card_for in_use (added ''1'') None)"

definition get_device_attached_to_usb ::
  "bool list \<Rightarrow> platform_devices \<Rightarrow> (string \<Rightarrow> platform_devices) \<Rightarrow> string \<Rightarrow> string \<Rightarrow> int" where
  "get_device_attached_to_usb in_use devices added raw parent =
    (let idx = find_unused_card_for in_use devices (Some parent) in
     if idx \<noteq> INVALID_DEVICE_INDEX then idx else find_unused_card_for in_use (added raw) (Some parent))"

section \<open>Opening a node\<close>

text \<open>
  One attempt to open a node: the descriptor, what authenticating magic 0 answers (\<open>None\<close> for success,
  else the errno) before and after dropping master, and the result of dropping it.
\<close>

record open_attempt =
  at_fd :: int
  at_auth :: "nat option"
  at_drop :: int
  at_auth_after :: "nat option"

definition drm_auth_magic :: "nat option \<Rightarrow> int" where
  "drm_auth_magic answer = (case answer of Some errno \<Rightarrow> - int errno | None \<Rightarrow> 0)"

definition drm_is_master :: "nat option \<Rightarrow> bool" where
  "drm_is_master answer \<longleftrightarrow> drm_auth_magic answer \<noteq> - 13"

definition open_as_slave :: "open_attempt \<Rightarrow> int" where
  "open_as_slave a =
    (if at_fd a < 0 then - 1
     else if drm_is_master (at_auth a) then
       (if at_drop a < 0 \<or> drm_is_master (at_auth_after a) then - 1 else at_fd a)
     else at_fd a)"

text \<open>\<open>tries k\<close> is the \<open>k\<close>-th attempt; fifty follow the first.\<close>

fun wait_for_device :: "nat \<Rightarrow> nat \<Rightarrow> (nat \<Rightarrow> open_attempt) \<Rightarrow> int" where
  "wait_for_device cnt k tries =
    (let fd = open_as_slave (tries k) in
     if 0 \<le> fd then fd
     else case cnt of 0 \<Rightarrow> fd | Suc cnt \<Rightarrow> wait_for_device cnt (k + 1) tries)"

declare wait_for_device.simps [simp del]

definition open_device :: "(nat \<Rightarrow> open_attempt) \<Rightarrow> int" where
  "open_device tries = wait_for_device 50 0 tries"

text \<open>The processes that \<open>device_has_master\<close> looks at: entries of \<open>/proc\<close> with the targets of their open files and their maps.\<close>

record process =
  proc_name :: string
  proc_files :: "string option list option"
  proc_maps :: "string option"

definition contains :: "string \<Rightarrow> string \<Rightarrow> bool" where
  "contains s sub \<longleftrightarrow> sublist sub s"

definition process_opened_files :: "process \<Rightarrow> string \<Rightarrow> bool" where
  "process_opened_files p path =
    (case proc_files p of
       None \<Rightarrow> False
     | Some links \<Rightarrow> list_ex (\<lambda>l. case l of None \<Rightarrow> False | Some target \<Rightarrow> contains target path) links)"

definition process_opened_device :: "process \<Rightarrow> string \<Rightarrow> bool" where
  "process_opened_device p path = (case proc_maps p of None \<Rightarrow> False | Some maps \<Rightarrow> contains maps path)"

definition device_has_master :: "process list option \<Rightarrow> nat \<Rightarrow> string \<Rightarrow> bool" where
  "device_has_master procs myself path =
    (case procs of
       None \<Rightarrow> False
     | Some ps \<Rightarrow>
       list_ex (\<lambda>p. case parse_u32 (map of_char (proc_name p)) of
           None \<Rightarrow> False
         | Some pid \<Rightarrow> pid \<noteq> myself \<and> (process_opened_files p path \<or> process_opened_device p path)) ps)"

text \<open>The version a node reports (major, minor, name), or nothing when the request fails.\<close>

type_synonym drm_version = "(int \<times> int \<times> bytes) option"

definition is_evdi :: "drm_version \<Rightarrow> bool" where
  "is_evdi ver =
    (case ver of
       None \<Rightarrow> False
     | Some (_, _, name) \<Rightarrow> takeWhile (\<lambda>b. b \<noteq> 0) (take 64 name) = [0x65, 0x76, 0x64, 0x69])"

definition is_evdi_compatible :: "drm_version \<Rightarrow> bool" where
  "is_evdi_compatible ver = (case ver of None \<Rightarrow> False | Some (major, minor, _) \<Rightarrow> major = 1 \<and> 9 \<le> minor)"

section \<open>The cards this process holds\<close>

text \<open>
  \<open>card_in_use\<close> of \<open>Globals\<close>, and a handle as the index of its card. \<open>nodes i\<close> is what card \<open>i\<close> answers: the
  attempts to open it and the version it reports.
\<close>

type_synonym card_nodes = "int \<Rightarrow> (nat \<Rightarrow> open_attempt) \<times> drm_version"

definition evdi_open :: "card_nodes \<Rightarrow> int \<Rightarrow> bool list \<Rightarrow> nat option \<times> bool list" where
  "evdi_open nodes device in_use =
    (let fd = open_device (fst (nodes device)); ver = snd (nodes device) in
     if fd \<le> 0 then (None, in_use)
     else if \<not> (is_evdi ver \<and> is_evdi_compatible ver) then (None, in_use)
     else if device < 0 \<or> int EVDI_USAGE_LEN \<le> device then (None, in_use)
     else (Some (nat device), in_use[nat device := True]))"

definition evdi_open_attached_to_fixed ::
  "platform_devices \<Rightarrow> (string \<Rightarrow> platform_devices) \<Rightarrow> card_nodes \<Rightarrow> string option \<Rightarrow> bool list \<Rightarrow> nat option \<times> bool list" where
  "evdi_open_attached_to_fixed devices added nodes parent in_use =
    (let device_index =
       (case parent of
          None \<Rightarrow> get_generic_device in_use devices added
        | Some raw \<Rightarrow>
          if 4 < length raw \<and> take 4 raw = ''usb:'' then get_device_attached_to_usb in_use devices added raw (drop 4 raw)
          else INVALID_DEVICE_INDEX)
     in if 0 \<le> device_index \<and> device_index < int EVDI_USAGE_LEN then evdi_open nodes device_index in_use
        else (None, in_use))"

definition evdi_close :: "nat \<Rightarrow> bool list \<Rightarrow> bool list" where
  "evdi_close device_index in_use =
    map (\<lambda>(i, used). if used \<and> i = device_index then False else used) (enumerate 0 in_use)"

section \<open>Opening by position\<close>

datatype evdi_device_status = AVAILABLE | UNRECOGNIZED | NOT_PRESENT

text \<open>\<open>nodes_present\<close> are the indices with a node under \<open>/dev/dri\<close>; \<open>card_name\<close> prints \<open>cardN\<close>.\<close>

definition device_to_platform :: "(int \<Rightarrow> bool) \<Rightarrow> (int \<Rightarrow> string) \<Rightarrow> platform_devices \<Rightarrow> int \<Rightarrow> evdi_device_status" where
  "device_to_platform nodes_present card_name devices device =
    (if \<not> nodes_present device then NOT_PRESENT
     else case devices of
         None \<Rightarrow> NOT_PRESENT
       | Some pds \<Rightarrow>
         if list_ex (\<lambda>pd. strip_prefix ''evdi'' (pd_name pd) \<noteq> None \<and>
             (case pd_drm pd of None \<Rightarrow> False | Some names \<Rightarrow> card_name device \<in> set names)) pds
         then AVAILABLE else UNRECOGNIZED)"

definition MAX_DEVICE_INDEX :: nat where "MAX_DEVICE_INDEX = 64"
definition ADD_SETTLE_POLLS :: nat where "ADD_SETTLE_POLLS = 50"

definition present_cards :: "(int \<Rightarrow> evdi_device_status) \<Rightarrow> int list" where
  "present_cards check = filter (\<lambda>index. check index = AVAILABLE) (map int [0..<MAX_DEVICE_INDEX])"

datatype open_error = AddDevice | NoAvailableDevice | OpenDevice int | InvalidEdidLength

text \<open>\<open>check k\<close> is the census of the \<open>k\<close>-th poll, and \<open>wrote k\<close> the length of the write after it (zero when it failed).\<close>

fun open_nth_polls ::
  "(nat \<Rightarrow> int \<Rightarrow> evdi_device_status) \<Rightarrow> (nat \<Rightarrow> nat) \<Rightarrow> card_nodes \<Rightarrow> nat \<Rightarrow> nat \<Rightarrow> nat \<Rightarrow> bool list \<Rightarrow>
    (open_error + nat) \<times> bool list" where
  "open_nth_polls check wrote nodes pos 0 k in_use = (Inl NoAvailableDevice, in_use)"
| "open_nth_polls check wrote nodes pos (Suc polls) k in_use =
    (let cards = present_cards (check k) in
     if pos < length cards then
       (case evdi_open nodes (cards ! pos) in_use of
          (None, in_use) \<Rightarrow> (Inl (OpenDevice (cards ! pos)), in_use)
        | (Some h, in_use) \<Rightarrow> (Inr h, in_use))
     else if int (wrote k) < 0 then (Inl AddDevice, in_use)
     else open_nth_polls check wrote nodes pos polls (k + 1) in_use)"

definition open_nth ::
  "(nat \<Rightarrow> int \<Rightarrow> evdi_device_status) \<Rightarrow> (nat \<Rightarrow> nat) \<Rightarrow> card_nodes \<Rightarrow> nat \<Rightarrow> bool list \<Rightarrow> (open_error + nat) \<times> bool list" where
  "open_nth check wrote nodes pos in_use = open_nth_polls check wrote nodes pos ADD_SETTLE_POLLS 0 in_use"

section \<open>A card is held by one handle\<close>

lemma unused_card_free:
  assumes "unused_card in_use parent pds = i" "i \<noteq> INVALID_DEVICE_INDEX"
  shows "0 \<le> i \<and> i < int EVDI_USAGE_LEN \<and> \<not> in_use ! nat i \<and>
    (\<exists>pd \<in> set pds. strip_prefix ''evdi'' (pd_name pd) \<noteq> None \<and> is_correct_parent_device pd parent \<and> get_drm_device_index (pd_drm pd) = i)"
  using assms by (induction pds) (auto simp: Let_def split: if_splits)

lemma find_unused_free:
  "find_unused_card_for in_use devices parent = i \<Longrightarrow> i \<noteq> INVALID_DEVICE_INDEX \<Longrightarrow> 0 \<le> i \<and> i < int EVDI_USAGE_LEN \<and> \<not> in_use ! nat i"
  using unused_card_free by (auto simp: find_unused_card_for_def split: option.splits)

lemma attached_opens_free:
  assumes "evdi_open_attached_to_fixed devices added nodes parent in_use = (h, in_use')"
  shows "h = None \<and> in_use' = in_use \<or>
    (\<exists>i < EVDI_USAGE_LEN. h = Some i \<and> \<not> in_use ! i \<and> in_use' = in_use[i := True])"
proof -
  let ?i = "case parent of None \<Rightarrow> get_generic_device in_use devices added
    | Some raw \<Rightarrow> if 4 < length raw \<and> take 4 raw = ''usb:'' then get_device_attached_to_usb in_use devices added raw (drop 4 raw)
        else INVALID_DEVICE_INDEX"
  have "\<not> in_use ! nat ?i" if "0 \<le> ?i"
    using that find_unused_free [of in_use _ _ ?i]
    by (auto simp: get_generic_device_def get_device_attached_to_usb_def INVALID_DEVICE_INDEX_def Let_def split: option.splits if_splits)
  then show ?thesis
    using assms by (auto simp: evdi_open_attached_to_fixed_def evdi_open_def Let_def nat_less_iff split: if_splits)
qed

lemma evdi_close_update: "i < length in_use \<Longrightarrow> evdi_close i in_use = in_use[i := False]"
  by (rule nth_equalityI) (auto simp: evdi_close_def nth_enumerate_eq nth_list_update)

text \<open>The handles a process holds, by the index of their card, when it opens cards by parent and closes them.\<close>

inductive holding :: "nat list \<Rightarrow> bool list \<Rightarrow> bool" where
  started: "holding [] (replicate EVDI_USAGE_LEN False)"
| attached: "holding hs in_use \<Longrightarrow> evdi_open_attached_to_fixed devices added nodes parent in_use = (Some i, in_use') \<Longrightarrow>
    holding (i # hs) in_use'"
| refused: "holding hs in_use \<Longrightarrow> evdi_open_attached_to_fixed devices added nodes parent in_use = (None, in_use') \<Longrightarrow>
    holding hs in_use'"
| closed: "holding hs in_use \<Longrightarrow> i \<in> set hs \<Longrightarrow> holding (remove1 i hs) (evdi_close i in_use)"

lemma holding_inv:
  "holding hs in_use \<Longrightarrow> distinct hs \<and> length in_use = EVDI_USAGE_LEN \<and> set hs = {i. i < EVDI_USAGE_LEN \<and> in_use ! i}"
proof (induction rule: holding.induct)
  case (attached hs in_use devices added nodes parent i in_use')
  from attached_opens_free [OF attached(2)] have i: "i < EVDI_USAGE_LEN" "\<not> in_use ! i" "in_use' = in_use[i := True]" by auto
  with attached.IH have "set (i # hs) = {j. j < EVDI_USAGE_LEN \<and> in_use[i := True] ! j}"
    by (auto simp: nth_list_update)
  with attached.IH i show ?case by auto
next
  case (refused hs in_use devices added nodes parent in_use')
  then show ?case using attached_opens_free [OF refused(2)] by auto
next
  case (closed hs in_use i)
  then have i: "i \<in> {i. i < EVDI_USAGE_LEN \<and> in_use ! i}" "length in_use = EVDI_USAGE_LEN" by blast+
  then have "evdi_close i in_use = in_use[i := False]" by (simp add: evdi_close_update)
  moreover have "set (remove1 i hs) = set hs - {i}" using closed.IH by (simp add: set_remove1_eq)
  moreover have "{j. j < EVDI_USAGE_LEN \<and> in_use ! j} - {i} = {j. j < EVDI_USAGE_LEN \<and> in_use[i := False] ! j}"
    using i by (auto simp: nth_list_update split: if_splits)
  ultimately show ?case using closed.IH by (simp add: distinct_remove1)
qed simp

text \<open>
  A process that opens cards by their parent never holds one card twice: every handle has a card of
  its own, which the table marks, and a card given back can be found again.
\<close>

lemma cards_held_once:
  assumes "holding hs in_use" "evdi_open_attached_to_fixed devices added nodes parent in_use = (Some i, in_use')"
  shows "i \<notin> set hs" "distinct (i # hs)" "set (i # hs) = {i. i < EVDI_USAGE_LEN \<and> in_use' ! i}"
  using holding_inv [OF assms(1)] holding_inv [OF holding.attached [OF assms]] by auto

text \<open>
  Opening by index does not look at the table. Two handles to one card share its mark, and closing
  either clears it while the other is still in use.
\<close>

lemma second_handle_unmarked:
  assumes "fst (evdi_open nodes 0 (replicate EVDI_USAGE_LEN False)) = Some 0"
  defines "once \<equiv> snd (evdi_open nodes 0 (replicate EVDI_USAGE_LEN False))"
  defines "twice \<equiv> snd (evdi_open nodes 0 once)"
  shows "fst (evdi_open nodes 0 once) = Some 0" "\<not> evdi_close 0 twice ! 0"
proof -
  show "fst (evdi_open nodes 0 once) = Some 0"
    using assms(1) by (auto simp: evdi_open_def EVDI_USAGE_LEN_def Let_def split: if_splits)
  have "0 < length twice" unfolding twice_def once_def by (auto simp: evdi_open_def EVDI_USAGE_LEN_def Let_def)
  then show "\<not> evdi_close 0 twice ! 0" by (simp add: evdi_close_update)
qed

section \<open>Nodes and polls\<close>

text \<open>A node that is opened is one this process is not master of.\<close>

lemma wait_for_device_slave:
  "wait_for_device cnt k tries = fd \<Longrightarrow> 0 \<le> fd \<Longrightarrow>
    \<exists>j. k \<le> j \<and> j \<le> k + cnt \<and> fd = at_fd (tries j) \<and>
      (\<not> drm_is_master (at_auth (tries j)) \<or> 0 \<le> at_drop (tries j) \<and> \<not> drm_is_master (at_auth_after (tries j)))"
proof (induction cnt arbitrary: k)
  case 0
  then show ?case
    by (auto simp: wait_for_device.simps [of 0] open_as_slave_def Let_def split: if_splits intro!: exI [of _ k])
next
  case (Suc cnt)
  show ?case
  proof (cases "0 \<le> open_as_slave (tries k)")
    case True
    with Suc.prems show ?thesis
      by (auto simp: wait_for_device.simps [of "Suc cnt"] open_as_slave_def Let_def split: if_splits intro!: exI [of _ k])
  next
    case False
    with Suc.prems have "wait_for_device cnt (k + 1) tries = fd" by (simp add: wait_for_device.simps [of "Suc cnt"] Let_def)
    from Suc.IH [OF this Suc.prems(2)] obtain j where "k + 1 \<le> j" "j \<le> k + 1 + cnt" "fd = at_fd (tries j)"
      "\<not> drm_is_master (at_auth (tries j)) \<or> 0 \<le> at_drop (tries j) \<and> \<not> drm_is_master (at_auth_after (tries j))" by blast
    then show ?thesis by (intro exI [of _ j]) auto
  qed
qed

text \<open>The error for a failed addition is never returned, since the length written is not negative.\<close>

lemma open_nth_never_AddDevice: "fst (open_nth check wrote nodes pos in_use) \<noteq> Inl AddDevice"
proof -
  have "fst (open_nth_polls check wrote nodes pos polls k in_use) \<noteq> Inl AddDevice" for polls k
    by (induction polls arbitrary: k) (auto simp: Let_def split: prod.split option.split)
  then show ?thesis by (simp add: open_nth_def)
qed

text \<open>Positions give each output a card of its own while the census stays the same.\<close>

lemma present_cards_distinct: "distinct (present_cards check)"
  by (simp add: present_cards_def distinct_map)

text \<open>Paths are compared as substrings: a process that has card 10 open counts as the master of card 1.\<close>

lemma master_of_another_card:
  "device_has_master (Some [\<lparr>proc_name = ''7'', proc_files = Some [Some ''/dev/dri/card10''], proc_maps = None\<rparr>]) 1 ''/dev/dri/card1''"
  by (simp add: device_has_master_def parse_u32_def is_digit_def decimal_def process_opened_files_def contains_def sublist_code)

section \<open>Connecting\<close>

text \<open>The requests of an open handle, on the card behind it; \<open>edid\<close> is what the client's pointer addresses.\<close>

definition evdi_connect2 :: "unit result \<Rightarrow> nat \<Rightarrow> bytes option \<Rightarrow> u32 \<Rightarrow> u32 \<Rightarrow> u32 \<Rightarrow> Card \<Rightarrow> Card" where
  "evdi_connect2 registered file edid edid_length area_limit per_second_limit c =
    snd (connect registered file
      \<lparr>ca_connected = 1, ca_edid = edid, ca_edid_length = edid_length, ca_pixel_area_limit = area_limit,
        ca_pixel_per_second_limit = per_second_limit\<rparr> c)"

definition evdi_connect :: "unit result \<Rightarrow> nat \<Rightarrow> bytes option \<Rightarrow> u32 \<Rightarrow> u32 \<Rightarrow> Card \<Rightarrow> Card" where
  "evdi_connect registered file edid edid_length sku_area_limit c =
    evdi_connect2 registered file edid edid_length sku_area_limit (sku_area_limit * 60) c"

definition evdi_disconnect :: "nat \<Rightarrow> Card \<Rightarrow> Card" where
  "evdi_disconnect file c =
    snd (connect (Ok ()) file
      \<lparr>ca_connected = 0, ca_edid = None, ca_edid_length = 0, ca_pixel_area_limit = 0, ca_pixel_per_second_limit = 0\<rparr> c)"

lemma disconnected_not_detected: "\<not> detect (evdi_disconnect file c)"
  by (simp add: evdi_disconnect_def detect_connect(2))

text \<open>
  The rate that \<open>evdi_connect\<close> derives wraps. An area limit of \<open>2\<^sup>3\<^sup>0\<close> pixels becomes a rate of zero, which
  the card takes for no limit at all: every mode is then valid.
\<close>

lemma wrapped_rate_lifts_limits:
  assumes "client_edid \<lparr>ca_connected = 1, ca_edid = edid, ca_edid_length = len, ca_pixel_area_limit = 2 ^ 30,
      ca_pixel_per_second_limit = 2 ^ 30 * 60\<rparr> = Ok e"
  shows "mode_valid probed (evdi_connect (Ok ()) file edid len (2 ^ 30) c) mode = ModeOk"
proof -
  have "(2 ^ 30 * 60 :: u32) = 0" by simp
  with assms have "pixel_per_second_limit (evdi_connect (Ok ()) file edid len (2 ^ 30) c) = 0"
    by (simp add: evdi_connect_def evdi_connect2_def connect_def Let_def replay_state_def notify_mode_changed_def notify_dpms_def
        send_def set_edid_def set_mode_limits_def hotplug_event_def split: option.split)
  then show ?thesis by (simp add: mode_valid_iff)
qed

definition device_connect :: "unit result \<Rightarrow> nat \<Rightarrow> bytes \<Rightarrow> u32 \<Rightarrow> u32 \<Rightarrow> Card \<Rightarrow> (open_error + unit) \<times> Card" where
  "device_connect registered file edid area_limit per_second_limit c =
    (if 2 ^ 32 \<le> length edid then (Inl InvalidEdidLength, c)
     else (Inr (), evdi_connect2 registered file (Some edid) (of_nat (length edid)) area_limit per_second_limit c))"

text \<open>
  A connection with a usable EDID is seen by the compositor. One the card refuses, for an EDID beyond its
  maximum, changes nothing and is reported as success: the result of the request is dropped.
\<close>

lemma device_connect_detected:
  assumes "edid \<noteq> []" "length edid \<le> EDID_MAX"
  shows "detect (snd (device_connect (Ok ()) file edid a r c))"
proof -
  have "EDID_MAX < 2 ^ 32" by (simp add: EDID_MAX_def)
  then have len: "length edid < 2 ^ 32" using assms(2) by simp
  then have "unat (of_nat (length edid) :: u32) = length edid" by (simp add: unsigned_of_nat take_bit_nat_eq_self)
  then have "client_edid \<lparr>ca_connected = 1, ca_edid = Some edid, ca_edid_length = of_nat (length edid), ca_pixel_area_limit = a,
      ca_pixel_per_second_limit = r\<rparr> = Ok edid"
    using assms by (simp add: client_edid_def)
  then show ?thesis using len assms(1) by (simp add: device_connect_def evdi_connect2_def detect_connect(1))
qed

lemma refused_connect_reported_ok:
  assumes "length edid < 2 ^ 32" "EDID_MAX < length edid"
  shows "device_connect registered file edid a r c = (Inr (), c)"
  using assms by (auto simp: device_connect_def evdi_connect2_def connect_def client_edid_def Let_def unsigned_of_nat take_bit_nat_eq_self)

end
