(* ===== verification/Revdi_Client.thy ===== *)
theory Revdi_Client
  imports Daemon Evdi_Card
begin

text \<open>
  The client library of the virtual display (\<open>library/src/lib.rs\<close>, \<open>uapi.rs\<close>, \<open>safe.rs\<close>): the events read from the
  card, the registered framebuffer memory, and the frames grabbed into it.

  The process's memory is a store of allocations by address, because the library keeps a pointer to the
  framebuffer that the owned device allocates. The card is the one of \<open>Evdi_Card\<close>: an ioctl is a call of its
  handler, and the event file yields whole events in the layout of \<open>module/uapi.rs\<close>, as many as fit the buffer.
  Mapping a cursor bitmap and the commits that happen while the client waits are arguments.
\<close>

section \<open>Event layout\<close>

definition DRM_EVDI_EVENT_UPDATE_READY :: u32 where "DRM_EVDI_EVENT_UPDATE_READY = 0x80000000"
definition DRM_EVDI_EVENT_DPMS :: u32 where "DRM_EVDI_EVENT_DPMS = 0x80000001"
definition DRM_EVDI_EVENT_MODE_CHANGED :: u32 where "DRM_EVDI_EVENT_MODE_CHANGED = 0x80000002"
definition DRM_EVDI_EVENT_CRTC_STATE :: u32 where "DRM_EVDI_EVENT_CRTC_STATE = 0x80000003"
definition DRM_EVDI_EVENT_CURSOR_SET :: u32 where "DRM_EVDI_EVENT_CURSOR_SET = 0x80000004"
definition DRM_EVDI_EVENT_CURSOR_MOVE :: u32 where "DRM_EVDI_EVENT_CURSOR_MOVE = 0x80000005"
definition DRM_EVDI_EVENT_DDCCI_DATA :: u32 where "DRM_EVDI_EVENT_DDCCI_DATA = 0x80000006"

lemmas event_types = DRM_EVDI_EVENT_UPDATE_READY_def DRM_EVDI_EVENT_DPMS_def DRM_EVDI_EVENT_MODE_CHANGED_def
  DRM_EVDI_EVENT_CRTC_STATE_def DRM_EVDI_EVENT_CURSOR_SET_def DRM_EVDI_EVENT_CURSOR_MOVE_def DRM_EVDI_EVENT_DDCCI_DATA_def

definition lei32 :: "int \<Rightarrow> bytes" where
  "lei32 v = le32 (of_int v)"

definition rdi32 :: "nat \<Rightarrow> bytes \<Rightarrow> int" where
  "rdi32 i b = sint (rd32 i b)"

fun event_type :: "evdi_event \<Rightarrow> u32" where
  "event_type EvUpdateReady = DRM_EVDI_EVENT_UPDATE_READY"
| "event_type (EvDpms _) = DRM_EVDI_EVENT_DPMS"
| "event_type (EvModeChanged _ _ _ _ _) = DRM_EVDI_EVENT_MODE_CHANGED"
| "event_type (EvCursorSet _ _ _) = DRM_EVDI_EVENT_CURSOR_SET"
| "event_type (EvCursorMove _ _) = DRM_EVDI_EVENT_CURSOR_MOVE"

fun event_payload :: "evdi_event \<Rightarrow> bytes" where
  "event_payload EvUpdateReady = []"
| "event_payload (EvDpms mode) = lei32 mode"
| "event_payload (EvModeChanged h v r bpp fmt) = lei32 h @ lei32 v @ lei32 r @ lei32 bpp @ le32 fmt"
| "event_payload (EvCursorSet s on handle) =
    lei32 (shape_hot_x s) @ lei32 (shape_hot_y s) @ le32 (shape_width s) @ le32 (shape_height s)
    @ [if on then 1 else 0, 0, 0, 0] @ le32 handle @ le32 (shape_buffer_length s) @ le32 (shape_pixel_format s)
    @ le32 (shape_stride s)"
| "event_payload (EvCursorMove x y) = lei32 x @ lei32 y"

definition event_bytes :: "evdi_event \<Rightarrow> bytes" where
  "event_bytes ev = le32 (event_type ev) @ le32 (of_nat (8 + length (event_payload ev))) @ event_payload ev"

section \<open>The C interface\<close>

record evdi_mode =
  em_width :: int
  em_height :: int
  em_refresh_rate :: int
  em_bits_per_pixel :: int
  em_pixel_format :: u32

record evdi_buffer =
  buf_id :: int
  buf_ptr :: nat
  buf_width :: int
  buf_height :: int
  buf_stride :: int

record evdi_device_context =
  buffer_to_update :: int
  frame_buffers :: "evdi_buffer list"

definition find_buffer :: "int \<Rightarrow> evdi_device_context \<Rightarrow> evdi_buffer option" where
  "find_buffer i ctx = List.find (\<lambda>b. buf_id b = i) (frame_buffers ctx)"

definition evdi_register_buffer :: "evdi_buffer \<Rightarrow> evdi_device_context \<Rightarrow> evdi_device_context" where
  "evdi_register_buffer b ctx = ctx\<lparr>frame_buffers := frame_buffers ctx @ [b]\<rparr>"

definition evdi_unregister_buffer :: "int \<Rightarrow> evdi_device_context \<Rightarrow> evdi_device_context" where
  "evdi_unregister_buffer i ctx = ctx\<lparr>frame_buffers := filter (\<lambda>b. buf_id b \<noteq> i) (frame_buffers ctx)\<rparr>"

definition evdi_request_update :: "int \<Rightarrow> Card \<Rightarrow> evdi_device_context \<Rightarrow> bool \<times> evdi_device_context" where
  "evdi_request_update i kcard ctx = (request_update kcard = 1, ctx\<lparr>buffer_to_update := i\<rparr>)"

definition MAX_DIRTS :: nat where "MAX_DIRTS = 16"

fun clip_rect :: "bytes \<Rightarrow> rect" where
  "clip_rect b = (uint (rd16 0 b), uint (rd16 2 b), uint (rd16 4 b), uint (rd16 6 b))"

definition grab_request :: "evdi_buffer \<Rightarrow> bytes \<Rightarrow> grab_args" where
  "grab_request dest mapped =
    \<lparr>g_mode = EVDI_GRABPIX_MODE_DIRTY, g_buf_width = buf_width dest, g_buf_height = buf_height dest,
     g_buf_byte_stride = buf_stride dest, g_address = buf_ptr dest, g_buffer = mapped, g_num_rects = int MAX_DIRTS,
     g_rects = Some (replicate (MAX_DIRTS * 8) 0)\<rparr>"

text \<open>The rectangles reported, the card and the store after a grab. A buffer that is not registered is not grabbed.\<close>

definition evdi_grab_pixels ::
  "(nat \<Rightarrow> bytes) \<Rightarrow> evdi_device_context \<Rightarrow> Card \<Rightarrow> (nat \<Rightarrow> bytes) \<Rightarrow> rect list \<times> Card \<times> (nat \<Rightarrow> bytes)" where
  "evdi_grab_pixels view ctx kcard store =
    (case find_buffer (buffer_to_update ctx) ctx of
       None \<Rightarrow> ([], kcard, store)
     | Some dest \<Rightarrow>
        case grabpix view (grab_request dest (store (buf_ptr dest))) kcard of
          (r, kcard, grab) \<Rightarrow>
            let store = store(buf_ptr dest := g_buffer grab)
            in case r of
                 Inl _ \<Rightarrow> ([], kcard, store)
               | Inr _ \<Rightarrow> (map clip_rect (take (nat (max (g_num_rects grab) 0)) (chunks 8 (the (g_rects grab)))), kcard, store))"

text \<open>The events of one read, as offset and type, until one is incomplete.\<close>

function event_loop :: "bytes \<Rightarrow> nat \<Rightarrow> nat \<Rightarrow> (u32 \<times> nat) list" where
  "event_loop buf bytes_read i =
    (if i + 8 \<le> bytes_read then
       let len = unat (rd32 (i + 4) buf)
       in if len = 0 \<or> bytes_read < i + len then [] else (rd32 i buf, i) # event_loop buf bytes_read (i + len)
     else [])"
  by pat_completeness auto

termination
  by (relation "measure (\<lambda>(buf, n, i). n - i)") auto

declare event_loop.simps [simp del]

datatype callback =
    UpdateReady int
  | DpmsChanged int
  | ModeSelected evdi_mode
  | CrtcStateChanged int
  | CursorShapeSet CursorShape bool "bytes option"
  | CursorMoved int int
  | DdcciData u16 u16 bytes
  | Unhandled

definition event_shape :: "nat \<Rightarrow> bytes \<Rightarrow> CursorShape" where
  "event_shape i b = \<lparr>shape_hot_x = rdi32 (i + 8) b, shape_hot_y = rdi32 (i + 12) b, shape_width = rd32 (i + 16) b,
     shape_height = rd32 (i + 20) b, shape_pixel_format = rd32 (i + 36) b, shape_stride = rd32 (i + 40) b,
     shape_buffer_length = rd32 (i + 32) b\<rparr>"

text \<open>
  A shape whose bitmap cannot be mapped is passed on as disabled, and cursor events are switched off. The
  function \<open>bitmap\<close> is the copy of a mapped buffer of the given handle and size.
\<close>

definition dispatch_event :: "(u32 \<Rightarrow> nat \<Rightarrow> bytes option) \<Rightarrow> int \<Rightarrow> bytes \<Rightarrow> u32 \<times> nat \<Rightarrow> callback" where
  "dispatch_event bitmap target buf = (\<lambda>(etype, i).
    if etype = DRM_EVDI_EVENT_UPDATE_READY then UpdateReady target
    else if etype = DRM_EVDI_EVENT_DPMS then DpmsChanged (rdi32 (i + 8) buf)
    else if etype = DRM_EVDI_EVENT_MODE_CHANGED then
      ModeSelected \<lparr>em_width = rdi32 (i + 8) buf, em_height = rdi32 (i + 12) buf, em_refresh_rate = rdi32 (i + 16) buf,
        em_bits_per_pixel = rdi32 (i + 20) buf, em_pixel_format = rd32 (i + 24) buf\<rparr>
    else if etype = DRM_EVDI_EVENT_CRTC_STATE then CrtcStateChanged (rdi32 (i + 8) buf)
    else if etype = DRM_EVDI_EVENT_CURSOR_SET then
      (let shape = event_shape i buf
       in if buf ! (i + 24) = 0 then CursorShapeSet (shape\<lparr>shape_buffer_length := 0\<rparr>) False None
          else case bitmap (rd32 (i + 28) buf) (unat (shape_buffer_length shape)) of
                 Some pixels \<Rightarrow> CursorShapeSet shape True (Some pixels)
               | None \<Rightarrow> CursorShapeSet (shape\<lparr>shape_buffer_length := 0\<rparr>) False None)
    else if etype = DRM_EVDI_EVENT_CURSOR_MOVE then CursorMoved (rdi32 (i + 8) buf) (rdi32 (i + 12) buf)
    else if etype = DRM_EVDI_EVENT_DDCCI_DATA then
      DdcciData (rd16 (i + 78) buf) (rd16 (i + 76) buf) (get (i + 8) (unat (rd32 (i + 72) buf)) buf)
    else Unhandled)"

definition bitmap_lost :: "callback \<Rightarrow> bytes \<Rightarrow> nat \<Rightarrow> bool" where
  "bitmap_lost cb buf i \<longleftrightarrow> (case cb of CursorShapeSet _ on _ \<Rightarrow> buf ! (i + 24) \<noteq> 0 \<and> \<not> on | _ \<Rightarrow> False)"

text \<open>One read: the callbacks in order, and the card, whose cursor events a lost bitmap switches off.\<close>

definition evdi_handle_events ::
  "(u32 \<Rightarrow> nat \<Rightarrow> bytes option) \<Rightarrow> evdi_device_context \<Rightarrow> bytes \<Rightarrow> Card \<Rightarrow> callback list \<times> Card" where
  "evdi_handle_events bitmap ctx input kcard =
    (let buf = input @ replicate (1024 - length input) 0;
         found = event_loop buf (length input) 0;
         callbacks = map (dispatch_event bitmap (buffer_to_update ctx) buf) found
     in (callbacks,
         if \<exists>(cb, _, i) \<in> set (zip callbacks found). bitmap_lost cb buf i then snd (enable_cursor_events 0 kcard) else kcard))"

section \<open>The owned device\<close>

definition BUFFER_ID :: int where "BUFFER_ID = 1"

definition positive :: "int \<Rightarrow> nat option" where
  "positive v = (if v < 0 \<or> v = 0 then None else Some (nat v))"

definition unsigned32 :: "int \<Rightarrow> nat option" where
  "unsigned32 v = (if v < 0 then None else Some (nat v))"

definition from_abi :: "evdi_mode \<Rightarrow> Mode option" where
  "from_abi m =
    (case (positive (em_width m), positive (em_height m), unsigned32 (em_refresh_rate m), unsigned32 (em_bits_per_pixel m)) of
       (Some w, Some h, Some r, Some b) \<Rightarrow>
         Some \<lparr>mode_width = w, mode_height = h, mode_refresh_hz = r, mode_bits_per_pixel = b, mode_pixel_format = em_pixel_format m\<rparr>
     | _ \<Rightarrow> None)"

record RegisteredBuffer =
  reg_ptr :: nat
  reg_width :: nat
  reg_height :: nat
  reg_stride :: nat

record Client =
  dev_context :: evdi_device_context
  store :: "nat \<Rightarrow> bytes"
  fresh_ptr :: nat
  selected :: "evdi_mode option"
  ready_buffer :: "int option"
  events :: "DeviceEvent list"
  dev_buffer :: "RegisteredBuffer option"
  dev_mode :: "Mode option"

definition client_new :: "nat \<Rightarrow> Client" where
  "client_new p = \<lparr>dev_context = \<lparr>buffer_to_update = 0, frame_buffers = []\<rparr>, store = (\<lambda>_. []), fresh_ptr = p, selected = None,
     ready_buffer = None, events = [], dev_buffer = None, dev_mode = None\<rparr>"

definition push_event :: "DeviceEvent \<Rightarrow> Client \<Rightarrow> Client" where
  "push_event ev d = d\<lparr>events := events d @ [ev]\<rparr>"

fun on_callback :: "callback \<Rightarrow> Client \<Rightarrow> Client" where
  "on_callback (UpdateReady i) d = d\<lparr>ready_buffer := Some i\<rparr>"
| "on_callback (DpmsChanged m) d = push_event (Dpms m) d"
| "on_callback (ModeSelected m) d =
    (let d = d\<lparr>selected := Some m\<rparr> in case from_abi m of None \<Rightarrow> d | Some mode \<Rightarrow> push_event (ModeChanged mode) d)"
| "on_callback (CrtcStateChanged v) d = push_event (CrtcState v) d"
| "on_callback (CursorShapeSet s on pixels) d =
    push_event (CursorSet \<lparr>cur_hot_x = shape_hot_x s, cur_hot_y = shape_hot_y s, cur_width = unat (shape_width s),
      cur_height = unat (shape_height s), cur_enabled = on, cur_pixels = (case pixels of None \<Rightarrow> [] | Some b \<Rightarrow> b),
      cur_pixel_format = shape_pixel_format s, cur_stride = unat (shape_stride s)\<rparr>) d"
| "on_callback (CursorMoved x y) d = push_event (CursorMove x y) d"
| "on_callback (DdcciData address flags b) d = push_event (DdcciRequest address flags b) d"
| "on_callback Unhandled d = d"

definition unregister_buffer :: "Client \<Rightarrow> Client" where
  "unregister_buffer d =
    (if dev_buffer d \<noteq> None then d\<lparr>dev_context := evdi_unregister_buffer BUFFER_ID (dev_context d), dev_buffer := None\<rparr> else d)"

text \<open>A buffer too large for the interface is dropped again, leaving the device without a mode.\<close>

definition register_mode :: "Mode \<Rightarrow> Client \<Rightarrow> Client" where
  "register_mode mode d =
    (let d = (unregister_buffer d)\<lparr>dev_mode := None\<rparr>;
         stride = mode_width mode * 4;
         len = stride * mode_height mode
     in if 2 ^ 64 \<le> stride \<or> 2 ^ 64 \<le> len then d
        else if 2 ^ 31 \<le> mode_width mode \<or> 2 ^ 31 \<le> mode_height mode \<or> 2 ^ 31 \<le> stride then d
        else
          let p = fresh_ptr d;
              b = \<lparr>reg_ptr = p, reg_width = mode_width mode, reg_height = mode_height mode, reg_stride = stride\<rparr>;
              abi = \<lparr>buf_id = BUFFER_ID, buf_ptr = p, buf_width = int (mode_width mode), buf_height = int (mode_height mode),
                     buf_stride = int stride\<rparr>
          in d\<lparr>store := (store d)(p := replicate len 0), fresh_ptr := p + len, dev_buffer := Some b,
               dev_context := evdi_register_buffer abi (dev_context d), dev_mode := Some mode\<rparr>)"

text \<open>A read that finds the event file readable, followed by the last mode it selected.\<close>

definition poll_events :: "(u32 \<Rightarrow> nat \<Rightarrow> bytes option) \<Rightarrow> bytes option \<Rightarrow> Card \<Rightarrow> Client \<Rightarrow> Card \<times> Client" where
  "poll_events bitmap input kcard d =
    (case input of
       None \<Rightarrow> (kcard, d)
     | Some b \<Rightarrow>
        case evdi_handle_events bitmap (dev_context d) b kcard of
          (callbacks, kcard) \<Rightarrow>
            let d = fold on_callback callbacks d;
                chosen = Option.bind (selected d) from_abi;
                d = d\<lparr>selected := None\<rparr>
            in (kcard, case chosen of
                        None \<Rightarrow> d
                      | Some mode \<Rightarrow> if dev_mode d \<noteq> Some mode then register_mode mode d else d))"

definition take_events :: "Client \<Rightarrow> DeviceEvent list \<times> Client" where
  "take_events d = (events d, d\<lparr>events := []\<rparr>)"

text \<open>The frame grabbed last, with its damage.\<close>

definition grab_frame :: "(nat \<Rightarrow> bytes) \<Rightarrow> Card \<Rightarrow> Client \<Rightarrow> (FrameView \<times> rect list) option \<times> Card \<times> Client" where
  "grab_frame view kcard d =
    (case evdi_grab_pixels view (dev_context d) kcard (store d) of
       (rs, kcard, mem) \<Rightarrow>
         let d = d\<lparr>store := mem\<rparr>
         in (case dev_buffer d of
               None \<Rightarrow> None
             | Some b \<Rightarrow> Some (\<lparr>fv_pixels = store d (reg_ptr b), fv_width = reg_width b, fv_height = reg_height b,
                 fv_stride = reg_stride b\<rparr>, take MAX_DIRTS rs),
             kcard, d))"

text \<open>
  Each element of the script is what the event file yields in one more wait and the card and framebuffers as the
  compositor has left them; the script ends with the deadline.
\<close>

type_synonym wait = "bytes option \<times> Card \<times> (nat \<Rightarrow> bytes)"

fun await_ready ::
  "(u32 \<Rightarrow> nat \<Rightarrow> bytes option) \<Rightarrow> wait list \<Rightarrow> Card \<Rightarrow> Client \<Rightarrow> (nat \<Rightarrow> bytes) option \<times> Card \<times> Client" where
  "await_ready bitmap [] kcard d = (None, kcard, d)"
| "await_ready bitmap ((input, kcard', view) # script) kcard d =
    (case poll_events bitmap input kcard' d of
       (kcard, d) \<Rightarrow>
         if ready_buffer d = Some BUFFER_ID then (Some view, kcard, d\<lparr>ready_buffer := None\<rparr>)
         else await_ready bitmap script kcard (d\<lparr>ready_buffer := None\<rparr>))"

definition next_frame ::
  "(u32 \<Rightarrow> nat \<Rightarrow> bytes option) \<Rightarrow> bytes option \<Rightarrow> wait list \<Rightarrow> (nat \<Rightarrow> bytes) \<Rightarrow> Card \<Rightarrow> Client
    \<Rightarrow> (FrameView \<times> rect list) option \<times> Card \<times> Client" where
  "next_frame bitmap input script view kcard d =
    (case poll_events bitmap input kcard d of
       (kcard, d) \<Rightarrow>
         if dev_buffer d = None then (None, kcard, d)
         else case evdi_request_update BUFFER_ID kcard (dev_context d) of
           (immediately_ready, ctx) \<Rightarrow>
             let d = d\<lparr>ready_buffer := None, dev_context := ctx\<rparr>
             in if immediately_ready then grab_frame view kcard d
                else case await_ready bitmap script kcard d of
                  (None, kcard, d) \<Rightarrow> (None, kcard, d)
                | (Some view, kcard, d) \<Rightarrow> grab_frame view kcard d)"

section \<open>Events arrive as they were sent\<close>

definition i32 :: "int \<Rightarrow> bool" where
  "i32 v \<longleftrightarrow> - (2 ^ 31) \<le> v \<and> v < 2 ^ 31"

fun event_wf :: "evdi_event \<Rightarrow> bool" where
  "event_wf EvUpdateReady \<longleftrightarrow> True"
| "event_wf (EvDpms m) \<longleftrightarrow> i32 m"
| "event_wf (EvModeChanged h v r b _) \<longleftrightarrow> i32 h \<and> i32 v \<and> i32 r \<and> i32 b"
| "event_wf (EvCursorSet s _ _) \<longleftrightarrow> i32 (shape_hot_x s) \<and> i32 (shape_hot_y s)"
| "event_wf (EvCursorMove x y) \<longleftrightarrow> i32 x \<and> i32 y"

fun callback_of :: "(u32 \<Rightarrow> nat \<Rightarrow> bytes option) \<Rightarrow> int \<Rightarrow> evdi_event \<Rightarrow> callback" where
  "callback_of bitmap target EvUpdateReady = UpdateReady target"
| "callback_of bitmap target (EvDpms m) = DpmsChanged m"
| "callback_of bitmap target (EvModeChanged h v r b f) =
    ModeSelected \<lparr>em_width = h, em_height = v, em_refresh_rate = r, em_bits_per_pixel = b, em_pixel_format = f\<rparr>"
| "callback_of bitmap target (EvCursorSet s on handle) =
    (case if on then bitmap handle (unat (shape_buffer_length s)) else None of
       Some pixels \<Rightarrow> CursorShapeSet s True (Some pixels)
     | None \<Rightarrow> CursorShapeSet (s\<lparr>shape_buffer_length := 0\<rparr>) False None)"
| "callback_of bitmap target (EvCursorMove x y) = CursorMoved x y"

lemma sint_i32: "i32 v \<Longrightarrow> sint (of_int v :: u32) = v"
  by (simp add: i32_def signed_of_int signed_take_bit_int_eq_self)

lemma length_event_bytes: "length (event_bytes ev) = 8 + length (event_payload ev)" "length (event_payload ev) \<le> 36"
  by (cases ev; simp add: event_bytes_def lei32_def)+

lemma dispatch_sent:
  assumes "event_wf ev"
  shows "dispatch_event bitmap target (pre @ event_bytes ev @ post) (event_type ev, length pre) = callback_of bitmap target ev"
proof (cases ev)
  case (EvCursorSet s on handle)
  let ?flag = "le32 (if on then 1 else 0)"
  have bytes: "event_bytes ev = le32 DRM_EVDI_EVENT_CURSOR_SET @ le32 44 @ lei32 (shape_hot_x s) @ lei32 (shape_hot_y s)
      @ le32 (shape_width s) @ le32 (shape_height s) @ ?flag @ le32 handle @ le32 (shape_buffer_length s)
      @ le32 (shape_pixel_format s) @ le32 (shape_stride s)"
    using EvCursorSet by (simp add: event_bytes_def lei32_def) (simp add: le32_def)
  define buf where "buf = pre @ event_bytes ev @ post"
  have enabled: "buf ! (length pre + 24) = (if on then 1 else 0)"
    unfolding buf_def bytes by (simp add: nth_append lei32_def) (simp add: le32_def)
  have shape: "event_shape (length pre) buf = s"
    unfolding buf_def bytes using assms EvCursorSet by (simp add: event_shape_def lei32_def rdi32_def sint_i32)
  have handle: "rd32 (length pre + 28) buf = handle"
    unfolding buf_def bytes by (simp add: lei32_def)
  have "dispatch_event bitmap target buf (DRM_EVDI_EVENT_CURSOR_SET, length pre) =
      callback_of bitmap target (EvCursorSet s on handle)"
    by (simp add: dispatch_event_def Let_def enabled shape handle) (simp add: event_types)
  then show ?thesis by (simp add: EvCursorSet buf_def)
qed (use assms in \<open>simp_all add: dispatch_event_def event_types event_bytes_def lei32_def rdi32_def sint_i32\<close>)

lemma event_loop_sent:
  assumes "bytes_read = length pre + length (concat (map event_bytes evs))" and "list_all event_wf evs"
  shows "map (dispatch_event bitmap target (pre @ concat (map event_bytes evs) @ post))
      (event_loop (pre @ concat (map event_bytes evs) @ post) bytes_read (length pre)) = map (callback_of bitmap target) evs"
  using assms
proof (induction evs arbitrary: pre)
  case Nil
  then show ?case by (simp add: event_loop.simps)
next
  case (Cons ev evs)
  let ?buf = "pre @ concat (map event_bytes (ev # evs)) @ post"
  have buf: "?buf = (pre @ event_bytes ev) @ concat (map event_bytes evs) @ post"
    "?buf = pre @ event_bytes ev @ concat (map event_bytes evs) @ post" by simp_all
  have len: "unat (rd32 (length pre + 4) ?buf) = length (event_bytes ev)"
    using length_event_bytes(2) [of ev]
    by (simp add: event_bytes_def unat_word_ariths unsigned_of_nat take_bit_nat_eq_self)
  have etype: "rd32 (length pre) ?buf = event_type ev" by (simp add: event_bytes_def)
  have "event_loop ?buf bytes_read (length pre) =
      (event_type ev, length pre) # event_loop ?buf bytes_read (length (pre @ event_bytes ev))"
    using Cons.prems(1) length_event_bytes(1) [of ev]
    by (subst event_loop.simps) (simp only: len etype Let_def, simp)
  moreover have "dispatch_event bitmap target ?buf (event_type ev, length pre) = callback_of bitmap target ev"
    unfolding buf(2) using Cons.prems(2) by (intro dispatch_sent) simp
  moreover have "map (dispatch_event bitmap target ?buf) (event_loop ?buf bytes_read (length (pre @ event_bytes ev))) =
      map (callback_of bitmap target) evs"
    unfolding buf(1) using Cons.prems by (intro Cons.IH) simp_all
  ultimately show ?case by (simp only: list.map)
qed

lemma handle_events_sent:
  assumes "list_all event_wf evs"
  shows "fst (evdi_handle_events bitmap ctx (concat (map event_bytes evs)) kcard) =
    map (callback_of bitmap (buffer_to_update ctx)) evs"
  using event_loop_sent [of "length (concat (map event_bytes evs))" "[]" evs bitmap "buffer_to_update ctx"] assms
  by (simp add: evdi_handle_events_def Let_def)

text \<open>
  C28: a read of the event file hands the client exactly the events the card sent, in order and with every field
  intact, whatever mixture of the five kinds they are.
\<close>

theorem events_arrive:
  assumes "list_all event_wf evs"
  shows "fst (evdi_handle_events bitmap ctx (concat (map event_bytes evs)) kcard) =
    map (callback_of bitmap (buffer_to_update ctx)) evs"
  by (rule handle_events_sent [OF assms])

theorem events_arrive_witness:
  "fst (evdi_handle_events (\<lambda>_ _. None) \<lparr>buffer_to_update = 1, frame_buffers = []\<rparr>
      (concat (map event_bytes [EvDpms 0, EvModeChanged 1920 1080 60 32 XRGB8888, EvUpdateReady])) card_new) =
    [DpmsChanged 0, ModeSelected \<lparr>em_width = 1920, em_height = 1080, em_refresh_rate = 60, em_bits_per_pixel = 32,
       em_pixel_format = XRGB8888\<rparr>, UpdateReady 1]"
  using events_arrive [of "[EvDpms 0, EvModeChanged 1920 1080 60 32 XRGB8888, EvUpdateReady]" "\<lambda>_ _. None"
      "\<lparr>buffer_to_update = 1, frame_buffers = []\<rparr>" card_new]
  by (simp add: i32_def)

section \<open>The registered buffer\<close>

definition abi_buffer :: "RegisteredBuffer \<Rightarrow> evdi_buffer" where
  "abi_buffer b = \<lparr>buf_id = BUFFER_ID, buf_ptr = reg_ptr b, buf_width = int (reg_width b), buf_height = int (reg_height b),
     buf_stride = int (reg_stride b)\<rparr>"

definition buffer_wf :: "Client \<Rightarrow> RegisteredBuffer \<Rightarrow> bool" where
  "buffer_wf d b \<longleftrightarrow> 0 < reg_width b \<and> 0 < reg_height b \<and> reg_stride b = reg_width b * 4 \<and> 0 < reg_ptr b
     \<and> length (store d (reg_ptr b)) = reg_stride b * reg_height b
     \<and> reg_ptr b + reg_stride b * reg_height b \<le> fresh_ptr d"

definition client_inv :: "Client \<Rightarrow> bool" where
  "client_inv d \<longleftrightarrow> 0 < fresh_ptr d \<and>
    (case dev_buffer d of
       None \<Rightarrow> frame_buffers (dev_context d) = [] \<and> dev_mode d = None
     | Some b \<Rightarrow> frame_buffers (dev_context d) = [abi_buffer b] \<and> buffer_wf d b \<and>
         (\<exists>m. dev_mode d = Some m \<and> mode_width m = reg_width b \<and> mode_height m = reg_height b))"

text \<open>What the callbacks leave alone.\<close>

definition memory_of :: "Client \<Rightarrow> _" where
  "memory_of d = (dev_context d, store d, fresh_ptr d, dev_buffer d, dev_mode d)"

lemma memory_callback: "memory_of (on_callback cb d) = memory_of d"
  by (cases cb) (simp_all add: memory_of_def push_event_def Let_def split: option.split)

lemma memory_callbacks: "memory_of (fold on_callback cbs d) = memory_of d"
  by (induction cbs arbitrary: d) (simp_all add: memory_callback)

lemma client_inv_memory: "memory_of d = memory_of d' \<Longrightarrow> client_inv d = client_inv d'"
  by (simp add: memory_of_def client_inv_def buffer_wf_def cong: option.case_cong)

lemma client_inv_unregister: "client_inv d \<Longrightarrow> client_inv ((unregister_buffer d)\<lparr>dev_mode := None\<rparr>)"
  by (auto simp: client_inv_def unregister_buffer_def evdi_unregister_buffer_def abi_buffer_def split: option.splits)

lemma unregister_none: "dev_buffer (unregister_buffer d) = None"
  by (simp add: unregister_buffer_def)

lemma client_inv_register:
  assumes "client_inv d" and "0 < mode_width mode" and "0 < mode_height mode"
  shows "client_inv (register_mode mode d)"
proof -
  let ?d = "(unregister_buffer d)\<lparr>dev_mode := None\<rparr>"
  have "client_inv ?d" by (rule client_inv_unregister [OF assms(1)])
  then have "0 < fresh_ptr ?d" "frame_buffers (dev_context ?d) = []" by (simp_all add: client_inv_def unregister_none)
  with \<open>client_inv ?d\<close> assms(2,3) show ?thesis
    by (simp add: register_mode_def Let_def) (simp add: client_inv_def buffer_wf_def abi_buffer_def evdi_register_buffer_def)
qed

lemma from_abi_positive: "from_abi m = Some mode \<Longrightarrow> 0 < mode_width mode \<and> 0 < mode_height mode"
  by (auto simp: from_abi_def positive_def unsigned32_def split: option.splits if_splits)

lemma client_inv_poll: "client_inv d \<Longrightarrow> client_inv (snd (poll_events bitmap input kcard d))"
proof (cases input)
  case (Some b)
  assume inv: "client_inv d"
  let ?d = "(fold on_callback (fst (evdi_handle_events bitmap (dev_context d) b kcard)) d)\<lparr>selected := None\<rparr>"
  have "memory_of ?d = memory_of d"
    using memory_callbacks [of "fst (evdi_handle_events bitmap (dev_context d) b kcard)" d] by (simp add: memory_of_def)
  then have "client_inv ?d" using inv client_inv_memory by blast
  then show ?thesis
    using Some
    by (auto simp: poll_events_def Let_def from_abi_positive intro!: client_inv_register split: option.split prod.split bind_splits)
qed (simp add: poll_events_def)

lemma grab_store:
  assumes "client_inv d" and "evdi_grab_pixels view (dev_context d) kcard (store d) = (rs, kcard', mem)"
  shows "client_inv (d\<lparr>store := mem\<rparr>)"
proof -
  have "length (mem p) = length (store d p)" for p
  proof (cases "find_buffer (buffer_to_update (dev_context d)) (dev_context d)")
    case (Some dest)
    then show ?thesis
      using assms(2) length_grabpix [of view "grab_request dest (store d (buf_ptr dest))" kcard]
      by (auto simp: evdi_grab_pixels_def Let_def grab_request_def split: prod.splits sum.splits)
  qed (use assms(2) in \<open>simp add: evdi_grab_pixels_def\<close>)
  with assms(1) show ?thesis by (simp add: client_inv_def buffer_wf_def cong: option.case_cong)
qed

lemma client_inv_grab: "client_inv d \<Longrightarrow> client_inv (snd (snd (grab_frame view kcard d)))"
  using grab_store by (auto simp: grab_frame_def Let_def split: prod.split)

lemma client_inv_ready: "client_inv (d\<lparr>ready_buffer := r\<rparr>) = client_inv d"
  by (rule client_inv_memory) (simp add: memory_of_def)

lemma client_inv_await: "client_inv d \<Longrightarrow> client_inv (snd (snd (await_ready bitmap script kcard d)))"
proof (induction bitmap script kcard d rule: await_ready.induct)
  case (2 bitmap input kcard' view script kcard d)
  then show ?case
    using client_inv_poll [of d bitmap input kcard']
    by (cases "poll_events bitmap input kcard' d") (auto simp: client_inv_ready)
qed simp

lemma client_inv_next_frame:
  assumes "client_inv d"
  shows "client_inv (snd (snd (next_frame bitmap input script view kcard d)))"
proof -
  obtain kcard1 d1 where poll: "poll_events bitmap input kcard d = (kcard1, d1)" by fastforce
  then have "client_inv d1" using client_inv_poll [OF assms, of bitmap input kcard] by simp
  let ?d = "d1\<lparr>ready_buffer := None, dev_context := (dev_context d1)\<lparr>buffer_to_update := BUFFER_ID\<rparr>\<rparr>"
  have "client_inv ?d" using \<open>client_inv d1\<close> by (simp add: client_inv_def buffer_wf_def cong: option.case_cong)
  then show ?thesis
    using \<open>client_inv d1\<close> poll client_inv_grab client_inv_await [of ?d bitmap script kcard1]
    by (auto simp: next_frame_def evdi_request_update_def Let_def split: prod.split option.split)
qed

inductive client_reach :: "nat \<Rightarrow> Client \<Rightarrow> bool" for p where
  opened: "client_reach p (client_new p)"
| polled: "client_reach p d \<Longrightarrow> client_reach p (snd (poll_events bitmap input kcard d))"
| framed: "client_reach p d \<Longrightarrow> client_reach p (snd (snd (next_frame bitmap input script view kcard d)))"
| taken: "client_reach p d \<Longrightarrow> client_reach p (snd (take_events d))"

lemma client_inv_new: "0 < p \<Longrightarrow> client_inv (client_new p)"
  by (simp add: client_inv_def client_new_def)

lemma client_reach_inv: "client_reach p d \<Longrightarrow> 0 < p \<Longrightarrow> client_inv d"
proof (induction rule: client_reach.induct)
  case (taken d)
  then have "memory_of (snd (take_events d)) = memory_of d" by (simp add: take_events_def memory_of_def)
  with taken show ?case using client_inv_memory by blast
qed (simp_all add: client_inv_poll client_inv_next_frame client_inv_new)

lemma grab_request_ok:
  assumes "buffer_wf d b" and "fresh_ptr d < 2 ^ 64"
  shows "client_ok (grab_request (abi_buffer b) (store d (reg_ptr b)))"
proof -
  have "0 < reg_stride b" "0 < reg_ptr b" "length (store d (reg_ptr b)) = reg_stride b * reg_height b"
    "reg_ptr b + reg_stride b * reg_height b < 2 ^ 64"
    using assms by (auto simp: buffer_wf_def)
  then show ?thesis
    by (simp add: client_ok_def grab_request_def abi_buffer_def MAX_DIRTS_def mult.commute [of "reg_height b"])
qed

text \<open>
  C27: in every history of reads, mode changes and frames, the library's one registered buffer is the device's own
  live allocation of stride times height bytes while it has a mode, and nothing is registered while it has none;
  so every grab the device asks for is a valid request that stays inside that allocation.
\<close>

theorem registered_buffer_live:
  assumes "client_reach p d" and "0 < p" and "fresh_ptr d < 2 ^ 64"
  shows "case dev_buffer d of
      None \<Rightarrow> frame_buffers (dev_context d) = [] \<and> dev_mode d = None
    | Some b \<Rightarrow> find_buffer BUFFER_ID (dev_context d) = Some (abi_buffer b) \<and> frame_buffers (dev_context d) = [abi_buffer b] \<and>
        length (store d (reg_ptr b)) = reg_stride b * reg_height b \<and>
        client_ok (grab_request (abi_buffer b) (store d (reg_ptr b)))"
  using client_reach_inv [OF assms(1,2)] grab_request_ok [OF _ assms(3)]
  by (auto simp: client_inv_def find_buffer_def abi_buffer_def buffer_wf_def split: option.splits)

text \<open>A device that has read one mode change.\<close>

definition demo_device :: Client where
  "demo_device = snd (poll_events (\<lambda>_ _. None) (Some (event_bytes (EvModeChanged 2 2 60 32 XRGB8888))) card_new (client_new 4096))"

lemma demo_device_memory:
  "dev_buffer demo_device = Some \<lparr>reg_ptr = 4096, reg_width = 2, reg_height = 2, reg_stride = 8\<rparr>"
  "fresh_ptr demo_device = 4112" "store demo_device 4096 = replicate 16 0"
proof -
  have "fst (evdi_handle_events (\<lambda>_ _. None) ctx (event_bytes (EvModeChanged 2 2 60 32 XRGB8888)) card_new) =
      [ModeSelected \<lparr>em_width = 2, em_height = 2, em_refresh_rate = 60, em_bits_per_pixel = 32, em_pixel_format = XRGB8888\<rparr>]" for ctx
    using handle_events_sent [of "[EvModeChanged 2 2 60 32 XRGB8888]" "\<lambda>_ _. None" ctx card_new] by (simp add: i32_def)
  then show "dev_buffer demo_device = Some \<lparr>reg_ptr = 4096, reg_width = 2, reg_height = 2, reg_stride = 8\<rparr>"
    "fresh_ptr demo_device = 4112" "store demo_device 4096 = replicate 16 0"
    by (simp_all add: demo_device_def poll_events_def split_beta Let_def push_event_def client_new_def from_abi_def
        positive_def unsigned32_def register_mode_def unregister_buffer_def)
qed

lemma demo_device_reach: "client_reach 4096 demo_device"
  unfolding demo_device_def by (rule client_reach.polled [OF client_reach.opened])

theorem registered_buffer_live_witness:
  "find_buffer BUFFER_ID (dev_context demo_device) =
      Some (abi_buffer \<lparr>reg_ptr = 4096, reg_width = 2, reg_height = 2, reg_stride = 8\<rparr>) \<and>
    client_ok (grab_request (abi_buffer \<lparr>reg_ptr = 4096, reg_width = 2, reg_height = 2, reg_stride = 8\<rparr>) (replicate 16 0))"
  using registered_buffer_live [OF demo_device_reach] by (simp add: demo_device_memory)

section \<open>Frames\<close>

lemma rect_bytes_clip:
  assumes "within w h r" and "w \<le> 65535" and "h \<le> 65535"
  shows "clip_rect (rect_bytes r) = r"
proof -
  obtain x1 y1 x2 y2 where r: "r = (x1, y1, x2, y2)" by (cases r)
  then have "0 \<le> x1" "x1 < 65536" "0 \<le> y1" "y1 < 65536" "0 \<le> x2" "x2 < 65536" "0 \<le> y2" "y2 < 65536" using assms by auto
  then show ?thesis by (simp add: r uint_of_int_u16)
qed

lemma length_rect_bytes [simp]: "length (rect_bytes r) = 8"
  by (cases r) simp

lemma chunks_rect_bytes: "take (length rs) (chunks 8 (concat (map rect_bytes rs) @ post)) = map rect_bytes rs"
proof (induction rs)
  case (Cons r rs)
  have "rect_bytes r \<noteq> []" using length_rect_bytes [of r] by fastforce
  with Cons show ?case by (simp add: chunks_step)
qed simp

lemma reported_rects:
  assumes "write_rects rs (Some buf) = Ok out" and "\<forall>r \<in> set rs. within w h r" and "w \<le> 65535" and "h \<le> 65535"
  shows "map clip_rect (take (length rs) (chunks 8 (the out))) = rs"
proof -
  have "the out = concat (map rect_bytes rs) @ drop (length (concat (map rect_bytes rs))) buf"
    using assms(1) by (auto simp: write_rects_def put_def split: if_splits)
  then have "map clip_rect (take (length rs) (chunks 8 (the out))) = map clip_rect (map rect_bytes rs)"
    by (simp only: chunks_rect_bytes)
  also have "\<dots> = rs" using rect_bytes_clip [OF _ assms(3,4)] assms(2) by (simp add: map_idI)
  finally show ?thesis .
qed

text \<open>
  A grabbed frame is the picture scanned out, and every pixel in which it differs from the previous frame lies
  in one of the rectangles reported with it.
\<close>

lemma grab_frame_shows:
  assumes reach: "client_reach p d" "0 < p" "fresh_ptr d < 2 ^ 64"
    and b: "dev_buffer d = Some b" "buffer_to_update (dev_context d) = BUFFER_ID"
    and shown: "displayed fbs vmap (grab_request (abi_buffer b) (store d (reg_ptr b))) (c, view, store d (reg_ptr b))"
    and ids: "inj_on fb_id fbs" and s: "prepared_scanout c = Some s"
    and small: "sint (fb_width (framebuffer s)) \<le> 65535" "sint (fb_height (framebuffer s)) \<le> 65535"
  defines "a \<equiv> grab_request (abi_buffer b) (store d (reg_ptr b))"
  shows "\<exists>f rs c' d'. grab_frame view c d = (Some (f, rs), c', d') \<and> fv_width f = reg_width b \<and> fv_height f = reg_height b \<and>
    fv_stride f = reg_stride b \<and> length (fv_pixels f) = reg_stride b * reg_height b \<and>
    (\<forall>x y. in_bounds s a x y \<longrightarrow> pixel (reg_stride b) x y (fv_pixels f) = color_bytes (color c) (scanned view s x y)) \<and>
    (\<forall>x y. x < reg_width b \<longrightarrow> pixel (reg_stride b) x y (fv_pixels f) \<noteq> pixel (reg_stride b) x y (store d (reg_ptr b)) \<longrightarrow>
      (\<exists>r \<in> set rs. inside (int x) (int y) r))"
proof -
  have inv: "client_inv d" by (rule client_reach_inv [OF reach(1,2)])
  then have wf: "buffer_wf d b" and found: "find_buffer BUFFER_ID (dev_context d) = Some (abi_buffer b)"
    using b by (simp_all add: client_inv_def find_buffer_def abi_buffer_def)
  have ok: "client_ok a" unfolding a_def by (rule grab_request_ok [OF wf reach(3)])
  have stride: "client_stride a = reg_stride b" and buf: "g_buffer a = store d (reg_ptr b)"
    and rects0: "g_rects a = Some (replicate (MAX_DIRTS * 8) 0)"
    by (simp_all add: a_def grab_request_def abi_buffer_def)
  have dinv: "display_inv fbs vmap a (c, view, g_buffer a)"
    using displayed_inv [OF shown] ok ids by (simp add: a_def buf [unfolded a_def])
  then have map: "mapping_ok view s" using s by (simp add: display_inv_def)
  let ?rs = "grab_rects s a (damage (painter c))"
  obtain out dst where g: "grabpix view a c = (Ok (), snd (take_damage c), a\<lparr>g_rects := out, g_num_rects := int (length ?rs), g_buffer := dst\<rparr>)"
    "write_rects ?rs (g_rects a) = Ok out" "length dst = length (g_buffer a)"
    and px: "\<forall>x y. x * 4 + 4 \<le> client_stride a \<longrightarrow> pixel (client_stride a) x y dst =
        (if \<exists>r \<in> set ?rs. inside (int x) (int y) r
         then color_bytes (color c) (scanned view s x y) else pixel (client_stride a) x y (g_buffer a))"
    using grabpix_pixels [OF s ok map] by blast
  have up: "\<forall>x y. in_bounds s a x y \<longrightarrow> pixel (client_stride a) x y dst = color_bytes (color c) (scanned view s x y)"
    using grab_updates [OF dinv ok s] g(1) by auto
  have "max_w s a \<le> 65535" "max_h s a \<le> 65535" using small by (auto simp: max_w_def max_h_def)
  then have rs: "map clip_rect (take (length ?rs) (chunks 8 (the out))) = ?rs"
    using reported_rects [OF g(2) [unfolded rects0]] grab_rects_within max_nonneg [OF ok map] by blast
  have "length ?rs \<le> MAX_DIRTS"
    using grab_rects_length [of s a "damage (painter c)"] by (simp add: MAX_DAMAGE_RECTS_def MAX_DIRTS_def)
  then have "grab_frame view c d = (Some (\<lparr>fv_pixels = dst, fv_width = reg_width b, fv_height = reg_height b, fv_stride = reg_stride b\<rparr>, ?rs),
      snd (take_damage c), d\<lparr>store := (store d)(reg_ptr b := dst)\<rparr>)"
    using g(1) b found rs
    by (simp add: grab_frame_def evdi_grab_pixels_def Let_def abi_buffer_def a_def [symmetric])
       (simp add: a_def abi_buffer_def)
  moreover have "\<exists>r \<in> set ?rs. inside (int x) (int y) r"
    if "x < reg_width b" "pixel (reg_stride b) x y dst \<noteq> pixel (reg_stride b) x y (store d (reg_ptr b))" for x y
    using px that wf by (auto simp: stride buf buffer_wf_def split: if_splits)
  ultimately show ?thesis using up g(3) wf by (simp add: stride buf buffer_wf_def)
qed

end
